(* ===== verification/Ndn_Prelude.thy ===== *)
theory Ndn_Prelude
  imports Main "HOL-Library.Word" "HOL-Library.AList"
begin

text \<open>
  Shared vocabulary of the development: Rust's machine integers and byte buffers, the
  standard-library functions on them that ndn-rs uses (\<open>to_be_bytes\<close>, \<open>from_be_bytes\<close>,
  checked and saturating arithmetic, slice access), and the generic lemmas on lists and
  words that every codec proof needs. A \<open>u8\<close>, \<open>u16\<close>, \<open>u32\<close> or \<open>u64\<close> is a word of that
  width; a \<open>usize\<close> (a 64-bit target) is a \<open>nat\<close> with its bound written out where the
  code checks it. Fallible code returns a sum, \<open>Inl\<close> carrying the error.
\<close>

unbundle bit_operations_syntax

type_synonym u8 = "8 word"
type_synonym u16 = "16 word"
type_synonym u32 = "32 word"
type_synonym u64 = "64 word"
type_synonym bytes = "u8 list"

named_theorems codec_simps "rewrite rules that evaluate an encoder against its decoder"
named_theorems wf_intros "introduction rules for the well-formedness invariants"

section \<open>Big-endian byte strings\<close>

definition be_nat :: "bytes \<Rightarrow> nat" where
  "be_nat bs = foldl (\<lambda>acc b. acc * 256 + unat b) 0 bs"

fun nat_be :: "nat \<Rightarrow> nat \<Rightarrow> bytes" where
  "nat_be 0 v = []"
| "nat_be (Suc n) v = nat_be n (v div 256) @ [word_of_nat (v mod 256)]"

text \<open>\<open>uN::to_be_bytes\<close> and \<open>uN::from_be_bytes\<close>.\<close>

definition to_be_bytes :: "'a::len word \<Rightarrow> bytes" where
  "to_be_bytes w = nat_be (LENGTH('a) div 8) (unat w)"

definition from_be_bytes :: "bytes \<Rightarrow> 'a::len word" where
  "from_be_bytes bs = word_of_nat (be_nat bs)"

text \<open>The accumulation loop \<open>for &b in bytes { val = (val << 8) | b }\<close>.\<close>

definition be_accumulate :: "u64 \<Rightarrow> bytes \<Rightarrow> u64" where
  "be_accumulate val bs = foldl (\<lambda>val b. (push_bit 8 val) OR ucast b) val bs"

lemma nat_be_numeral [simp]:
  "nat_be (numeral k) v = nat_be (pred_numeral k) (v div 256) @ [word_of_nat (v mod 256)]"
  unfolding numeral_eq_Suc [of k] nat_be.simps(2) by (rule refl)

lemma nat_be_One [simp]: "nat_be 1 v = [word_of_nat (v mod 256)]"
  by (simp only: One_nat_def nat_be.simps) simp

lemma length_nat_be [simp]: "length (nat_be n v) = n"
  by (induction n arbitrary: v) auto

lemma unat_u8_lt: "unat (b :: u8) < 256"
  using unsigned_less [where ?'a = nat and w = b] by simp

lemma be_nat_Nil [simp]: "be_nat [] = 0"
  by (simp add: be_nat_def)

lemma be_nat_snoc [simp]: "be_nat (bs @ [b]) = be_nat bs * 256 + unat b"
  by (simp add: be_nat_def)

lemma be_nat_Cons: "be_nat (b # bs) = unat b * 256 ^ length bs + be_nat bs"
proof (induction bs rule: rev_induct)
  case Nil
  show ?case by (simp add: be_nat_def)
next
  case (snoc x xs)
  have "be_nat (b # xs @ [x]) = be_nat (b # xs) * 256 + unat x"
    using be_nat_snoc [of "b # xs" x] by simp
  with snoc show ?case by (simp add: algebra_simps)
qed

lemma be_nat_lt: "be_nat bs < 256 ^ length bs"
proof (induction bs rule: rev_induct)
  case Nil
  show ?case by simp
next
  case (snoc x xs)
  have "be_nat xs * 256 + unat x < (be_nat xs + 1) * 256"
    using unat_u8_lt [of x] by simp
  also have "\<dots> \<le> 256 ^ length xs * 256"
    using snoc by (intro mult_right_mono) auto
  finally show ?case by (simp add: mult.commute)
qed

lemma be_nat_nat_be: "be_nat (nat_be n v) = v mod 256 ^ n"
proof (induction n arbitrary: v)
  case 0
  show ?case by simp
next
  case (Suc n)
  have "unat (word_of_nat (v mod 256) :: u8) = v mod 256"
    by (simp add: unat_of_nat)
  moreover have "v mod 256 ^ Suc n = 256 * (v div 256 mod 256 ^ n) + v mod 256"
    using mod_mult2_eq [of v 256 "256 ^ n"] by simp
  ultimately show ?case
    using Suc by simp
qed

lemma nat_be_be_nat: "length bs = n \<Longrightarrow> nat_be n (be_nat bs) = bs"
proof (induction n arbitrary: bs)
  case 0
  then show ?case by simp
next
  case (Suc n)
  then obtain xs x where bs: "bs = xs @ [x]"
    by (cases bs rule: rev_cases) auto
  have "word_of_nat ((be_nat xs * 256 + unat x) mod 256) = x"
    using unat_u8_lt [of x] by simp
  moreover have "(be_nat xs * 256 + unat x) div 256 = be_nat xs"
    using unat_u8_lt [of x] by simp
  ultimately show ?case
    using Suc bs by simp
qed

lemma length_to_be_bytes [simp]: "length (to_be_bytes (w :: 'a::len word)) = LENGTH('a) div 8"
  by (simp add: to_be_bytes_def)

lemma from_to_be_bytes:
  assumes "LENGTH('a::len) div 8 * 8 = LENGTH('a)"
  shows "from_be_bytes (to_be_bytes (w :: 'a word)) = w"
proof -
  have "(256::nat) ^ (LENGTH('a) div 8) = 2 ^ LENGTH('a)"
    using power_mult [of "2 :: nat" 8 "LENGTH('a) div 8"] assms by (simp add: mult.commute)
  then show ?thesis
    by (simp add: from_be_bytes_def to_be_bytes_def be_nat_nat_be)
qed

lemma to_from_be_bytes:
  assumes "LENGTH('a::len) div 8 * 8 = LENGTH('a)" and "length bs = LENGTH('a) div 8"
  shows "to_be_bytes (from_be_bytes bs :: 'a word) = bs"
proof -
  have "(256::nat) ^ (LENGTH('a) div 8) = 2 ^ LENGTH('a)"
    using power_mult [of "2 :: nat" 8 "LENGTH('a) div 8"] assms(1) by (simp add: mult.commute)
  with be_nat_lt [of bs] assms(2) have "be_nat bs < 2 ^ LENGTH('a)"
    by simp
  with assms(2) show ?thesis
    by (simp add: from_be_bytes_def to_be_bytes_def unat_of_nat nat_be_be_nat)
qed

lemmas be_bytes_roundtrip [codec_simps] =
  from_to_be_bytes [where ?'a = 16, simplified] from_to_be_bytes [where ?'a = 32, simplified]
  from_to_be_bytes [where ?'a = 64, simplified]

lemma push_bit_or_byte: "push_bit 8 (v :: u64) OR ucast (b :: u8) = v * 256 + ucast b"
proof -
  have "push_bit 8 v + ucast b = push_bit 8 v OR ucast b"
    by (rule disjunctive_add) (auto simp: bit_simps dest: bit_imp_le_length)
  then show ?thesis
    by (simp add: push_bit_eq_mult)
qed

lemma be_accumulate_eq: "be_accumulate (word_of_nat n) bs
    = word_of_nat (foldl (\<lambda>acc b. acc * 256 + unat b) n bs)"
proof (induction bs arbitrary: n)
  case Nil
  show ?case by (simp add: be_accumulate_def)
next
  case (Cons b bs)
  have "push_bit 8 (word_of_nat n :: u64) OR ucast b = word_of_nat (n * 256 + unat b)"
    by (simp add: push_bit_or_byte)
  with Cons [of "n * 256 + unat b"] show ?case
    by (simp add: be_accumulate_def)
qed

lemma be_accumulate_0: "be_accumulate 0 bs = from_be_bytes bs"
  using be_accumulate_eq [of 0 bs] by (simp add: be_nat_def from_be_bytes_def)

section \<open>Rust arithmetic and slices\<close>

definition checked_add :: "nat \<Rightarrow> nat \<Rightarrow> nat option" where
  "checked_add a b = (if a + b < 2 ^ 64 then Some (a + b) else None)"

definition checked_sub :: "u64 \<Rightarrow> u64 \<Rightarrow> u64 option" where
  "checked_sub a b = (if b \<le> a then Some (a - b) else None)"

definition saturating_add :: "u64 \<Rightarrow> u64 \<Rightarrow> u64" where
  "saturating_add a b = (if unat a + unat b < 2 ^ 64 then a + b else - 1)"

definition saturating_sub :: "'a::len word \<Rightarrow> 'a word \<Rightarrow> 'a word" where
  "saturating_sub a b = (if a < b then 0 else a - b)"

definition saturating_mul :: "u64 \<Rightarrow> u64 \<Rightarrow> u64" where
  "saturating_mul a b = (if unat a * unat b < 2 ^ 64 then a * b else - 1)"

text \<open>\<open>slice.get(i..j)\<close> and \<open>slice.get(i..)\<close>: \<open>None\<close> out of range.\<close>

definition get_range :: "'a list \<Rightarrow> nat \<Rightarrow> nat \<Rightarrow> 'a list option" where
  "get_range xs i j = (if i \<le> j \<and> j \<le> length xs then Some (take (j - i) (drop i xs)) else None)"

definition get_from :: "'a list \<Rightarrow> nat \<Rightarrow> 'a list option" where
  "get_from xs i = (if i \<le> length xs then Some (drop i xs) else None)"

text \<open>\<open>Iterator::position\<close>.\<close>

fun position :: "('a \<Rightarrow> bool) \<Rightarrow> 'a list \<Rightarrow> nat option" where
  "position P [] = None"
| "position P (x # xs) = (if P x then Some 0 else map_option Suc (position P xs))"

lemma get_range_append [simp]:
  "get_range (xs @ ys @ zs) (length xs) (length xs + length ys) = Some ys"
  by (simp add: get_range_def)

lemma get_from_append [simp]: "get_from (xs @ ys) (length xs) = Some ys"
  by (simp add: get_from_def)

lemma unat_saturating_add:
  "unat (saturating_add a b) = min (unat a + unat b) (2 ^ 64 - 1)"
proof (cases "unat a + unat b < 2 ^ 64")
  case True
  then show ?thesis by (simp add: saturating_add_def unat_word_ariths)
next
  case False
  then show ?thesis by (simp add: saturating_add_def unsigned_minus_1_eq_mask mask_eq_exp_minus_1)
qed

lemma unat_saturating_sub:
  "unat (saturating_sub a b) = unat a - unat b"
  by (auto simp: saturating_sub_def unat_sub_if' word_less_nat_alt)

lemma unat_le_max64: "unat (w :: u64) < 18446744073709551616"
  using unsigned_less [where ?'a = nat and w = w] by simp

section \<open>Generic lemmas\<close>

lemma unat_ucast_mod: "unat (ucast (w :: 'a::len word) :: 'b::len word) = unat w mod 2 ^ LENGTH('b)"
  by (simp add: unsigned_ucast_eq take_bit_eq_mod)

lemma list2_of_length: "length xs = 2 \<Longrightarrow> \<exists>a b. xs = [a, b]"
  by (auto simp: numeral_eq_Suc length_Suc_conv)

lemma list4_of_length: "length xs = 4 \<Longrightarrow> \<exists>a b c d. xs = [a, b, c, d]"
  by (auto simp: numeral_eq_Suc length_Suc_conv)

lemma list8_of_length:
  "length xs = 8 \<Longrightarrow> \<exists>a b c d e f g h. xs = [a, b, c, d, e, f, g, h]"
  by (auto simp: numeral_eq_Suc length_Suc_conv)

lemma ucast_u16_inverse: "(v :: u64) < 0x10000 \<Longrightarrow> ucast (ucast v :: u16) = v"
  by (rule word_unat_eq_iff [THEN iffD2]) (simp add: unat_ucast_mod word_less_nat_alt)

lemma ucast_u32_inverse: "(v :: u64) < 0x100000000 \<Longrightarrow> ucast (ucast v :: u32) = v"
  by (rule word_unat_eq_iff [THEN iffD2]) (simp add: unat_ucast_mod word_less_nat_alt)

lemma ucast_u16_up: "ucast (ucast (v :: u16) :: u64) = v" "(ucast v :: u64) < 0x10000"
    "(ucast v :: u64) < 253 \<longleftrightarrow> v < 253"
  using unsigned_less [where ?'a = nat and w = v]
  by (auto simp: word_unat_eq_iff unat_ucast_mod word_less_nat_alt)

lemma ucast_u32_up: "ucast (ucast (v :: u32) :: u64) = v" "(ucast v :: u64) < 0x100000000"
    "(ucast v :: u64) < 0x10000 \<longleftrightarrow> v < 0x10000" "(ucast v :: u64) < 253 \<longleftrightarrow> v < 253"
  using unsigned_less [where ?'a = nat and w = v]
  by (auto simp: word_unat_eq_iff unat_ucast_mod word_less_nat_alt)

lemma long_list_split:
  "n \<le> length xs \<Longrightarrow> \<exists>ys zs. xs = ys @ zs \<and> length ys = n"
  by (rule exI [of _ "take n xs"], rule exI [of _ "drop n xs"]) simp

lemma drop_append_shift: "drop p xs = ys @ zs \<Longrightarrow> drop (p + length ys) xs = zs"
  by (metis append_eq_conv_conj drop_drop add.commute)

lemma word_of_nat_less63: "n < 2 ^ 63 \<Longrightarrow> unat (word_of_nat n :: u64) = n"
  by (simp add: unat_of_nat)

lemma drop_nat_be: "k \<le> n \<Longrightarrow> drop (n - k) (nat_be n v) = nat_be k v"
proof (induction n arbitrary: k v)
  case 0
  then show ?case by simp
next
  case (Suc n)
  then show ?case
    by (cases k) (simp_all add: Suc_diff_le)
qed

lemma nat_be_mod: "nat_be n (v mod 256 ^ n) = nat_be n v"
  by (metis be_nat_nat_be length_nat_be nat_be_be_nat)

lemma be_nat_zero: "be_nat (0 # bs) = be_nat bs"
  by (simp add: be_nat_Cons)

lemma position_None: "position P xs = None \<longleftrightarrow> (\<forall>x \<in> set xs. \<not> P x)"
  by (induction xs) auto

lemma position_Some: "position P xs = Some i \<Longrightarrow> i < length xs \<and> P (xs ! i)"
proof (induction xs arbitrary: i)
  case (Cons x xs)
  then show ?case by (cases i) (auto split: if_splits)
qed simp

section \<open>Text\<close>

text \<open>Text is its UTF-8 bytes, as \<open>str::as_bytes\<close> gives them; \<open>ascii\<close> turns a literal of the
  source into them. \<open>dec_digits\<close> is the digit string of an integer's \<open>Display\<close>.\<close>

definition ascii :: "string \<Rightarrow> bytes" where
  "ascii s = map (\<lambda>c. word_of_nat (of_char c)) s"

fun dec_digits :: "nat \<Rightarrow> nat list" where
  "dec_digits n = (if n < 10 then [n] else dec_digits (n div 10) @ [n mod 10])"

declare dec_digits.simps [simp del]

definition show_nat :: "nat \<Rightarrow> string" where
  "show_nat n = map (\<lambda>d. char_of (48 + d)) (dec_digits n)"

lemma ascii_simps [simp]: "ascii [] = []" "ascii (c # cs) = word_of_nat (of_char c) # ascii cs"
  by (simp_all add: ascii_def)

lemma dec_digits_range: "d \<in> set (dec_digits n) \<Longrightarrow> d < 10"
proof (induction n rule: dec_digits.induct)
  case (1 n)
  then show ?case
    by (cases "n < 10") (auto simp: dec_digits.simps [of n])
qed

lemma dec_digits_nonempty [simp]: "dec_digits n \<noteq> []"
  by (simp add: dec_digits.simps [of n])

lemma dec_digits_value: "foldl (\<lambda>acc d. acc * 10 + d) 0 (dec_digits n) = n"
proof (induction n rule: dec_digits.induct)
  case (1 n)
  then show ?case
    by (cases "n < 10") (simp_all add: dec_digits.simps [of n])
qed

end
