(* ===== verification/Tlv_Codec.thy ===== *)
theory Tlv_Codec
  imports Ndn_Prelude
begin

text \<open>
  The crate ndn-tlv (\<open>src/crates/core/ndn-tlv/src\<close>): the VAR-NUMBER integer code, the
  cursor-style \<open>TlvReader\<close>, the growable \<open>TlvWriter\<close>, and the loop shape
  \<open>while !reader.is_empty() { let (t, v) = reader.read_tlv()?; ... }\<close> in which every
  decoder of the repository is written. The lemmas show that the code is a canonical,
  prefix-free code (a number and an element have exactly one encoding and the reader
  accepts exactly that), that no reader operation leaves the buffer, and that the loop
  visits the elements a writer wrote, in order, and terminates.
\<close>

section \<open>VAR-NUMBER\<close>

datatype tlv_error =
    UnexpectedEof
  | UnknownCriticalType u64
  | InvalidLength u64 nat nat
  | InvalidUtf8 u64
  | MissingField string
  | DuplicateField u64
  | NonMinimalVarNumber
  | TypeOutOfRange

definition read_varu64 :: "bytes \<Rightarrow> tlv_error + u64 \<times> nat" where
  "read_varu64 buf = (case buf of
     [] \<Rightarrow> Inl UnexpectedEof
   | first # _ \<Rightarrow>
       if first \<le> 252 then Inr (ucast first, 1)
       else if first = 253 then
         if length buf < 3 then Inl UnexpectedEof
         else let v = (from_be_bytes [buf ! 1, buf ! 2] :: u16) in
           if v < 253 then Inl NonMinimalVarNumber else Inr (ucast v, 3)
       else if first = 254 then
         if length buf < 5 then Inl UnexpectedEof
         else let v = (from_be_bytes [buf ! 1, buf ! 2, buf ! 3, buf ! 4] :: u32) in
           if v < 0x10000 then Inl NonMinimalVarNumber else Inr (ucast v, 5)
       else
         if length buf < 9 then Inl UnexpectedEof
         else let v = (from_be_bytes [buf ! 1, buf ! 2, buf ! 3, buf ! 4,
                                      buf ! 5, buf ! 6, buf ! 7, buf ! 8] :: u64) in
           if v < 0x100000000 then Inl NonMinimalVarNumber else Inr (v, 9))"

text \<open>\<open>buf[i..i + n].copy_from_slice(bs)\<close>\<close>

definition copy_from_slice :: "bytes \<Rightarrow> nat \<Rightarrow> bytes \<Rightarrow> bytes" where
  "copy_from_slice buf i bs = take i buf @ bs @ drop (i + length bs) buf"

definition write_varu64 :: "bytes \<Rightarrow> u64 \<Rightarrow> bytes \<times> nat" where
  "write_varu64 buf v =
     (if v < 253 then (copy_from_slice buf 0 [ucast v], 1)
      else if v < 0x10000 then
        (copy_from_slice (copy_from_slice buf 0 [0xFD]) 1 (to_be_bytes (ucast v :: u16)), 3)
      else if v < 0x100000000 then
        (copy_from_slice (copy_from_slice buf 0 [0xFE]) 1 (to_be_bytes (ucast v :: u32)), 5)
      else (copy_from_slice (copy_from_slice buf 0 [0xFF]) 1 (to_be_bytes v), 9))"

definition varu64_size :: "u64 \<Rightarrow> nat" where
  "varu64_size v =
     (if v < 253 then 1 else if v < 0x10000 then 3 else if v < 0x100000000 then 5 else 9)"

text \<open>The encoding as a byte string: what \<open>write_varu64\<close> leaves in the first bytes of its
  buffer (\<open>take_write_varu64\<close>), and the reference the reader is compared with.\<close>

definition varu64_enc :: "u64 \<Rightarrow> bytes" where
  "varu64_enc v =
     (if v < 253 then [ucast v]
      else if v < 0x10000 then 0xFD # to_be_bytes (ucast v :: u16)
      else if v < 0x100000000 then 0xFE # to_be_bytes (ucast v :: u32)
      else 0xFF # to_be_bytes v)"

section \<open>The reader\<close>

record tlv_reader =
  rbuf :: bytes
  rpos :: nat

definition reader_new :: "bytes \<Rightarrow> tlv_reader" where
  "reader_new buf = \<lparr>rbuf = buf, rpos = 0\<rparr>"

definition reader_remaining :: "tlv_reader \<Rightarrow> nat" where
  "reader_remaining r = length (rbuf r) - rpos r"

definition reader_is_empty :: "tlv_reader \<Rightarrow> bool" where
  "reader_is_empty r \<longleftrightarrow> length (rbuf r) \<le> rpos r"

definition reader_position :: "tlv_reader \<Rightarrow> nat" where
  "reader_position r = rpos r"

definition read_type :: "tlv_reader \<Rightarrow> (tlv_error + u64) \<times> tlv_reader" where
  "read_type r = (case read_varu64 (drop (rpos r) (rbuf r)) of
     Inl e \<Rightarrow> (Inl e, r)
   | Inr (v, n) \<Rightarrow>
       if n = 9 \<or> v > 0xFFFFFFFF then (Inl TypeOutOfRange, r)
       else (Inr v, r\<lparr>rpos := rpos r + n\<rparr>))"

definition read_length :: "tlv_reader \<Rightarrow> (tlv_error + nat) \<times> tlv_reader" where
  "read_length r = (case read_varu64 (drop (rpos r) (rbuf r)) of
     Inl e \<Rightarrow> (Inl e, r)
   | Inr (v, n) \<Rightarrow>
       let r' = r\<lparr>rpos := rpos r + n\<rparr> in
       if v > word_of_nat (reader_remaining r') then (Inl UnexpectedEof, r')
       else (Inr (unat v), r'))"

definition read_bytes :: "tlv_reader \<Rightarrow> nat \<Rightarrow> (tlv_error + bytes) \<times> tlv_reader" where
  "read_bytes r len = (case checked_add (rpos r) len of
     None \<Rightarrow> (Inl UnexpectedEof, r)
   | Some e \<Rightarrow>
       if e > length (rbuf r) then (Inl UnexpectedEof, r)
       else (Inr (take (e - rpos r) (drop (rpos r) (rbuf r))), r\<lparr>rpos := e\<rparr>))"

definition read_tlv :: "tlv_reader \<Rightarrow> (tlv_error + u64 \<times> bytes) \<times> tlv_reader" where
  "read_tlv r = (case read_type r of
     (Inl e, r1) \<Rightarrow> (Inl e, r1)
   | (Inr typ, r1) \<Rightarrow> (case read_length r1 of
       (Inl e, r2) \<Rightarrow> (Inl e, r2)
     | (Inr len, r2) \<Rightarrow> (case read_bytes r2 len of
         (Inl e, r3) \<Rightarrow> (Inl e, r3)
       | (Inr val, r3) \<Rightarrow> (Inr (typ, val), r3))))"

definition peek_type :: "tlv_reader \<Rightarrow> tlv_error + u64" where
  "peek_type r = (case read_varu64 (drop (rpos r) (rbuf r)) of
     Inl e \<Rightarrow> Inl e | Inr (v, _) \<Rightarrow> Inr v)"

definition skip_unknown :: "tlv_reader \<Rightarrow> u64 \<Rightarrow> (tlv_error + unit) \<times> tlv_reader" where
  "skip_unknown r typ =
     (if typ \<le> 31 \<or> typ AND 1 = 1 then (Inl (UnknownCriticalType typ), r)
      else case read_length r of
        (Inl e, r1) \<Rightarrow> (Inl e, r1)
      | (Inr len, r1) \<Rightarrow> (case checked_add (rpos r1) len of
          None \<Rightarrow> (Inl UnexpectedEof, r1)
        | Some e \<Rightarrow>
            if e > length (rbuf r1) then (Inl UnexpectedEof, r1)
            else (Inr (), r1\<lparr>rpos := e\<rparr>)))"

definition scoped :: "tlv_reader \<Rightarrow> nat \<Rightarrow> (tlv_error + tlv_reader) \<times> tlv_reader" where
  "scoped r len = (case read_bytes r len of
     (Inl e, r1) \<Rightarrow> (Inl e, r1)
   | (Inr s, r1) \<Rightarrow> (Inr (reader_new s), r1))"

definition as_bytes :: "tlv_reader \<Rightarrow> bytes" where
  "as_bytes r = drop (rpos r) (rbuf r)"

section \<open>The writer\<close>

record tlv_writer =
  wbuf :: bytes

definition writer_new :: tlv_writer where
  "writer_new = \<lparr>wbuf = []\<rparr>"

definition put_slice :: "bytes \<Rightarrow> tlv_writer \<Rightarrow> tlv_writer" where
  "put_slice bs w = w\<lparr>wbuf := wbuf w @ bs\<rparr>"

definition write_varu64_inner :: "u64 \<Rightarrow> tlv_writer \<Rightarrow> tlv_writer" where
  "write_varu64_inner v w =
     (let (tmp, n) = write_varu64 (replicate 9 0) v in put_slice (take n tmp) w)"

definition write_tlv :: "u64 \<Rightarrow> bytes \<Rightarrow> tlv_writer \<Rightarrow> tlv_writer" where
  "write_tlv typ val w =
     put_slice val (write_varu64_inner (word_of_nat (length val)) (write_varu64_inner typ w))"

definition write_nested :: "u64 \<Rightarrow> (tlv_writer \<Rightarrow> tlv_writer) \<Rightarrow> tlv_writer \<Rightarrow> tlv_writer" where
  "write_nested typ f w =
     (let inner_bytes = wbuf (f writer_new) in
      put_slice inner_bytes
        (write_varu64_inner (word_of_nat (length inner_bytes)) (write_varu64_inner typ w)))"

definition write_raw :: "bytes \<Rightarrow> tlv_writer \<Rightarrow> tlv_writer" where
  "write_raw d w = put_slice d w"

definition slice_from :: "tlv_writer \<Rightarrow> nat \<Rightarrow> bytes option" where
  "slice_from w start = get_from (wbuf w) start"

definition finish :: "tlv_writer \<Rightarrow> bytes" where
  "finish w = wbuf w"

definition tlv_size :: "u64 \<Rightarrow> nat \<Rightarrow> nat" where
  "tlv_size typ value_len = varu64_size typ + varu64_size (word_of_nat value_len) + value_len"

text \<open>The encoding of one element as a byte string.\<close>

definition tlv_enc :: "u64 \<Rightarrow> bytes \<Rightarrow> bytes" where
  "tlv_enc typ val = varu64_enc typ @ varu64_enc (word_of_nat (length val)) @ val"

section \<open>VAR-NUMBER is a canonical prefix-free code\<close>

lemma length_varu64_enc: "length (varu64_enc v) = varu64_size v"
  by (simp add: varu64_enc_def varu64_size_def)

lemma varu64_size_bounds: "1 \<le> varu64_size v" "varu64_size v \<le> 9"
  by (simp_all add: varu64_size_def)

lemma ucast_u8_inverse: "(v :: u64) < 253 \<Longrightarrow> ucast (ucast v :: u8) = v"
  by (rule word_unat_eq_iff [THEN iffD2]) (simp add: unat_ucast_mod word_less_nat_alt)

lemma ucast_u16_less: "(v :: u64) < 0x10000 \<Longrightarrow> (ucast v :: u16) < 253 \<longleftrightarrow> v < 253"
  by (simp add: unat_ucast_mod word_less_nat_alt)

lemma ucast_u32_less: "(v :: u64) < 0x100000000 \<Longrightarrow> (ucast v :: u32) < 0x10000 \<longleftrightarrow> v < 0x10000"
  by (simp add: unat_ucast_mod word_less_nat_alt)

lemma ucast_u8_le: "(v :: u64) < 253 \<Longrightarrow> (ucast v :: u8) \<le> 252"
  by (simp add: unat_ucast_mod word_less_nat_alt word_le_nat_alt)

lemma read_varu64_enc: "read_varu64 (varu64_enc v @ rest) = Inr (v, varu64_size v)"
proof -
  consider (one) "v < 253" | (two) "\<not> v < 253" "v < 0x10000"
    | (four) "\<not> v < 253" "\<not> v < 0x10000" "v < 0x100000000"
    | (eight) "\<not> v < 253" "\<not> v < 0x10000" "\<not> v < 0x100000000"
    by blast
  then show ?thesis
  proof cases
    case one
    then show ?thesis
      by (simp add: read_varu64_def varu64_enc_def varu64_size_def ucast_u8_le ucast_u8_inverse)
  next
    case two
    obtain a b where ab: "to_be_bytes (ucast v :: u16) = [a, b]"
      using list2_of_length [of "to_be_bytes (ucast v :: u16)"] by auto
    then have "from_be_bytes [a, b] = (ucast v :: u16)"
      by (metis be_bytes_roundtrip(1))
    with two ab show ?thesis
      by (simp add: read_varu64_def varu64_enc_def varu64_size_def ucast_u16_less ucast_u16_inverse)
  next
    case four
    obtain a b c d where ab: "to_be_bytes (ucast v :: u32) = [a, b, c, d]"
      using list4_of_length [of "to_be_bytes (ucast v :: u32)"] by auto
    then have "from_be_bytes [a, b, c, d] = (ucast v :: u32)"
      by (metis be_bytes_roundtrip(2))
    with four ab show ?thesis
      by (simp add: read_varu64_def varu64_enc_def varu64_size_def ucast_u32_less ucast_u32_inverse)
  next
    case eight
    obtain a b c d e f g h where ab: "to_be_bytes v = [a, b, c, d, e, f, g, h]"
      using list8_of_length [of "to_be_bytes v"] by auto
    then have "from_be_bytes [a, b, c, d, e, f, g, h] = v"
      by (metis be_bytes_roundtrip(3))
    with eight ab show ?thesis
      by (simp add: read_varu64_def varu64_enc_def varu64_size_def)
  qed
qed

lemma ucast_u8_up: "ucast (ucast (v :: u8) :: u64) = v" "(ucast v :: u64) < 253 \<longleftrightarrow> v \<le> 252"
  using unsigned_less [where ?'a = nat and w = v]
  by (auto simp: word_unat_eq_iff unat_ucast_mod word_less_nat_alt word_le_nat_alt)

lemma varu64_thresholds:
  "(w :: u32) < 253 \<Longrightarrow> w < 0x10000"
  "(v :: u64) < 253 \<Longrightarrow> v < 0x10000" "v < 0x10000 \<Longrightarrow> v < 0x100000000"
  by (simp_all add: word_less_nat_alt)

lemma u8_cases_var: "\<not> (b :: u8) \<le> 252 \<Longrightarrow> b \<noteq> 253 \<Longrightarrow> b \<noteq> 254 \<Longrightarrow> b = 255"
  using unsigned_less [where ?'a = nat and w = b]
  by (simp add: word_unat_eq_iff word_le_nat_alt)

lemma read_varu64_canonical:
  assumes "read_varu64 buf = Inr (v, n)"
  shows "\<exists>rest. buf = varu64_enc v @ rest \<and> n = varu64_size v"
proof -
  obtain b bs where buf: "buf = b # bs"
    using assms by (auto simp: read_varu64_def split: list.splits)
  consider (one) "b \<le> 252" | (two) "b = 253" | (four) "b = 254" | (eight) "b = 255"
    using u8_cases_var by blast
  then show ?thesis
  proof cases
    case one
    with assms buf show ?thesis
      by (auto simp: read_varu64_def varu64_enc_def varu64_size_def ucast_u8_up)
  next
    case two
    with assms buf have "2 \<le> length bs" by (auto simp: read_varu64_def split: if_splits)
    then obtain x y rest where bs: "bs = [x, y] @ rest"
      using long_list_split [of 2 bs] list2_of_length by metis
    have "to_be_bytes (from_be_bytes [x, y] :: u16) = [x, y]"
      by (rule to_from_be_bytes) simp_all
    with assms buf two bs show ?thesis
      by (auto simp: read_varu64_def varu64_enc_def varu64_size_def ucast_u16_up Let_def
          split: if_splits)
  next
    case four
    with assms buf have "4 \<le> length bs" by (auto simp: read_varu64_def split: if_splits)
    then obtain x y z w rest where bs: "bs = [x, y, z, w] @ rest"
      using long_list_split [of 4 bs] list4_of_length by metis
    have "to_be_bytes (from_be_bytes [x, y, z, w] :: u32) = [x, y, z, w]"
      by (rule to_from_be_bytes) simp_all
    with assms buf four bs show ?thesis
      by (auto simp: read_varu64_def varu64_enc_def varu64_size_def ucast_u32_up Let_def
          split: if_splits dest: varu64_thresholds)
  next
    case eight
    with assms buf have "8 \<le> length bs" by (auto simp: read_varu64_def split: if_splits)
    then obtain x1 x2 x3 x4 x5 x6 x7 x8 rest where
      bs: "bs = [x1, x2, x3, x4, x5, x6, x7, x8] @ rest"
      using long_list_split [of 8 bs] list8_of_length by metis
    have "to_be_bytes (from_be_bytes [x1, x2, x3, x4, x5, x6, x7, x8] :: u64)
        = [x1, x2, x3, x4, x5, x6, x7, x8]"
      by (rule to_from_be_bytes) simp_all
    with assms buf eight bs show ?thesis
      by (auto simp: read_varu64_def varu64_enc_def varu64_size_def Let_def
          split: if_splits dest: varu64_thresholds)
  qed
qed

section \<open>What the writer leaves in its buffer\<close>

lemma take_write_varu64:
  assumes "9 \<le> length buf"
  shows "take (snd (write_varu64 buf v)) (fst (write_varu64 buf v)) = varu64_enc v"
    and "snd (write_varu64 buf v) = varu64_size v"
    and "length (fst (write_varu64 buf v)) = length buf"
  using assms by (auto simp: write_varu64_def copy_from_slice_def varu64_enc_def varu64_size_def)

lemma wbuf_write_varu64_inner [codec_simps]:
  "wbuf (write_varu64_inner v w) = wbuf w @ varu64_enc v"
  using take_write_varu64(1) [of "replicate 9 0" v]
  by (simp add: write_varu64_inner_def put_slice_def case_prod_beta)

lemma wbuf_write_tlv [codec_simps]: "wbuf (write_tlv t v w) = wbuf w @ tlv_enc t v"
  by (simp add: write_tlv_def put_slice_def tlv_enc_def wbuf_write_varu64_inner)

lemma wbuf_write_nested [codec_simps]:
  "wbuf (write_nested t f w) = wbuf w @ tlv_enc t (wbuf (f writer_new))"
  by (simp add: write_nested_def put_slice_def tlv_enc_def wbuf_write_varu64_inner Let_def)

lemma wbuf_write_raw [codec_simps]: "wbuf (write_raw d w) = wbuf w @ d"
  by (simp add: write_raw_def put_slice_def)

lemma wbuf_writer_new [codec_simps]: "wbuf writer_new = []"
  by (simp add: writer_new_def)

lemma finish_eq [codec_simps]: "finish w = wbuf w"
  by (simp add: finish_def)

lemma length_tlv_enc: "length (tlv_enc t v) = tlv_size t (length v)"
  by (simp add: tlv_enc_def tlv_size_def length_varu64_enc)

lemma tlv_enc_nonempty: "2 \<le> length (tlv_enc t v)"
  using varu64_size_bounds(1) [of t] varu64_size_bounds(1) [of "word_of_nat (length v)"]
  by (simp add: tlv_enc_def length_varu64_enc)

section \<open>Reader invariant\<close>

definition reader_wf :: "tlv_reader \<Rightarrow> bool" where
  "reader_wf r \<longleftrightarrow> rpos r \<le> length (rbuf r) \<and> length (rbuf r) < 2 ^ 63"

lemma reader_wf_new [wf_intros]: "length buf < 2 ^ 63 \<Longrightarrow> reader_wf (reader_new buf)"
  by (simp add: reader_wf_def reader_new_def)

lemma read_varu64_consumes: "read_varu64 buf = Inr (v, n) \<Longrightarrow> n \<le> length buf \<and> 1 \<le> n"
  using varu64_size_bounds(1) [of v]
  by (auto dest!: read_varu64_canonical simp: length_varu64_enc)

lemma read_type_keeps:
  assumes "reader_wf r" "read_type r = (x, r')"
  shows "reader_wf r'" "rbuf r' = rbuf r" "rpos r \<le> rpos r'"
  using assms
  by (auto simp: read_type_def reader_wf_def split: sum.splits if_splits dest!: read_varu64_consumes)

lemma read_length_keeps:
  assumes "reader_wf r" "read_length r = (x, r')"
  shows "reader_wf r'" "rbuf r' = rbuf r" "rpos r \<le> rpos r'"
  using assms
  by (auto simp: read_length_def reader_wf_def Let_def split: sum.splits if_splits
      dest!: read_varu64_consumes)

lemma read_bytes_keeps:
  assumes "reader_wf r" "read_bytes r n = (x, r')"
  shows "reader_wf r'" "rbuf r' = rbuf r" "rpos r \<le> rpos r'"
  using assms
  by (auto simp: read_bytes_def reader_wf_def checked_add_def split: option.splits if_splits)

lemma read_tlv_keeps:
  assumes "reader_wf r" "read_tlv r = (x, r')"
  shows "reader_wf r'" "rbuf r' = rbuf r" "rpos r \<le> rpos r'"
proof -
  obtain a r1 where 1: "read_type r = (a, r1)" by fastforce
  obtain b r2 where 2: "read_length r1 = (b, r2)" by fastforce
  have r1: "reader_wf r1" "rbuf r1 = rbuf r" "rpos r \<le> rpos r1"
    using read_type_keeps [OF assms(1) 1] by auto
  have r2: "reader_wf r2" "rbuf r2 = rbuf r1" "rpos r1 \<le> rpos r2"
    using read_length_keeps [OF r1(1) 2] by auto
  show "reader_wf r'" "rbuf r' = rbuf r" "rpos r \<le> rpos r'"
    using assms(2) 1 2 r1 r2
    by (auto simp: read_tlv_def split: sum.splits prod.splits dest: read_bytes_keeps)
qed

lemma varu64_size_type: "t \<le> 0xFFFFFFFF \<longleftrightarrow> varu64_size t \<noteq> 9"
  by (auto simp: varu64_size_def word_less_nat_alt word_le_nat_alt)

lemma read_type_eq:
  assumes "as_bytes r = varu64_enc t @ rest" "t \<le> 0xFFFFFFFF"
  shows "read_type r = (Inr t, r\<lparr>rpos := rpos r + varu64_size t\<rparr>)"
  using assms by (simp add: read_type_def as_bytes_def read_varu64_enc varu64_size_type)
    (simp flip: varu64_size_type)

lemma read_tlv_enc:
  assumes "reader_wf r" and "as_bytes r = tlv_enc t v @ rest" and "t \<le> 0xFFFFFFFF"
  shows "read_tlv r = (Inr (t, v), r\<lparr>rpos := rpos r + length (tlv_enc t v)\<rparr>)"
proof -
  let ?l = "word_of_nat (length v) :: u64"
  let ?r1 = "r\<lparr>rpos := rpos r + varu64_size t\<rparr>"
  let ?r2 = "?r1\<lparr>rpos := rpos ?r1 + varu64_size ?l\<rparr>"
  have suffix: "drop (rpos r) (rbuf r) = varu64_enc t @ varu64_enc ?l @ v @ rest"
    using assms(2) by (simp add: as_bytes_def tlv_enc_def)
  have len: "length (rbuf r) = rpos r + varu64_size t + varu64_size ?l + length v + length rest"
    using arg_cong [OF suffix, of length] assms(1) varu64_size_bounds(1) [of t]
    by (simp add: reader_wf_def length_varu64_enc)
  then have l: "unat ?l = length v"
    using assms(1) by (simp add: reader_wf_def unat_of_nat)
  have type: "read_type r = (Inr t, ?r1)"
    using read_type_eq assms(2,3) by (simp add: tlv_enc_def)
  have "drop (rpos ?r1) (rbuf r) = varu64_enc ?l @ v @ rest"
    using drop_append_shift [OF suffix] by (simp add: length_varu64_enc)
  moreover have "unat (word_of_nat (reader_remaining ?r2) :: u64) = length v + length rest"
    using len assms(1) by (subst word_of_nat_less63) (simp_all add: reader_remaining_def reader_wf_def)
  then have "\<not> ?l > word_of_nat (reader_remaining ?r2)"
    using l by (simp add: word_less_nat_alt)
  ultimately have length: "read_length ?r1 = (Inr (length v), ?r2)"
    using l by (simp add: read_length_def read_varu64_enc)
  have "drop (rpos ?r2) (rbuf r) = v @ rest"
    using drop_append_shift [OF \<open>drop (rpos ?r1) (rbuf r) = varu64_enc ?l @ v @ rest\<close>]
    by (simp add: length_varu64_enc)
  then have "read_bytes ?r2 (length v) = (Inr v, ?r2\<lparr>rpos := rpos ?r2 + length v\<rparr>)"
    using len assms(1) by (simp add: read_bytes_def checked_add_def reader_wf_def)
  with type length show ?thesis
    by (simp add: read_tlv_def length_tlv_enc tlv_size_def add.assoc)
qed

lemma read_tlv_canonical:
  assumes "reader_wf r" and "read_tlv r = (Inr (t, v), r')"
  shows "\<exists>rest. as_bytes r = tlv_enc t v @ rest \<and> t \<le> 0xFFFFFFFF \<and>
    r' = r\<lparr>rpos := rpos r + length (tlv_enc t v)\<rparr>"
proof -
  obtain r1 r2 where 1: "read_type r = (Inr t, r1)" and 2: "read_length r1 = (Inr (length v), r2)"
    and 3: "read_bytes r2 (length v) = (Inr v, r')"
    using assms(2)
    by (auto simp: read_tlv_def read_bytes_def checked_add_def split: sum.splits prod.splits if_splits
        option.splits)
  obtain n rest1 where n: "drop (rpos r) (rbuf r) = varu64_enc t @ rest1"
      "t \<le> 0xFFFFFFFF" "r1 = r\<lparr>rpos := rpos r + varu64_size t\<rparr>"
    using 1 by (auto simp: read_type_def varu64_size_type split: sum.splits if_splits
        dest!: read_varu64_canonical)
  obtain l rest2 where l: "drop (rpos r1) (rbuf r1) = varu64_enc l @ rest2" "unat l = length v"
      "r2 = r1\<lparr>rpos := rpos r1 + varu64_size l\<rparr>"
    using 2 by (auto simp: read_length_def Let_def split: sum.splits if_splits
        dest!: read_varu64_canonical)
  have r3: "take (length v) (drop (rpos r2) (rbuf r2)) = v" "r' = r2\<lparr>rpos := rpos r2 + length v\<rparr>"
    using 3 by (auto simp: read_bytes_def checked_add_def split: if_splits)
  have ln: "l = word_of_nat (length v)"
    using l(2) by (metis of_nat_unat ucast_id)
  have rest1: "rest1 = varu64_enc l @ rest2"
    using l(1) n(3) drop_append_shift [OF n(1)] by (simp add: length_varu64_enc)
  have "drop (rpos r2) (rbuf r2) = rest2"
    using l(3) drop_append_shift [OF l(1)] by (simp add: length_varu64_enc)
  then have "rest2 = v @ drop (length v) rest2"
    using r3(1) by (metis append_take_drop_id)
  then show ?thesis
    using n l r3 rest1 ln
    by (intro exI [of _ "drop (length v) rest2"])
      (simp add: as_bytes_def tlv_enc_def length_varu64_enc add.assoc)
qed

section \<open>The decoder loop\<close>

text \<open>
  A loop body either goes on with a new local state or leaves the enclosing function.
  \<open>tlv_loop body err fin s r\<close> is
  \<open>while !r.is_empty() { let (t, v) = r.read_tlv().map_err(err)?; body }\<close> followed by
  \<open>fin\<close> of the final local state; the body also sees the cursor before and after the
  element, as the code does through \<open>position()\<close>.
\<close>

datatype ('s, 'r) flow = Continue 's | Return 'r

lemma read_tlv_progress:
  assumes "read_tlv r = (Inr x, r')"
  shows "rbuf r' = rbuf r \<and> rpos r < rpos r' \<and> rpos r' \<le> length (rbuf r)"
  using assms
  by (auto simp: read_tlv_def read_type_def read_length_def read_bytes_def checked_add_def Let_def
      split: sum.splits prod.splits if_splits option.splits dest!: read_varu64_consumes)

function tlv_loop ::
  "('s \<Rightarrow> tlv_reader \<Rightarrow> u64 \<Rightarrow> bytes \<Rightarrow> tlv_reader \<Rightarrow> ('s, 'r) flow) \<Rightarrow>
   (tlv_error \<Rightarrow> 'r) \<Rightarrow> ('s \<Rightarrow> 'r) \<Rightarrow> 's \<Rightarrow> tlv_reader \<Rightarrow> 'r" where
  "tlv_loop body err fin s r =
     (if reader_is_empty r then fin s
      else case read_tlv r of
        (Inl e, _) \<Rightarrow> err e
      | (Inr (t, v), r') \<Rightarrow> (case body s r t v r' of
          Return x \<Rightarrow> x
        | Continue s' \<Rightarrow> tlv_loop body err fin s' r'))"
  by pat_completeness auto
termination
  by (relation "measure (\<lambda>(body, err, fin, s, r). length (rbuf r) - rpos r)")
    (auto simp: reader_is_empty_def dest!: read_tlv_progress [OF sym])

declare tlv_loop.simps [simp del]

text \<open>The elements a reader yields before the end of the buffer or the first error.\<close>

function tlv_elems :: "tlv_reader \<Rightarrow> (u64 \<times> bytes) list \<times> tlv_error option" where
  "tlv_elems r =
     (if reader_is_empty r then ([], None)
      else case read_tlv r of
        (Inl e, _) \<Rightarrow> ([], Some e)
      | (Inr (t, v), r') \<Rightarrow> (let (es, e) = tlv_elems r' in ((t, v) # es, e)))"
  by pat_completeness auto
termination
  by (relation "measure (\<lambda>r. length (rbuf r) - rpos r)")
    (auto simp: reader_is_empty_def dest!: read_tlv_progress [OF sym])

declare tlv_elems.simps [simp del]

fun flow_fold :: "('s \<Rightarrow> u64 \<Rightarrow> bytes \<Rightarrow> ('s, 'r) flow) \<Rightarrow> ('s \<Rightarrow> 'r) \<Rightarrow> 's \<Rightarrow> (u64 \<times> bytes) list \<Rightarrow> 'r"
where
  "flow_fold f fin s [] = fin s"
| "flow_fold f fin s ((t, v) # es) =
     (case f s t v of Return x \<Rightarrow> x | Continue s' \<Rightarrow> flow_fold f fin s' es)"

lemma tlv_loop_flow_fold:
  "tlv_loop (\<lambda>s _ t v _. f s t v) err fin s r =
     (case tlv_elems r of
        (es, None) \<Rightarrow> flow_fold f fin s es
      | (es, Some e) \<Rightarrow> flow_fold f (\<lambda>_. err e) s es)"
proof (induction "\<lambda>s (_ :: tlv_reader) t v (_ :: tlv_reader). f s t v" err fin s r
    rule: tlv_loop.induct)
  case (1 err fin s r)
  show ?case
  proof (cases "reader_is_empty r")
    case True
    then show ?thesis by (simp add: tlv_loop.simps [of _ _ _ s r] tlv_elems.simps [of r])
  next
    case False
    obtain x r' where x: "read_tlv r = (x, r')" by fastforce
    show ?thesis
    proof (cases x)
      case (Inl e)
      with False x show ?thesis
        by (simp add: tlv_loop.simps [of _ _ _ s r] tlv_elems.simps [of r])
    next
      case (Inr tv)
      obtain t v where tv: "tv = (t, v)" by fastforce
      obtain es e where es: "tlv_elems r' = (es, e)" by fastforce
      show ?thesis
        using False x Inr tv es 1
        by (cases "f s t v")
          (auto simp: tlv_loop.simps [of _ _ _ s r] tlv_elems.simps [of r] split: option.splits)
    qed
  qed
qed

definition elems_enc :: "(u64 \<times> bytes) list \<Rightarrow> bytes" where
  "elems_enc es = concat (map (\<lambda>(t, v). tlv_enc t v) es)"

definition types_ok :: "(u64 \<times> bytes) list \<Rightarrow> bool" where
  "types_ok es \<longleftrightarrow> (\<forall>(t, v) \<in> set es. t \<le> 0xFFFFFFFF)"

lemma elems_enc_simps [simp]:
  "elems_enc [] = []" "elems_enc ((t, v) # es) = tlv_enc t v @ elems_enc es"
  "elems_enc (es @ fs) = elems_enc es @ elems_enc fs"
  by (simp_all add: elems_enc_def)

lemma types_ok_simps [simp]:
  "types_ok []" "types_ok ((t, v) # es) \<longleftrightarrow> t \<le> 0xFFFFFFFF \<and> types_ok es"
  "types_ok (es @ fs) \<longleftrightarrow> types_ok es \<and> types_ok fs"
  by (auto simp: types_ok_def)

lemma as_bytes_empty: "reader_wf r \<Longrightarrow> reader_is_empty r \<longleftrightarrow> as_bytes r = []"
  by (auto simp: reader_is_empty_def as_bytes_def reader_wf_def)

lemma as_bytes_new [simp]: "as_bytes (reader_new buf) = buf"
  by (simp add: as_bytes_def reader_new_def)

lemma as_bytes_advance:
  "as_bytes r = xs @ ys \<Longrightarrow> as_bytes (r\<lparr>rpos := rpos r + length xs\<rparr>) = ys"
  by (simp add: as_bytes_def drop_append_shift)

lemma tlv_elems_enc:
  "reader_wf r \<Longrightarrow> as_bytes r = elems_enc es \<Longrightarrow> types_ok es \<Longrightarrow> tlv_elems r = (es, None)"
proof (induction es arbitrary: r)
  case Nil
  then show ?case by (simp add: tlv_elems.simps [of r] as_bytes_empty)
next
  case (Cons a es)
  obtain t v where a: "a = (t, v)" by fastforce
  let ?r' = "r\<lparr>rpos := rpos r + length (tlv_enc t v)\<rparr>"
  have r: "read_tlv r = (Inr (t, v), ?r')"
    using Cons.prems a by (intro read_tlv_enc) auto
  have "tlv_elems ?r' = (es, None)"
    using Cons.prems a read_tlv_keeps(1) [OF _ r] as_bytes_advance [of r "tlv_enc t v" "elems_enc es"]
    by (intro Cons.IH) auto
  moreover have "\<not> reader_is_empty r"
    using Cons.prems a tlv_enc_nonempty [of t v] by (auto simp: as_bytes_empty)
  ultimately show ?case
    using r a by (simp add: tlv_elems.simps [of r])
qed

lemma tlv_elems_canonical:
  "reader_wf r \<Longrightarrow> tlv_elems r = (es, e) \<Longrightarrow>
   types_ok es \<and> (\<exists>tail. as_bytes r = elems_enc es @ tail \<and> (e = None \<longleftrightarrow> tail = []))"
proof (induction r arbitrary: es e rule: tlv_elems.induct)
  case (1 r)
  show ?case
  proof (cases "reader_is_empty r")
    case True
    with "1.prems" show ?thesis by (auto simp: tlv_elems.simps [of r] as_bytes_empty)
  next
    case False
    obtain x r' where x: "read_tlv r = (x, r')" by fastforce
    show ?thesis
    proof (cases x)
      case (Inl a)
      with False x "1.prems" show ?thesis
        by (auto simp: tlv_elems.simps [of r] as_bytes_empty)
    next
      case (Inr tv)
      obtain t v where tv: "tv = (t, v)" by fastforce
      obtain es' where es: "es = (t, v) # es'" and es': "tlv_elems r' = (es', e)"
        using "1.prems"(2) False x Inr tv by (auto simp: tlv_elems.simps [of r] split: prod.splits)
      obtain rest where rest: "as_bytes r = tlv_enc t v @ rest" "t \<le> 0xFFFFFFFF"
          "r' = r\<lparr>rpos := rpos r + length (tlv_enc t v)\<rparr>"
        using read_tlv_canonical "1.prems"(1) x Inr tv by blast
      have "reader_wf r'"
        using read_tlv_keeps(1) "1.prems"(1) x by blast
      from "1.IH" [OF False x [symmetric] Inr tv [symmetric] this es']
      show ?thesis
        using rest as_bytes_advance [OF rest(1)] es by auto
    qed
  qed
qed

section \<open>Properties\<close>

text \<open>C24. VAR-NUMBER is a canonical code: \<open>read_varu64\<close> succeeds on a buffer exactly when the
  buffer starts with the shortest encoding of the number it returns, and it then reports the
  length of that encoding; every non-minimal or truncated number is refused. No number is
  refused and none has two encodings.\<close>

theorem read_varu64_iff_canonical:
  "read_varu64 buf = Inr (v, n) \<longleftrightarrow>
     take (varu64_size v) buf = varu64_enc v \<and> n = varu64_size v"
proof
  assume "read_varu64 buf = Inr (v, n)"
  then show "take (varu64_size v) buf = varu64_enc v \<and> n = varu64_size v"
    using read_varu64_canonical by (fastforce simp: length_varu64_enc)
next
  assume *: "take (varu64_size v) buf = varu64_enc v \<and> n = varu64_size v"
  then have "buf = varu64_enc v @ drop (varu64_size v) buf"
    by (metis append_take_drop_id)
  with * show "read_varu64 buf = Inr (v, n)"
    by (metis read_varu64_enc)
qed

text \<open>C25. \<open>read_tlv\<close> against \<open>write_tlv\<close>: from a reader inside a buffer shorter than
  \<open>2 ^ 63\<close> bytes (every Rust slice), the element \<open>(t, v)\<close> is returned exactly when the
  unread bytes start with what a fresh writer produces for it and the type fits in 32 bits;
  the cursor then stands right behind those bytes and the buffer is untouched.\<close>

theorem read_tlv_iff_written:
  assumes "reader_wf r"
  shows "read_tlv r = (Inr (t, v), r') \<longleftrightarrow>
    (\<exists>rest. as_bytes r = finish (write_tlv t v writer_new) @ rest) \<and> t \<le> 0xFFFFFFFF \<and>
    r' = r\<lparr>rpos := rpos r + tlv_size t (length v)\<rparr>"
  using read_tlv_canonical [OF assms] read_tlv_enc [OF assms]
  by (fastforce simp: codec_simps length_tlv_enc)

theorem read_tlv_iff_written_witness:
  "read_tlv (reader_new [8, 2, 97, 98, 7]) = (Inr (8, [97, 98]), \<lparr>rbuf = [8, 2, 97, 98, 7], rpos = 4\<rparr>)"
proof -
  have wf: "reader_wf (reader_new [8, 2, 97, 98, 7])"
    by (simp add: reader_wf_def reader_new_def)
  show ?thesis
    unfolding read_tlv_iff_written [OF wf]
    by (intro conjI exI [of _ "[7]"])
      (simp_all add: codec_simps tlv_enc_def varu64_enc_def tlv_size_def varu64_size_def
        reader_new_def as_bytes_def)
qed

text \<open>Error safety: whatever bytes it is given, \<open>read_tlv\<close> keeps the cursor inside the
  buffer and never moves it back, also on the error paths where it has already consumed the
  type or the length.\<close>

lemma read_tlv_stays_in_buffer:
  assumes "reader_wf r"
  shows "reader_wf (snd (read_tlv r)) \<and> rbuf (snd (read_tlv r)) = rbuf r \<and>
    rpos r \<le> rpos (snd (read_tlv r))"
  using read_tlv_keeps [OF assms, of "fst (read_tlv r)" "snd (read_tlv r)"] by simp

text \<open>The decoder loop visits exactly what was written: run over a buffer that is the
  concatenation of written elements, \<open>while !r.is_empty() { r.read_tlv()? ... }\<close> ends, never
  takes its error exit, and folds its body over those elements in order.\<close>

lemma tlv_loop_visits_written_elements:
  assumes "length (elems_enc es) < 2 ^ 63" and "types_ok es"
  shows "tlv_loop (\<lambda>s _ t v _. f s t v) err fin s (reader_new (elems_enc es)) = flow_fold f fin s es"
  using assms
  by (simp add: tlv_loop_flow_fold tlv_elems_enc [of _ es] reader_wf_new)

end
