(* ===== verification/Nni_Codec.thy ===== *)
theory Nni_Codec
  imports Tlv_Codec
begin

text \<open>
  NonNegativeInteger values. The repository carries several independent encoders and
  decoders of the same format: \<open>encode_nonneg_integer\<close>/\<open>decode_nonnegative_integer\<close>
  (foundation-types, \<open>name.rs\<close>), \<open>nonneg_int_bytes_vec\<close>/\<open>read_nonneg_int\<close>
  (foundation-types, \<open>codec.rs\<close>), \<open>nni\<close>/\<open>decode_nni\<close> (ndn-packet) and
  \<open>nni\<close>/\<open>decode_be_u64\<close> (ndn-packet, \<open>lp\<close>). The locale \<open>nni_codec\<close> is the contract
  they share; it is interpreted on each pair.
\<close>

section \<open>Errors of the packet crates\<close>

datatype packet_error =
    Tlv tlv_error
  | UnknownPacketType u64
  | MalformedPacket string
  | KeyLocatorRule u64

datatype tlv_codec_error =
    CodecTlv tlv_error
  | UnexpectedType u64 u64
  | CodecMissingField u64
  | MalformedField u64
  | UnrecognizedVariant u8
  | TrailingBytes

section \<open>The encoders and decoders\<close>

definition encode_nonneg_integer :: "u64 \<Rightarrow> bytes" where
  "encode_nonneg_integer v = (let b = to_be_bytes v in
     if v \<le> 0xFF then drop 7 b
     else if v \<le> 0xFFFF then drop 6 b
     else if v \<le> 0xFFFFFFFF then drop 4 b
     else b)"

definition decode_nonnegative_integer :: "bytes \<Rightarrow> u64" where
  "decode_nonnegative_integer bs = be_accumulate 0 bs"

definition canonical_nonneg_integer :: "bytes \<Rightarrow> u64 option" where
  "canonical_nonneg_integer bs =
     (if length bs \<notin> {1, 2, 4, 8} then None
      else let v = decode_nonnegative_integer bs in
        if encode_nonneg_integer v = bs then Some v else None)"

definition nonneg_int_bytes_vec :: "u64 \<Rightarrow> bytes" where
  "nonneg_int_bytes_vec val =
     (if val = 0 then [0]
      else let b = to_be_bytes val;
               lead = (case position (\<lambda>x. x \<noteq> 0) b of Some i \<Rightarrow> i | None \<Rightarrow> 7) in
        drop lead b)"

definition read_nonneg_int :: "bytes \<Rightarrow> tlv_codec_error + u64" where
  "read_nonneg_int bs =
     (if bs = [] \<or> length bs > 8 then Inl (MalformedField 0) else Inr (be_accumulate 0 bs))"

definition nni :: "u64 \<Rightarrow> bytes \<times> nat" where
  "nni val = (let be = to_be_bytes val in
     if val \<le> 0xFF then ([be ! 7, 0, 0, 0, 0, 0, 0, 0], 1)
     else if val \<le> 0xFFFF then ([be ! 6, be ! 7, 0, 0, 0, 0, 0, 0], 2)
     else if val \<le> 0xFFFFFFFF then ([be ! 4, be ! 5, be ! 6, be ! 7, 0, 0, 0, 0], 4)
     else (be, 8))"

definition nni_bytes :: "u64 \<Rightarrow> bytes" where
  "nni_bytes val = (let (buf, len) = nni val in take len buf)"

definition write_nni :: "u64 \<Rightarrow> u64 \<Rightarrow> tlv_writer \<Rightarrow> tlv_writer" where
  "write_nni typ val w = (let (buf, len) = nni val in write_tlv typ (take len buf) w)"

definition decode_nni :: "bytes \<Rightarrow> packet_error + u64" where
  "decode_nni buf =
     (if length buf = 1 then Inr (ucast (buf ! 0))
      else if length buf = 2 then Inr (ucast (from_be_bytes [buf ! 0, buf ! 1] :: u16))
      else if length buf = 4 then
        Inr (ucast (from_be_bytes [buf ! 0, buf ! 1, buf ! 2, buf ! 3] :: u32))
      else if length buf = 8 then
        Inr (from_be_bytes [buf ! 0, buf ! 1, buf ! 2, buf ! 3, buf ! 4, buf ! 5, buf ! 6, buf ! 7])
      else Inl (MalformedPacket
        (''NonNegativeInteger must be 1/2/4/8 octets; got '' @ show_nat (length buf))))"

definition decode_be_u64 :: "bytes \<Rightarrow> u64" where
  "decode_be_u64 bs = be_accumulate 0 bs"

section \<open>The contract\<close>

locale nni_codec =
  fixes enc :: "u64 \<Rightarrow> bytes" and dec :: "bytes \<Rightarrow> u64 option"
  assumes dec_enc: "dec (enc v) = Some v"
    and enc_length: "1 \<le> length (enc v)" "length (enc v) \<le> 8"
begin

lemma enc_inj: "enc v = enc w \<longleftrightarrow> v = w"
  using dec_enc by (metis option.inject)

lemma enc_nonempty: "enc v \<noteq> []"
  using enc_length(1) [of v] by auto

lemma field_length: "length (tlv_enc t (enc v)) \<le> 18"
proof -
  have "varu64_size (word_of_nat (length (enc v))) = 1"
    using enc_length(2) [of v]
    by (simp add: varu64_size_def word_less_nat_alt unat_of_nat)
  with enc_length(2) [of v] varu64_size_bounds(2) [of t] show ?thesis
    by (simp add: length_tlv_enc tlv_size_def)
qed

lemma field_read:
  assumes "reader_wf r" "as_bytes r = tlv_enc t (enc v) @ rest" "t \<le> 0xFFFFFFFF"
  obtains b r' where "read_tlv r = (Inr (t, b), r')" "dec b = Some v" "as_bytes r' = rest"
  using read_tlv_enc [OF assms] as_bytes_advance [OF assms(2)] dec_enc that by blast

end

section \<open>Every pair meets it\<close>

text \<open>The shortest of the widths 1, 2, 4, 8 that holds the number.\<close>

definition nni_width :: "u64 \<Rightarrow> nat" where
  "nni_width v = (if v \<le> 0xFF then 1 else if v \<le> 0xFFFF then 2 else if v \<le> 0xFFFFFFFF then 4 else 8)"

definition nni_enc :: "u64 \<Rightarrow> bytes" where
  "nni_enc v = nat_be (nni_width v) (unat v)"

lemma nni_width_cases: "nni_width v \<in> {1, 2, 4, 8}"
  by (simp add: nni_width_def)

lemma unat_lt_nni_width: "unat v < 256 ^ nni_width v"
  using unat_le_max64 [of v] by (auto simp: nni_width_def word_le_nat_alt)

lemma length_nni_enc [simp]: "length (nni_enc v) = nni_width v"
  by (simp add: nni_enc_def)

lemma from_be_nni_enc [simp]: "from_be_bytes (nni_enc v) = v"
  using unat_lt_nni_width [of v] by (simp add: from_be_bytes_def nni_enc_def be_nat_nat_be)

lemma nni_enc_canonical:
  assumes "length bs \<in> {1, 2, 4, 8}" "nni_width (from_be_bytes bs) = length bs"
  shows "nni_enc (from_be_bytes bs) = bs"
proof -
  have "be_nat bs < 2 ^ 64"
    using assms(1) be_nat_lt [of bs] by auto
  then show ?thesis
    using assms by (simp add: nni_enc_def from_be_bytes_def unat_of_nat nat_be_be_nat)
qed

lemma encode_nonneg_integer_eq: "encode_nonneg_integer v = nni_enc v"
  using drop_nat_be [of 1 8 "unat v"] drop_nat_be [of 2 8 "unat v"] drop_nat_be [of 4 8 "unat v"]
  by (simp add: encode_nonneg_integer_def nni_enc_def nni_width_def to_be_bytes_def Let_def
      del: nat_be_numeral)

lemma nni_bytes_eq: "nni_bytes v = nni_enc v"
proof -
  obtain a b c d e f g h where be: "to_be_bytes v = [a, b, c, d, e, f, g, h]"
    using list8_of_length [of "to_be_bytes v"] by auto
  have "nni_bytes v = encode_nonneg_integer v"
    by (simp add: nni_bytes_def nni_def encode_nonneg_integer_def be Let_def)
  then show ?thesis by (simp add: encode_nonneg_integer_eq)
qed

lemma wbuf_write_nni [codec_simps]: "wbuf (write_nni t v w) = wbuf w @ tlv_enc t (nni_enc v)"
  using nni_bytes_eq [of v] by (simp add: write_nni_def nni_bytes_def case_prod_beta wbuf_write_tlv)

lemma ucast_from_be_bytes:
  assumes "be_nat bs < 2 ^ LENGTH('a::len)"
  shows "(ucast (from_be_bytes bs :: 'a word) :: u64) = from_be_bytes bs"
proof -
  have "unat (from_be_bytes bs :: 'a word) = be_nat bs"
    using assms by (simp add: from_be_bytes_def unat_of_nat)
  then show ?thesis
    by (metis from_be_bytes_def of_nat_unat)
qed

lemma decode_nni_eq:
  assumes "length bs \<in> {1, 2, 4, 8}"
  shows "decode_nni bs = Inr (from_be_bytes bs)"
proof -
  consider a where "bs = [a]" | a b where "bs = [a, b]" | a b c d where "bs = [a, b, c, d]"
    | a b c d e f g h where "bs = [a, b, c, d, e, f, g, h]"
    using assms list2_of_length [of bs] list4_of_length [of bs] list8_of_length [of bs]
    by (auto simp: length_Suc_conv)
  then show ?thesis
  proof cases
    case 1
    then show ?thesis by (simp add: decode_nni_def from_be_bytes_def be_nat_def)
  next
    case 2
    with be_nat_lt [of bs] show ?thesis
      by (simp add: decode_nni_def ucast_from_be_bytes)
  next
    case 3
    with be_nat_lt [of bs] show ?thesis
      by (simp add: decode_nni_def ucast_from_be_bytes)
  next
    case 4
    then show ?thesis by (simp add: decode_nni_def)
  qed
qed

lemma decode_nni_Inr: "decode_nni bs = Inr v \<longleftrightarrow> length bs \<in> {1, 2, 4, 8} \<and> from_be_bytes bs = v"
  using decode_nni_eq [of bs] by (auto simp: decode_nni_def)

lemma nat_be_be_accumulate: "be_accumulate 0 (nni_enc v) = v"
  by (simp add: be_accumulate_0)

lemma position_dropWhile:
  "drop (case position (\<lambda>x. \<not> P x) xs of Some i \<Rightarrow> i | None \<Rightarrow> length xs) xs = dropWhile P xs"
  by (induction xs) (auto split: option.splits)

lemma be_nat_dropWhile: "be_nat (dropWhile (\<lambda>x. x = 0) bs) = be_nat bs"
  by (induction bs) (auto simp: be_nat_zero)

lemma be_nat_0_iff: "be_nat bs = 0 \<longleftrightarrow> (\<forall>b \<in> set bs. b = 0)"
  by (induction bs) (auto simp: be_nat_Cons unat_eq_0)

lemma be_nat_to_be_bytes: "be_nat (to_be_bytes (v :: u64)) = unat v"
  using unat_le_max64 [of v] by (simp add: to_be_bytes_def be_nat_nat_be del: nat_be_numeral)

lemma position_to_be_bytes: "v \<noteq> 0 \<Longrightarrow> position (\<lambda>x. x \<noteq> 0) (to_be_bytes (v :: u64)) \<noteq> None"
  using be_nat_0_iff [of "to_be_bytes v"] by (simp only: position_None be_nat_to_be_bytes unat_eq_0) blast

lemma nonneg_int_bytes_vec_eq:
  "nonneg_int_bytes_vec v = (if v = 0 then [0] else dropWhile (\<lambda>x. x = 0) (to_be_bytes v))"
proof (cases "v = 0")
  case False
  then obtain i where "position (\<lambda>x. x \<noteq> 0) (to_be_bytes v) = Some i"
    using position_to_be_bytes [of v] by blast
  then show ?thesis
    using False position_dropWhile [of "to_be_bytes v" "\<lambda>x. x = 0"]
    by (simp add: nonneg_int_bytes_vec_def)
qed (simp add: nonneg_int_bytes_vec_def)

interpretation name_nni: nni_codec encode_nonneg_integer "\<lambda>bs. Some (decode_nonnegative_integer bs)"
  using nni_width_cases
  by unfold_locales
    (auto simp: encode_nonneg_integer_eq decode_nonnegative_integer_def nat_be_be_accumulate nni_width_def)

interpretation canonical_nni: nni_codec encode_nonneg_integer canonical_nonneg_integer
  using nni_width_cases
  by unfold_locales
    (auto simp: encode_nonneg_integer_eq decode_nonnegative_integer_def nat_be_be_accumulate
      canonical_nonneg_integer_def nni_width_def)

interpretation packet_nni: nni_codec nni_bytes "\<lambda>bs. case decode_nni bs of Inr v \<Rightarrow> Some v | Inl _ \<Rightarrow> None"
  using nni_width_cases
  by unfold_locales (auto simp: nni_bytes_eq decode_nni_eq nni_width_def)

interpretation lp_nni: nni_codec nni_bytes "\<lambda>bs. Some (decode_be_u64 bs)"
  using nni_width_cases
  by unfold_locales (auto simp: nni_bytes_eq decode_be_u64_def nat_be_be_accumulate nni_width_def)

lemma nonneg_int_bytes_vec_length:
  "1 \<le> length (nonneg_int_bytes_vec v) \<and> length (nonneg_int_bytes_vec v) \<le> 8"
proof (cases "v = 0")
  case False
  then have "be_nat (dropWhile (\<lambda>x. x = 0) (to_be_bytes v)) \<noteq> 0"
    by (simp only: be_nat_dropWhile be_nat_to_be_bytes unat_eq_0 not_False_eq_True)
  then have "dropWhile (\<lambda>x. x = 0) (to_be_bytes v) \<noteq> []"
    by (metis be_nat_Nil)
  then show ?thesis
    using False length_dropWhile_le [of "\<lambda>x. x = 0" "to_be_bytes v"]
    by (simp add: nonneg_int_bytes_vec_eq Suc_le_eq)
qed (simp add: nonneg_int_bytes_vec_eq)

interpretation codec_nni: nni_codec nonneg_int_bytes_vec
  "\<lambda>bs. case read_nonneg_int bs of Inr v \<Rightarrow> Some v | Inl _ \<Rightarrow> None"
proof
  fix v
  have "from_be_bytes (nonneg_int_bytes_vec v) = v"
    using be_bytes_roundtrip(3) [of v]
    by (simp add: nonneg_int_bytes_vec_eq from_be_bytes_def be_nat_dropWhile be_nat_zero)
  moreover have "nonneg_int_bytes_vec v \<noteq> []" "length (nonneg_int_bytes_vec v) \<le> 8"
    using nonneg_int_bytes_vec_length [of v] by auto
  ultimately show "(case read_nonneg_int (nonneg_int_bytes_vec v) of Inr v \<Rightarrow> Some v | Inl _ \<Rightarrow> None) = Some v"
    by (simp add: read_nonneg_int_def be_accumulate_0)
qed (use nonneg_int_bytes_vec_length in auto)

section \<open>Properties\<close>

text \<open>The packet crate's NonNegativeInteger reader accepts exactly the widths 1, 2, 4 and 8
  and reads them big-endian, and a \<open>write_nni\<close> field read back by \<open>read_tlv\<close> and \<open>decode_nni\<close>
  gives the number that was written, whatever follows it in the buffer.\<close>

lemma write_nni_field_roundtrip:
  assumes "length (finish (write_nni t v writer_new) @ rest) < 2 ^ 63" and "t \<le> 0xFFFFFFFF"
  shows "\<exists>b r'. read_tlv (reader_new (finish (write_nni t v writer_new) @ rest)) = (Inr (t, b), r') \<and>
    decode_nni b = Inr v \<and> as_bytes r' = rest \<and> length b \<in> {1, 2, 4, 8}"
proof -
  let ?buf = "tlv_enc t (nni_enc v) @ rest"
  have wf: "reader_wf (reader_new ?buf)"
    using assms(1) by (simp add: codec_simps reader_wf_new)
  have "as_bytes (reader_new ?buf) = tlv_enc t (nni_bytes v) @ rest"
    by (simp add: nni_bytes_eq)
  from packet_nni.field_read [OF wf this assms(2)] obtain b r' where
    "read_tlv (reader_new ?buf) = (Inr (t, b), r')"
    "(case decode_nni b of Inr v \<Rightarrow> Some v | Inl _ \<Rightarrow> None) = Some v" "as_bytes r' = rest" .
  then show ?thesis
    by (auto simp: codec_simps decode_nni_Inr split: sum.splits)
qed

text \<open>Canonical decoding: \<open>canonical_nonneg_integer\<close> returns a number exactly on the one
  byte string that \<open>encode_nonneg_integer\<close> produces for it, so a component value it accepts is
  never rewritten by a decode/encode cycle and every other value is left verbatim.\<close>

lemma canonical_nonneg_integer_iff:
  "canonical_nonneg_integer bs = Some v \<longleftrightarrow> bs = encode_nonneg_integer v"
  using canonical_nni.dec_enc [of v]
  by (auto simp: canonical_nonneg_integer_def Let_def split: if_splits)

end
