(* ===== verification/Ndn_Name.thy ===== *)
theory Ndn_Name
  imports Nni_Codec "HOL-Library.List_Lexorder" "HOL-Library.Sublist"
begin

text \<open>
  \<open>NameComponent\<close> and \<open>Name\<close> (\<open>src/crates/core/ndn-foundation-types/src/name.rs\<close>) with
  their canonical order, TLV codec and URI codec, and \<open>KeyLocator\<close>
  (\<open>key_locator.rs\<close>). The lemmas show that the canonical order is a linear order in which a
  prefix comes before its extensions, that the TLV codec is a bijection between names and
  the byte strings the decoder accepts, and that printing a name as a URI and parsing it back
  gives the name, for every name.
\<close>

abbreviation GENERIC_NAME_COMPONENT :: u64 where "GENERIC_NAME_COMPONENT \<equiv> 0x08"
abbreviation NAME :: u64 where "NAME \<equiv> 0x07"
abbreviation IMPLICIT_SHA256 :: u64 where "IMPLICIT_SHA256 \<equiv> 0x01"
abbreviation PARAMETERS_SHA256 :: u64 where "PARAMETERS_SHA256 \<equiv> 0x02"
abbreviation SEGMENT :: u64 where "SEGMENT \<equiv> 0x32"
abbreviation KEYWORD :: u64 where "KEYWORD \<equiv> 0x20"
abbreviation BYTE_OFFSET :: u64 where "BYTE_OFFSET \<equiv> 0x34"
abbreviation VERSION :: u64 where "VERSION \<equiv> 0x36"
abbreviation TIMESTAMP :: u64 where "TIMESTAMP \<equiv> 0x38"
abbreviation SEQUENCE_NUM :: u64 where "SEQUENCE_NUM \<equiv> 0x3A"
abbreviation KEY_LOCATOR :: u64 where "KEY_LOCATOR \<equiv> 0x1C"
abbreviation KEY_DIGEST :: u64 where "KEY_DIGEST \<equiv> 0x1D"

section \<open>Components and names\<close>

datatype name_component = NameComponent (comp_typ: u64) (comp_val: bytes)

type_synonym name = "name_component list"

datatype name_error = NameError string

definition generic :: "bytes \<Rightarrow> name_component" where
  "generic v = NameComponent GENERIC_NAME_COMPONENT v"

definition keyword :: "bytes \<Rightarrow> name_component" where
  "keyword v = NameComponent KEYWORD v"

definition byte_offset :: "u64 \<Rightarrow> name_component" where
  "byte_offset v = NameComponent BYTE_OFFSET (encode_nonneg_integer v)"

definition version :: "u64 \<Rightarrow> name_component" where
  "version v = NameComponent VERSION (encode_nonneg_integer v)"

definition timestamp :: "u64 \<Rightarrow> name_component" where
  "timestamp v = NameComponent TIMESTAMP (encode_nonneg_integer v)"

definition sequence_num :: "u64 \<Rightarrow> name_component" where
  "sequence_num v = NameComponent SEQUENCE_NUM (encode_nonneg_integer v)"

definition as_typed :: "u64 \<Rightarrow> name_component \<Rightarrow> u64 option" where
  "as_typed t c = (if comp_typ c = t then Some (decode_nonnegative_integer (comp_val c)) else None)"

definition append_segment :: "name \<Rightarrow> u64 \<Rightarrow> name" where
  "append_segment n seg = n @ [NameComponent SEGMENT (encode_nonneg_integer seg)]"

definition append_version :: "name \<Rightarrow> u64 \<Rightarrow> name" where
  "append_version n v = n @ [version v]"

definition append_timestamp :: "name \<Rightarrow> u64 \<Rightarrow> name" where
  "append_timestamp n v = n @ [timestamp v]"

definition append_sequence_num :: "name \<Rightarrow> u64 \<Rightarrow> name" where
  "append_sequence_num n v = n @ [sequence_num v]"

definition append_byte_offset :: "name \<Rightarrow> u64 \<Rightarrow> name" where
  "append_byte_offset n v = n @ [byte_offset v]"

definition append_implicit_digest :: "name \<Rightarrow> bytes \<Rightarrow> name" where
  "append_implicit_digest n digest = n @ [NameComponent IMPLICIT_SHA256 digest]"

definition has_prefix :: "name \<Rightarrow> name \<Rightarrow> bool" where
  "has_prefix self pre =
     (if length pre > length self then False
      else list_all (\<lambda>(a, b). a = b) (zip self pre))"

section \<open>Canonical order\<close>

datatype ordering = Less | Equal | Greater

fun then_with :: "ordering \<Rightarrow> ordering \<Rightarrow> ordering" where
  "then_with Equal o2 = o2"
| "then_with Less o2 = Less"
| "then_with Greater o2 = Greater"

definition ord_cmp :: "'a::linorder \<Rightarrow> 'a \<Rightarrow> ordering" where
  "ord_cmp a b = (if a < b then Less else if a = b then Equal else Greater)"

definition component_cmp :: "name_component \<Rightarrow> name_component \<Rightarrow> ordering" where
  "component_cmp a b =
     then_with (ord_cmp (comp_typ a) (comp_typ b))
       (then_with (ord_cmp (length (comp_val a)) (length (comp_val b)))
         (ord_cmp (comp_val a) (comp_val b)))"

fun name_cmp :: "name \<Rightarrow> name \<Rightarrow> ordering" where
  "name_cmp [] [] = Equal"
| "name_cmp [] (b # bs) = Less"
| "name_cmp (a # as) [] = Greater"
| "name_cmp (a # as) (b # bs) = then_with (component_cmp a b) (name_cmp as bs)"

section \<open>TLV codec\<close>

definition name_decode :: "bytes \<Rightarrow> name_error + name" where
  "name_decode val =
     tlv_loop (\<lambda>components _ typ val _. Continue (components @ [NameComponent typ val]))
       (\<lambda>_. Inl (NameError ''TLV read error'')) Inr [] (reader_new val)"

definition write_components :: "name \<Rightarrow> tlv_writer \<Rightarrow> tlv_writer" where
  "write_components n w = foldl (\<lambda>w c. write_tlv (comp_typ c) (comp_val c) w) w n"

definition write_name :: "name \<Rightarrow> tlv_writer \<Rightarrow> tlv_writer" where
  "write_name n w = write_nested NAME (write_components n) w"

definition encode_to_tlv :: "name \<Rightarrow> bytes" where
  "encode_to_tlv n = finish (write_nested NAME (write_components n) writer_new)"

definition decode_from_tlv :: "bytes \<Rightarrow> name_error + name" where
  "decode_from_tlv bs = (case read_tlv (reader_new bs) of
     (Inl _, _) \<Rightarrow> Inl (NameError ''TLV read error'')
   | (Inr (typ, inner), _) \<Rightarrow>
       if typ \<noteq> NAME then Inl (NameError ''expected NAME TLV type 7'') else name_decode inner)"

section \<open>URI parsing\<close>

definition is_ascii_digit :: "u8 \<Rightarrow> bool" where
  "is_ascii_digit b \<longleftrightarrow> 48 \<le> b \<and> b \<le> 57"

definition to_digit_16 :: "u8 \<Rightarrow> u32 option" where
  "to_digit_16 b =
     (if 48 \<le> b \<and> b \<le> 57 then Some (ucast b - 48)
      else if 97 \<le> b \<and> b \<le> 102 then Some (ucast b - 87)
      else if 65 \<le> b \<and> b \<le> 70 then Some (ucast b - 55)
      else None)"

fun parse_hex_chunks :: "bytes \<Rightarrow> bytes option" where
  "parse_hex_chunks (a # b # rest) = (case (to_digit_16 a, to_digit_16 b) of
     (Some hi, Some lo) \<Rightarrow> map_option (Cons (ucast (push_bit 4 hi OR lo))) (parse_hex_chunks rest)
   | _ \<Rightarrow> None)"
| "parse_hex_chunks [a] = None"
| "parse_hex_chunks [] = Some []"

definition parse_hex :: "bytes \<Rightarrow> bytes option" where
  "parse_hex s = (if length s mod 2 \<noteq> 0 then None else parse_hex_chunks s)"

definition hex_digit :: "u8 \<Rightarrow> u8 option" where
  "hex_digit b =
     (if 48 \<le> b \<and> b \<le> 57 then Some (b - 48)
      else if 65 \<le> b \<and> b \<le> 70 then Some (b - 65 + 10)
      else if 97 \<le> b \<and> b \<le> 102 then Some (b - 97 + 10)
      else None)"

fun percent_decode :: "bytes \<Rightarrow> bytes option" where
  "percent_decode [] = Some []"
| "percent_decode (b # bs) =
     (if b = 0x25 then
        case bs of
          h # l # rest \<Rightarrow> (case (hex_digit h, hex_digit l) of
            (Some hi, Some lo) \<Rightarrow> map_option (Cons (push_bit 4 hi OR lo)) (percent_decode rest)
          | _ \<Rightarrow> None)
        | _ \<Rightarrow> None
      else map_option (Cons b) (percent_decode bs))"

definition decode_uri_value :: "bytes \<Rightarrow> name_error + bytes" where
  "decode_uri_value s = (case percent_decode s of
     None \<Rightarrow> Inl (NameError ''invalid percent-encoding'')
   | Some decoded \<Rightarrow>
       if list_all (\<lambda>b. b = 0x2E) decoded then
         if length decoded < 3 then Inl (NameError ''component of one or two periods is illegal'')
         else Inr (drop 3 decoded)
       else Inr decoded)"

text \<open>\<open>str::parse::<u64>\<close>: an optional \<open>+\<close>, at least one decimal digit, no overflow.\<close>

definition parse_u64 :: "bytes \<Rightarrow> u64 option" where
  "parse_u64 s = (let ds = (case s of b # rest \<Rightarrow> if b = 0x2B \<and> rest \<noteq> [] then rest else s | [] \<Rightarrow> [])
     in if ds = [] \<or> \<not> list_all is_ascii_digit ds then None
        else let n = foldl (\<lambda>acc b. acc * 10 + (unat b - 48)) 0 ds in
          if n < 2 ^ 64 then Some (word_of_nat n) else None)"

definition strip_prefix :: "bytes \<Rightarrow> bytes \<Rightarrow> bytes option" where
  "strip_prefix pre s = (if take (length pre) s = pre then Some (drop (length pre) s) else None)"

definition split_typed_prefix :: "bytes \<Rightarrow> (bytes \<times> bytes) option" where
  "split_typed_prefix part = (case position (\<lambda>b. b = 0x3D) part of
     None \<Rightarrow> None
   | Some eq \<Rightarrow> let head = take eq part; tail = drop eq part in
       if head \<noteq> [] \<and> list_all is_ascii_digit head then Some (head, drop 1 tail) else None)"

definition parse_integer_prefix ::
  "bytes \<Rightarrow> bytes \<Rightarrow> u64 \<Rightarrow> (unit + name_component) option" where
  "parse_integer_prefix part pre typ = (case strip_prefix pre part of
     None \<Rightarrow> None
   | Some rest \<Rightarrow> Some (case parse_u64 rest of
       Some n \<Rightarrow> Inr (NameComponent typ (encode_nonneg_integer n))
     | None \<Rightarrow> (case percent_decode part of Some d \<Rightarrow> Inr (generic d) | None \<Rightarrow> Inl ())))"

definition INTEGER_PREFIXES :: "(bytes \<times> u64) list" where
  "INTEGER_PREFIXES = [(ascii ''seg='', SEGMENT), (ascii ''v='', VERSION),
     (ascii ''off='', BYTE_OFFSET), (ascii ''t='', TIMESTAMP), (ascii ''seq='', SEQUENCE_NUM)]"

fun parse_integer_prefixes :: "bytes \<Rightarrow> (bytes \<times> u64) list \<Rightarrow> (unit + name_component) option" where
  "parse_integer_prefixes part [] = None"
| "parse_integer_prefixes part ((pre, typ) # rest) =
     (case parse_integer_prefix part pre typ of
        Some r \<Rightarrow> Some r
      | None \<Rightarrow> parse_integer_prefixes part rest)"

definition parse_component :: "bytes \<Rightarrow> name_error + name_component" where
  "parse_component part =
     (case parse_integer_prefixes part INTEGER_PREFIXES of
        Some (Inr c) \<Rightarrow> Inr c
      | Some (Inl _) \<Rightarrow> Inl (NameError ''invalid percent-encoding'')
      | None \<Rightarrow>
     (case strip_prefix (ascii ''sha256digest='') part of
        Some hex \<Rightarrow> (case parse_hex hex of
          None \<Rightarrow> Inl (NameError ''invalid sha256digest hex'')
        | Some v \<Rightarrow> Inr (NameComponent IMPLICIT_SHA256 v))
      | None \<Rightarrow>
     (case strip_prefix (ascii ''params-sha256='') part of
        Some hex \<Rightarrow> (case parse_hex hex of
          None \<Rightarrow> Inl (NameError ''invalid params-sha256 hex'')
        | Some v \<Rightarrow> Inr (NameComponent PARAMETERS_SHA256 v))
      | None \<Rightarrow>
     (case strip_prefix (ascii ''keyword='') part of
        Some rest \<Rightarrow> (case percent_decode rest of
          None \<Rightarrow> Inl (NameError ''invalid percent-encoding'')
        | Some v \<Rightarrow> Inr (NameComponent KEYWORD v))
      | None \<Rightarrow>
     (case split_typed_prefix part of
        Some (typ_str, val_str) \<Rightarrow> (case parse_u64 typ_str of
          None \<Rightarrow> Inl (NameError ''invalid typed-component TLV-TYPE'')
        | Some typ \<Rightarrow> (case decode_uri_value val_str of
            Inl e \<Rightarrow> Inl e
          | Inr v \<Rightarrow> Inr (NameComponent typ v)))
      | None \<Rightarrow> (case decode_uri_value part of Inl e \<Rightarrow> Inl e | Inr v \<Rightarrow> Inr (generic v)))))))"

text \<open>\<open>str::trim\<close>: the UTF-8 forms of the characters with the Unicode property White_Space,
  removed from both ends, and \<open>str::split\<close>.\<close>

definition white_space :: "bytes list" where
  "white_space = [[9], [10], [11], [12], [13], [32], [0xC2, 0x85], [0xC2, 0xA0],
     [0xE1, 0x9A, 0x80], [0xE2, 0x80, 0x80], [0xE2, 0x80, 0x81], [0xE2, 0x80, 0x82],
     [0xE2, 0x80, 0x83], [0xE2, 0x80, 0x84], [0xE2, 0x80, 0x85], [0xE2, 0x80, 0x86],
     [0xE2, 0x80, 0x87], [0xE2, 0x80, 0x88], [0xE2, 0x80, 0x89], [0xE2, 0x80, 0x8A],
     [0xE2, 0x80, 0xA8], [0xE2, 0x80, 0xA9], [0xE2, 0x80, 0xAF], [0xE2, 0x81, 0x9F],
     [0xE3, 0x80, 0x80]]"

function trim_with :: "bytes list \<Rightarrow> bytes \<Rightarrow> bytes" where
  "trim_with ws s = (case find (\<lambda>w. w \<noteq> [] \<and> take (length w) s = w) ws of
     None \<Rightarrow> s
   | Some w \<Rightarrow> trim_with ws (drop (length w) s))"
  by pat_completeness auto
termination
proof (relation "measure (\<lambda>(ws, s). length s)")
  fix ws s w
  assume "find (\<lambda>w. w \<noteq> [] \<and> take (length w) s = w) ws = Some w"
  then have "w \<noteq> []" "take (length w) s = w"
    by (auto simp: find_Some_iff)
  then have "s \<noteq> []" "length w > 0" by auto
  then show "((ws, drop (length w) s), (ws, s)) \<in> measure (\<lambda>(ws, s). length s)"
    by simp
qed simp

declare trim_with.simps [simp del]

definition trim :: "bytes \<Rightarrow> bytes" where
  "trim s = rev (trim_with (map rev white_space) (rev (trim_with white_space s)))"

fun str_split :: "u8 \<Rightarrow> bytes \<Rightarrow> bytes list" where
  "str_split c [] = [[]]"
| "str_split c (b # bs) =
     (if b = c then [] # str_split c bs
      else case str_split c bs of p # ps \<Rightarrow> (b # p) # ps | [] \<Rightarrow> [[b]])"

fun parse_parts :: "bytes list \<Rightarrow> name_error + name" where
  "parse_parts [] = Inr []"
| "parse_parts (part # parts) =
     (if part = [] then parse_parts parts
      else case parse_component part of
        Inl e \<Rightarrow> Inl e
      | Inr c \<Rightarrow> (case parse_parts parts of Inl e \<Rightarrow> Inl e | Inr cs \<Rightarrow> Inr (c # cs)))"

definition from_str :: "bytes \<Rightarrow> name_error + name" where
  "from_str s0 = (let s = trim s0 in
     if s = [] \<or> s = [0x2F] then Inr []
     else if hd s \<noteq> 0x2F then Inl (NameError (''name must start with '' @ [CHR 0x27, CHR 0x2F, CHR 0x27]))
     else parse_parts (str_split 0x2F (tl s)))"

definition name_from :: "bytes \<Rightarrow> name" where
  "name_from s = (case from_str s of Inr n \<Rightarrow> n | Inl _ \<Rightarrow> [])"

section \<open>URI printing\<close>

definition is_unreserved :: "u8 \<Rightarrow> bool" where
  "is_unreserved b \<longleftrightarrow> 48 \<le> b \<and> b \<le> 57 \<or> 65 \<le> b \<and> b \<le> 90 \<or> 97 \<le> b \<and> b \<le> 122
     \<or> b = 0x2D \<or> b = 0x2E \<or> b = 0x5F \<or> b = 0x7E"

definition hex_lower :: "u8 \<Rightarrow> u8" where
  "hex_lower d = (if d < 10 then d + 48 else d + 87)"

definition hex_upper :: "u8 \<Rightarrow> u8" where
  "hex_upper d = (if d < 10 then d + 48 else d + 55)"

definition percent_encode_component :: "bytes \<Rightarrow> bytes" where
  "percent_encode_component val = concat (map (\<lambda>b.
     if is_unreserved b then [b] else [0x25, hex_upper (drop_bit 4 b), hex_upper (b AND 0xF)]) val)"

definition write_uri_value :: "bytes \<Rightarrow> bytes" where
  "write_uri_value val =
     (if list_all (\<lambda>b. b = 0x2E) val then replicate (length val + 3) 0x2E
      else percent_encode_component val)"

definition show_hex :: "bytes \<Rightarrow> bytes" where
  "show_hex val = concat (map (\<lambda>b. [hex_lower (drop_bit 4 b), hex_lower (b AND 0xF)]) val)"

definition ascii_digit :: "nat \<Rightarrow> u8" where
  "ascii_digit d = word_of_nat (48 + d)"

definition show_u64 :: "u64 \<Rightarrow> bytes" where
  "show_u64 v = map ascii_digit (dec_digits (unat v))"

definition component_display :: "name_component \<Rightarrow> bytes" where
  "component_display c =
     (if comp_typ c = IMPLICIT_SHA256 then ascii ''sha256digest='' @ show_hex (comp_val c)
      else if comp_typ c = PARAMETERS_SHA256 then ascii ''params-sha256='' @ show_hex (comp_val c)
      else if comp_typ c = KEYWORD then ascii ''keyword='' @ percent_encode_component (comp_val c)
      else if comp_typ c \<in> {SEGMENT, BYTE_OFFSET, VERSION, TIMESTAMP, SEQUENCE_NUM} then
        (case canonical_nonneg_integer (comp_val c) of
           Some n \<Rightarrow>
             (if comp_typ c = SEGMENT then ascii ''seg''
              else if comp_typ c = BYTE_OFFSET then ascii ''off''
              else if comp_typ c = VERSION then ascii ''v''
              else if comp_typ c = TIMESTAMP then ascii ''t''
              else ascii ''seq'') @ ascii ''='' @ show_u64 n
         | None \<Rightarrow> show_u64 (comp_typ c) @ ascii ''='' @ write_uri_value (comp_val c))
      else if comp_typ c = GENERIC_NAME_COMPONENT then write_uri_value (comp_val c)
      else show_u64 (comp_typ c) @ ascii ''='' @ write_uri_value (comp_val c))"

fun display_components :: "nat \<Rightarrow> name \<Rightarrow> bytes" where
  "display_components i [] = []"
| "display_components i (c # cs) =
     (if i > 0 then ascii ''/'' else []) @ component_display c @ display_components (i + 1) cs"

definition name_display :: "name \<Rightarrow> bytes" where
  "name_display n = ascii ''/'' @ display_components 0 n"

section \<open>KeyLocator\<close>

datatype key_locator = KlName name | KlKeyDigest bytes

definition key_locator_encode :: "key_locator \<Rightarrow> bytes" where
  "key_locator_encode kl = finish (write_nested KEY_LOCATOR (\<lambda>inner. case kl of
       KlName n \<Rightarrow> write_nested NAME (write_components n) inner
     | KlKeyDigest digest \<Rightarrow> write_tlv KEY_DIGEST digest inner) writer_new)"

definition key_locator_decode_from ::
  "tlv_reader \<Rightarrow> (tlv_codec_error + key_locator) \<times> tlv_reader" where
  "key_locator_decode_from r = (case read_tlv r of
     (Inl e, r1) \<Rightarrow> (Inl (CodecTlv e), r1)
   | (Inr (typ, val), r1) \<Rightarrow>
       if typ \<noteq> KEY_LOCATOR then (Inl (UnexpectedType KEY_LOCATOR typ), r1)
       else let inner = reader_new val in
         if reader_is_empty inner then (Inl (CodecMissingField KEY_LOCATOR), r1)
         else (case fst (read_tlv inner) of
           Inl e \<Rightarrow> (Inl (CodecTlv e), r1)
         | Inr (kt, kv) \<Rightarrow>
             if kt = NAME then
               (case name_decode kv of
                  Inl _ \<Rightarrow> (Inl (MalformedField NAME), r1)
                | Inr n \<Rightarrow> (Inr (KlName n), r1))
             else if kt = KEY_DIGEST then (Inr (KlKeyDigest kv), r1)
             else (Inl (UnexpectedType NAME kt), r1)))"

section \<open>The canonical order is linear\<close>

lemma then_with_simps [simp]:
  "then_with a b = Less \<longleftrightarrow> a = Less \<or> a = Equal \<and> b = Less"
  "then_with a b = Equal \<longleftrightarrow> a = Equal \<and> b = Equal"
  "then_with a b = Greater \<longleftrightarrow> a = Greater \<or> a = Equal \<and> b = Greater"
  by (cases a; simp)+

lemma ord_cmp_simps [simp]:
  "ord_cmp a b = Less \<longleftrightarrow> a < b" "ord_cmp a b = Equal \<longleftrightarrow> a = b" "ord_cmp a b = Greater \<longleftrightarrow> b < a"
  by (auto simp: ord_cmp_def)

lemma component_cmp_Equal [simp]: "component_cmp a b = Equal \<longleftrightarrow> a = b"
  by (cases a; cases b) (auto simp: component_cmp_def)

lemma component_cmp_refl [simp]: "component_cmp a a = Equal"
  by simp

lemma component_cmp_Greater: "component_cmp a b = Greater \<longleftrightarrow> component_cmp b a = Less"
  by (auto simp: component_cmp_def)

lemma component_cmp_trans:
  "component_cmp a b = Less \<Longrightarrow> component_cmp b c = Less \<Longrightarrow> component_cmp a c = Less"
  by (auto simp: component_cmp_def)

lemma component_cmp_irrefl: "component_cmp a a \<noteq> Less"
  by (simp add: component_cmp_def)

instantiation name_component :: linorder
begin

definition less_name_component_def: "(a :: name_component) < b \<longleftrightarrow> component_cmp a b = Less"

definition less_eq_name_component_def: "(a :: name_component) \<le> b \<longleftrightarrow> component_cmp a b \<noteq> Greater"

instance
proof
  fix a b c :: name_component
  have le: "x \<le> y \<longleftrightarrow> x < y \<or> x = y" for x y :: name_component
    by (cases "component_cmp x y")
      (auto simp: less_name_component_def less_eq_name_component_def component_cmp_irrefl)
  have tr: "x < y \<Longrightarrow> y < z \<Longrightarrow> x < z" for x y z :: name_component
    using component_cmp_trans by (simp add: less_name_component_def)
  have ir: "\<not> x < x" for x :: name_component
    by (simp add: less_name_component_def component_cmp_irrefl)
  have as: "x < y \<Longrightarrow> \<not> y < x" for x y :: name_component
    using tr ir by blast
  show "a < b \<longleftrightarrow> a \<le> b \<and> \<not> b \<le> a"
    using as [of a b] ir [of a] by (auto simp: le)
  show "a \<le> a" "a \<le> b \<Longrightarrow> b \<le> a \<Longrightarrow> a = b"
    using as [of a b] by (auto simp: le)
  show "a \<le> b \<Longrightarrow> b \<le> c \<Longrightarrow> a \<le> c"
    using tr [of a b c] by (auto simp: le)
  show "a \<le> b \<or> b \<le> a"
    using as [of a b] by (auto simp: less_eq_name_component_def less_name_component_def component_cmp_Greater)
qed

end

lemma name_cmp_Less: "name_cmp a b = Less \<longleftrightarrow> a < b"
  by (induction a b rule: name_cmp.induct) (auto simp: less_name_component_def)

lemma name_cmp_Equal: "name_cmp a b = Equal \<longleftrightarrow> a = b"
  by (induction a b rule: name_cmp.induct) auto

lemma append_le: "p \<le> p @ (q :: 'a::order list)"
  by (induction p) auto

lemma prefix_le: "prefix p n \<Longrightarrow> p \<le> (n :: 'a::order list)"
  by (auto simp: prefix_def append_le)

lemma has_prefix_iff [simp]: "has_prefix n p \<longleftrightarrow> prefix p n"
proof -
  have "list_all (\<lambda>(a, b). a = b) (zip n p) \<longleftrightarrow> prefix p n" if "length p \<le> length n"
    using that by (induction n p rule: list_induct2') auto
  then show ?thesis
    by (auto simp: has_prefix_def dest: prefix_length_le)
qed

section \<open>The TLV codec\<close>

definition name_elems :: "name \<Rightarrow> (u64 \<times> bytes) list" where
  "name_elems n = map (\<lambda>c. (comp_typ c, comp_val c)) n"

definition name_ok :: "name \<Rightarrow> bool" where
  "name_ok n \<longleftrightarrow> types_ok (name_elems n)"

lemma name_elems_simps [simp]:
  "name_elems [] = []" "name_elems (c # n) = (comp_typ c, comp_val c) # name_elems n"
  by (simp_all add: name_elems_def)

lemma wbuf_write_components [codec_simps]:
  "wbuf (write_components n w) = wbuf w @ elems_enc (name_elems n)"
  by (induction n arbitrary: w) (simp_all add: write_components_def wbuf_write_tlv)

lemma wbuf_write_name [codec_simps]:
  "wbuf (write_name n w) = wbuf w @ tlv_enc NAME (elems_enc (name_elems n))"
  by (simp add: write_name_def codec_simps)

lemma flow_fold_collect:
  "flow_fold (\<lambda>s t v. Continue (s @ [g t v])) fin s es = fin (s @ map (\<lambda>(t, v). g t v) es)"
  by (induction es arbitrary: s) auto

lemma name_decode_eq:
  "name_decode val = (case tlv_elems (reader_new val) of
     (es, None) \<Rightarrow> Inr (map (\<lambda>(t, v). NameComponent t v) es)
   | (es, Some e) \<Rightarrow> Inl (NameError ''TLV read error''))"
  unfolding name_decode_def tlv_loop_flow_fold
  by (simp add: flow_fold_collect split: prod.splits option.splits)

lemma name_elems_inverse:
  "map (\<lambda>(t, v). NameComponent t v) (name_elems n) = n"
  "name_elems (map (\<lambda>(t, v). NameComponent t v) es) = es"
  by (induction n) (auto simp: name_elems_def comp_def case_prod_beta)

lemma name_decode_enc:
  assumes "name_ok n" "length (elems_enc (name_elems n)) < 2 ^ 63"
  shows "name_decode (elems_enc (name_elems n)) = Inr n"
  using assms
  by (simp add: name_decode_eq name_ok_def tlv_elems_enc [of _ "name_elems n"] reader_wf_new
      name_elems_inverse)

lemma name_decode_canonical:
  assumes "name_decode val = Inr n" "length val < 2 ^ 63"
  shows "name_ok n \<and> val = elems_enc (name_elems n)"
proof -
  obtain es where es: "tlv_elems (reader_new val) = (es, None)"
      "n = map (\<lambda>(t, v). NameComponent t v) es"
    using assms(1) by (auto simp: name_decode_eq split: prod.splits option.splits)
  with tlv_elems_canonical [OF reader_wf_new [OF assms(2)] es(1)] show ?thesis
    by (auto simp: name_ok_def name_elems_inverse)
qed

section \<open>Reading back a printed name\<close>

lemma u8_lt16_cases:
  assumes "(d :: u8) < 16"
  shows "d \<in> {0, 1, 2, 3, 4, 5, 6, 7, 8, 9, 10, 11, 12, 13, 14, 15}"
proof -
  have "unat d < 16" using assms by (simp add: word_less_nat_alt)
  then have "unat d \<in> {0, 1, 2, 3, 4, 5, 6, 7, 8, 9, 10, 11, 12, 13, 14, 15}"
    unfolding insert_iff empty_iff by presburger
  then show ?thesis by (auto simp: word_unat_eq_iff)
qed

lemma nibble_lt: "drop_bit 4 (b :: u8) < 16" "(b :: u8) AND 0xF < 16"
proof -
  show "drop_bit 4 b < 16"
    unfolding word_less_nat_alt unsigned_drop_bit_eq
    using unat_u8_lt [of b] by (simp add: drop_bit_eq_div take_bit_eq_mod)
  have "b AND 0xF \<le> 0xF" by (rule word_and_le1)
  also have "\<dots> < (16 :: u8)" by simp
  finally show "b AND 0xF < 16" .
qed

lemma nibbles_join: "push_bit 4 (drop_bit 4 b) OR (b AND 0xF) = (b :: u8)"
proof -
  have "b AND 0xF = take_bit 4 b"
    by (simp add: take_bit_eq_mask mask_numeral)
  then show ?thesis
    by (auto intro!: bit_word_eqI simp: bit_simps)
qed

definition plain :: "u8 \<Rightarrow> bool" where
  "plain b \<longleftrightarrow> 33 \<le> b \<and> b \<le> 126 \<and> b \<noteq> 0x2F"

lemma hex_of_nibble_all:
  assumes "(d :: u8) < 16"
  shows "hex_digit (hex_upper d) = Some d \<and> to_digit_16 (hex_lower d) = Some (ucast d) \<and>
    plain (hex_upper d) \<and> plain (hex_lower d) \<and> hex_upper d \<noteq> 0x3D"
  using u8_lt16_cases [OF assms] unfolding insert_iff empty_iff
  by (elim disjE) (simp_all add: hex_digit_def to_digit_16_def hex_upper_def hex_lower_def plain_def)

lemma hex_of_nibble:
  "hex_digit (hex_upper (drop_bit 4 b)) = Some (drop_bit 4 b)"
  "hex_digit (hex_upper (b AND 0xF)) = Some (b AND 0xF)"
  "to_digit_16 (hex_lower (drop_bit 4 b)) = Some (ucast (drop_bit 4 b))"
  "to_digit_16 (hex_lower (b AND 0xF)) = Some (ucast (b AND 0xF))"
  "plain (hex_upper (drop_bit 4 b))" "plain (hex_upper (b AND 0xF))"
  "plain (hex_lower (drop_bit 4 b))" "plain (hex_lower (b AND 0xF))"
  "hex_upper (drop_bit 4 b) \<noteq> 0x3D" "hex_upper (b AND 0xF) \<noteq> 0x3D"
  using hex_of_nibble_all [OF nibble_lt(1) [of b]] hex_of_nibble_all [OF nibble_lt(2) [of b]]
  by blast+

lemma unreserved_plain: "is_unreserved b \<Longrightarrow> plain b \<and> b \<noteq> 0x25 \<and> b \<noteq> 0x3D"
  by (auto simp: is_unreserved_def plain_def word_le_nat_alt word_unat_eq_iff)

lemma percent_encode_simps [simp]:
  "percent_encode_component [] = []"
  "percent_encode_component (b # bs) =
     (if is_unreserved b then [b] else [0x25, hex_upper (drop_bit 4 b), hex_upper (b AND 0xF)])
     @ percent_encode_component bs"
  by (simp_all add: percent_encode_component_def)

lemma percent_decode_encode [simp]: "percent_decode (percent_encode_component v) = Some v"
  by (induction v) (auto simp: hex_of_nibble nibbles_join dest: unreserved_plain)

lemma percent_encode_plain:
  "b \<in> set (percent_encode_component v) \<Longrightarrow> plain b \<and> b \<noteq> 0x3D"
  by (induction v)
    (auto simp: hex_of_nibble dest: unreserved_plain split: if_splits, auto simp: plain_def)

lemma percent_decode_dots: "percent_decode (replicate n 0x2E) = Some (replicate n 0x2E)"
  by (induction n) auto

lemma decode_write_uri_value [simp]: "decode_uri_value (write_uri_value v) = Inr v"
proof (cases "list_all (\<lambda>b. b = 0x2E) v")
  case True
  then have "v = replicate (length v) 0x2E"
    by (induction v) auto
  with True show ?thesis
    by (simp add: decode_uri_value_def write_uri_value_def percent_decode_dots list_all_iff del: replicate_Suc)
next
  case False
  then show ?thesis by (simp add: decode_uri_value_def write_uri_value_def)
qed

lemma write_uri_value_plain: "b \<in> set (write_uri_value v) \<Longrightarrow> plain b \<and> b \<noteq> 0x3D"
  by (auto simp: write_uri_value_def plain_def dest: percent_encode_plain split: if_splits)

lemma write_uri_value_nonempty [simp]: "write_uri_value v \<noteq> []"
  by (cases v) (auto simp: write_uri_value_def)

lemma show_hex_simps [simp]:
  "show_hex [] = []"
  "show_hex (b # bs) = hex_lower (drop_bit 4 b) # hex_lower (b AND 0xF) # show_hex bs"
  by (simp_all add: show_hex_def)

lemma ucast_nibbles: "ucast (push_bit 4 (ucast a :: u32) OR ucast b) = (push_bit 4 a OR b :: u8)"
  by (auto intro!: bit_word_eqI simp: bit_simps)

lemma parse_show_hex [simp]: "parse_hex (show_hex v) = Some v"
proof -
  have "length (show_hex v) mod 2 = 0" by (induction v) auto
  moreover have "parse_hex_chunks (show_hex v) = Some v"
    by (induction v) (auto simp: hex_of_nibble ucast_nibbles nibbles_join)
  ultimately show ?thesis by (simp add: parse_hex_def)
qed

lemma show_hex_plain: "b \<in> set (show_hex v) \<Longrightarrow> plain b"
  by (induction v) (auto simp: hex_of_nibble)

lemma digit_byte:
  assumes "d < 10"
  shows "is_ascii_digit (ascii_digit d)" "unat (ascii_digit d) = 48 + d"
proof -
  show u: "unat (ascii_digit d) = 48 + d"
    unfolding ascii_digit_def unat_of_nat using assms by simp
  show "is_ascii_digit (ascii_digit d)"
    using assms by (simp add: is_ascii_digit_def word_le_nat_alt u)
qed

lemma show_u64_digits: "b \<in> set (show_u64 v) \<Longrightarrow> is_ascii_digit b"
  by (auto simp: show_u64_def digit_byte dec_digits_range)

lemma show_u64_nonempty [simp]: "show_u64 v \<noteq> []"
  by (simp add: show_u64_def)

lemma digit_plain: "is_ascii_digit b \<Longrightarrow> plain b \<and> b \<noteq> 0x3D \<and> b \<noteq> 0x2B"
  by (auto simp: is_ascii_digit_def plain_def word_le_nat_alt word_unat_eq_iff)

lemma foldl_digits:
  "\<forall>d \<in> set ds. d < 10 \<Longrightarrow>
   foldl (\<lambda>acc b. acc * 10 + (unat b - 48)) n (map ascii_digit ds)
   = foldl (\<lambda>acc d. acc * 10 + d) n ds"
  by (induction ds arbitrary: n) (auto simp: digit_byte)

lemma parse_show_u64 [simp]: "parse_u64 (show_u64 v) = Some v"
proof -
  obtain b bs where bs: "show_u64 v = b # bs"
    by (cases "show_u64 v") auto
  have "b \<noteq> 0x2B"
    using show_u64_digits [of b v] digit_plain bs by auto
  moreover have "list_all is_ascii_digit (show_u64 v)"
    by (auto simp: list_all_iff show_u64_digits)
  moreover have "foldl (\<lambda>acc b. acc * 10 + (unat b - 48)) 0 (show_u64 v) = unat v"
    using foldl_digits [of "dec_digits (unat v)" 0] dec_digits_range [of _ "unat v"]
    by (simp add: show_u64_def dec_digits_value)
  ultimately show ?thesis
    using bs unat_le_max64 [of v] by (simp add: parse_u64_def)
qed

lemma strip_prefix_simps [simp]:
  "strip_prefix [] s = Some s" "strip_prefix (a # p) [] = None"
  "strip_prefix (a # p) (b # s) = (if a = b then strip_prefix p s else None)"
  by (auto simp: strip_prefix_def)

lemma strip_prefix_absent: "x \<in> set pre \<Longrightarrow> x \<notin> set s \<Longrightarrow> strip_prefix pre s = None"
  using in_set_takeD [of x "length pre" s] by (auto simp: strip_prefix_def)

lemma strip_prefix_digit: "is_ascii_digit b \<Longrightarrow> \<not> is_ascii_digit a \<Longrightarrow> strip_prefix (a # p) (b # s) = None"
  by auto

lemma position_append:
  "\<forall>x \<in> set xs. \<not> P x \<Longrightarrow> P y \<Longrightarrow> position P (xs @ y # ys) = Some (length xs)"
  by (induction xs) auto

lemma split_typed_prefix_shown [simp]:
  "split_typed_prefix (show_u64 t @ 0x3D # v) = Some (show_u64 t, v)"
proof -
  have "position (\<lambda>b. b = 0x3D) (show_u64 t @ 0x3D # v) = Some (length (show_u64 t))"
    by (rule position_append) (auto dest: show_u64_digits digit_plain)
  then show ?thesis
    by (simp add: split_typed_prefix_def list_all_iff show_u64_digits)
qed

lemma parse_component_typed:
  "parse_component (show_u64 t @ 0x3D # write_uri_value v) = Inr (NameComponent t v)"
proof -
  obtain b bs where b: "show_u64 t = b # bs" "is_ascii_digit b"
    using show_u64_nonempty [of t] show_u64_digits [of _ t] by (cases "show_u64 t") auto
  have "\<not> is_ascii_digit x" if "x \<in> {115, 118, 111, 116, 112, 107}" for x
    using that by (auto simp: is_ascii_digit_def)
  then have "b \<notin> {115, 118, 111, 116, 112, 107}" using b(2) by blast
  then show ?thesis
    using split_typed_prefix_shown [of t "write_uri_value v"] parse_show_u64 [of t] b(1)
    by (simp add: parse_component_def INTEGER_PREFIXES_def parse_integer_prefix_def
        del: split_typed_prefix_shown parse_show_u64)
qed

lemma parse_component_generic:
  "parse_component (write_uri_value v) = Inr (generic v)"
proof -
  have no_eq: "0x3D \<notin> set (write_uri_value v)"
    using write_uri_value_plain by blast
  have "strip_prefix pre (write_uri_value v) = None" if "0x3D \<in> set pre" for pre
    using strip_prefix_absent [OF that no_eq] .
  moreover have "position (\<lambda>b. b = 0x3D) (write_uri_value v) = None"
    using no_eq by (auto simp: position_None)
  ultimately show ?thesis
    by (simp add: parse_component_def INTEGER_PREFIXES_def parse_integer_prefix_def split_typed_prefix_def)
qed

lemma parse_component_display [simp]: "parse_component (component_display c) = Inr c"
proof (cases c)
  case (NameComponent t v)
  consider "t \<in> {IMPLICIT_SHA256, PARAMETERS_SHA256, KEYWORD}"
    | n where "t \<in> {SEGMENT, BYTE_OFFSET, VERSION, TIMESTAMP, SEQUENCE_NUM}" "v = encode_nonneg_integer n"
    | "component_display c = show_u64 t @ 0x3D # write_uri_value v"
    | "t = GENERIC_NAME_COMPONENT" "component_display c = write_uri_value v"
    using NameComponent
    by (fastforce simp: component_display_def canonical_nonneg_integer_def Let_def
        split: option.splits if_splits)
  then show ?thesis
  proof cases
    case 1
    then show ?thesis
      using NameComponent
      by (auto simp: component_display_def parse_component_def INTEGER_PREFIXES_def parse_integer_prefix_def)
  next
    case 2
    then show ?thesis
      using NameComponent
      by (auto simp: component_display_def parse_component_def INTEGER_PREFIXES_def
          parse_integer_prefix_def canonical_nni.dec_enc)
  next
    case 3
    then show ?thesis using NameComponent by (simp add: parse_component_typed)
  next
    case 4
    then show ?thesis using NameComponent by (simp add: parse_component_generic generic_def)
  qed
qed

lemma show_u64_plain: "b \<in> set (show_u64 v) \<Longrightarrow> plain b"
  using show_u64_digits digit_plain by blast

lemma component_display_plain: "b \<in> set (component_display c) \<Longrightarrow> plain b"
  unfolding component_display_def
  by (auto split: if_splits option.splits
      dest: show_hex_plain percent_encode_plain write_uri_value_plain show_u64_plain)
    (simp_all add: plain_def)

lemma component_display_nonempty [simp]: "component_display c \<noteq> []"
  by (auto simp: component_display_def split: option.splits)

lemma trim_with_plain:
  assumes "\<forall>b \<in> set s. 33 \<le> b \<and> b \<le> 126" and "\<forall>w \<in> set ws. \<exists>b \<in> set w. \<not> (33 \<le> b \<and> b \<le> 126)"
  shows "trim_with ws s = s"
proof -
  have "\<not> (w \<noteq> [] \<and> take (length w) s = w)" if "w \<in> set ws" for w
    using assms that by (metis in_set_takeD)
  then have "find (\<lambda>w. w \<noteq> [] \<and> take (length w) s = w) ws = None"
    by (auto simp: find_None_iff)
  then show ?thesis by (simp add: trim_with.simps [of ws s])
qed

lemma trim_plain:
  assumes "\<forall>b \<in> set s. 33 \<le> b \<and> b \<le> 126"
  shows "trim s = s"
proof -
  have "\<forall>w \<in> set white_space. \<exists>b \<in> set w. \<not> (33 \<le> b \<and> b \<le> 126)"
    by (simp add: white_space_def)
  with assms show ?thesis
    by (simp add: trim_def trim_with_plain)
qed

lemma str_split_none [simp]: "c \<notin> set xs \<Longrightarrow> str_split c xs = [xs]"
  by (induction xs) auto

lemma str_split_append: "c \<notin> set xs \<Longrightarrow> str_split c (xs @ c # ys) = xs # str_split c ys"
  by (induction xs) auto

lemma no_slash: "0x2F \<notin> set (component_display c)"
  by (auto dest: component_display_plain simp: plain_def)

lemma str_split_display:
  "0x2F \<notin> set x \<Longrightarrow>
   str_split 0x2F (x @ display_components (Suc i) n) = x # map component_display n"
  by (induction n arbitrary: x i) (auto simp: str_split_append no_slash)

lemma parse_parts_display [simp]: "parse_parts (map component_display n) = Inr n"
  by (induction n) auto

lemma display_components_plain:
  "b \<in> set (display_components i n) \<Longrightarrow> 33 \<le> b \<and> b \<le> 126"
  by (induction n arbitrary: i) (auto dest!: component_display_plain simp: plain_def split: if_splits)

section \<open>Properties\<close>

text \<open>C13. Printing and parsing: for every name (typed components, arbitrary bytes, empty and
  all-period values, digests, non-canonical numbers), \<open>name.to_string().parse()\<close> succeeds and
  gives the same name.\<close>

theorem name_uri_roundtrip: "from_str (name_display n) = Inr n"
proof -
  have "trim (name_display n) = name_display n"
    by (rule trim_plain) (auto simp: name_display_def dest: display_components_plain)
  then show ?thesis
    using str_split_display [of "component_display (hd n)" 0 "tl n"] no_slash
    by (cases n) (simp_all add: from_str_def name_display_def)
qed

text \<open>The TLV codec of names is a bijection: \<open>decode\<close> accepts a value (of any length a Rust
  buffer can have) with result \<open>n\<close> exactly when the value is the concatenation of the written
  components of \<open>n\<close> and all their types fit in 32 bits.\<close>

lemma name_decode_iff:
  assumes "length val < 2 ^ 63"
  shows "name_decode val = Inr n \<longleftrightarrow> name_ok n \<and> val = wbuf (write_components n writer_new)"
  using assms name_decode_canonical name_decode_enc by (auto simp: codec_simps)

text \<open>\<open>decode_from_tlv\<close> inverts \<open>encode_to_tlv\<close>, also when other bytes follow the Name
  element, and refuses every element that is not a Name.\<close>

lemma name_tlv_roundtrip:
  assumes "name_ok n" and "length (encode_to_tlv n @ rest) < 2 ^ 63"
  shows "decode_from_tlv (encode_to_tlv n @ rest) = Inr n"
proof -
  let ?v = "elems_enc (name_elems n)"
  have enc: "encode_to_tlv n = tlv_enc NAME ?v"
    by (simp add: encode_to_tlv_def codec_simps)
  have "read_tlv (reader_new (encode_to_tlv n @ rest)) =
      (Inr (NAME, ?v), (reader_new (encode_to_tlv n @ rest))\<lparr>rpos :=
        rpos (reader_new (encode_to_tlv n @ rest)) + length (tlv_enc NAME ?v)\<rparr>)"
    using assms(2) by (intro read_tlv_enc) (simp_all add: reader_wf_new enc)
  moreover have "length ?v < 2 ^ 63"
    using assms(2) by (simp add: enc tlv_enc_def)
  ultimately show ?thesis
    using assms(1) by (simp add: decode_from_tlv_def name_decode_enc)
qed

text \<open>C32. The canonical order of names is the lexicographic order over the linear order of
  components: exactly one of less, equal and greater holds, equal means identical, and
  \<open>has_prefix\<close> implies that the prefix does not come after the name, which is what the sorted
  maps keyed by names rely on for range scans.\<close>

theorem name_cmp_total:
  "(name_cmp a b = Equal \<longleftrightarrow> a = b) \<and> (name_cmp a b = Less \<longleftrightarrow> name_cmp b a = Greater) \<and>
   (name_cmp a b = Less \<and> name_cmp b c = Less \<longrightarrow> name_cmp a c = Less) \<and>
   (has_prefix b a \<longrightarrow> name_cmp a b \<noteq> Greater)"
proof -
  have gr: "name_cmp x y = Greater \<longleftrightarrow> y < x" for x y
    using name_cmp_Less [of x y] name_cmp_Equal [of x y] by (cases "name_cmp x y") auto
  show ?thesis
    using prefix_le [of a b] by (auto simp: name_cmp_Less name_cmp_Equal gr)
qed

theorem name_cmp_total_witness:
  "name_cmp [NameComponent 8 [1]] [NameComponent 8 [1], NameComponent 8 []] \<noteq> Greater"
  using name_cmp_total [of "[NameComponent 8 [1]]" "[NameComponent 8 [1], NameComponent 8 []]" "[]"]
  by simp

end
