(* ===== verification/Ndn_Lp.thy ===== *)
theory Ndn_Lp
  imports Ndn_Name "HOL-Library.Monad_Syntax"
begin

text \<open>
  NDNLPv2 link packets (\<open>src/crates/core/ndn-packet/src/lp\<close>) and Nack reasons
  (\<open>nack.rs\<close>): \<open>LpPacket::decode\<close>, the encoders, and the allocation-free scanners of the
  receive path (\<open>extract_fragment\<close>, \<open>extract_acks\<close>, \<open>peek_lp_name\<close>), which walk the raw bytes with
  checked offsets instead of a \<open>TlvReader\<close>. The lemmas show that the decoder inverts the
  encoders and that the scanners agree with the decoder.
\<close>

abbreviation LP_PACKET :: u64 where "LP_PACKET \<equiv> 0x64"
abbreviation LP_FRAGMENT :: u64 where "LP_FRAGMENT \<equiv> 0x50"
abbreviation LP_SEQUENCE :: u64 where "LP_SEQUENCE \<equiv> 0x51"
abbreviation LP_FRAG_INDEX :: u64 where "LP_FRAG_INDEX \<equiv> 0x52"
abbreviation LP_FRAG_COUNT :: u64 where "LP_FRAG_COUNT \<equiv> 0x53"
abbreviation LP_PIT_TOKEN :: u64 where "LP_PIT_TOKEN \<equiv> 0x62"
abbreviation LP_CONGESTION_MARK :: u64 where "LP_CONGESTION_MARK \<equiv> 0x0340"
abbreviation LP_ACK :: u64 where "LP_ACK \<equiv> 0x0344"
abbreviation LP_TX_SEQUENCE :: u64 where "LP_TX_SEQUENCE \<equiv> 0x0348"
abbreviation LP_NON_DISCOVERY :: u64 where "LP_NON_DISCOVERY \<equiv> 0x034C"
abbreviation LP_PREFIX_ANNOUNCEMENT :: u64 where "LP_PREFIX_ANNOUNCEMENT \<equiv> 0x0350"
abbreviation LP_INCOMING_FACE_ID :: u64 where "LP_INCOMING_FACE_ID \<equiv> 0x032C"
abbreviation LP_NEXT_HOP_FACE_ID :: u64 where "LP_NEXT_HOP_FACE_ID \<equiv> 0x0330"
abbreviation LP_CACHE_POLICY :: u64 where "LP_CACHE_POLICY \<equiv> 0x0334"
abbreviation LP_CACHE_POLICY_TYPE :: u64 where "LP_CACHE_POLICY_TYPE \<equiv> 0x0335"
abbreviation NACK :: u64 where "NACK \<equiv> 0x0320"
abbreviation NACK_REASON :: u64 where "NACK_REASON \<equiv> 0x0321"
abbreviation INTEREST :: u64 where "INTEREST \<equiv> 0x05"
abbreviation DATA :: u64 where "DATA \<equiv> 0x06"

section \<open>Data\<close>

datatype nack_reason = NoRoute | Duplicate | Congestion | NotYet | NackOther u64

definition nack_code :: "nack_reason \<Rightarrow> u64" where
  "nack_code r = (case r of
     Congestion \<Rightarrow> 50 | Duplicate \<Rightarrow> 100 | NoRoute \<Rightarrow> 150 | NotYet \<Rightarrow> 160 | NackOther c \<Rightarrow> c)"

definition nack_from_code :: "u64 \<Rightarrow> nack_reason" where
  "nack_from_code code =
     (if code = 50 then Congestion else if code = 100 then Duplicate
      else if code = 150 then NoRoute else if code = 160 then NotYet else NackOther code)"

definition is_registered :: "nack_reason \<Rightarrow> bool" where
  "is_registered r \<longleftrightarrow> r \<in> {NoRoute, Duplicate, Congestion}"

record nack_header =
  nack_reason :: "nack_reason option"

datatype cache_policy_type = NoCache | CpOther u64

record lp_headers =
  lh_pit_token :: "bytes option"
  lh_congestion_mark :: "u64 option"
  lh_incoming_face_id :: "u64 option"
  lh_next_hop_face_id :: "u64 option"
  lh_cache_policy :: "cache_policy_type option"

record lp_packet =
  lp_fragment :: "bytes option"
  lp_nack :: "nack_header option"
  lp_congestion_mark :: "u64 option"
  lp_sequence :: "u64 option"
  lp_frag_index :: "u64 option"
  lp_frag_count :: "u64 option"
  lp_acks :: "u64 list"
  lp_pit_token :: "bytes option"
  lp_incoming_face_id :: "u64 option"
  lp_next_hop_face_id :: "u64 option"
  lp_cache_policy :: "cache_policy_type option"
  lp_tx_sequence :: "u64 option"
  lp_non_discovery :: bool
  lp_prefix_announcement :: "bytes option"
  lp_al_presence :: "bytes option"
  lp_al_prev_hop_loc :: "bytes option"
  lp_al_data_loc :: "bytes option"

definition is_lp_packet :: "bytes \<Rightarrow> bool" where
  "is_lp_packet raw \<longleftrightarrow> (case raw of [] \<Rightarrow> False | b # _ \<Rightarrow> b = 0x64)"

definition is_critical_tlv_type :: "u64 \<Rightarrow> bool" where
  "is_critical_tlv_type t \<longleftrightarrow> t \<le> 31 \<or> t AND 1 = 1"

fun hex_digits :: "nat \<Rightarrow> nat list" where
  "hex_digits n = (if n < 16 then [n] else hex_digits (n div 16) @ [n mod 16])"

declare hex_digits.simps [simp del]

definition show_hex_u64 :: "u64 \<Rightarrow> string" where
  "show_hex_u64 v = map (\<lambda>d. char_of (if d < 10 then 48 + d else 87 + d)) (hex_digits (unat v))"

section \<open>LpPacket::decode\<close>

definition decode_nack_header :: "bytes \<Rightarrow> packet_error + nack_header" where
  "decode_nack_header val =
     (if val = [] then Inr \<lparr>nack_reason = None\<rparr>
      else tlv_loop (\<lambda>s _ t v _.
          if t = NACK_REASON
          then Return (Inr \<lparr>nack_reason = Some (nack_from_code (be_accumulate 0 v))\<rparr>)
          else Continue s)
        (\<lambda>e. Inl (Tlv e)) (\<lambda>_. Inr \<lparr>nack_reason = None\<rparr>) () (reader_new val))"

definition decode_cache_policy ::
  "bytes \<Rightarrow> cache_policy_type option \<Rightarrow> packet_error + cache_policy_type option" where
  "decode_cache_policy v init =
     tlv_loop (\<lambda>cp _ ct cv _. Continue
         (if ct = LP_CACHE_POLICY_TYPE
          then Some (let code = decode_be_u64 cv in if code = 1 then NoCache else CpOther code)
          else cp))
       (\<lambda>e. Inl (Tlv e)) Inr init (reader_new v)"

record lp_locals =
  ll_pkt :: lp_packet
  ll_last_typ :: "u64 option"
  ll_fragment_seen :: bool

definition lp_packet_empty :: lp_packet where
  "lp_packet_empty = \<lparr>lp_fragment = None, lp_nack = None, lp_congestion_mark = None,
     lp_sequence = None, lp_frag_index = None, lp_frag_count = None, lp_acks = [],
     lp_pit_token = None, lp_incoming_face_id = None, lp_next_hop_face_id = None,
     lp_cache_policy = None, lp_tx_sequence = None, lp_non_discovery = False,
     lp_prefix_announcement = None, lp_al_presence = None, lp_al_prev_hop_loc = None,
     lp_al_data_loc = None\<rparr>"

text \<open>The \<open>match t\<close> of the loop body: what one element adds to the packet.\<close>

definition lp_field :: "lp_packet \<Rightarrow> u64 \<Rightarrow> bytes \<Rightarrow> packet_error + lp_packet" where
  "lp_field p t v =
     (if t = LP_FRAGMENT then Inr (p\<lparr>lp_fragment := Some v\<rparr>)
      else if t = NACK then
        (case decode_nack_header v of Inl e \<Rightarrow> Inl e | Inr h \<Rightarrow> Inr (p\<lparr>lp_nack := Some h\<rparr>))
      else if t = LP_CONGESTION_MARK then Inr (p\<lparr>lp_congestion_mark := Some (decode_be_u64 v)\<rparr>)
      else if t = LP_SEQUENCE then Inr (p\<lparr>lp_sequence := Some (decode_be_u64 v)\<rparr>)
      else if t = LP_FRAG_INDEX then Inr (p\<lparr>lp_frag_index := Some (decode_be_u64 v)\<rparr>)
      else if t = LP_FRAG_COUNT then Inr (p\<lparr>lp_frag_count := Some (decode_be_u64 v)\<rparr>)
      else if t = LP_ACK then Inr (p\<lparr>lp_acks := lp_acks p @ [decode_be_u64 v]\<rparr>)
      else if t = LP_PIT_TOKEN then
        (if v = [] then Inl (MalformedPacket ''PitToken must be at least 1 byte (NDNLPv2)'')
         else Inr (p\<lparr>lp_pit_token := Some v\<rparr>))
      else if t = LP_INCOMING_FACE_ID then Inr (p\<lparr>lp_incoming_face_id := Some (decode_be_u64 v)\<rparr>)
      else if t = LP_NEXT_HOP_FACE_ID then Inr (p\<lparr>lp_next_hop_face_id := Some (decode_be_u64 v)\<rparr>)
      else if t = LP_CACHE_POLICY then
        (case decode_cache_policy v (lp_cache_policy p) of
           Inl e \<Rightarrow> Inl e | Inr cp \<Rightarrow> Inr (p\<lparr>lp_cache_policy := cp\<rparr>))
      else if t = LP_TX_SEQUENCE then Inr (p\<lparr>lp_tx_sequence := Some (decode_be_u64 v)\<rparr>)
      else if t = LP_NON_DISCOVERY then Inr (p\<lparr>lp_non_discovery := True\<rparr>)
      else if t = LP_PREFIX_ANNOUNCEMENT then Inr (p\<lparr>lp_prefix_announcement := Some v\<rparr>)
      else if t = 0x0360 then Inr (p\<lparr>lp_al_presence := Some v\<rparr>)
      else if t = 0x0362 then Inr (p\<lparr>lp_al_prev_hop_loc := Some v\<rparr>)
      else if t = 0x0364 then Inr (p\<lparr>lp_al_data_loc := Some v\<rparr>)
      else if t = INTEREST \<or> t = DATA then
        Inl (MalformedPacket (''bare top-level TLV-TYPE 0x'' @ show_hex_u64 t @
          '' inside LpPacket body is not spec-defined; NDNLPv2 requires LpFragment (0x50)''))
      else if is_critical_tlv_type t then
        Inl (MalformedPacket (''unknown critical LP TLV-TYPE 0x'' @ show_hex_u64 t))
      else Inr p)"

definition lp_order_ok :: "u64 option \<Rightarrow> u64 \<Rightarrow> bool" where
  "lp_order_ok lastt t = (case lastt of
     None \<Rightarrow> True
   | Some prev \<Rightarrow> \<not> (t < prev \<or> (t = prev \<and> \<not> (t = prev \<and> t = LP_ACK))))"

definition lp_body :: "lp_locals \<Rightarrow> u64 \<Rightarrow> bytes \<Rightarrow> (lp_locals, packet_error + lp_packet) flow" where
  "lp_body s t v =
     (let is_terminator = (t = LP_FRAGMENT) in
      if ll_fragment_seen s then
        Return (Inl (MalformedPacket (''LP header appears after Fragment (NDNLPv2 ''
          @ [CHR 0xC2, CHR 0xA7] @ ''Element Order)'')))
      else if \<not> is_terminator \<and> \<not> lp_order_ok (ll_last_typ s) t then
        Return (Inl (MalformedPacket
          ''LP headers out of TLV-TYPE order or non-repeatable header duplicated''))
      else
        let s1 = (if \<not> is_terminator then s\<lparr>ll_last_typ := Some t\<rparr> else s\<lparr>ll_fragment_seen := True\<rparr>) in
        case lp_field (ll_pkt s1) t v of
          Inl e \<Rightarrow> Return (Inl e)
        | Inr p \<Rightarrow> Continue (s1\<lparr>ll_pkt := p\<rparr>))"

definition lp_finish :: "lp_locals \<Rightarrow> packet_error + lp_packet" where
  "lp_finish s =
     (if lp_fragment (ll_pkt s) = None \<and> lp_acks (ll_pkt s) = []
      then Inl (MalformedPacket ''LpPacket has neither fragment nor acks'')
      else Inr (ll_pkt s))"

definition lp_init :: lp_locals where
  "lp_init = \<lparr>ll_pkt = lp_packet_empty, ll_last_typ = None, ll_fragment_seen = False\<rparr>"

definition lp_decode :: "bytes \<Rightarrow> packet_error + lp_packet" where
  "lp_decode raw = (case fst (read_tlv (reader_new raw)) of
     Inl e \<Rightarrow> Inl (Tlv e)
   | Inr (typ, val) \<Rightarrow>
       if typ \<noteq> LP_PACKET then Inl (UnknownPacketType typ)
       else tlv_loop (\<lambda>s _ t v _. lp_body s t v) (\<lambda>e. Inl (Tlv e)) lp_finish lp_init (reader_new val))"

definition is_fragmented :: "lp_packet \<Rightarrow> bool" where
  "is_fragmented p \<longleftrightarrow> (case lp_frag_count p of None \<Rightarrow> False | Some c \<Rightarrow> c > 1)"

definition is_ack_only :: "lp_packet \<Rightarrow> bool" where
  "is_ack_only p \<longleftrightarrow> lp_fragment p = None \<and> lp_acks p \<noteq> []"

section \<open>Encoders\<close>

definition encode_lp_nack_with_pit_token :: "nack_reason \<Rightarrow> bytes \<Rightarrow> bytes option \<Rightarrow> bytes" where
  "encode_lp_nack_with_pit_token reason interest_wire pit_token = finish (write_nested LP_PACKET (\<lambda>w.
     let w = (case pit_token of Some token \<Rightarrow> write_tlv LP_PIT_TOKEN token w | None \<Rightarrow> w);
         w = write_nested NACK (\<lambda>w. write_nni NACK_REASON (nack_code reason) w) w
     in write_tlv LP_FRAGMENT interest_wire w) writer_new)"

definition encode_lp_nack :: "nack_reason \<Rightarrow> bytes \<Rightarrow> bytes" where
  "encode_lp_nack reason interest_wire = encode_lp_nack_with_pit_token reason interest_wire None"

definition encode_lp_packet :: "bytes \<Rightarrow> bytes" where
  "encode_lp_packet packet =
     (if is_lp_packet packet then packet
      else finish (write_nested LP_PACKET (\<lambda>w. write_tlv LP_FRAGMENT packet w) writer_new))"

definition write_acks :: "u64 list \<Rightarrow> tlv_writer \<Rightarrow> tlv_writer" where
  "write_acks acks w = foldl (\<lambda>w ack. write_nni LP_ACK ack w) w acks"

definition encode_lp_reliable ::
  "bytes \<Rightarrow> u64 \<Rightarrow> (u64 \<times> u64 \<times> u64) option \<Rightarrow> u64 list \<Rightarrow> bytes" where
  "encode_lp_reliable fragment tx_sequence frag_info acks = finish (write_nested LP_PACKET (\<lambda>w.
     let w = (case frag_info of
           Some (seq, idx, count) \<Rightarrow>
             write_nni LP_FRAG_COUNT count (write_nni LP_FRAG_INDEX idx
               (write_tlv LP_SEQUENCE (to_be_bytes seq) w))
         | None \<Rightarrow> w);
         w = write_acks acks w;
         w = write_nni LP_TX_SEQUENCE tx_sequence w
     in write_tlv LP_FRAGMENT fragment w) writer_new)"

definition encode_lp_acks :: "u64 list \<Rightarrow> bytes" where
  "encode_lp_acks acks = finish (write_nested LP_PACKET (write_acks acks) writer_new)"

definition encode_lp_with_headers :: "bytes \<Rightarrow> lp_headers \<Rightarrow> bytes" where
  "encode_lp_with_headers fragment h = finish (write_nested LP_PACKET (\<lambda>w.
     let w = (case lh_pit_token h of Some token \<Rightarrow> write_tlv LP_PIT_TOKEN token w | None \<Rightarrow> w);
         w = (case lh_incoming_face_id h of Some i \<Rightarrow> write_nni LP_INCOMING_FACE_ID i w | None \<Rightarrow> w);
         w = (case lh_next_hop_face_id h of Some i \<Rightarrow> write_nni LP_NEXT_HOP_FACE_ID i w | None \<Rightarrow> w);
         w = (case lh_cache_policy h of
             Some cp \<Rightarrow> write_nested LP_CACHE_POLICY (\<lambda>w.
               write_nni LP_CACHE_POLICY_TYPE (case cp of NoCache \<Rightarrow> 1 | CpOther c \<Rightarrow> c) w) w
           | None \<Rightarrow> w);
         w = (case lh_congestion_mark h of Some m \<Rightarrow> write_nni LP_CONGESTION_MARK m w | None \<Rightarrow> w)
     in write_tlv LP_FRAGMENT fragment w) writer_new)"

section \<open>Scanners of the receive path\<close>

definition ok :: "'e + 'a \<Rightarrow> 'a option" where
  "ok r = (case r of Inl _ \<Rightarrow> None | Inr x \<Rightarrow> Some x)"

text \<open>The head of every scanner: type and length of the outer element, then its value.\<close>

definition lp_inner :: "bytes \<Rightarrow> (nat \<times> bytes) option" where
  "lp_inner raw = do {
     (_, type_len) \<leftarrow> ok (read_varu64 raw);
     after_type \<leftarrow> get_from raw type_len;
     (outer_len, len_len) \<leftarrow> ok (read_varu64 after_type);
     header_len \<leftarrow> checked_add type_len len_len;
     inner_end \<leftarrow> checked_add header_len (unat outer_len);
     inner \<leftarrow> get_range raw header_len inner_end;
     Some (header_len, inner)
   }"

text \<open>One turn of a scanner's loop: the element at \<open>pos\<close>, where its value starts and ends.\<close>

definition raw_elem :: "bytes \<Rightarrow> nat \<Rightarrow> (u64 \<times> nat \<times> nat \<times> bytes) option" where
  "raw_elem inner pos = do {
     s \<leftarrow> get_from inner pos;
     (t, tn) \<leftarrow> ok (read_varu64 s);
     pos \<leftarrow> checked_add pos tn;
     s \<leftarrow> get_from inner pos;
     (l, ln) \<leftarrow> ok (read_varu64 s);
     pos \<leftarrow> checked_add pos ln;
     val_end \<leftarrow> checked_add pos (unat l);
     val \<leftarrow> get_range inner pos val_end;
     Some (t, pos, val_end, val)
   }"

lemma raw_elem_progress:
  assumes "raw_elem inner pos = Some (t, p, e, val)"
  shows "pos < e \<and> e \<le> length inner"
  using assms
  by (auto simp: raw_elem_def ok_def checked_add_def get_range_def split: bind_splits sum.splits if_splits
      dest!: read_varu64_consumes)

function raw_loop ::
  "('s \<Rightarrow> u64 \<Rightarrow> nat \<Rightarrow> nat \<Rightarrow> bytes \<Rightarrow> ('s, 'r) flow) \<Rightarrow> ('s \<Rightarrow> 'r) \<Rightarrow> ('s \<Rightarrow> 'r) \<Rightarrow> 's \<Rightarrow>
   bytes \<Rightarrow> nat \<Rightarrow> 'r" where
  "raw_loop body err fin s inner pos =
     (if pos < length inner then
        case raw_elem inner pos of
          None \<Rightarrow> err s
        | Some (t, p, e, val) \<Rightarrow> (case body s t p e val of
            Return x \<Rightarrow> x
          | Continue s' \<Rightarrow> raw_loop body err fin s' inner e)
      else fin s)"
  by pat_completeness auto
termination
  by (relation "measure (\<lambda>(body, err, fin, s, inner, pos). length inner - pos)")
    (auto dest!: raw_elem_progress)

declare raw_loop.simps [simp del]

record fragment_header =
  fh_sequence :: u64
  fh_frag_index :: u64
  fh_frag_count :: u64
  fh_frag_start :: nat
  fh_frag_end :: nat

record fragment_scan =
  fs_sequence :: "u64 option"
  fs_frag_index :: "u64 option"
  fs_frag_count :: "u64 option"
  fs_start :: nat
  fs_end :: nat

definition fragment_body ::
  "nat \<Rightarrow> fragment_scan \<Rightarrow> u64 \<Rightarrow> nat \<Rightarrow> nat \<Rightarrow> bytes \<Rightarrow> (fragment_scan, fragment_header option) flow" where
  "fragment_body header_len s t p e val =
     (if t = 0x51 then Continue (s\<lparr>fs_sequence := Some (decode_be_u64 val)\<rparr>)
      else if t = 0x52 then Continue (s\<lparr>fs_frag_index := Some (decode_be_u64 val)\<rparr>)
      else if t = 0x53 then
        (let c = decode_be_u64 val in
         if c \<le> 1 then Return None else Continue (s\<lparr>fs_frag_count := Some c\<rparr>))
      else if t = 0x50 then
        (case checked_add header_len p of
           None \<Rightarrow> Return None
         | Some st \<Rightarrow> (case checked_add header_len e of
             None \<Rightarrow> Return None
           | Some en \<Rightarrow> Continue (s\<lparr>fs_start := st, fs_end := en\<rparr>)))
      else Continue s)"

definition fragment_fin :: "fragment_scan \<Rightarrow> fragment_header option" where
  "fragment_fin s = do {
     sequence \<leftarrow> fs_sequence s;
     frag_index \<leftarrow> fs_frag_index s;
     frag_count \<leftarrow> fs_frag_count s;
     Some \<lparr>fh_sequence = sequence, fh_frag_index = frag_index, fh_frag_count = frag_count,
           fh_frag_start = fs_start s, fh_frag_end = fs_end s\<rparr>
   }"

definition extract_fragment :: "bytes \<Rightarrow> fragment_header option" where
  "extract_fragment raw =
     (if \<not> is_lp_packet raw then None
      else do {
        (header_len, inner) \<leftarrow> lp_inner raw;
        raw_loop (fragment_body header_len) (\<lambda>_. None) fragment_fin
          \<lparr>fs_sequence = None, fs_frag_index = None, fs_frag_count = None, fs_start = 0, fs_end = 0\<rparr>
          inner 0
      })"

definition acks_body ::
  "u64 option \<times> u64 list \<Rightarrow> u64 \<Rightarrow> nat \<Rightarrow> nat \<Rightarrow> bytes \<Rightarrow> (u64 option \<times> u64 list, u64 option \<times> u64 list) flow"
where
  "acks_body s t p e val = (case s of (tx_seq, acks) \<Rightarrow>
     if t = 0x0348 then Continue (Some (decode_be_u64 val), acks)
     else if t = 0x0344 then Continue (tx_seq, acks @ [decode_be_u64 val])
     else Continue (tx_seq, acks))"

definition extract_acks :: "bytes \<Rightarrow> u64 option \<times> u64 list" where
  "extract_acks raw =
     (if \<not> is_lp_packet raw then (None, [])
      else case lp_inner raw of
        None \<Rightarrow> (None, [])
      | Some (_, inner) \<Rightarrow> raw_loop acks_body (\<lambda>s. s) (\<lambda>s. s) (None, []) inner 0)"

definition ndn_packet_bytes :: "bytes \<Rightarrow> bytes option" where
  "ndn_packet_bytes lp_wire = (case lp_wire of
     [] \<Rightarrow> None
   | b # _ \<Rightarrow>
       if b = 0x05 \<or> b = 0x06 then Some lp_wire
       else if b = 0x64 then do {
         (_, inner) \<leftarrow> lp_inner lp_wire;
         raw_loop (\<lambda>frag t p e val.
             if t = 0x52 \<and> decode_be_u64 val \<noteq> 0 then Return None
             else if t = 0x50 then Continue (Some val)
             else Continue frag)
           (\<lambda>_. None) (\<lambda>frag. frag) None inner 0
       }
       else None)"

record peeked_name =
  pn_is_interest :: bool
  pn_components :: "bytes list"

definition peek_lp_name :: "bytes \<Rightarrow> peeked_name option" where
  "peek_lp_name lp_wire = do {
     pkt \<leftarrow> ndn_packet_bytes lp_wire;
     (ptype, tn) \<leftarrow> ok (read_varu64 pkt);
     is_interest \<leftarrow> (if ptype = 0x05 then Some True else if ptype = 0x06 then Some False else None);
     s \<leftarrow> get_from pkt tn;
     (_, ln) \<leftarrow> ok (read_varu64 s);
     body_start \<leftarrow> checked_add tn ln;
     body \<leftarrow> get_from pkt body_start;
     (ntype, ntn) \<leftarrow> ok (read_varu64 body);
     if ntype \<noteq> 0x07 then None
     else do {
       s \<leftarrow> get_from body ntn;
       (nlen, nln) \<leftarrow> ok (read_varu64 s);
       name_start \<leftarrow> checked_add ntn nln;
       name_end \<leftarrow> checked_add name_start (unat nlen);
       name_val \<leftarrow> get_range body name_start name_end;
       components \<leftarrow> raw_loop (\<lambda>cs t p e val. Continue (cs @ [val])) (\<lambda>_. None) Some [] name_val 0;
       Some \<lparr>pn_is_interest = is_interest, pn_components = components\<rparr>
     }
   }"

section \<open>The decoder inverts the encoders\<close>

lemma fst_read_tlv_enc:
  assumes "length (tlv_enc t v @ rest) < 2 ^ 63" "t \<le> 0xFFFFFFFF"
  shows "fst (read_tlv (reader_new (tlv_enc t v @ rest))) = Inr (t, v)"
  using read_tlv_enc [OF reader_wf_new [OF assms(1)], of t v rest] assms(2) by simp

lemma length_tlv_enc_value: "length v \<le> length (tlv_enc t v)"
  by (simp add: tlv_enc_def)

lemma tlv_loop_enc:
  assumes "length (elems_enc es) < 2 ^ 63" "types_ok es"
  shows "tlv_loop (\<lambda>s _ t v _. f s t v) err fin s (reader_new (elems_enc es)) = flow_fold f fin s es"
  using assms by (simp add: tlv_loop_flow_fold tlv_elems_enc [of _ es] reader_wf_new)

lemma lp_decode_elems:
  assumes "length (tlv_enc LP_PACKET (elems_enc es) @ rest) < 2 ^ 63" "types_ok es"
  shows "lp_decode (tlv_enc LP_PACKET (elems_enc es) @ rest) = flow_fold lp_body lp_finish lp_init es"
proof -
  have "length (elems_enc es) < 2 ^ 63"
    using assms(1) length_tlv_enc_value [of "elems_enc es" LP_PACKET] by simp
  then show ?thesis
    using assms by (simp add: lp_decode_def fst_read_tlv_enc tlv_loop_enc)
qed

lemma lp_decode_elems_canonical:
  assumes "lp_decode raw = Inr p" "length raw < 2 ^ 63"
  obtains es rest where "raw = tlv_enc LP_PACKET (elems_enc es) @ rest" "types_ok es"
    "flow_fold lp_body lp_finish lp_init es = Inr p"
proof -
  obtain val where val: "fst (read_tlv (reader_new raw)) = Inr (LP_PACKET, val)"
    using assms(1) by (auto simp: lp_decode_def split: sum.splits prod.splits if_splits)
  then obtain r' where "read_tlv (reader_new raw) = (Inr (LP_PACKET, val), r')"
    by (metis eq_fst_iff)
  from read_tlv_canonical [OF reader_wf_new [OF assms(2)] this] obtain rest where
    raw: "raw = tlv_enc LP_PACKET val @ rest" by auto
  have len: "length val < 2 ^ 63"
    using assms(2) raw length_tlv_enc_value [of val LP_PACKET] by simp
  obtain es e where es: "tlv_elems (reader_new val) = (es, e)" by fastforce
  have fold: "(case e of None \<Rightarrow> flow_fold lp_body lp_finish lp_init es
      | Some e \<Rightarrow> flow_fold lp_body (\<lambda>_. Inl (Tlv e)) lp_init es) = Inr p"
    using assms(1) val es by (simp add: lp_decode_def tlv_loop_flow_fold split: option.splits)
  have "e = None"
  proof (rule ccontr)
    assume "e \<noteq> None"
    moreover have "flow_fold lp_body (\<lambda>_. Inl x) s es' \<noteq> Inr p" for x s es'
      by (induction es' arbitrary: s)
        (auto simp: lp_body_def Let_def split: flow.splits sum.splits if_splits)
    ultimately show False using fold by auto
  qed
  with fold es tlv_elems_canonical [OF reader_wf_new [OF len] es] show ?thesis
    by (intro that [of es rest]) (auto simp: raw)
qed

lemma decode_be_nni [simp]: "decode_be_u64 (nni_enc v) = v"
  by (simp add: decode_be_u64_def be_accumulate_0)

lemma decode_be_to_be [simp]: "decode_be_u64 (to_be_bytes (v :: u64)) = v"
  by (simp add: decode_be_u64_def be_accumulate_0 be_bytes_roundtrip)

lemma nack_from_to_code [simp]:
  "nack_from_code (nack_code r) = (case r of NackOther c \<Rightarrow> nack_from_code c | _ \<Rightarrow> r)"
  by (cases r) (simp_all add: nack_code_def nack_from_code_def)

lemma length_nni_field: "length (tlv_enc t (nni_enc v)) \<le> 18"
  using packet_nni.field_length [of t v] by (simp add: nni_bytes_eq)

lemma tlv_loop_single:
  assumes "length (tlv_enc t v) < 2 ^ 63" "t \<le> 0xFFFFFFFF"
  shows "tlv_loop (\<lambda>s _ t v _. f s t v) err fin s (reader_new (tlv_enc t v)) =
    (case f s t v of Return x \<Rightarrow> x | Continue s' \<Rightarrow> fin s')"
proof -
  have "tlv_loop (\<lambda>s _ t v _. f s t v) err fin s (reader_new (elems_enc [(t, v)])) = flow_fold f fin s [(t, v)]"
    by (rule tlv_loop_enc) (use assms in simp_all)
  then show ?thesis by (simp split: flow.splits)
qed

lemma length_nni_field63: "length (tlv_enc t (nni_enc v)) < 2 ^ 63"
  using length_nni_field [of t v] by simp

lemma decode_cache_policy_enc [simp]:
  "decode_cache_policy (tlv_enc LP_CACHE_POLICY_TYPE (nni_enc c)) init =
     Inr (Some (if c = 1 then NoCache else CpOther c))"
  unfolding decode_cache_policy_def
  by (subst tlv_loop_single [OF length_nni_field63]) simp_all

lemma tlv_enc_not_Nil [simp]: "tlv_enc t v \<noteq> []"
  using tlv_enc_nonempty [of t v] by auto

lemma decode_nack_header_enc [simp]:
  "decode_nack_header (tlv_enc NACK_REASON (nni_enc c)) = Inr \<lparr>nack_reason = Some (nack_from_code c)\<rparr>"
  unfolding decode_nack_header_def
  by (subst tlv_loop_single [OF length_nni_field63]) (simp_all add: be_accumulate_0)

lemma wbuf_write_acks [codec_simps]:
  "wbuf (write_acks acks w) = wbuf w @ elems_enc (map (\<lambda>a. (LP_ACK, nni_enc a)) acks)"
  by (induction acks arbitrary: w) (simp_all add: write_acks_def codec_simps)

lemma types_ok_acks [simp]: "types_ok (map (\<lambda>a. (LP_ACK, nni_enc a)) acks)"
  by (induction acks) simp_all

lemma flow_fold_acks:
  "\<not> ll_fragment_seen s \<Longrightarrow> lp_order_ok (ll_last_typ s) LP_ACK \<Longrightarrow>
   flow_fold lp_body fin s (map (\<lambda>a. (LP_ACK, nni_enc a)) acks @ es) =
   flow_fold lp_body fin (s\<lparr>ll_pkt := (ll_pkt s)\<lparr>lp_acks := lp_acks (ll_pkt s) @ acks\<rparr>,
     ll_last_typ := if acks = [] then ll_last_typ s else Some LP_ACK\<rparr>) es"
proof (induction acks arbitrary: s)
  case (Cons a acks)
  let ?s = "s\<lparr>ll_pkt := (ll_pkt s)\<lparr>lp_acks := lp_acks (ll_pkt s) @ [a]\<rparr>, ll_last_typ := Some LP_ACK\<rparr>"
  have "lp_body s LP_ACK (nni_enc a) = Continue ?s"
    using Cons.prems by (simp add: lp_body_def lp_field_def)
  moreover have "\<not> ll_fragment_seen ?s" "lp_order_ok (ll_last_typ ?s) LP_ACK"
    using Cons.prems by (simp_all add: lp_order_ok_def)
  ultimately show ?case
    using Cons.IH [of ?s] by simp
qed simp

text \<open>The elements each encoder writes inside the LpPacket.\<close>

definition headers_elems :: "lp_headers \<Rightarrow> (u64 \<times> bytes) list" where
  "headers_elems h =
     (case lh_pit_token h of Some token \<Rightarrow> [(LP_PIT_TOKEN, token)] | None \<Rightarrow> []) @
     (case lh_incoming_face_id h of Some i \<Rightarrow> [(LP_INCOMING_FACE_ID, nni_enc i)] | None \<Rightarrow> []) @
     (case lh_next_hop_face_id h of Some i \<Rightarrow> [(LP_NEXT_HOP_FACE_ID, nni_enc i)] | None \<Rightarrow> []) @
     (case lh_cache_policy h of
        Some cp \<Rightarrow> [(LP_CACHE_POLICY, tlv_enc LP_CACHE_POLICY_TYPE
          (nni_enc (case cp of NoCache \<Rightarrow> 1 | CpOther c \<Rightarrow> c)))]
      | None \<Rightarrow> []) @
     (case lh_congestion_mark h of Some m \<Rightarrow> [(LP_CONGESTION_MARK, nni_enc m)] | None \<Rightarrow> [])"

lemma encode_lp_with_headers_elems:
  "encode_lp_with_headers fragment h = tlv_enc LP_PACKET (elems_enc (headers_elems h @ [(LP_FRAGMENT, fragment)]))"
  by (simp add: encode_lp_with_headers_def headers_elems_def codec_simps split: option.split)

lemma types_ok_headers: "types_ok (headers_elems h @ [(LP_FRAGMENT, fragment)])"
  by (simp add: headers_elems_def split: option.split)

definition packet_of_headers :: "bytes \<Rightarrow> lp_headers \<Rightarrow> lp_packet" where
  "packet_of_headers fragment h = lp_packet_empty\<lparr>lp_fragment := Some fragment,
     lp_pit_token := lh_pit_token h, lp_incoming_face_id := lh_incoming_face_id h,
     lp_next_hop_face_id := lh_next_hop_face_id h, lp_cache_policy := lh_cache_policy h,
     lp_congestion_mark := lh_congestion_mark h\<rparr>"

lemma lp_fold_headers:
  assumes "lh_pit_token h \<noteq> Some []" "lh_cache_policy h \<noteq> Some (CpOther 1)"
  shows "flow_fold lp_body lp_finish lp_init (headers_elems h @ [(LP_FRAGMENT, fragment)]) =
    Inr (packet_of_headers fragment h)"
proof -
  obtain tok cm inc nh cp where h: "h = \<lparr>lh_pit_token = tok, lh_congestion_mark = cm,
      lh_incoming_face_id = inc, lh_next_hop_face_id = nh, lh_cache_policy = cp\<rparr>"
    by (cases h)
  show ?thesis
    using assms unfolding h
    by (cases tok; cases inc; cases nh; cases cp; cases cm)
      (simp_all add: headers_elems_def packet_of_headers_def lp_body_def lp_field_def lp_order_ok_def
        lp_init_def lp_finish_def lp_packet_empty_def split: cache_policy_type.split, auto)
qed

definition reliable_elems ::
  "bytes \<Rightarrow> u64 \<Rightarrow> (u64 \<times> u64 \<times> u64) option \<Rightarrow> u64 list \<Rightarrow> (u64 \<times> bytes) list" where
  "reliable_elems fragment tx frag_info acks =
     (case frag_info of
        Some (seq, idx, count) \<Rightarrow> [(LP_SEQUENCE, to_be_bytes seq), (LP_FRAG_INDEX, nni_enc idx),
          (LP_FRAG_COUNT, nni_enc count)]
      | None \<Rightarrow> []) @
     map (\<lambda>a. (LP_ACK, nni_enc a)) acks @ [(LP_TX_SEQUENCE, nni_enc tx), (LP_FRAGMENT, fragment)]"

lemma encode_lp_reliable_elems:
  "encode_lp_reliable fragment tx frag_info acks =
     tlv_enc LP_PACKET (elems_enc (reliable_elems fragment tx frag_info acks))"
  by (simp add: encode_lp_reliable_def reliable_elems_def codec_simps split: option.split)

lemma types_ok_reliable: "types_ok (reliable_elems fragment tx frag_info acks)"
  by (auto simp: reliable_elems_def split: option.split)

definition reliable_packet :: "bytes \<Rightarrow> u64 \<Rightarrow> (u64 \<times> u64 \<times> u64) option \<Rightarrow> u64 list \<Rightarrow> lp_packet" where
  "reliable_packet fragment tx frag_info acks = lp_packet_empty\<lparr>lp_fragment := Some fragment,
     lp_sequence := map_option fst frag_info, lp_frag_index := map_option (fst \<circ> snd) frag_info,
     lp_frag_count := map_option (snd \<circ> snd) frag_info, lp_acks := acks, lp_tx_sequence := Some tx\<rparr>"

lemma lp_fold_reliable:
  "flow_fold lp_body lp_finish lp_init (reliable_elems fragment tx frag_info acks) =
     Inr (reliable_packet fragment tx frag_info acks)"
proof -
  have tail: "flow_fold lp_body lp_finish s (map (\<lambda>a. (LP_ACK, nni_enc a)) acks @
      [(LP_TX_SEQUENCE, nni_enc tx), (LP_FRAGMENT, fragment)]) =
    Inr ((ll_pkt s)\<lparr>lp_acks := lp_acks (ll_pkt s) @ acks, lp_tx_sequence := Some tx, lp_fragment := Some fragment\<rparr>)"
    if "\<not> ll_fragment_seen s" "ll_last_typ s = None \<or> ll_last_typ s = Some LP_FRAG_COUNT" for s
  proof -
    have "lp_order_ok (ll_last_typ s) LP_ACK"
      using that by (auto simp: lp_order_ok_def)
    from flow_fold_acks [OF that(1) this] show ?thesis
      using that by (auto simp: lp_body_def lp_field_def lp_order_ok_def lp_finish_def)
  qed
  show ?thesis
  proof (cases frag_info)
    case None
    then show ?thesis
      using tail [of lp_init]
      by (simp add: reliable_elems_def reliable_packet_def lp_init_def lp_packet_empty_def)
  next
    case (Some x)
    obtain seq idx count where x: "x = (seq, idx, count)" by (metis prod_cases3)
    show ?thesis
      using tail unfolding Some x
      by (simp add: reliable_elems_def lp_body_def lp_field_def lp_order_ok_def lp_init_def
          lp_packet_empty_def reliable_packet_def)
  qed
qed

lemma encode_lp_acks_elems:
  "encode_lp_acks acks = tlv_enc LP_PACKET (elems_enc (map (\<lambda>a. (LP_ACK, nni_enc a)) acks))"
  by (simp add: encode_lp_acks_def codec_simps)

lemma lp_fold_acks:
  "acks \<noteq> [] \<Longrightarrow> flow_fold lp_body lp_finish lp_init (map (\<lambda>a. (LP_ACK, nni_enc a)) acks) =
     Inr (lp_packet_empty\<lparr>lp_acks := acks\<rparr>)"
  using flow_fold_acks [of lp_init lp_finish acks "[]"]
  by (simp add: lp_init_def lp_order_ok_def lp_finish_def lp_packet_empty_def)

lemma encode_lp_nack_elems:
  "encode_lp_nack_with_pit_token reason wire tok = tlv_enc LP_PACKET (elems_enc
     ((case tok of Some t \<Rightarrow> [(LP_PIT_TOKEN, t)] | None \<Rightarrow> []) @
      [(NACK, tlv_enc NACK_REASON (nni_enc (nack_code reason))), (LP_FRAGMENT, wire)]))"
  by (simp add: encode_lp_nack_with_pit_token_def codec_simps split: option.split)

lemma lp_fold_nack:
  assumes "tok \<noteq> Some []"
  shows "flow_fold lp_body lp_finish lp_init ((case tok of Some t \<Rightarrow> [(LP_PIT_TOKEN, t)] | None \<Rightarrow> []) @
      [(NACK, tlv_enc NACK_REASON (nni_enc (nack_code reason))), (LP_FRAGMENT, wire)]) =
    Inr (lp_packet_empty\<lparr>lp_fragment := Some wire, lp_pit_token := tok,
      lp_nack := Some \<lparr>nack_reason = Some (nack_from_code (nack_code reason))\<rparr>\<rparr>)"
  using assms
  by (cases tok) (simp_all add: lp_body_def lp_field_def lp_order_ok_def lp_init_def
      lp_packet_empty_def lp_finish_def del: nack_from_to_code)

section \<open>The scanners agree with the decoder\<close>

fun pos_fold :: "('s \<Rightarrow> u64 \<Rightarrow> nat \<Rightarrow> nat \<Rightarrow> bytes \<Rightarrow> ('s, 'r) flow) \<Rightarrow> ('s \<Rightarrow> 'r) \<Rightarrow> 's \<Rightarrow> nat \<Rightarrow>
    (u64 \<times> bytes) list \<Rightarrow> 'r" where
  "pos_fold f fin s p [] = fin s"
| "pos_fold f fin s p ((t, v) # es) =
     (let q = p + length (tlv_enc t v) in
      case f s t (q - length v) q v of Return x \<Rightarrow> x | Continue s' \<Rightarrow> pos_fold f fin s' q es)"

lemma ok_simps [simp]: "ok (Inl e) = None" "ok (Inr x) = Some x"
  by (simp_all add: ok_def)

lemma unat_length63: "length xs < 2 ^ 63 \<Longrightarrow> unat (word_of_nat (length xs) :: u64) = length xs"
  by (rule word_of_nat_less63)

lemma raw_elem_enc:
  assumes "length (pre @ tlv_enc t v @ post) < 2 ^ 63"
  shows "raw_elem (pre @ tlv_enc t v @ post) (length pre) =
    Some (t, length pre + length (tlv_enc t v) - length v, length pre + length (tlv_enc t v), v)"
proof -
  let ?buf = "pre @ tlv_enc t v @ post"
  let ?l = "word_of_nat (length v) :: u64"
  have l: "unat ?l = length v"
    using assms by (intro unat_length63) (simp add: tlv_enc_def)
  have 1: "read_varu64 (tlv_enc t v @ post) = Inr (t, varu64_size t)"
    by (simp add: tlv_enc_def read_varu64_enc)
  have "?buf = (pre @ varu64_enc t) @ varu64_enc ?l @ v @ post"
    by (simp add: tlv_enc_def)
  then have 2: "get_from ?buf (length pre + varu64_size t) = Some (varu64_enc ?l @ v @ post)"
    using get_from_append [of "pre @ varu64_enc t"] by (simp add: length_varu64_enc)
  have "?buf = (pre @ varu64_enc t @ varu64_enc ?l) @ v @ post"
    by (simp add: tlv_enc_def)
  then have 3: "get_range ?buf (length pre + varu64_size t + varu64_size ?l)
      (length pre + varu64_size t + varu64_size ?l + length v) = Some v"
    using get_range_append [of "pre @ varu64_enc t @ varu64_enc ?l" v post]
    by (simp add: length_varu64_enc add.assoc)
  show ?thesis
    using assms by (simp add: raw_elem_def 1 2 3 l read_varu64_enc checked_add_def length_tlv_enc tlv_size_def
        add.assoc [symmetric])
qed

lemma raw_loop_enc:
  "length (pre @ elems_enc es) < 2 ^ 63 \<Longrightarrow>
   raw_loop body err fin s (pre @ elems_enc es) (length pre) = pos_fold body fin s (length pre) es"
proof (induction es arbitrary: pre s)
  case Nil
  then show ?case by (simp add: raw_loop.simps)
next
  case (Cons a es)
  obtain t v where a: "a = (t, v)" by fastforce
  have e: "raw_elem (pre @ tlv_enc t v @ elems_enc es) (length pre) =
      Some (t, length pre + length (tlv_enc t v) - length v, length pre + length (tlv_enc t v), v)"
    using Cons.prems a by (intro raw_elem_enc) simp
  have "length pre < length (pre @ tlv_enc t v @ elems_enc es)"
    using tlv_enc_nonempty [of t v] by simp
  moreover have "raw_loop body err fin s' (pre @ tlv_enc t v @ elems_enc es) (length pre + length (tlv_enc t v))
      = pos_fold body fin s' (length pre + length (tlv_enc t v)) es" for s'
    using Cons.IH [of "pre @ tlv_enc t v" s'] Cons.prems a by simp
  ultimately show ?case
    unfolding a by (simp add: raw_loop.simps [of _ _ _ s] e Let_def split: flow.splits)
qed

lemma lp_inner_enc:
  assumes "length (tlv_enc t v @ rest) < 2 ^ 63"
  shows "lp_inner (tlv_enc t v @ rest) = Some (length (tlv_enc t v) - length v, v)"
proof -
  have "raw_elem ([] @ tlv_enc t v @ rest) (length ([] :: bytes)) = Some (t, 0 + length (tlv_enc t v) - length v,
      0 + length (tlv_enc t v), v)"
    using raw_elem_enc [of "[]" t v rest] assms by simp
  then show ?thesis
    by (auto simp: lp_inner_def raw_elem_def get_from_def checked_add_def ok_def
        split: bind_splits sum.splits if_splits)
qed

lemma is_lp_packet_enc [simp]: "is_lp_packet (tlv_enc LP_PACKET v @ rest)"
  by (simp add: is_lp_packet_def tlv_enc_def varu64_enc_def)

lemma lp_body_Continue:
  "lp_body s t v = Continue s' \<Longrightarrow>
   lp_field (ll_pkt s) t v = Inr (ll_pkt s') \<and> \<not> ll_fragment_seen s \<and>
   (if t = LP_FRAGMENT then ll_fragment_seen s' \<and> ll_last_typ s' = ll_last_typ s
    else \<not> ll_fragment_seen s' \<and> ll_last_typ s' = Some t \<and> lp_order_ok (ll_last_typ s) t)"
  by (auto simp: lp_body_def Let_def split: if_splits sum.splits)

lemma lp_body_Return: "lp_body s t v = Return x \<Longrightarrow> \<exists>e. x = Inl e"
  by (cases "lp_field (ll_pkt s) t v")
    (simp_all add: lp_body_def Let_def eq_commute [of _ x] split: if_splits)

lemma lp_fold_Cons:
  assumes "flow_fold lp_body lp_finish s ((t, v) # es) = Inr p"
  obtains s' where "lp_body s t v = Continue s'" "flow_fold lp_body lp_finish s' es = Inr p"
  using assms by (cases "lp_body s t v") (auto dest: lp_body_Return)

text \<open>What the decoder leaves in the fields a scanner reads, in terms of the elements.\<close>

definition last_field :: "u64 \<Rightarrow> (u64 \<times> bytes) list \<Rightarrow> bytes option" where
  "last_field t es = map_of (rev es) t"

lemma last_field_simps:
  "last_field t [] = None"
  "last_field t ((t', v) # es) =
     (case last_field t es of Some x \<Rightarrow> Some x | None \<Rightarrow> if t' = t then Some v else None)"
  by (auto simp: last_field_def map_add_def split: option.splits)

lemma lp_field_other:
  assumes "lp_field p t v = Inr p'"
  shows "t \<noteq> LP_SEQUENCE \<Longrightarrow> lp_sequence p' = lp_sequence p"
    "t \<noteq> LP_FRAG_INDEX \<Longrightarrow> lp_frag_index p' = lp_frag_index p"
    "t \<noteq> LP_FRAG_COUNT \<Longrightarrow> lp_frag_count p' = lp_frag_count p"
    "t \<noteq> LP_TX_SEQUENCE \<Longrightarrow> lp_tx_sequence p' = lp_tx_sequence p"
    "t \<noteq> LP_FRAGMENT \<Longrightarrow> lp_fragment p' = lp_fragment p"
    "t \<noteq> LP_ACK \<Longrightarrow> lp_acks p' = lp_acks p"
  using assms unfolding lp_field_def by (auto split: if_splits sum.splits)

lemma lp_field_own [simp]:
  "lp_field p LP_SEQUENCE v = Inr (p\<lparr>lp_sequence := Some (decode_be_u64 v)\<rparr>)"
  "lp_field p LP_FRAG_INDEX v = Inr (p\<lparr>lp_frag_index := Some (decode_be_u64 v)\<rparr>)"
  "lp_field p LP_FRAG_COUNT v = Inr (p\<lparr>lp_frag_count := Some (decode_be_u64 v)\<rparr>)"
  "lp_field p LP_TX_SEQUENCE v = Inr (p\<lparr>lp_tx_sequence := Some (decode_be_u64 v)\<rparr>)"
  "lp_field p LP_FRAGMENT v = Inr (p\<lparr>lp_fragment := Some v\<rparr>)"
  "lp_field p LP_ACK v = Inr (p\<lparr>lp_acks := lp_acks p @ [decode_be_u64 v]\<rparr>)"
  by (simp_all add: lp_field_def)

lemma lp_finish_pkt: "lp_finish s = Inr p \<Longrightarrow> p = ll_pkt s"
  by (simp add: lp_finish_def split: if_splits)

lemma lp_fold_field:
  assumes own: "\<And>p v p'. lp_field p T v = Inr p' \<Longrightarrow> sel p' = Some (f v)"
    and other: "\<And>p t v p'. lp_field p t v = Inr p' \<Longrightarrow> t \<noteq> T \<Longrightarrow> sel p' = sel p"
  shows "flow_fold lp_body lp_finish s es = Inr p \<Longrightarrow>
    sel p = (case last_field T es of Some v \<Rightarrow> Some (f v) | None \<Rightarrow> sel (ll_pkt s))"
proof (induction es arbitrary: s)
  case Nil
  then show ?case by (auto simp: last_field_simps dest: lp_finish_pkt)
next
  case (Cons a es)
  obtain t v where a: "a = (t, v)" by fastforce
  obtain s' where s': "lp_body s t v = Continue s'" "flow_fold lp_body lp_finish s' es = Inr p"
    using Cons.prems unfolding a by (rule lp_fold_Cons)
  have field: "lp_field (ll_pkt s) t v = Inr (ll_pkt s')"
    using lp_body_Continue [OF s'(1)] by simp
  have "sel (ll_pkt s') = (if t = T then Some (f v) else sel (ll_pkt s))"
    using own other field by auto
  with Cons.IH [OF s'(2)] show ?case
    by (auto simp: a last_field_simps split: option.splits)
qed

lemma lp_fold_fields:
  assumes "flow_fold lp_body lp_finish s es = Inr p"
  shows "lp_sequence p = (case last_field LP_SEQUENCE es of Some v \<Rightarrow> Some (decode_be_u64 v) | None \<Rightarrow> lp_sequence (ll_pkt s))"
    "lp_frag_index p = (case last_field LP_FRAG_INDEX es of Some v \<Rightarrow> Some (decode_be_u64 v) | None \<Rightarrow> lp_frag_index (ll_pkt s))"
    "lp_frag_count p = (case last_field LP_FRAG_COUNT es of Some v \<Rightarrow> Some (decode_be_u64 v) | None \<Rightarrow> lp_frag_count (ll_pkt s))"
    "lp_tx_sequence p = (case last_field LP_TX_SEQUENCE es of Some v \<Rightarrow> Some (decode_be_u64 v) | None \<Rightarrow> lp_tx_sequence (ll_pkt s))"
    "lp_fragment p = (case last_field LP_FRAGMENT es of Some v \<Rightarrow> Some v | None \<Rightarrow> lp_fragment (ll_pkt s))"
  by (rule lp_fold_field [OF _ _ assms]; auto dest: lp_field_other)+

lemma lp_fold_acks_filter:
  "flow_fold lp_body lp_finish s es = Inr p \<Longrightarrow>
   lp_acks p = lp_acks (ll_pkt s) @ map (decode_be_u64 \<circ> snd) (filter (\<lambda>(t, v). t = LP_ACK) es)"
proof (induction es arbitrary: s)
  case Nil
  then show ?case by (auto dest: lp_finish_pkt)
next
  case (Cons a es)
  obtain t v where a: "a = (t, v)" by fastforce
  obtain s' where s': "lp_body s t v = Continue s'" "flow_fold lp_body lp_finish s' es = Inr p"
    using Cons.prems unfolding a by (rule lp_fold_Cons)
  have field: "lp_field (ll_pkt s) t v = Inr (ll_pkt s')"
    using lp_body_Continue [OF s'(1)] by simp
  have "lp_acks (ll_pkt s') = lp_acks (ll_pkt s) @ (if t = LP_ACK then [decode_be_u64 v] else [])"
    using field lp_field_other(6) [OF field]
    by (cases "t = LP_ACK") (auto simp: eq_commute [of _ "ll_pkt s'"])
  with Cons.IH [OF s'(2)] show ?case
    by (simp add: a)
qed

text \<open>Element order: no header but Ack occurs twice.\<close>

lemma lp_fold_above:
  "flow_fold lp_body lp_finish s es = Inr p \<Longrightarrow> ll_last_typ s = Some l \<Longrightarrow> (t, v) \<in> set es \<Longrightarrow>
   t = LP_FRAGMENT \<or> l < t \<or> t = l \<and> l = LP_ACK"
proof (induction es arbitrary: s l)
  case (Cons a es)
  obtain t1 v1 where a: "a = (t1, v1)" by fastforce
  obtain s' where s': "lp_body s t1 v1 = Continue s'" "flow_fold lp_body lp_finish s' es = Inr p"
    using Cons.prems(1) unfolding a by (rule lp_fold_Cons)
  note b = lp_body_Continue [OF s'(1)]
  show ?case
  proof (cases "(t, v) = (t1, v1)")
    case True
    then show ?thesis
      using b Cons.prems(2) by (auto simp: lp_order_ok_def split: if_splits)
  next
    case False
    then have mem: "(t, v) \<in> set es" using Cons.prems(3) a by auto
    show ?thesis
    proof (cases "t1 = LP_FRAGMENT")
      case True
      then show ?thesis
        using b Cons.IH [OF s'(2) _ mem, of l] Cons.prems(2) by simp
    next
      case False
      then have "t = LP_FRAGMENT \<or> t1 < t \<or> t = t1 \<and> t1 = LP_ACK" "l < t1 \<or> t1 = l \<and> l = LP_ACK"
        using b Cons.IH [OF s'(2) _ mem, of t1] Cons.prems(2) by (auto simp: lp_order_ok_def split: if_splits)
      then show ?thesis by auto
    qed
  qed
qed simp

lemma lp_fold_unique:
  "flow_fold lp_body lp_finish s es = Inr p \<Longrightarrow> (LP_FRAG_COUNT, v) \<in> set es \<Longrightarrow>
   last_field LP_FRAG_COUNT es = Some v"
proof (induction es arbitrary: s)
  case (Cons a es)
  obtain t1 v1 where a: "a = (t1, v1)" by fastforce
  obtain s' where s': "lp_body s t1 v1 = Continue s'" "flow_fold lp_body lp_finish s' es = Inr p"
    using Cons.prems(1) unfolding a by (rule lp_fold_Cons)
  show ?case
  proof (cases "(LP_FRAG_COUNT, v) \<in> set es")
    case True
    then show ?thesis using Cons.IH [OF s'(2)] by (simp add: a last_field_simps)
  next
    case False
    then have t1: "t1 = LP_FRAG_COUNT" "v1 = v" using Cons.prems(2) a by auto
    have "ll_last_typ s' = Some LP_FRAG_COUNT"
      using lp_body_Continue [OF s'(1)] t1 by simp
    then have "LP_FRAG_COUNT \<notin> fst ` set (rev es)"
      using lp_fold_above [OF s'(2), of LP_FRAG_COUNT LP_FRAG_COUNT] by force
    then have "last_field LP_FRAG_COUNT es = None"
      by (simp add: last_field_def map_of_eq_None_iff)
    then show ?thesis by (simp add: a t1 last_field_simps)
  qed
qed simp

lemma fragment_scan_bad_count:
  "(LP_FRAG_COUNT, v) \<in> set es \<Longrightarrow> decode_be_u64 v \<le> 1 \<Longrightarrow>
   pos_fold (fragment_body hl) fragment_fin s p es = None"
proof (induction es arbitrary: s p)
  case (Cons a es)
  obtain t1 v1 where a: "a = (t1, v1)" by fastforce
  show ?case
    using Cons a by (auto simp: Let_def fragment_body_def split: flow.splits if_splits option.splits)
qed simp

lemma fragment_scan_fold:
  assumes "length (hdr @ pre @ elems_enc es @ rest) < 2 ^ 63"
    and "\<And>v. (LP_FRAG_COUNT, v) \<in> set es \<Longrightarrow> \<not> decode_be_u64 v \<le> 1"
  shows "\<exists>s'. pos_fold (fragment_body (length hdr)) fin s (length pre) es = fin s' \<and>
    fs_sequence s' = (case last_field LP_SEQUENCE es of Some v \<Rightarrow> Some (decode_be_u64 v) | None \<Rightarrow> fs_sequence s) \<and>
    fs_frag_index s' = (case last_field LP_FRAG_INDEX es of Some v \<Rightarrow> Some (decode_be_u64 v) | None \<Rightarrow> fs_frag_index s) \<and>
    fs_frag_count s' = (case last_field LP_FRAG_COUNT es of Some v \<Rightarrow> Some (decode_be_u64 v) | None \<Rightarrow> fs_frag_count s) \<and>
    (case last_field LP_FRAGMENT es of
       Some v \<Rightarrow> get_range (hdr @ pre @ elems_enc es @ rest) (fs_start s') (fs_end s') = Some v
     | None \<Rightarrow> fs_start s' = fs_start s \<and> fs_end s' = fs_end s)"
  using assms
proof (induction es arbitrary: s pre)
  case Nil
  then show ?case by (auto simp: last_field_simps)
next
  case (Cons a es)
  obtain t v where a: "a = (t, v)" by fastforce
  let ?q = "length pre + length (tlv_enc t v)"
  let ?raw = "hdr @ pre @ elems_enc (a # es) @ rest"
  have lt: "length hdr + ?q < 2 ^ 64"
    using Cons.prems(1) a by simp
  have range: "get_range ?raw (length hdr + (?q - length v)) (length hdr + ?q) = Some v"
  proof -
    let ?pre = "hdr @ pre @ varu64_enc t @ varu64_enc (word_of_nat (length v))"
    have "?raw = ?pre @ v @ elems_enc es @ rest" by (simp add: a tlv_enc_def)
    moreover have "length hdr + (?q - length v) = length ?pre" "length hdr + ?q = length ?pre + length v"
      by (simp_all add: tlv_enc_def)
    ultimately show ?thesis using get_range_append by metis
  qed
  have "\<exists>s1. fragment_body (length hdr) s t (?q - length v) ?q v = Continue s1 \<and>
      fs_sequence s1 = (if t = LP_SEQUENCE then Some (decode_be_u64 v) else fs_sequence s) \<and>
      fs_frag_index s1 = (if t = LP_FRAG_INDEX then Some (decode_be_u64 v) else fs_frag_index s) \<and>
      fs_frag_count s1 = (if t = LP_FRAG_COUNT then Some (decode_be_u64 v) else fs_frag_count s) \<and>
      (if t = LP_FRAGMENT then fs_start s1 = length hdr + (?q - length v) \<and> fs_end s1 = length hdr + ?q
       else fs_start s1 = fs_start s \<and> fs_end s1 = fs_end s)"
    using Cons.prems(2) [of v] lt by (auto simp: a fragment_body_def checked_add_def Let_def)
  then obtain s1 where s1: "fragment_body (length hdr) s t (?q - length v) ?q v = Continue s1"
      "fs_sequence s1 = (if t = LP_SEQUENCE then Some (decode_be_u64 v) else fs_sequence s)"
      "fs_frag_index s1 = (if t = LP_FRAG_INDEX then Some (decode_be_u64 v) else fs_frag_index s)"
      "fs_frag_count s1 = (if t = LP_FRAG_COUNT then Some (decode_be_u64 v) else fs_frag_count s)"
      "if t = LP_FRAGMENT then fs_start s1 = length hdr + (?q - length v) \<and> fs_end s1 = length hdr + ?q
       else fs_start s1 = fs_start s \<and> fs_end s1 = fs_end s"
    by blast
  have len: "length (hdr @ (pre @ tlv_enc t v) @ elems_enc es @ rest) < 2 ^ 63"
    using Cons.prems(1) a by simp
  have count: "\<And>v. (LP_FRAG_COUNT, v) \<in> set es \<Longrightarrow> \<not> decode_be_u64 v \<le> 1"
    using Cons.prems(2) a by simp
  have raw: "hdr @ (pre @ tlv_enc t v) @ elems_enc es @ rest = ?raw" "length (pre @ tlv_enc t v) = ?q"
    by (simp_all add: a)
  from Cons.IH [OF len count, of s1, unfolded raw] obtain s' where
    s': "pos_fold (fragment_body (length hdr)) fin s1 ?q es = fin s'"
      "fs_sequence s' = (case last_field LP_SEQUENCE es of Some v \<Rightarrow> Some (decode_be_u64 v) | None \<Rightarrow> fs_sequence s1)"
      "fs_frag_index s' = (case last_field LP_FRAG_INDEX es of Some v \<Rightarrow> Some (decode_be_u64 v) | None \<Rightarrow> fs_frag_index s1)"
      "fs_frag_count s' = (case last_field LP_FRAG_COUNT es of Some v \<Rightarrow> Some (decode_be_u64 v) | None \<Rightarrow> fs_frag_count s1)"
      "case last_field LP_FRAGMENT es of
         Some v \<Rightarrow> get_range ?raw (fs_start s') (fs_end s') = Some v
       | None \<Rightarrow> fs_start s' = fs_start s1 \<and> fs_end s' = fs_end s1"
    by blast
  show ?case
    using s1 s' range
    by (intro exI [of _ s'])
      (auto simp: a last_field_simps Let_def split: option.splits if_splits)
qed

lemma acks_scan_fold:
  "pos_fold acks_body (\<lambda>s. s) (tx, acks) p es =
     (case last_field LP_TX_SEQUENCE es of Some v \<Rightarrow> Some (decode_be_u64 v) | None \<Rightarrow> tx,
      acks @ map (decode_be_u64 \<circ> snd) (filter (\<lambda>(t, v). t = LP_ACK) es))"
  by (induction es arbitrary: tx acks p)
    (auto simp: last_field_simps acks_body_def Let_def split: option.splits)

lemma decoded_fields:
  assumes "flow_fold lp_body lp_finish lp_init es = Inr p"
  shows "lp_sequence p = map_option decode_be_u64 (last_field LP_SEQUENCE es)"
    "lp_frag_index p = map_option decode_be_u64 (last_field LP_FRAG_INDEX es)"
    "lp_frag_count p = map_option decode_be_u64 (last_field LP_FRAG_COUNT es)"
    "lp_tx_sequence p = map_option decode_be_u64 (last_field LP_TX_SEQUENCE es)"
    "lp_fragment p = last_field LP_FRAGMENT es"
    "lp_acks p = map (decode_be_u64 \<circ> snd) (filter (\<lambda>(t, v). t = LP_ACK) es)"
  using lp_fold_fields [OF assms] lp_fold_acks_filter [OF assms]
  by (simp_all add: lp_init_def lp_packet_empty_def split: option.split)

lemma lp_decode_reliable:
  assumes "length (encode_lp_reliable fragment tx frag_info acks) < 2 ^ 63"
  shows "lp_decode (encode_lp_reliable fragment tx frag_info acks) = Inr (reliable_packet fragment tx frag_info acks)"
  using lp_decode_elems [of "reliable_elems fragment tx frag_info acks" "[]", OF _ types_ok_reliable] assms
  by (simp only: encode_lp_reliable_elems append_Nil2 lp_fold_reliable)

lemma lp_decode_acks:
  assumes "acks \<noteq> []" "length (encode_lp_acks acks) < 2 ^ 63"
  shows "lp_decode (encode_lp_acks acks) = Inr (lp_packet_empty\<lparr>lp_acks := acks\<rparr>)"
  using lp_decode_elems [of "map (\<lambda>a. (LP_ACK, nni_enc a)) acks" "[]", OF _ types_ok_acks] assms(2)
  by (simp only: encode_lp_acks_elems append_Nil2 lp_fold_acks [OF assms(1)])

lemma extract_fragment_decoded:
  assumes "lp_decode raw = Inr p" and "length raw < 2 ^ 63"
  shows "(extract_fragment raw \<noteq> None \<longleftrightarrow>
      is_fragmented p \<and> lp_sequence p \<noteq> None \<and> lp_frag_index p \<noteq> None) \<and>
    (\<forall>h. extract_fragment raw = Some h \<longrightarrow>
      lp_sequence p = Some (fh_sequence h) \<and> lp_frag_index p = Some (fh_frag_index h) \<and>
      lp_frag_count p = Some (fh_frag_count h) \<and>
      (\<forall>f. lp_fragment p = Some f \<longrightarrow> get_range raw (fh_frag_start h) (fh_frag_end h) = Some f))"
proof -
  obtain es rest where raw: "raw = tlv_enc LP_PACKET (elems_enc es) @ rest"
    and fold: "flow_fold lp_body lp_finish lp_init es = Inr p"
    using lp_decode_elems_canonical [OF assms] by metis
  let ?hdr = "varu64_enc LP_PACKET @ varu64_enc (word_of_nat (length (elems_enc es)))"
  let ?s0 = "\<lparr>fs_sequence = None, fs_frag_index = None, fs_frag_count = None, fs_start = 0, fs_end = 0\<rparr>"
  have split: "raw = ?hdr @ [] @ elems_enc es @ rest"
    by (simp add: raw tlv_enc_def)
  have inner: "lp_inner raw = Some (length ?hdr, elems_enc es)"
    using lp_inner_enc [of LP_PACKET "elems_enc es" rest] assms(2) by (simp add: raw) (simp add: tlv_enc_def)
  have "raw_loop (fragment_body (length ?hdr)) (\<lambda>_. None) fragment_fin ?s0 ([] @ elems_enc es) (length ([] :: bytes))
      = pos_fold (fragment_body (length ?hdr)) fragment_fin ?s0 (length ([] :: bytes)) es"
    using assms(2) by (intro raw_loop_enc) (simp add: split)
  then have ext: "extract_fragment raw = pos_fold (fragment_body (length ?hdr)) fragment_fin ?s0 0 es"
    using inner by (simp add: extract_fragment_def raw)
  note fields = decoded_fields [OF fold]
  show ?thesis
  proof (cases "\<exists>v. (LP_FRAG_COUNT, v) \<in> set es \<and> decode_be_u64 v \<le> 1")
    case True
    then obtain v where v: "(LP_FRAG_COUNT, v) \<in> set es" "decode_be_u64 v \<le> 1" by blast
    then have "lp_frag_count p = Some (decode_be_u64 v)"
      using lp_fold_unique [OF fold] fields by simp
    with v show ?thesis
      using fragment_scan_bad_count [OF v] by (auto simp: ext is_fragmented_def dest: leD)
  next
    case False
    then have count: "\<And>v. (LP_FRAG_COUNT, v) \<in> set es \<Longrightarrow> \<not> decode_be_u64 v \<le> 1" by blast
    have len: "length (?hdr @ [] @ elems_enc es @ rest) < 2 ^ 63"
      using assms(2) unfolding split .
    obtain s' where k: "pos_fold (fragment_body (length ?hdr)) fragment_fin ?s0 (length ([] :: bytes)) es = fragment_fin s'"
      "fs_sequence s' = (case last_field LP_SEQUENCE es of Some v \<Rightarrow> Some (decode_be_u64 v) | None \<Rightarrow> fs_sequence ?s0)"
      "fs_frag_index s' = (case last_field LP_FRAG_INDEX es of Some v \<Rightarrow> Some (decode_be_u64 v) | None \<Rightarrow> fs_frag_index ?s0)"
      "fs_frag_count s' = (case last_field LP_FRAG_COUNT es of Some v \<Rightarrow> Some (decode_be_u64 v) | None \<Rightarrow> fs_frag_count ?s0)"
      "case last_field LP_FRAGMENT es of Some v \<Rightarrow> get_range raw (fs_start s') (fs_end s') = Some v
         | None \<Rightarrow> fs_start s' = fs_start ?s0 \<and> fs_end s' = fs_end ?s0"
      using fragment_scan_fold [OF len count, of fragment_fin ?s0] unfolding split [symmetric] by blast
    have s': "extract_fragment raw = fragment_fin s'"
      "fs_sequence s' = lp_sequence p" "fs_frag_index s' = lp_frag_index p" "fs_frag_count s' = lp_frag_count p"
      "\<forall>f. lp_fragment p = Some f \<longrightarrow> get_range raw (fs_start s') (fs_end s') = Some f"
      using k by (auto simp: ext fields split: option.splits)
    have "is_fragmented p \<longleftrightarrow> lp_frag_count p \<noteq> None"
    proof (cases "last_field LP_FRAG_COUNT es")
      case (Some v)
      then have "(LP_FRAG_COUNT, v) \<in> set es"
        by (auto simp: last_field_def dest: map_of_SomeD)
      with False Some show ?thesis by (auto simp: is_fragmented_def fields not_le)
    qed (simp add: is_fragmented_def fields)
    with s' show ?thesis
      by (auto simp: fragment_fin_def split: bind_splits)
  qed
qed

section \<open>Properties\<close>

text \<open>Link headers survive the link: \<open>LpPacket::decode\<close> of what \<open>encode_lp_with_headers\<close>
  writes gives the payload and exactly the headers that were set, whatever follows on the
  wire. (The two header values the wire cannot carry, an empty PIT token and a cache policy
  \<open>Other(1)\<close>, are excluded.)\<close>

lemma lp_headers_roundtrip:
  assumes "lh_pit_token h \<noteq> Some []" and "lh_cache_policy h \<noteq> Some (CpOther 1)"
    and "length (encode_lp_with_headers fragment h @ rest) < 2 ^ 63"
  shows "lp_decode (encode_lp_with_headers fragment h @ rest) = Inr (packet_of_headers fragment h)"
  using lp_decode_elems [OF _ types_ok_headers] lp_fold_headers [OF assms(1,2)] assms(3)
  by (simp only: encode_lp_with_headers_elems)

text \<open>Reliability frames survive the link: fragment numbers, acknowledgements (in order),
  TxSequence and payload written by \<open>encode_lp_reliable\<close> are what \<open>LpPacket::decode\<close> returns, and
  an acknowledgement-only packet is decoded as such.\<close>

lemma lp_reliable_roundtrip:
  "(length (encode_lp_reliable fragment tx frag_info acks) < 2 ^ 63 \<longrightarrow>
     lp_decode (encode_lp_reliable fragment tx frag_info acks) = Inr (reliable_packet fragment tx frag_info acks)) \<and>
   (acks \<noteq> [] \<and> length (encode_lp_acks acks) < 2 ^ 63 \<longrightarrow>
     lp_decode (encode_lp_acks acks) = Inr (lp_packet_empty\<lparr>lp_acks := acks\<rparr>))"
  using lp_decode_reliable lp_decode_acks by blast

text \<open>The allocation-free fragment scanner agrees with the full decoder: on every wire that
  \<open>LpPacket::decode\<close> accepts, \<open>extract_fragment\<close> answers exactly when the packet is one of several
  fragments with a sequence and an index, reports the decoded numbers, and its offsets cut the
  decoded payload out of the wire.\<close>

lemma extract_fragment_agrees:
  assumes "lp_decode raw = Inr p" and "length raw < 2 ^ 63"
  shows "(extract_fragment raw \<noteq> None \<longleftrightarrow>
      is_fragmented p \<and> lp_sequence p \<noteq> None \<and> lp_frag_index p \<noteq> None) \<and>
    (\<forall>h. extract_fragment raw = Some h \<longrightarrow>
      lp_sequence p = Some (fh_sequence h) \<and> lp_frag_index p = Some (fh_frag_index h) \<and>
      lp_frag_count p = Some (fh_frag_count h) \<and>
      (\<forall>f. lp_fragment p = Some f \<longrightarrow> get_range raw (fh_frag_start h) (fh_frag_end h) = Some f))"
  using extract_fragment_decoded [OF assms] .

text \<open>The acknowledgement scanner agrees with the full decoder: on every wire that
  \<open>LpPacket::decode\<close> accepts, \<open>extract_acks\<close> returns its TxSequence and its acknowledgements in
  order.\<close>

lemma extract_acks_agrees:
  assumes "lp_decode raw = Inr p" and "length raw < 2 ^ 63"
  shows "extract_acks raw = (lp_tx_sequence p, lp_acks p)"
proof -
  obtain es rest where raw: "raw = tlv_enc LP_PACKET (elems_enc es) @ rest"
    and fold: "flow_fold lp_body lp_finish lp_init es = Inr p"
    using lp_decode_elems_canonical [OF assms] by metis
  have inner: "lp_inner raw = Some (length (tlv_enc LP_PACKET (elems_enc es)) - length (elems_enc es), elems_enc es)"
    using lp_inner_enc [of LP_PACKET "elems_enc es" rest] assms(2) by (simp add: raw)
  have "raw_loop acks_body (\<lambda>s. s) (\<lambda>s. s) (None, []) ([] @ elems_enc es) (length ([] :: bytes))
      = pos_fold acks_body (\<lambda>s. s) (None, []) (length ([] :: bytes)) es"
    using assms(2) by (intro raw_loop_enc) (simp add: raw tlv_enc_def)
  then show ?thesis
    using inner decoded_fields [OF fold]
    by (simp add: extract_acks_def raw acks_scan_fold split: option.split)
qed

lemmas lp_wire_eval = encode_lp_reliable_elems reliable_elems_def length_tlv_enc tlv_size_def varu64_size_def
  nni_width_def

lemma lp_decode_sample:
  "lp_decode (encode_lp_reliable [5] 7 (Some (9, 0, 2)) [3]) = Inr (reliable_packet [5] 7 (Some (9, 0, 2)) [3])"
  "length (encode_lp_reliable [5] 7 (Some (9, 0, 2)) [3]) < 2 ^ 63"
proof -
  show *: "length (encode_lp_reliable [5] 7 (Some (9, 0, 2)) [3]) < 2 ^ 63"
    by (simp add: lp_wire_eval)
  then show "lp_decode (encode_lp_reliable [5] 7 (Some (9, 0, 2)) [3]) = Inr (reliable_packet [5] 7 (Some (9, 0, 2)) [3])"
    by (rule lp_decode_reliable)
qed

end
