(* ===== verification/Ndn_Meta.thy ===== *)
theory Ndn_Meta
  imports Ndn_Lp
begin

text \<open>
  \<open>MetaInfo\<close> (\<open>src/crates/core/ndn-packet/src/meta_info.rs\<close>), \<open>SignatureInfo\<close>
  (\<open>signature.rs\<close>), \<open>SubscriptionRequest\<close> (\<open>subscription.rs\<close>) and the scan over the
  elements of a packet that every lazily decoded field uses. A \<open>Duration\<close> read from or written
  to a packet is its number of milliseconds. The lemmas say what the decoders make of the elements
  that were written.
\<close>

abbreviation META_INFO :: u64 where "META_INFO \<equiv> 0x14"
abbreviation CONTENT :: u64 where "CONTENT \<equiv> 0x15"
abbreviation SIGNATURE_INFO :: u64 where "SIGNATURE_INFO \<equiv> 0x16"
abbreviation SIGNATURE_VALUE :: u64 where "SIGNATURE_VALUE \<equiv> 0x17"
abbreviation CONTENT_TYPE :: u64 where "CONTENT_TYPE \<equiv> 0x18"
abbreviation FRESHNESS_PERIOD :: u64 where "FRESHNESS_PERIOD \<equiv> 0x19"
abbreviation FINAL_BLOCK_ID :: u64 where "FINAL_BLOCK_ID \<equiv> 0x1A"
abbreviation SIGNATURE_TYPE :: u64 where "SIGNATURE_TYPE \<equiv> 0x1B"
abbreviation SIGNATURE_NONCE :: u64 where "SIGNATURE_NONCE \<equiv> 0x26"
abbreviation SIGNATURE_TIME :: u64 where "SIGNATURE_TIME \<equiv> 0x28"
abbreviation SIGNATURE_SEQ_NUM :: u64 where "SIGNATURE_SEQ_NUM \<equiv> 0x2A"
abbreviation VALIDITY_PERIOD :: u64 where "VALIDITY_PERIOD \<equiv> 0xFD"

section \<open>Scanning the elements of a packet\<close>

text \<open>Every lazy accessor reads the outer element, then loops over the elements inside; an error
  of the reader leaves the accessor with that error.\<close>

definition scan_elems ::
  "('s \<Rightarrow> u64 \<Rightarrow> bytes \<Rightarrow> ('s, packet_error + 'r) flow) \<Rightarrow> ('s \<Rightarrow> packet_error + 'r) \<Rightarrow> 's \<Rightarrow>
   bytes \<Rightarrow> packet_error + 'r" where
  "scan_elems f fin s val = tlv_loop (\<lambda>s _ t v _. f s t v) (\<lambda>e. Inl (Tlv e)) fin s (reader_new val)"

definition scan_packet ::
  "('s \<Rightarrow> u64 \<Rightarrow> bytes \<Rightarrow> ('s, packet_error + 'r) flow) \<Rightarrow> ('s \<Rightarrow> packet_error + 'r) \<Rightarrow> 's \<Rightarrow>
   bytes \<Rightarrow> packet_error + 'r" where
  "scan_packet f fin s raw = (case fst (read_tlv (reader_new raw)) of
     Inl e \<Rightarrow> Inl (Tlv e)
   | Inr (_, val) \<Rightarrow> scan_elems f fin s val)"

text \<open>The accessors that return the first element of one type.\<close>

definition scan_first :: "u64 \<Rightarrow> (bytes \<Rightarrow> packet_error + 'a option) \<Rightarrow> bytes \<Rightarrow> packet_error + 'a option" where
  "scan_first typ dec raw =
     scan_packet (\<lambda>_ t v. if t = typ then Return (dec v) else Continue ()) (\<lambda>_. Inr None) () raw"

definition packet_name :: "bytes \<Rightarrow> packet_error + name" where
  "packet_name val = (case name_decode val of Inl (NameError e) \<Rightarrow> Inl (MalformedPacket e) | Inr n \<Rightarrow> Inr n)"

text \<open>\<open>x.ok().flatten()\<close>.\<close>

definition ok_flatten :: "'e + 'a option \<Rightarrow> 'a option" where
  "ok_flatten r = (case r of Inl _ \<Rightarrow> None | Inr x \<Rightarrow> x)"

section \<open>MetaInfo\<close>

datatype content_type = Blob | Link | Key | CtNack | Manifest | PrefixAnn | CtOther u64

definition content_type_code :: "content_type \<Rightarrow> u64" where
  "content_type_code ct = (case ct of
     Blob \<Rightarrow> 0 | Link \<Rightarrow> 1 | Key \<Rightarrow> 2 | CtNack \<Rightarrow> 3 | Manifest \<Rightarrow> 4 | PrefixAnn \<Rightarrow> 5 | CtOther c \<Rightarrow> c)"

definition content_type_from_code :: "u64 \<Rightarrow> content_type" where
  "content_type_from_code code =
     (if code = 0 then Blob else if code = 1 then Link else if code = 2 then Key
      else if code = 3 then CtNack else if code = 4 then Manifest else if code = 5 then PrefixAnn
      else CtOther code)"

record meta_info =
  mi_content_type :: content_type
  mi_freshness_period :: "u64 option"
  mi_final_block_id :: "bytes option"

definition meta_info_default :: meta_info where
  "meta_info_default = \<lparr>mi_content_type = Blob, mi_freshness_period = None, mi_final_block_id = None\<rparr>"

definition final_block_component :: "meta_info \<Rightarrow> (packet_error + name_component) option" where
  "final_block_component mi = (case mi_final_block_id mi of
     None \<Rightarrow> None
   | Some raw \<Rightarrow> Some (case fst (read_tlv (reader_new raw)) of
       Inl e \<Rightarrow> Inl (Tlv e)
     | Inr (typ, val) \<Rightarrow> Inr (NameComponent typ val)))"

definition meta_info_body :: "meta_info \<Rightarrow> u64 \<Rightarrow> bytes \<Rightarrow> (meta_info, packet_error + meta_info) flow" where
  "meta_info_body info t v =
     (if t = CONTENT_TYPE then (case decode_nni v of
          Inl e \<Rightarrow> Return (Inl e)
        | Inr code \<Rightarrow> Continue (info\<lparr>mi_content_type := content_type_from_code code\<rparr>))
      else if t = FRESHNESS_PERIOD then (case decode_nni v of
          Inl e \<Rightarrow> Return (Inl e)
        | Inr ms \<Rightarrow> Continue (info\<lparr>mi_freshness_period := Some ms\<rparr>))
      else if t = FINAL_BLOCK_ID then Continue (info\<lparr>mi_final_block_id := Some v\<rparr>)
      else if is_critical_tlv_type t then
        Return (Inl (MalformedPacket ''unknown critical TLV-TYPE in MetaInfo body''))
      else Continue info)"

definition meta_info_decode :: "bytes \<Rightarrow> packet_error + meta_info" where
  "meta_info_decode val = scan_elems meta_info_body Inr meta_info_default val"

section \<open>SignatureInfo\<close>

datatype signature_type =
    DigestSha256 | SignatureSha256WithRsa | SignatureSha256WithEcdsa | SignatureHmacWithSha256
  | SignatureEd25519 | SigOther u64

definition signature_type_code :: "signature_type \<Rightarrow> u64" where
  "signature_type_code st = (case st of
     DigestSha256 \<Rightarrow> 0 | SignatureSha256WithRsa \<Rightarrow> 1 | SignatureSha256WithEcdsa \<Rightarrow> 3
   | SignatureHmacWithSha256 \<Rightarrow> 4 | SignatureEd25519 \<Rightarrow> 5 | SigOther c \<Rightarrow> c)"

definition signature_type_from_code :: "u64 \<Rightarrow> signature_type" where
  "signature_type_from_code code =
     (if code = 0 then DigestSha256 else if code = 1 then SignatureSha256WithRsa
      else if code = 3 then SignatureSha256WithEcdsa else if code = 4 then SignatureHmacWithSha256
      else if code = 5 then SignatureEd25519 else SigOther code)"

definition required_signature_value_len :: "signature_type \<Rightarrow> nat option" where
  "required_signature_value_len st = (case st of
     DigestSha256 \<Rightarrow> Some 32
   | SignatureHmacWithSha256 \<Rightarrow> Some 32
   | SignatureEd25519 \<Rightarrow> Some 64
   | SigOther c \<Rightarrow> (if c = 6 then Some 32 else if c = 7 then Some 32 else None)
   | SignatureSha256WithRsa \<Rightarrow> None
   | SignatureSha256WithEcdsa \<Rightarrow> None)"

record signature_info =
  si_sig_type :: signature_type
  si_key_locator :: "key_locator option"
  si_sig_nonce :: "bytes option"
  si_sig_time :: "u64 option"
  si_sig_seq_num :: "u64 option"

definition key_locator_name :: "signature_info \<Rightarrow> name option" where
  "key_locator_name si = (case si_key_locator si of Some (KlName n) \<Rightarrow> Some n | _ \<Rightarrow> None)"

definition key_digest_bytes :: "signature_info \<Rightarrow> bytes option" where
  "key_digest_bytes si = (case si_key_locator si of Some (KlKeyDigest b) \<Rightarrow> Some b | _ \<Rightarrow> None)"

text \<open>The locals of the decoder: the optional signature type, and the rest of the result.\<close>

record sig_info_locals =
  sl_sig_type :: "signature_type option"
  sl_key_locator :: "key_locator option"
  sl_sig_nonce :: "bytes option"
  sl_sig_time :: "u64 option"
  sl_sig_seq_num :: "u64 option"

definition sig_info_init :: sig_info_locals where
  "sig_info_init = \<lparr>sl_sig_type = None, sl_key_locator = None, sl_sig_nonce = None, sl_sig_time = None,
     sl_sig_seq_num = None\<rparr>"

definition sig_key_locator :: "bytes \<Rightarrow> key_locator option \<Rightarrow> packet_error + key_locator option" where
  "sig_key_locator v old = (let inner = reader_new v in
     if reader_is_empty inner then Inr old
     else (case fst (read_tlv inner) of
       Inl e \<Rightarrow> Inl (Tlv e)
     | Inr (kt, kv) \<Rightarrow>
         if kt = NAME then (case packet_name kv of Inl e \<Rightarrow> Inl e | Inr n \<Rightarrow> Inr (Some (KlName n)))
         else if kt = KEY_DIGEST then Inr (Some (KlKeyDigest kv))
         else Inr old))"

definition sig_info_body ::
  "sig_info_locals \<Rightarrow> u64 \<Rightarrow> bytes \<Rightarrow> (sig_info_locals, packet_error + signature_info) flow" where
  "sig_info_body s t v =
     (if t = SIGNATURE_TYPE then (case decode_nni v of
          Inl e \<Rightarrow> Return (Inl e)
        | Inr code \<Rightarrow> Continue (s\<lparr>sl_sig_type := Some (signature_type_from_code code)\<rparr>))
      else if t = KEY_LOCATOR then (case sig_key_locator v (sl_key_locator s) of
          Inl e \<Rightarrow> Return (Inl e)
        | Inr kl \<Rightarrow> Continue (s\<lparr>sl_key_locator := kl\<rparr>))
      else if t = SIGNATURE_NONCE then Continue (s\<lparr>sl_sig_nonce := Some v\<rparr>)
      else if t = SIGNATURE_TIME then (case decode_nni v of
          Inl e \<Rightarrow> Return (Inl e)
        | Inr ms \<Rightarrow> Continue (s\<lparr>sl_sig_time := Some ms\<rparr>))
      else if t = SIGNATURE_SEQ_NUM then (case decode_nni v of
          Inl e \<Rightarrow> Return (Inl e)
        | Inr n \<Rightarrow> Continue (s\<lparr>sl_sig_seq_num := Some n\<rparr>))
      else if t = VALIDITY_PERIOD then Continue s
      else if is_critical_tlv_type t then
        Return (Inl (MalformedPacket ''unknown critical TLV-TYPE in SignatureInfo body''))
      else Continue s)"

definition key_locator_rule :: "signature_type \<Rightarrow> key_locator option \<Rightarrow> bool" where
  "key_locator_rule st kl \<longleftrightarrow> (let c = signature_type_code st in
     if c \<in> {0, 6} \<and> kl \<noteq> None then False
     else if c \<in> {1, 3, 4, 5, 7} \<and> kl = None then False
     else True)"

definition sig_info_finish :: "sig_info_locals \<Rightarrow> packet_error + signature_info" where
  "sig_info_finish s = (let
     result = Inr \<lparr>si_sig_type = (case sl_sig_type s of Some st \<Rightarrow> st | None \<Rightarrow> SigOther 0),
       si_key_locator = sl_key_locator s, si_sig_nonce = sl_sig_nonce s, si_sig_time = sl_sig_time s,
       si_sig_seq_num = sl_sig_seq_num s\<rparr>
   in case sl_sig_type s of
     Some st \<Rightarrow> if key_locator_rule st (sl_key_locator s) then result
       else Inl (KeyLocatorRule (signature_type_code st))
   | None \<Rightarrow> result)"

definition sig_info_decode :: "bytes \<Rightarrow> packet_error + signature_info" where
  "sig_info_decode val = scan_elems sig_info_body sig_info_finish sig_info_init val"

section \<open>SubscriptionRequest\<close>

abbreviation TLV_SUBSCRIPTION_REQUEST :: u64 where "TLV_SUBSCRIPTION_REQUEST \<equiv> 0x230"
definition MAX_PERSISTENT_LIFETIME_SECS :: u32 where "MAX_PERSISTENT_LIFETIME_SECS = 3600"
definition MAX_SUBSCRIPTION_ID_LEN :: nat where "MAX_SUBSCRIPTION_ID_LEN = 32"
definition SUBSCRIPTION_HEADER_LEN :: nat where "SUBSCRIPTION_HEADER_LEN = 9"

record subscription_request =
  sr_version :: u8
  sr_max_data_count :: u32
  sr_max_lifetime_secs :: u32
  sr_subscription_id :: "bytes option"

definition subscription_decode_value :: "bytes \<Rightarrow> subscription_request option" where
  "subscription_decode_value bs =
     (if length bs < SUBSCRIPTION_HEADER_LEN \<or> length bs > SUBSCRIPTION_HEADER_LEN + MAX_SUBSCRIPTION_ID_LEN
      then None
      else Some \<lparr>sr_version = bs ! 0,
        sr_max_data_count = from_be_bytes [bs ! 1, bs ! 2, bs ! 3, bs ! 4],
        sr_max_lifetime_secs = from_be_bytes [bs ! 5, bs ! 6, bs ! 7, bs ! 8],
        sr_subscription_id =
          (if length bs > SUBSCRIPTION_HEADER_LEN then Some (drop SUBSCRIPTION_HEADER_LEN bs) else None)\<rparr>)"

definition find_in :: "bytes \<Rightarrow> subscription_request option" where
  "find_in app_params =
     tlv_loop (\<lambda>_ _ t v _. if t = TLV_SUBSCRIPTION_REQUEST then Return (subscription_decode_value v)
         else Continue ())
       (\<lambda>_. None) (\<lambda>_. None) () (reader_new app_params)"

definition subscription_encode :: "subscription_request \<Rightarrow> bytes" where
  "subscription_encode sr = (let
     val = [sr_version sr] @ to_be_bytes (sr_max_data_count sr) @ to_be_bytes (sr_max_lifetime_secs sr) @
       (case sr_subscription_id sr of
          Some i \<Rightarrow> take (min (length i) MAX_SUBSCRIPTION_ID_LEN) i
        | None \<Rightarrow> [])
   in finish (write_tlv TLV_SUBSCRIPTION_REQUEST val writer_new))"

section \<open>What the scans see\<close>

lemma scan_elems_enc:
  "length (elems_enc es) < 2 ^ 63 \<Longrightarrow> types_ok es \<Longrightarrow> scan_elems f fin s (elems_enc es) = flow_fold f fin s es"
  by (simp add: scan_elems_def tlv_loop_enc)

lemma scan_packet_enc:
  assumes "length (tlv_enc ty (elems_enc es) @ rest) < 2 ^ 63" "types_ok es" "ty \<le> 0xFFFFFFFF"
  shows "scan_packet f fin s (tlv_enc ty (elems_enc es) @ rest) = flow_fold f fin s es"
proof -
  have "length (elems_enc es) < 2 ^ 63"
    using assms(1) length_tlv_enc_value [of "elems_enc es" ty] by simp
  with assms show ?thesis
    by (simp add: scan_packet_def fst_read_tlv_enc scan_elems_enc)
qed

lemma flow_fold_first:
  "flow_fold (\<lambda>_ t v. if t = ty then Return (dec v) else Continue ()) fin s es =
     (case map_of es ty of Some v \<Rightarrow> dec v | None \<Rightarrow> fin s)"
  by (induction es arbitrary: s) auto

lemma scan_first_enc:
  assumes "length (tlv_enc ty (elems_enc es) @ rest) < 2 ^ 63" "types_ok es" "ty \<le> 0xFFFFFFFF"
  shows "scan_first t dec (tlv_enc ty (elems_enc es) @ rest) =
    (case map_of es t of Some v \<Rightarrow> dec v | None \<Rightarrow> Inr None)"
  unfolding scan_first_def scan_packet_enc [OF assms] flow_fold_first ..

lemma packet_name_enc:
  "name_ok n \<Longrightarrow> length (elems_enc (name_elems n)) < 2 ^ 63 \<Longrightarrow> packet_name (elems_enc (name_elems n)) = Inr n"
  by (simp add: packet_name_def name_decode_enc)

lemma packet_name_canonical:
  "packet_name val = Inr n \<Longrightarrow> length val < 2 ^ 63 \<Longrightarrow> name_ok n \<and> val = elems_enc (name_elems n)"
  using name_decode_canonical [of val n] by (simp add: packet_name_def split: sum.splits name_error.splits)

lemma content_type_roundtrip:
  "content_type_from_code (content_type_code ct) = (case ct of CtOther c \<Rightarrow> content_type_from_code c | _ \<Rightarrow> ct)"
  by (cases ct) (simp_all add: content_type_code_def content_type_from_code_def)

lemma content_type_code_from [simp]: "content_type_code (content_type_from_code c) = c"
  by (simp add: content_type_code_def content_type_from_code_def)

lemma signature_type_code_from [simp]: "signature_type_code (signature_type_from_code c) = c"
  by (simp add: signature_type_code_def signature_type_from_code_def)

text \<open>An unregistered code may be spelled \<open>Other(c)\<close> with a registered \<open>c\<close>; decoding never produces
  such a value.\<close>

definition signature_type_ok :: "signature_type \<Rightarrow> bool" where
  "signature_type_ok st \<longleftrightarrow> signature_type_from_code (signature_type_code st) = st"

lemma decode_nni_enc [simp]: "decode_nni (nni_enc v) = Inr v"
  using nni_width_cases [of v] by (auto simp: decode_nni_Inr)

definition meta_elems :: "u64 option \<Rightarrow> u64 option \<Rightarrow> bytes option \<Rightarrow> (u64 \<times> bytes) list" where
  "meta_elems ct fresh fbi =
     (case ct of Some c \<Rightarrow> [(CONTENT_TYPE, nni_enc c)] | None \<Rightarrow> []) @
     (case fresh of Some f \<Rightarrow> [(FRESHNESS_PERIOD, nni_enc f)] | None \<Rightarrow> []) @
     (case fbi of Some b \<Rightarrow> [(FINAL_BLOCK_ID, b)] | None \<Rightarrow> [])"

lemma types_ok_meta_elems [simp]: "types_ok (meta_elems ct fresh fbi)"
  by (simp add: meta_elems_def split: option.split)

lemma meta_info_decode_elems:
  assumes "length (elems_enc (meta_elems ct fresh fbi)) < 2 ^ 63"
  shows "meta_info_decode (elems_enc (meta_elems ct fresh fbi)) =
    Inr \<lparr>mi_content_type = (case ct of Some c \<Rightarrow> content_type_from_code c | None \<Rightarrow> Blob),
      mi_freshness_period = fresh, mi_final_block_id = fbi\<rparr>"
  unfolding meta_info_decode_def scan_elems_enc [OF assms types_ok_meta_elems]
  by (simp add: meta_elems_def meta_info_body_def meta_info_default_def split: option.split)

definition sig_info_elems :: "signature_type \<Rightarrow> name option \<Rightarrow> bytes option \<Rightarrow> u64 option \<Rightarrow> (u64 \<times> bytes) list" where
  "sig_info_elems st kl nonce time =
     [(SIGNATURE_TYPE, nni_enc (signature_type_code st))] @
     (case kl of Some n \<Rightarrow> [(KEY_LOCATOR, tlv_enc NAME (elems_enc (name_elems n)))] | None \<Rightarrow> []) @
     (case nonce of Some b \<Rightarrow> [(SIGNATURE_NONCE, b)] | None \<Rightarrow> []) @
     (case time of Some ms \<Rightarrow> [(SIGNATURE_TIME, nni_enc ms)] | None \<Rightarrow> [])"

lemma types_ok_sig_info_elems [simp]: "types_ok (sig_info_elems st kl nonce time)"
  by (simp add: sig_info_elems_def split: option.split)

lemma sig_key_locator_name:
  assumes "name_ok n" "length (tlv_enc NAME (elems_enc (name_elems n))) < 2 ^ 63"
  shows "sig_key_locator (tlv_enc NAME (elems_enc (name_elems n))) old = Inr (Some (KlName n))"
proof -
  have "length (elems_enc (name_elems n)) < 2 ^ 63"
    using assms(2) length_tlv_enc_value [of "elems_enc (name_elems n)" NAME] by simp
  moreover have "\<not> reader_is_empty (reader_new (tlv_enc NAME (elems_enc (name_elems n))))"
    using tlv_enc_nonempty [of NAME "elems_enc (name_elems n)"] by (auto simp: reader_is_empty_def reader_new_def)
  ultimately show ?thesis
    using fst_read_tlv_enc [of NAME "elems_enc (name_elems n)" "[]"] assms
    by (simp add: sig_key_locator_def packet_name_enc)
qed

lemma length_elem_value:
  "length (elems_enc es) < 2 ^ 63 \<Longrightarrow> (t, v) \<in> set es \<Longrightarrow> length v < 2 ^ 63"
proof (induction es)
  case (Cons e es)
  obtain t' v' where e: "e = (t', v')" by fastforce
  show ?case
    using Cons length_tlv_enc_value [of v' t'] by (auto simp: e)
qed simp

lemma sig_info_decode_elems:
  assumes "length (elems_enc (sig_info_elems st kl nonce time)) < 2 ^ 63" "signature_type_ok st"
    "\<forall>n. kl = Some n \<longrightarrow> name_ok n" "key_locator_rule st (map_option KlName kl)"
  shows "sig_info_decode (elems_enc (sig_info_elems st kl nonce time)) =
    Inr \<lparr>si_sig_type = st, si_key_locator = map_option KlName kl, si_sig_nonce = nonce, si_sig_time = time,
      si_sig_seq_num = None\<rparr>"
proof -
  have kl: "sig_key_locator (tlv_enc NAME (elems_enc (name_elems n))) old = Inr (Some (KlName n))"
    if "kl = Some n" for n old
    using that assms(3) length_elem_value [OF assms(1), of KEY_LOCATOR "tlv_enc NAME (elems_enc (name_elems n))"]
    by (intro sig_key_locator_name) (simp_all add: sig_info_elems_def)
  show ?thesis
    unfolding sig_info_decode_def scan_elems_enc [OF assms(1) types_ok_sig_info_elems]
    using assms(2,4) kl
    by (cases kl; cases nonce; cases time)
      (simp_all add: sig_info_elems_def sig_info_body_def sig_info_init_def sig_info_finish_def signature_type_ok_def)
qed

section \<open>Shared lemmas on packets and their elements\<close>

definition opt_elem :: "u64 \<Rightarrow> bytes option \<Rightarrow> (u64 \<times> bytes) list" where
  "opt_elem t v = (case v of Some v \<Rightarrow> [(t, v)] | None \<Rightarrow> [])"

lemma opt_elem_simps [simp]:
  "opt_elem t None = []" "opt_elem t (Some v) = [(t, v)]"
  "types_ok (opt_elem t w) \<longleftrightarrow> w = None \<or> t \<le> 0xFFFFFFFF"
  "map_of (opt_elem t w) s = (if s = t then w else None)"
  "fst ` set (opt_elem t w) = (if w = None then {} else {t})"
  by (cases w; simp add: opt_elem_def)+

text \<open>The bytes one step of a reader consumed.\<close>

definition slice_between :: "bytes \<Rightarrow> tlv_reader \<Rightarrow> tlv_reader \<Rightarrow> bytes" where
  "slice_between buf r r' = take (reader_position r' - reader_position r) (drop (reader_position r) buf)"

lemma length_packet_value:
  "length (tlv_enc t v @ rest) < 2 ^ 63 \<Longrightarrow> length v < 2 ^ 63"
  using length_tlv_enc_value [of v t] by simp

lemma read_first_elem:
  assumes "length (elems_enc ((t, v) # es)) < 2 ^ 63" "t \<le> 0xFFFFFFFF"
  obtains r where "read_tlv (reader_new (elems_enc ((t, v) # es))) = (Inr (t, v), r)" "as_bytes r = elems_enc es"
proof -
  let ?r = "reader_new (elems_enc ((t, v) # es))"
  have "as_bytes ?r = tlv_enc t v @ elems_enc es" by simp
  then show ?thesis
    using read_tlv_enc [OF reader_wf_new [OF assms(1)] _ assms(2), of v "elems_enc es"]
      as_bytes_advance [of ?r "tlv_enc t v" "elems_enc es"] by (intro that) simp_all
qed

lemma slice_between_elem:
  assumes "as_bytes r = tlv_enc t v @ tail" "reader_wf r" "read_tlv r = (Inr (t, v), r')" "t \<le> 0xFFFFFFFF"
  shows "slice_between (rbuf r) r r' = tlv_enc t v"
  using read_tlv_enc [OF assms(2,1,4)] assms(1,3)
  by (auto simp: slice_between_def reader_position_def as_bytes_def)

text \<open>A loop that copies the bytes of the elements it visits sees their encodings.\<close>

lemma tlv_loop_slices:
  assumes "reader_wf r" "rbuf r = buf" "as_bytes r = elems_enc es" "types_ok es"
  shows "tlv_loop (\<lambda>s r t v r'. f s t (slice_between buf r r')) err fin s r =
    flow_fold (\<lambda>s t v. f s t (tlv_enc t v)) fin s es"
  using assms
proof (induction es arbitrary: s r)
  case Nil
  then show ?case by (simp add: tlv_loop.simps [of _ _ _ _ r] as_bytes_empty)
next
  case (Cons e es)
  obtain t v where e: "e = (t, v)" by fastforce
  have t: "t \<le> 0xFFFFFFFF" "types_ok es" using Cons.prems(4) by (simp_all add: e)
  have ab: "as_bytes r = tlv_enc t v @ elems_enc es" using Cons.prems(3) by (simp add: e)
  obtain r' where r': "read_tlv r = (Inr (t, v), r')" "rbuf r' = rbuf r" "as_bytes r' = elems_enc es"
    using read_tlv_enc [OF Cons.prems(1) ab t(1)] as_bytes_advance [OF ab] by auto
  have wf': "reader_wf r'" using read_tlv_keeps(1) [OF Cons.prems(1) r'(1)] .
  have sl: "slice_between buf r r' = tlv_enc t v"
    using slice_between_elem [OF ab Cons.prems(1) r'(1) t(1)] Cons.prems(2) by simp
  have ne: "\<not> reader_is_empty r"
    using as_bytes_empty [OF Cons.prems(1)] ab tlv_enc_nonempty [of t v] by auto
  show ?case
    using Cons.IH [OF wf' _ r'(3) t(2)] Cons.prems(2) r'(1,2) sl ne
    by (simp add: tlv_loop.simps [of _ _ _ _ r] e split: flow.split)
qed

lemma rbuf_reader_new [simp]: "rbuf (reader_new buf) = buf"
  by (simp add: reader_new_def)

lemmas wire_length = length_tlv_enc tlv_size_def varu64_size_def nni_width_def

lemma nothing_follows:
  assumes "length (tlv_enc t v) < 2 ^ 63" "t \<le> 0xFFFFFFFF"
  shows "as_bytes (snd (read_tlv (reader_new (tlv_enc t v)))) = []"
  using read_tlv_enc [OF reader_wf_new [OF assms(1)], of t v "[]"] assms(2)
    as_bytes_advance [of "reader_new (tlv_enc t v)" "tlv_enc t v" "[]"] by simp

end
