(* ===== verification/Ndn_Data.thy ===== *)
theory Ndn_Data
  imports Ndn_Meta
begin

text \<open>
  The Data packet: \<open>Data::decode\<close> with its structural validation, the byte ranges of the signed
  region and of the signature, the lazily decoded fields and the content hash sidecar
  (\<open>src/crates/core/ndn-packet/src/data.rs\<close>), and \<open>DataBuilder\<close> with its single-buffer fast paths
  and its general signing path (\<open>encode/data.rs\<close>). SHA-256, BLAKE3 and the signer are arguments.
  The lemmas show that the fast paths write the bytes of the general path, that decoding inverts
  building, what the verifier is given, and that the ranges are wrong when bytes follow the packet.
\<close>

abbreviation DATA :: u64 where "DATA \<equiv> 0x06"

section \<open>Decoding\<close>

record data =
  data_raw :: bytes
  signed_start :: nat
  signed_end :: nat
  sig_value_start :: nat
  sig_value_end :: nat
  data_name :: name
  data_content_sha256 :: "bytes option"

definition data_elem_index :: "u64 \<Rightarrow> nat option" where
  "data_elem_index t =
     (if t = META_INFO then Some 2
      else if t = CONTENT then Some 3
      else if t = SIGNATURE_INFO then Some 4
      else if t = SIGNATURE_VALUE then Some 5
      else None)"

definition show_signature_type :: "signature_type \<Rightarrow> string" where
  "show_signature_type st = (case st of
     DigestSha256 \<Rightarrow> ''DigestSha256'' | SignatureSha256WithRsa \<Rightarrow> ''SignatureSha256WithRsa''
   | SignatureSha256WithEcdsa \<Rightarrow> ''SignatureSha256WithEcdsa''
   | SignatureHmacWithSha256 \<Rightarrow> ''SignatureHmacWithSha256'' | SignatureEd25519 \<Rightarrow> ''SignatureEd25519''
   | SigOther c \<Rightarrow> ''Other('' @ show_nat (unat c) @ '')'')"

definition sig_value_width_ok :: "signature_type option \<Rightarrow> bytes \<Rightarrow> bool" where
  "sig_value_width_ok last_sig_type v = (case last_sig_type of
     None \<Rightarrow> True
   | Some st \<Rightarrow> (case required_signature_value_len st of None \<Rightarrow> True | Some expected \<Rightarrow> length v = expected))"

definition data_body_step ::
  "nat \<times> signature_type option \<Rightarrow> u64 \<Rightarrow> bytes \<Rightarrow> (nat \<times> signature_type option, packet_error + unit) flow" where
  "data_body_step s t v = (case s of (last_element, last_sig_type) \<Rightarrow>
     (case data_elem_index t of
        Some elem \<Rightarrow>
          if elem \<le> last_element then
            Return (Inl (MalformedPacket ''Data body element out of spec order or duplicated''))
          else if t = SIGNATURE_INFO then
            (case sig_info_decode v of
               Inl e \<Rightarrow> Return (Inl e)
             | Inr info \<Rightarrow> Continue (elem, Some (si_sig_type info)))
          else if t = SIGNATURE_VALUE \<and> \<not> sig_value_width_ok last_sig_type v then
            Return (Inl (MalformedPacket (''SignatureValue length '' @ show_nat (length v) @ '' != expected '' @
              show_nat (the (required_signature_value_len (the last_sig_type))) @ '' for '' @
              show_signature_type (the last_sig_type))))
          else Continue (elem, last_sig_type)
      | None \<Rightarrow>
          if is_critical_tlv_type t then
            Return (Inl (MalformedPacket ''unknown critical TLV-TYPE in Data body''))
          else Continue (last_element, last_sig_type)))"

definition validate_data_body_structure :: "tlv_reader \<Rightarrow> packet_error + unit" where
  "validate_data_body_structure body = scan_elems data_body_step (\<lambda>_. Inr ()) (1, None) (as_bytes body)"

text \<open>The two out-parameters keep their initial zeros when there is no signature or the scan fails.\<close>

definition scan_for_sig_value :: "bytes \<Rightarrow> nat \<Rightarrow> nat \<times> nat" where
  "scan_for_sig_value raw start = tlv_loop (\<lambda>_ r t v r'.
       if t = SIGNATURE_VALUE then Return (start + reader_position r, start + reader_position r') else Continue ())
     (\<lambda>_. (0, 0)) (\<lambda>_. (0, 0)) () (reader_new (drop start raw))"

definition data_decode :: "bytes \<Rightarrow> packet_error + data" where
  "data_decode raw = (case fst (read_tlv (reader_new raw)) of
     Inl e \<Rightarrow> Inl (Tlv e)
   | Inr (typ, val) \<Rightarrow>
       if typ \<noteq> DATA then Inl (UnknownPacketType typ)
       else (let outer_header_len = length raw - length val in
         case read_tlv (reader_new val) of
           (Inl e, _) \<Rightarrow> Inl (Tlv e)
         | (Inr (name_typ, name_val), inner) \<Rightarrow>
             if name_typ \<noteq> NAME then Inl (UnknownPacketType name_typ)
             else (case packet_name name_val of
               Inl e \<Rightarrow> Inl e
             | Inr n \<Rightarrow>
                 if n = [] then Inl (MalformedPacket ''Data Name must have at least one component'')
                 else (case validate_data_body_structure inner of
                   Inl e \<Rightarrow> Inl e
                 | Inr _ \<Rightarrow> (let (s, e) = scan_for_sig_value raw outer_header_len in
                     Inr \<lparr>data_raw = raw, signed_start = outer_header_len,
                       signed_end = (if s > 0 then s else length raw), sig_value_start = s, sig_value_end = e,
                       data_name = n, data_content_sha256 = None\<rparr>)))))"

definition data_signed_region :: "data \<Rightarrow> bytes" where
  "data_signed_region d = take (signed_end d - signed_start d) (drop (signed_start d) (data_raw d))"

definition data_sig_value :: "data \<Rightarrow> bytes" where
  "data_sig_value d =
     (if sig_value_start d = 0 \<or> sig_value_end d = 0 then []
      else (let sig_tlv = take (sig_value_end d - sig_value_start d) (drop (sig_value_start d) (data_raw d)) in
        case fst (read_tlv (reader_new sig_tlv)) of
          Inr (_, val) \<Rightarrow> (let val_start = sig_value_end d - length val in
            take (sig_value_end d - val_start) (drop val_start (data_raw d)))
        | Inl _ \<Rightarrow> []))"

definition implicit_digest :: "(bytes \<Rightarrow> bytes) \<Rightarrow> data \<Rightarrow> bytes" where
  "implicit_digest sha256 d = sha256 (data_raw d)"

definition decode_content :: "bytes \<Rightarrow> packet_error + bytes option" where
  "decode_content raw = scan_first CONTENT (\<lambda>v. Inr (Some v)) raw"

definition decode_meta_info :: "bytes \<Rightarrow> packet_error + meta_info option" where
  "decode_meta_info raw = scan_first META_INFO (\<lambda>v. case meta_info_decode v of
     Inl e \<Rightarrow> Inl e | Inr mi \<Rightarrow> Inr (Some mi)) raw"

definition decode_sig_info :: "bytes \<Rightarrow> packet_error + signature_info option" where
  "decode_sig_info raw = scan_first SIGNATURE_INFO (\<lambda>v. case sig_info_decode v of
     Inl e \<Rightarrow> Inl e | Inr si \<Rightarrow> Inr (Some si)) raw"

definition data_content :: "data \<Rightarrow> bytes option" where
  "data_content d = ok_flatten (decode_content (data_raw d))"

definition data_meta_info :: "data \<Rightarrow> meta_info option" where
  "data_meta_info d = ok_flatten (decode_meta_info (data_raw d))"

definition data_sig_info :: "data \<Rightarrow> signature_info option" where
  "data_sig_info d = ok_flatten (decode_sig_info (data_raw d))"

datatype content_hash_target = WholeContent | InnerTlvType u64

definition populate_content_sha256 :: "(bytes \<Rightarrow> bytes) \<Rightarrow> data \<Rightarrow> data" where
  "populate_content_sha256 sha256 d = (case data_content d of
     Some bs \<Rightarrow> d\<lparr>data_content_sha256 := Some (sha256 bs)\<rparr> | None \<Rightarrow> d)"

definition populate_content_sha256_with :: "(bytes \<Rightarrow> bytes) \<Rightarrow> content_hash_target \<Rightarrow> data \<Rightarrow> data" where
  "populate_content_sha256_with sha256 target d = (case data_content d of
     None \<Rightarrow> d
   | Some content \<Rightarrow> (case target of
       WholeContent \<Rightarrow> d\<lparr>data_content_sha256 := Some (sha256 content)\<rparr>
     | InnerTlvType target_type \<Rightarrow> tlv_loop (\<lambda>_ _ t v _.
           if t = target_type then Return (d\<lparr>data_content_sha256 := Some (sha256 v)\<rparr>) else Continue ())
         (\<lambda>_. d) (\<lambda>_. d) () (reader_new content)))"

definition link_delegations :: "data \<Rightarrow> name list option" where
  "link_delegations d = (case data_meta_info d of
     None \<Rightarrow> None
   | Some mi \<Rightarrow>
       if mi_content_type mi \<noteq> Link then None
       else (case data_content d of
         None \<Rightarrow> None
       | Some content \<Rightarrow> (case scan_elems (\<lambda>names t v.
             if t = NAME then (case packet_name v of Inl e \<Rightarrow> Return (Inl e) | Inr n \<Rightarrow> Continue (names @ [n]))
             else Continue names) Inr [] content of
           Inl _ \<Rightarrow> None
         | Inr names \<Rightarrow> if names = [] then None else Some names)))"

section \<open>Encoders\<close>

record data_builder =
  db_name :: name
  db_content :: bytes
  db_freshness :: "u64 option"
  db_final_block_id :: "bytes option"
  db_content_type :: "u64 option"

definition data_builder_new :: "name \<Rightarrow> bytes \<Rightarrow> data_builder" where
  "data_builder_new n content = \<lparr>db_name = n, db_content = content, db_freshness = None,
     db_final_block_id = None, db_content_type = None\<rparr>"

definition set_content_type :: "content_type \<Rightarrow> data_builder \<Rightarrow> data_builder" where
  "set_content_type ct b = b\<lparr>db_content_type := Some (content_type_code ct)\<rparr>"

definition final_block_id_seg :: "nat \<Rightarrow> data_builder \<Rightarrow> data_builder" where
  "final_block_id_seg last_seg b = (let bytes = ascii (show_nat last_seg) in
     b\<lparr>db_final_block_id := Some ([0x08, word_of_nat (length bytes)] @ bytes)\<rparr>)"

definition encode_nni_be :: "u64 \<Rightarrow> bytes" where
  "encode_nni_be v = (if v = 0 then [0] else dropWhile (\<lambda>b. b = 0) (to_be_bytes v))"

definition final_block_id_typed_seg :: "u64 \<Rightarrow> data_builder \<Rightarrow> data_builder" where
  "final_block_id_typed_seg last_seg b = (let encoded = encode_nni_be last_seg in
     b\<lparr>db_final_block_id := Some ([0x32, word_of_nat (length encoded)] @ encoded)\<rparr>)"

definition SIGINFO_DIGEST_SHA256 :: bytes where "SIGINFO_DIGEST_SHA256 = [0x16, 0x03, 0x1B, 0x01, 0x00]"
definition SIGINFO_DIGEST_BLAKE3 :: bytes where "SIGINFO_DIGEST_BLAKE3 = [0x16, 0x03, 0x1B, 0x01, 0x06]"

definition put_vu :: "u64 \<Rightarrow> bytes \<Rightarrow> bytes" where
  "put_vu v buf = (let (tmp, n) = write_varu64 (replicate 9 0) v in buf @ take n tmp)"

record fast_path_sizes =
  comps_inner :: nat
  name_tlv :: nat
  mi_inner :: nat
  metainfo_tlv :: nat
  content_tlv :: nat

definition fast_path_compute :: "data_builder \<Rightarrow> fast_path_sizes" where
  "fast_path_compute b = (let
     comps = sum_list (map (\<lambda>c. varu64_size (comp_typ c) + varu64_size (word_of_nat (length (comp_val c))) +
       length (comp_val c)) (db_name b));
     name_size = varu64_size NAME + varu64_size (word_of_nat comps) + comps;
     s = 0;
     s = (case db_content_type b of
         Some ct \<Rightarrow> (let (_, nni_len) = nni ct in
           s + (varu64_size CONTENT_TYPE + varu64_size (word_of_nat nni_len) + nni_len))
       | None \<Rightarrow> s);
     s = (case db_freshness b of
         Some f \<Rightarrow> (let (_, nni_len) = nni f in
           s + (varu64_size FRESHNESS_PERIOD + varu64_size (word_of_nat nni_len) + nni_len))
       | None \<Rightarrow> s);
     s = (case db_final_block_id b of
         Some fb \<Rightarrow> s + (varu64_size FINAL_BLOCK_ID + varu64_size (word_of_nat (length fb)) + length fb)
       | None \<Rightarrow> s);
     meta_size = (if s > 0 then varu64_size META_INFO + varu64_size (word_of_nat s) + s else 0);
     content_size = varu64_size CONTENT + varu64_size (word_of_nat (length (db_content b))) + length (db_content b)
   in \<lparr>comps_inner = comps, name_tlv = name_size, mi_inner = s, metainfo_tlv = meta_size,
       content_tlv = content_size\<rparr>)"

definition write_fields :: "data_builder \<Rightarrow> fast_path_sizes \<Rightarrow> bytes \<Rightarrow> bytes" where
  "write_fields b sz buf = (let
     buf = put_vu NAME buf;
     buf = put_vu (word_of_nat (comps_inner sz)) buf;
     buf = foldl (\<lambda>buf c. put_vu (word_of_nat (length (comp_val c))) (put_vu (comp_typ c) buf) @ comp_val c)
       buf (db_name b);
     buf = (if mi_inner sz > 0 then (let
         buf = put_vu META_INFO buf;
         buf = put_vu (word_of_nat (mi_inner sz)) buf;
         buf = (case db_content_type b of
             Some ct \<Rightarrow> (let (nni_buf, nni_len) = nni ct in
               put_vu (word_of_nat nni_len) (put_vu CONTENT_TYPE buf) @ take nni_len nni_buf)
           | None \<Rightarrow> buf);
         buf = (case db_freshness b of
             Some f \<Rightarrow> (let (nni_buf, nni_len) = nni f in
               put_vu (word_of_nat nni_len) (put_vu FRESHNESS_PERIOD buf) @ take nni_len nni_buf)
           | None \<Rightarrow> buf)
       in case db_final_block_id b of
             Some fb \<Rightarrow> put_vu (word_of_nat (length fb)) (put_vu FINAL_BLOCK_ID buf) @ fb
           | None \<Rightarrow> buf)
       else buf);
     buf = put_vu CONTENT buf;
     buf = put_vu (word_of_nat (length (db_content b))) buf
   in buf @ db_content b)"

text \<open>\<open>sign_digest_sha256\<close> and \<open>sign_digest_blake3\<close> differ in the five bytes of the SignatureInfo and
  the hash function.\<close>

definition sign_digest :: "bytes \<Rightarrow> (bytes \<Rightarrow> bytes) \<Rightarrow> data_builder \<Rightarrow> bytes" where
  "sign_digest siginfo digest b = (let
     sz = fast_path_compute b;
     signed_size = name_tlv sz + metainfo_tlv sz + content_tlv sz + length siginfo;
     inner_size = signed_size + 34;
     buf = put_vu DATA [];
     buf = put_vu (word_of_nat inner_size) buf;
     start = length buf;
     buf = write_fields b sz buf;
     buf = buf @ siginfo;
     hash = digest (drop start buf);
     buf = buf @ [0x17, 0x20]
   in buf @ hash)"

definition sign_digest_sha256 :: "(bytes \<Rightarrow> bytes) \<Rightarrow> data_builder \<Rightarrow> bytes" where
  "sign_digest_sha256 sha256 b = sign_digest SIGINFO_DIGEST_SHA256 sha256 b"

definition sign_digest_blake3 :: "(bytes \<Rightarrow> bytes) \<Rightarrow> data_builder \<Rightarrow> bytes" where
  "sign_digest_blake3 blake3 b = sign_digest SIGINFO_DIGEST_BLAKE3 blake3 b"

definition encoded_len_digest_sha256 :: "data_builder \<Rightarrow> nat" where
  "encoded_len_digest_sha256 b = (let
     sz = fast_path_compute b;
     inner_size = name_tlv sz + metainfo_tlv sz + content_tlv sz + length SIGINFO_DIGEST_SHA256 + 34
   in varu64_size DATA + varu64_size (word_of_nat inner_size) + inner_size)"

text \<open>The caller's slice is updated in place and returned with the count; \<open>None\<close> is the failed
  assertion on its size.\<close>

definition encode_digest_sha256_into :: "(bytes \<Rightarrow> bytes) \<Rightarrow> data_builder \<Rightarrow> bytes \<Rightarrow> (bytes \<times> nat) option" where
  "encode_digest_sha256_into sha256 b out = (let
     sz = fast_path_compute b;
     signed_size = name_tlv sz + metainfo_tlv sz + content_tlv sz + length SIGINFO_DIGEST_SHA256;
     inner_size = signed_size + 34;
     header_size = varu64_size DATA + varu64_size (word_of_nat inner_size);
     total = header_size + inner_size
   in if length out < total then None
      else (let
        out = copy_from_slice out 0
          (write_fields b sz (put_vu (word_of_nat inner_size) (put_vu DATA [])) @ SIGINFO_DIGEST_SHA256);
        s = header_size;
        e = header_size + signed_size;
        hash = sha256 (take (e - s) (drop s out));
        out = out[e := 0x17];
        out = out[e + 1 := 0x20];
        out = copy_from_slice out (e + 2) hash
      in Some (out, total)))"

definition sign_none :: "data_builder \<Rightarrow> bytes" where
  "sign_none b = (let
     sz = fast_path_compute b;
     inner_size = name_tlv sz + metainfo_tlv sz + content_tlv sz;
     buf = put_vu DATA [];
     buf = put_vu (word_of_nat inner_size) buf
   in write_fields b sz buf)"

definition write_meta_info :: "data_builder \<Rightarrow> tlv_writer \<Rightarrow> tlv_writer" where
  "write_meta_info b w =
     (if db_content_type b \<noteq> None \<or> db_freshness b \<noteq> None \<or> db_final_block_id b \<noteq> None then
        write_nested META_INFO (\<lambda>w. let
            w = (case db_content_type b of Some ct \<Rightarrow> write_nni CONTENT_TYPE ct w | None \<Rightarrow> w);
            w = (case db_freshness b of Some f \<Rightarrow> write_nni FRESHNESS_PERIOD f w | None \<Rightarrow> w)
          in case db_final_block_id b of Some fb \<Rightarrow> write_tlv FINAL_BLOCK_ID fb w | None \<Rightarrow> w) w
      else w)"

definition write_sig_info :: "signature_type \<Rightarrow> name option \<Rightarrow> tlv_writer \<Rightarrow> tlv_writer" where
  "write_sig_info sig_type key_locator w = write_nested SIGNATURE_INFO (\<lambda>w. let
       w = write_nni SIGNATURE_TYPE (signature_type_code sig_type) w
     in case key_locator of
          Some kl_name \<Rightarrow> write_nested KEY_LOCATOR (write_name kl_name) w
        | None \<Rightarrow> w) w"

text \<open>\<open>sign\<close> and \<open>sign_fallible\<close> build the signed bytes in two writers, then wrap them; the awaited
  signer is a function that may fail.\<close>

definition data_sign_fallible ::
  "data_builder \<Rightarrow> signature_type \<Rightarrow> name option \<Rightarrow> (bytes \<Rightarrow> 'e + bytes) \<Rightarrow> 'e + bytes" where
  "data_sign_fallible b sig_type key_locator sign_fn = (let
     inner = write_name (db_name b) writer_new;
     inner = write_meta_info b inner;
     inner = write_tlv CONTENT (db_content b) inner;
     inner_bytes = finish inner;
     sig_info_bytes = finish (write_sig_info sig_type key_locator writer_new);
     region = inner_bytes @ sig_info_bytes
   in case sign_fn region of
        Inl e \<Rightarrow> Inl e
      | Inr sig_value \<Rightarrow>
          Inr (finish (write_nested DATA (\<lambda>w. write_tlv SIGNATURE_VALUE sig_value (write_raw region w)) writer_new)))"

definition data_sign_sync ::
  "data_builder \<Rightarrow> signature_type \<Rightarrow> name option \<Rightarrow> (bytes \<Rightarrow> bytes) \<Rightarrow> bytes" where
  "data_sign_sync b sig_type key_locator sign_fn = (let
     w = writer_new;
     start = length (wbuf w);
     w = write_name (db_name b) w;
     w = write_meta_info b w;
     w = write_tlv CONTENT (db_content b) w;
     w = write_sig_info sig_type key_locator w;
     region = drop start (wbuf w);
     sig_value = sign_fn region;
     inner_len = length region + varu64_size SIGNATURE_VALUE + varu64_size (word_of_nat (length sig_value)) +
       length sig_value;
     outer = write_varu64_inner DATA writer_new;
     outer = write_varu64_inner (word_of_nat inner_len) outer;
     outer = write_raw region outer;
     outer = write_tlv SIGNATURE_VALUE sig_value outer
   in finish outer)"

section \<open>What the encoders write\<close>

definition meta_value :: "data_builder \<Rightarrow> (u64 \<times> bytes) list" where
  "meta_value b = meta_elems (db_content_type b) (db_freshness b) (db_final_block_id b)"

definition data_elems :: "data_builder \<Rightarrow> (u64 \<times> bytes) list" where
  "data_elems b = (NAME, elems_enc (name_elems (db_name b))) #
     opt_elem META_INFO (if meta_value b = [] then None else Some (elems_enc (meta_value b))) @
     [(CONTENT, db_content b)]"

definition data_signed_elems :: "data_builder \<Rightarrow> signature_type \<Rightarrow> name option \<Rightarrow> (u64 \<times> bytes) list" where
  "data_signed_elems b st kl = data_elems b @ [(SIGNATURE_INFO, elems_enc (sig_info_elems st kl None None))]"

lemma types_ok_data_elems [simp]: "types_ok (data_elems b)" "types_ok (data_signed_elems b st kl)"
  by (simp_all add: data_elems_def data_signed_elems_def)

lemma put_vu [simp]: "put_vu v buf = buf @ varu64_enc v"
  using take_write_varu64(1) [of "replicate 9 0" v] by (simp add: put_vu_def case_prod_beta)

lemma snd_nni: "snd (nni v) = nni_width v"
  by (simp add: nni_def nni_width_def Let_def)

lemma take_nni: "take (nni_width v) (fst (nni v)) = nni_enc v"
  using nni_bytes_eq [of v] by (simp add: nni_bytes_def case_prod_beta snd_nni)

lemma length_component_elems:
  "sum_list (map (\<lambda>c. varu64_size (comp_typ c) + varu64_size (word_of_nat (length (comp_val c))) + length (comp_val c)) n) =
     length (elems_enc (name_elems n))"
  by (induction n) (simp_all add: name_elems_def length_tlv_enc tlv_size_def)

lemma foldl_components:
  "foldl (\<lambda>buf c. put_vu (word_of_nat (length (comp_val c))) (put_vu (comp_typ c) buf) @ comp_val c) buf n =
     buf @ elems_enc (name_elems n)"
  by (induction n arbitrary: buf) (simp_all add: name_elems_def tlv_enc_def)

lemma elems_enc_eq_Nil [simp]: "elems_enc es = [] \<longleftrightarrow> es = []"
proof (cases es)
  case (Cons e es')
  then show ?thesis using tlv_enc_nonempty [of "fst e" "snd e"] by (cases e) auto
qed simp

lemma fast_path_sizes:
  "comps_inner (fast_path_compute b) = length (elems_enc (name_elems (db_name b)))"
  "mi_inner (fast_path_compute b) = length (elems_enc (meta_value b))"
  "name_tlv (fast_path_compute b) + metainfo_tlv (fast_path_compute b) + content_tlv (fast_path_compute b) =
     length (elems_enc (data_elems b))"
proof -
  show mi: "mi_inner (fast_path_compute b) = length (elems_enc (meta_value b))"
    by (simp add: fast_path_compute_def meta_value_def meta_elems_def Let_def case_prod_beta snd_nni length_tlv_enc
        tlv_size_def split: option.split)
  show comps: "comps_inner (fast_path_compute b) = length (elems_enc (name_elems (db_name b)))"
    by (simp add: fast_path_compute_def Let_def length_component_elems)
  have "name_tlv (fast_path_compute b) = length (tlv_enc NAME (elems_enc (name_elems (db_name b))))"
    by (simp add: fast_path_compute_def Let_def length_component_elems length_tlv_enc tlv_size_def)
  moreover have "content_tlv (fast_path_compute b) = length (tlv_enc CONTENT (db_content b))"
    by (simp add: fast_path_compute_def Let_def length_tlv_enc tlv_size_def)
  moreover have "metainfo_tlv (fast_path_compute b) =
      (if meta_value b = [] then 0 else length (tlv_enc META_INFO (elems_enc (meta_value b))))"
  proof -
    have "metainfo_tlv (fast_path_compute b) = (let s = mi_inner (fast_path_compute b) in
        if s > 0 then varu64_size META_INFO + varu64_size (word_of_nat s) + s else 0)"
      by (simp add: fast_path_compute_def Let_def)
    then show ?thesis unfolding mi by (simp add: Let_def length_tlv_enc tlv_size_def)
  qed
  ultimately show "name_tlv (fast_path_compute b) + metainfo_tlv (fast_path_compute b) +
      content_tlv (fast_path_compute b) = length (elems_enc (data_elems b))"
    by (simp add: data_elems_def)
qed

lemma write_fields_elems: "write_fields b (fast_path_compute b) buf = buf @ elems_enc (data_elems b)"
  unfolding write_fields_def fast_path_sizes foldl_components
  by (simp add: Let_def case_prod_beta data_elems_def meta_value_def meta_elems_def tlv_enc_def take_nni snd_nni
      split: option.split)

lemma wbuf_write_meta_info [codec_simps]:
  "wbuf (write_meta_info b w) =
     wbuf w @ elems_enc (opt_elem META_INFO (if meta_value b = [] then None else Some (elems_enc (meta_value b))))"
  by (simp add: write_meta_info_def meta_value_def meta_elems_def Let_def codec_simps split: option.split)

lemma wbuf_write_sig_info [codec_simps]:
  "wbuf (write_sig_info st kl w) = wbuf w @ tlv_enc SIGNATURE_INFO (elems_enc (sig_info_elems st kl None None))"
  by (simp add: write_sig_info_def sig_info_elems_def Let_def codec_simps split: option.split)

lemma data_sign_sync_elems:
  "data_sign_sync b st kl sign_fn = tlv_enc DATA (elems_enc (data_signed_elems b st kl @
     [(SIGNATURE_VALUE, sign_fn (elems_enc (data_signed_elems b st kl)))]))"
  by (simp add: data_sign_sync_def Let_def codec_simps data_signed_elems_def data_elems_def tlv_enc_def [of DATA]
      length_tlv_enc [of SIGNATURE_VALUE] tlv_size_def add.assoc)

lemma siginfo_digest:
  "SIGINFO_DIGEST_SHA256 = tlv_enc SIGNATURE_INFO (elems_enc (sig_info_elems DigestSha256 None None None))"
  "SIGINFO_DIGEST_BLAKE3 = tlv_enc SIGNATURE_INFO (elems_enc (sig_info_elems (SigOther 6) None None None))"
  by (simp_all add: SIGINFO_DIGEST_SHA256_def SIGINFO_DIGEST_BLAKE3_def sig_info_elems_def signature_type_code_def
      tlv_enc_def varu64_enc_def nni_enc_def nni_width_def)

lemma sign_digest_elems:
  assumes "\<And>x. length (digest x) = 32"
  shows "sign_digest (tlv_enc SIGNATURE_INFO si) digest b =
    tlv_enc DATA (elems_enc (data_elems b @ [(SIGNATURE_INFO, si),
      (SIGNATURE_VALUE, digest (elems_enc (data_elems b @ [(SIGNATURE_INFO, si)])))]))"
proof -
  let ?h = "digest (elems_enc (data_elems b @ [(SIGNATURE_INFO, si)]))"
  have sv: "tlv_enc SIGNATURE_VALUE ?h = [0x17, 0x20] @ ?h"
    using assms [of "elems_enc (data_elems b @ [(SIGNATURE_INFO, si)])"] by (simp add: tlv_enc_def varu64_enc_def)
  have "length (elems_enc (data_elems b)) + length (tlv_enc SIGNATURE_INFO si) + 34 =
      length (elems_enc (data_elems b @ [(SIGNATURE_INFO, si), (SIGNATURE_VALUE, ?h)]))"
    using sv assms by simp
  then show ?thesis
    unfolding sign_digest_def Let_def fast_path_sizes write_fields_elems
    using sv by (simp add: tlv_enc_def [of DATA] add.assoc)
qed

section \<open>What the decoder accepts\<close>

abbreviation data_wire :: "name \<Rightarrow> (u64 \<times> bytes) list \<Rightarrow> bytes" where
  "data_wire n body \<equiv> tlv_enc DATA (elems_enc ((NAME, elems_enc (name_elems n)) # body))"

abbreviation data_fold :: "(u64 \<times> bytes) list \<Rightarrow> packet_error + unit" where
  "data_fold body \<equiv> flow_fold data_body_step (\<lambda>_. Inr ()) (1, None) body"

definition not_sig :: "u64 \<times> bytes \<Rightarrow> bool" where
  "not_sig e \<longleftrightarrow> fst e \<noteq> SIGNATURE_VALUE"

text \<open>The scan for the signature, from a position where a sequence of elements starts.\<close>

lemma scan_for_sig_value_elems:
  assumes "drop start raw = elems_enc es" "types_ok es" "length raw < 2 ^ 63"
  shows "scan_for_sig_value raw start = (case dropWhile not_sig es of
      [] \<Rightarrow> (0, 0)
    | (t, v) # _ \<Rightarrow> (start + length (elems_enc (takeWhile not_sig es)),
        start + length (elems_enc (takeWhile not_sig es)) + length (tlv_enc t v)))"
proof -
  let ?loop = "tlv_loop (\<lambda>_ r t v r'.
       if t = SIGNATURE_VALUE then Return (start + reader_position r, start + reader_position r') else Continue ())
     (\<lambda>_. (0, 0)) (\<lambda>_. (0, 0)) ()"
  have loop: "?loop r = (case dropWhile not_sig es of
      [] \<Rightarrow> (0, 0)
    | (t, v) # _ \<Rightarrow> (start + rpos r + length (elems_enc (takeWhile not_sig es)),
        start + rpos r + length (elems_enc (takeWhile not_sig es)) + length (tlv_enc t v)))"
    if "reader_wf r" "as_bytes r = elems_enc es" "types_ok es" for r es
    using that
  proof (induction es arbitrary: r)
    case Nil
    then show ?case by (simp add: tlv_loop.simps [of _ _ _ _ r] as_bytes_empty)
  next
    case (Cons e es)
    obtain t v where e: "e = (t, v)" by fastforce
    have t: "t \<le> 0xFFFFFFFF" "types_ok es" using Cons.prems(3) by (simp_all add: e)
    have ab: "as_bytes r = tlv_enc t v @ elems_enc es" using Cons.prems(2) by (simp add: e)
    let ?r = "r\<lparr>rpos := rpos r + length (tlv_enc t v)\<rparr>"
    have rd: "read_tlv r = (Inr (t, v), ?r)" by (rule read_tlv_enc [OF Cons.prems(1) ab t(1)])
    have r': "as_bytes ?r = elems_enc es" using as_bytes_advance [OF ab] .
    have wf: "reader_wf ?r" using read_tlv_keeps(1) [OF Cons.prems(1) rd] .
    have ne: "\<not> reader_is_empty r"
      using as_bytes_empty [OF Cons.prems(1)] ab tlv_enc_nonempty [of t v] by auto
    show ?case
    proof (cases "t = SIGNATURE_VALUE")
      case True
      then have "\<not> not_sig (t, v)" by (simp add: not_sig_def)
      with True rd ne show ?thesis by (simp add: tlv_loop.simps [of _ _ _ _ r] e reader_position_def add.assoc)
    next
      case False
      then have "not_sig (t, v)" by (simp add: not_sig_def)
      moreover have "?loop r = ?loop ?r" using False rd ne by (simp add: tlv_loop.simps [of _ _ _ _ r])
      ultimately show ?thesis
        unfolding e using Cons.IH [OF wf r' t(2)]
        by (cases "dropWhile not_sig es") (simp_all add: add.assoc case_prod_beta del: dropWhile_eq_Nil_conv)
    qed
  qed
  have wf: "reader_wf (reader_new (drop start raw))" using assms(3) by (intro reader_wf_new) simp
  have ab: "as_bytes (reader_new (drop start raw)) = elems_enc es" using assms(1) by simp
  have pos: "rpos (reader_new (drop start raw)) = 0" by (simp add: reader_new_def)
  show ?thesis
    unfolding scan_for_sig_value_def loop [OF wf ab assms(2)] pos add_0_right ..
qed

lemma data_decode_elems:
  assumes "length (data_wire n body @ rest) < 2 ^ 63" "types_ok body" "name_ok n" "n \<noteq> []"
  defines "raw \<equiv> data_wire n body @ rest"
  defines "start \<equiv> length raw - length (elems_enc ((NAME, elems_enc (name_elems n)) # body))"
  shows "data_decode raw = (case data_fold body of
      Inl e \<Rightarrow> Inl e
    | Inr _ \<Rightarrow> (let (s, e) = scan_for_sig_value raw start in
        Inr \<lparr>data_raw = raw, signed_start = start, signed_end = (if s > 0 then s else length raw),
          sig_value_start = s, sig_value_end = e, data_name = n, data_content_sha256 = None\<rparr>))"
proof -
  let ?val = "elems_enc ((NAME, elems_enc (name_elems n)) # body)"
  have len: "length ?val < 2 ^ 63" by (rule length_packet_value [OF assms(1)])
  have n: "length (elems_enc (name_elems n)) < 2 ^ 63"
    by (rule length_elem_value [OF len, of NAME]) simp
  have b: "length (elems_enc body) < 2 ^ 63" using len by simp
  obtain r where r: "read_tlv (reader_new ?val) = (Inr (NAME, elems_enc (name_elems n)), r)" "as_bytes r = elems_enc body"
    using read_first_elem [OF len] by auto
  have "validate_data_body_structure r = data_fold body"
    unfolding validate_data_body_structure_def r(2) by (rule scan_elems_enc [OF b assms(2)])
  then show ?thesis
    using fst_read_tlv_enc [OF assms(1)] r(1) packet_name_enc [OF assms(3) n] assms(4)
    by (simp add: data_decode_def raw_def start_def Let_def del: elems_enc_simps split: sum.split prod.split)
qed

text \<open>The two byte ranges of a packet whose start position is the start of the elements \<open>es\<close>.\<close>

lemma data_ranges:
  assumes "drop start raw = elems_enc es" "types_ok es" "length raw < 2 ^ 63" "0 < start" "start \<le> length raw"
    and "scan_for_sig_value raw start = (s, e)"
    and d: "data_raw d = raw" "signed_start d = start" "signed_end d = (if s > 0 then s else length raw)"
      "sig_value_start d = s" "sig_value_end d = e"
  shows "data_signed_region d = elems_enc (takeWhile not_sig es)"
    and "data_sig_value d = (case map_of es SIGNATURE_VALUE of Some v \<Rightarrow> v | None \<Rightarrow> [])"
proof -
  let ?pre = "elems_enc (takeWhile not_sig es)"
  have raw: "raw = take start raw @ elems_enc es" using assms(1) by (metis append_take_drop_id)
  have ls: "length (take start raw) = start" using assms(5) by simp
  have split: "es = takeWhile not_sig es @ dropWhile not_sig es" by simp
  have "data_signed_region d = ?pre \<and> data_sig_value d = (case map_of es SIGNATURE_VALUE of Some v \<Rightarrow> v | None \<Rightarrow> [])"
  proof (cases "dropWhile not_sig es")
    case Nil
    then have tw: "takeWhile not_sig es = es" using split by simp
    have se: "s = 0" "e = 0"
      using assms(6) scan_for_sig_value_elems [OF assms(1-3)] Nil by simp_all
    have "\<forall>x \<in> set es. not_sig x" using Nil by (simp add: dropWhile_eq_Nil_conv)
    then have "map_of es SIGNATURE_VALUE = None" by (auto simp: map_of_eq_None_iff not_sig_def)
    moreover have "length raw - start = length (elems_enc es)" using assms(1) by (metis length_drop)
    ultimately show ?thesis unfolding tw using assms(1) se d by (simp add: data_signed_region_def data_sig_value_def)
  next
    case (Cons a es')
    obtain t v where a: "a = (t, v)" by fastforce
    have t: "t = SIGNATURE_VALUE" using Cons hd_dropWhile [of not_sig es] by (simp add: a not_sig_def)
    have enc: "elems_enc es = ?pre @ tlv_enc SIGNATURE_VALUE v @ elems_enc es'"
      by (subst split) (simp add: Cons a t)
    have "map_of (takeWhile not_sig es) SIGNATURE_VALUE = None"
      by (auto simp: map_of_eq_None_iff not_sig_def dest: set_takeWhileD)
    then have mo: "map_of es SIGNATURE_VALUE = Some v"
      by (subst split) (simp add: Cons a t map_add_def)
    have se: "s = start + length ?pre" "e = s + length (tlv_enc SIGNATURE_VALUE v)"
      using assms(6) scan_for_sig_value_elems [OF assms(1-3)] Cons a t by simp_all
    have pos: "s > 0" "e > 0" using se assms(4) by simp_all
    have sv: "take (e - s) (drop s raw) = tlv_enc SIGNATURE_VALUE v"
      using raw enc se ls by (metis (no_types, lifting) add_diff_cancel_left' append.assoc append_eq_conv_conj length_append)
    have le: "length (tlv_enc SIGNATURE_VALUE v) < 2 ^ 63"
      using sv assms(3) by (metis le_less_trans length_drop length_take min.cobounded1 diff_le_self min_le_iff_disj)
    have rd: "fst (read_tlv (reader_new (tlv_enc SIGNATURE_VALUE v))) = Inr (SIGNATURE_VALUE, v)"
      using fst_read_tlv_enc [of SIGNATURE_VALUE v "[]"] le by simp
    have ev: "length v \<le> e" "e - (e - length v) = length v" using se by (simp_all add: length_tlv_enc tlv_size_def)
    have "drop (e - length v) raw = v @ elems_enc es'"
    proof -
      have "raw = (take start raw @ ?pre @ varu64_enc SIGNATURE_VALUE @ varu64_enc (word_of_nat (length v))) @ v @ elems_enc es'"
        using raw enc by (simp add: tlv_enc_def)
      moreover have "length (take start raw @ ?pre @ varu64_enc SIGNATURE_VALUE @ varu64_enc (word_of_nat (length v))) = e - length v"
        using se ls by (simp add: length_tlv_enc tlv_size_def length_varu64_enc)
      ultimately show ?thesis by (metis append_eq_conv_conj)
    qed
    then have "data_sig_value d = v"
      unfolding data_sig_value_def d using pos sv rd ev by (simp add: Let_def)
    moreover have "data_signed_region d = ?pre"
      unfolding data_signed_region_def d using pos se assms(1) enc by simp
    ultimately show ?thesis using mo by simp
  qed
  then show "data_signed_region d = ?pre" "data_sig_value d = (case map_of es SIGNATURE_VALUE of Some v \<Rightarrow> v | None \<Rightarrow> [])"
    by simp_all
qed

lemma data_fields:
  assumes "data_raw d = tlv_enc DATA (elems_enc es) @ rest" "types_ok es" "length (data_raw d) < 2 ^ 63"
  shows "data_content d = map_of es CONTENT"
    and "data_meta_info d = (case map_of es META_INFO of
      Some v \<Rightarrow> (case meta_info_decode v of Inr mi \<Rightarrow> Some mi | Inl _ \<Rightarrow> None) | None \<Rightarrow> None)"
    and "data_sig_info d = (case map_of es SIGNATURE_INFO of
      Some v \<Rightarrow> (case sig_info_decode v of Inr si \<Rightarrow> Some si | Inl _ \<Rightarrow> None) | None \<Rightarrow> None)"
proof -
  note scan = scan_first_enc [OF assms(3) [unfolded assms(1)] assms(2)]
  show "data_content d = map_of es CONTENT"
    unfolding data_content_def decode_content_def assms(1) by (simp add: scan ok_flatten_def split: option.split)
  show "data_meta_info d = (case map_of es META_INFO of
      Some v \<Rightarrow> (case meta_info_decode v of Inr mi \<Rightarrow> Some mi | Inl _ \<Rightarrow> None) | None \<Rightarrow> None)"
    unfolding data_meta_info_def decode_meta_info_def assms(1)
    by (simp add: scan ok_flatten_def split: option.split sum.split)
  show "data_sig_info d = (case map_of es SIGNATURE_INFO of
      Some v \<Rightarrow> (case sig_info_decode v of Inr si \<Rightarrow> Some si | Inl _ \<Rightarrow> None) | None \<Rightarrow> None)"
    unfolding data_sig_info_def decode_sig_info_def assms(1)
    by (simp add: scan ok_flatten_def split: option.split sum.split)
qed

end
