(* ===== verification/Data_Laws.thy ===== *)
theory Data_Laws
  imports Ndn_Data
begin

text \<open>
  Laws of the Data codec: the single-buffer encoders agree byte for byte with the general signing
  path, decoding inverts signing, every field an application reads from an accepted packet lies in
  the bytes its verifier is given when nothing follows the packet in its buffer, and a wire with
  bytes behind the packet that is read under a name nobody signed.
\<close>

section \<open>Fast paths\<close>

lemma sign_digest_sha256_elems:
  assumes "\<And>x. length (sha256 x) = 32"
  shows "sign_digest_sha256 sha256 b = data_sign_sync b DigestSha256 None sha256"
  unfolding sign_digest_sha256_def siginfo_digest sign_digest_elems [OF assms] data_sign_sync_elems
  by (simp add: data_signed_elems_def)

lemma sign_digest_blake3_elems:
  assumes "\<And>x. length (blake3 x) = 32"
  shows "sign_digest_blake3 blake3 b = data_sign_sync b (SigOther 6) None blake3"
  unfolding sign_digest_blake3_def siginfo_digest sign_digest_elems [OF assms] data_sign_sync_elems
  by (simp add: data_signed_elems_def)

lemma encoded_len_exact:
  assumes "\<And>x. length (sha256 x) = 32"
  shows "encoded_len_digest_sha256 b = length (sign_digest_sha256 sha256 b)"
proof -
  let ?h = "sha256 (elems_enc (data_signed_elems b DigestSha256 None))"
  have "length (tlv_enc SIGNATURE_VALUE ?h) = 34" using assms by (simp add: wire_length)
  then show ?thesis
    unfolding sign_digest_sha256_elems [OF assms] data_sign_sync_elems encoded_len_digest_sha256_def Let_def
      fast_path_sizes siginfo_digest
    by (simp add: data_signed_elems_def length_tlv_enc [of DATA] tlv_size_def add.assoc)
qed

lemma copy_from_slice_whole:
  "length bs \<le> length out \<Longrightarrow> copy_from_slice out 0 bs = bs @ drop (length bs) out"
  by (simp add: copy_from_slice_def)

text \<open>Writing the signature behind the signed bytes, in place.\<close>

lemma write_sig_in_place:
  assumes "length (pre @ [a, c] @ hash) \<le> length out" "copy_from_slice out 0 pre = o1"
  shows "copy_from_slice (o1[length pre := a, length pre + 1 := c]) (length pre + 2) hash =
    (pre @ [a, c] @ hash) @ drop (length (pre @ [a, c] @ hash)) out"
proof -
  obtain x y rest where d: "drop (length pre) out = x # y # rest"
    using assms(1) by (cases "drop (length pre) out"; cases "tl (drop (length pre) out)") (auto simp: drop_eq_Nil dest: arg_cong [of _ _ length])
  have "o1 = pre @ x # y # rest" using assms copy_from_slice_whole [of pre out] d by simp
  then have "o1[length pre := a, length pre + 1 := c] = (pre @ [a, c]) @ rest"
    by (simp add: list_update_append)
  moreover have "drop (length (pre @ [a, c] @ hash)) out = drop (length hash) rest"
  proof -
    have "drop (length (pre @ [a, c] @ hash)) out = drop (2 + length hash) (drop (length pre) out)"
      by (simp add: add.commute add.left_commute)
    then show ?thesis by (simp add: d)
  qed
  ultimately show ?thesis by (simp add: copy_from_slice_def)
qed

lemma encode_into_exact:
  assumes "\<And>x. length (sha256 x) = 32" "encoded_len_digest_sha256 b \<le> length out"
  shows "encode_digest_sha256_into sha256 b out =
    Some (sign_digest_sha256 sha256 b @ drop (encoded_len_digest_sha256 b) out, encoded_len_digest_sha256 b)"
proof -
  let ?inner = "length (elems_enc (data_elems b)) + length SIGINFO_DIGEST_SHA256 + 34"
  let ?hd = "varu64_enc DATA @ varu64_enc (word_of_nat ?inner)"
  let ?fields = "elems_enc (data_elems b) @ SIGINFO_DIGEST_SHA256"
  let ?hash = "sha256 ?fields"
  have sd: "sign_digest_sha256 sha256 b = (?hd @ ?fields) @ [0x17, 0x20] @ ?hash"
    unfolding sign_digest_sha256_def sign_digest_def Let_def fast_path_sizes write_fields_elems by simp
  have len: "encoded_len_digest_sha256 b = length ((?hd @ ?fields) @ [0x17, 0x20] @ ?hash)"
    using encoded_len_exact [of sha256 b] assms(1) unfolding sd by simp
  have hd: "varu64_size DATA + varu64_size (word_of_nat ?inner) = length ?hd" by (simp add: length_varu64_enc)
  have total: "length ?hd + ?inner = encoded_len_digest_sha256 b" using len assms(1) by simp
  have e: "length ?hd + (length (elems_enc (data_elems b)) + length SIGINFO_DIGEST_SHA256) = length (?hd @ ?fields)" by simp
  have o1: "copy_from_slice out 0 (?hd @ ?fields) = (?hd @ ?fields) @ drop (length (?hd @ ?fields)) out"
    using assms(2) len by (intro copy_from_slice_whole) simp
  have region: "take (length (?hd @ ?fields) - length ?hd) (drop (length ?hd) (copy_from_slice out 0 (?hd @ ?fields))) = ?fields"
    unfolding o1 by simp
  have "length ((?hd @ ?fields) @ [0x17, 0x20] @ ?hash) \<le> length out" using assms(2) len by simp
  note w = write_sig_in_place [OF this refl]
  show ?thesis
    unfolding encode_digest_sha256_into_def Let_def fast_path_sizes write_fields_elems put_vu append_Nil hd total
    using assms(2) region w unfolding sd len e [symmetric] by (simp add: add.assoc)
qed

text \<open>C3. The single-buffer encoders are byte-identical to the general signing path: the DigestSha256
  and BLAKE3 fast paths give what \<open>sign_sync\<close> gives, \<open>encoded_len_digest_sha256\<close> is the exact size,
  and encoding into a caller's slice of at least that size writes exactly those bytes and leaves
  the rest of the slice alone.\<close>

theorem data_fast_paths_identical:
  assumes "\<And>x. length (sha256 x) = 32" "\<And>x. length (blake3 x) = 32"
    and "encoded_len_digest_sha256 b \<le> length out"
  shows "sign_digest_sha256 sha256 b = data_sign_sync b DigestSha256 None sha256 \<and>
    sign_digest_blake3 blake3 b = data_sign_sync b (SigOther 6) None blake3 \<and>
    encoded_len_digest_sha256 b = length (sign_digest_sha256 sha256 b) \<and>
    encode_digest_sha256_into sha256 b out =
      Some (sign_digest_sha256 sha256 b @ drop (encoded_len_digest_sha256 b) out, encoded_len_digest_sha256 b)"
  using sign_digest_sha256_elems sign_digest_blake3_elems encoded_len_exact encode_into_exact assms by blast

theorem data_fast_paths_identical_witness:
  "encode_digest_sha256_into (\<lambda>_. replicate 32 7) (data_builder_new [NameComponent 8 [0x61]] [1, 2, 3]) (replicate 60 0) =
     Some (sign_digest_sha256 (\<lambda>_. replicate 32 7) (data_builder_new [NameComponent 8 [0x61]] [1, 2, 3]) @ replicate 9 0, 51)"
proof -
  let ?b = "data_builder_new [NameComponent 8 [0x61]] [1, 2, 3]"
  have len: "encoded_len_digest_sha256 ?b = 51"
    by (simp add: encoded_len_digest_sha256_def fast_path_compute_def data_builder_new_def varu64_size_def
        SIGINFO_DIGEST_SHA256_def)
  show ?thesis
    using data_fast_paths_identical [of "\<lambda>_. replicate 32 7" "\<lambda>_. replicate 32 7" ?b "replicate 60 0"] len by simp
qed

section \<open>Round trip\<close>

lemma map_of_data_signed_elems:
  "map_of (data_signed_elems b st kl) CONTENT = Some (db_content b)"
  "map_of (data_signed_elems b st kl) META_INFO = (if meta_value b = [] then None else Some (elems_enc (meta_value b)))"
  "map_of (data_signed_elems b st kl) SIGNATURE_INFO = Some (elems_enc (sig_info_elems st kl None None))"
  "list_all not_sig (data_signed_elems b st kl)"
  by (auto simp: data_signed_elems_def data_elems_def map_add_def not_sig_def list_all_iff opt_elem_def)

lemma takeWhile_not_sig:
  "list_all not_sig es \<Longrightarrow> takeWhile not_sig (es @ (SIGNATURE_VALUE, v) # es') = es"
  "list_all not_sig es \<Longrightarrow> map_of (es @ (SIGNATURE_VALUE, v) # es') SIGNATURE_VALUE = Some v"
proof -
  assume a: "list_all not_sig es"
  then show "takeWhile not_sig (es @ (SIGNATURE_VALUE, v) # es') = es"
    by (simp add: takeWhile_append2 list_all_iff not_sig_def)
  from a have "map_of es SIGNATURE_VALUE = None" by (auto simp: list_all_iff map_of_eq_None_iff not_sig_def)
  then show "map_of (es @ (SIGNATURE_VALUE, v) # es') SIGNATURE_VALUE = Some v" by (simp add: map_add_def)
qed

text \<open>The ranges of an accepted packet with nothing behind it.\<close>

lemma data_decode_exact:
  assumes len: "length (data_wire n body) < 2 ^ 63" and ok: "types_ok body" "name_ok n" "n \<noteq> []"
    and fold: "data_fold body = Inr ()"
  defines "es \<equiv> (NAME, elems_enc (name_elems n)) # body"
  shows "\<exists>d. data_decode (data_wire n body) = Inr d \<and> data_raw d = data_wire n body \<and> data_name d = n \<and>
    data_signed_region d = elems_enc (takeWhile not_sig es) \<and>
    data_sig_value d = (case map_of es SIGNATURE_VALUE of Some v \<Rightarrow> v | None \<Rightarrow> [])"
proof -
  let ?raw = "data_wire n body"
  let ?start = "length ?raw - length (elems_enc es)"
  obtain s e where se: "scan_for_sig_value ?raw ?start = (s, e)" by fastforce
  let ?d = "\<lparr>data_raw = ?raw, signed_start = ?start, signed_end = (if s > 0 then s else length ?raw),
      sig_value_start = s, sig_value_end = e, data_name = n, data_content_sha256 = None\<rparr>"
  have dec: "data_decode ?raw = Inr ?d"
    using data_decode_elems [of n body "[]"] len ok fold se unfolding es_def by (simp del: elems_enc_simps)
  have hd: "?raw = (varu64_enc DATA @ varu64_enc (word_of_nat (length (elems_enc es)))) @ elems_enc es"
    unfolding es_def by (simp add: tlv_enc_def [of DATA])
  have st: "?start = length (varu64_enc DATA @ varu64_enc (word_of_nat (length (elems_enc es))))"
    by (subst hd) simp
  have dr: "drop ?start ?raw = elems_enc es" unfolding st by (subst hd) simp
  have pos: "0 < ?start" unfolding st using varu64_size_bounds(1) [of DATA] by (simp add: length_varu64_enc)
  have ty: "types_ok es" using ok(1) by (simp add: es_def)
  note r = data_ranges [OF dr ty len pos diff_le_self se, of ?d]
  show ?thesis using dec r by (intro exI [of _ ?d]) simp
qed

text \<open>C4. Round trip of signing and decoding: what \<open>sign_sync\<close> builds decodes, the verifier is given
  exactly the bytes the signer was given and the signature it returned, and name, content, MetaInfo
  and SignatureInfo are those of the builder. The signature must have the length its type
  prescribes.\<close>

theorem data_sign_roundtrip:
  fixes b st kl sign_fn
  defines "region \<equiv> elems_enc (data_signed_elems b st kl)"
  assumes "name_ok (db_name b)" "db_name b \<noteq> []" "signature_type_ok st" "\<forall>n. kl = Some n \<longrightarrow> name_ok n"
    and "key_locator_rule st (map_option KlName kl)" "sig_value_width_ok (Some st) (sign_fn region)"
    and "length (data_sign_sync b st kl sign_fn) < 2 ^ 63"
  shows "\<exists>d. data_decode (data_sign_sync b st kl sign_fn) = Inr d \<and> data_name d = db_name b \<and>
    data_signed_region d = region \<and> data_sig_value d = sign_fn region \<and>
    data_content d = Some (db_content b) \<and>
    data_sig_info d = Some \<lparr>si_sig_type = st, si_key_locator = map_option KlName kl, si_sig_nonce = None,
      si_sig_time = None, si_sig_seq_num = None\<rparr> \<and>
    data_meta_info d = (if db_content_type b = None \<and> db_freshness b = None \<and> db_final_block_id b = None then None
      else Some \<lparr>mi_content_type = (case db_content_type b of Some c \<Rightarrow> content_type_from_code c | None \<Rightarrow> Blob),
        mi_freshness_period = db_freshness b, mi_final_block_id = db_final_block_id b\<rparr>)"
proof -
  let ?es = "data_signed_elems b st kl @ [(SIGNATURE_VALUE, sign_fn region)]"
  let ?w = "data_sign_sync b st kl sign_fn"
  let ?si = "\<lparr>si_sig_type = st, si_key_locator = map_option KlName kl, si_sig_nonce = None,
      si_sig_time = None, si_sig_seq_num = None\<rparr>"
  let ?body = "opt_elem META_INFO (if meta_value b = [] then None else Some (elems_enc (meta_value b))) @
     [(CONTENT, db_content b), (SIGNATURE_INFO, elems_enc (sig_info_elems st kl None None)), (SIGNATURE_VALUE, sign_fn region)]"
  have es: "?es = (NAME, elems_enc (name_elems (db_name b))) # ?body"
    by (simp add: data_signed_elems_def data_elems_def)
  have wire: "?w = data_wire (db_name b) ?body"
    unfolding data_sign_sync_elems region_def [symmetric] es ..
  have elen: "length (elems_enc ?es) < 2 ^ 63"
    using length_packet_value [of DATA "elems_enc ?es" "[]"] assms(8) unfolding wire es by simp
  have vlen: "length v < 2 ^ 63" if "map_of ?es t = Some v" for t v
    using length_elem_value [OF elen map_of_SomeD [OF that]] .
  have "length (elems_enc (sig_info_elems st kl None None)) < 2 ^ 63"
    by (rule length_elem_value [OF elen, of SIGNATURE_INFO]) (simp add: data_signed_elems_def)
  then have si: "sig_info_decode (elems_enc (sig_info_elems st kl None None)) = Inr ?si"
    by (intro sig_info_decode_elems assms)
  have fold: "data_fold ?body = Inr ()"
    using assms(7) by (simp add: opt_elem_def data_body_step_def data_elem_index_def si)
  obtain d where d: "data_decode ?w = Inr d" "data_raw d = ?w" "data_name d = db_name b"
      "data_signed_region d = elems_enc (takeWhile not_sig ?es)"
      "data_sig_value d = (case map_of ?es SIGNATURE_VALUE of Some v \<Rightarrow> v | None \<Rightarrow> [])"
    using data_decode_exact [OF _ _ assms(2,3) fold] assms(8) unfolding es wire by auto
  have ty: "types_ok ?es" by simp
  have "data_raw d = tlv_enc DATA (elems_enc ?es) @ []" unfolding d(2) data_sign_sync_elems region_def by simp
  note f = data_fields [OF this ty]
  have keep: "map_of ?es t = map_of (data_signed_elems b st kl) t" if "t \<noteq> SIGNATURE_VALUE" for t
    using that by (simp add: map_add_def split: option.split)
  note m = map_of_data_signed_elems [of b st kl]
  have "data_content d = Some (db_content b)"
    using f(1) assms(8) unfolding d(2) by (simp add: keep m)
  moreover have "data_sig_info d = Some ?si"
    using f(3) assms(8) unfolding d(2) by (simp add: keep m si)
  moreover have "data_meta_info d = (if meta_value b = [] then None
      else Some \<lparr>mi_content_type = (case db_content_type b of Some c \<Rightarrow> content_type_from_code c | None \<Rightarrow> Blob),
        mi_freshness_period = db_freshness b, mi_final_block_id = db_final_block_id b\<rparr>)"
  proof (cases "meta_value b = []")
    case False
    then have "map_of ?es META_INFO = Some (elems_enc (meta_value b))" using keep m by simp
    with vlen [OF this] f(2) False assms(8) meta_info_decode_elems show ?thesis
      unfolding d(2) meta_value_def by simp
  qed (use f(2) assms(8) keep m in \<open>simp add: d(2)\<close>)
  moreover have "meta_value b = [] \<longleftrightarrow> db_content_type b = None \<and> db_freshness b = None \<and> db_final_block_id b = None"
    by (simp add: meta_value_def meta_elems_def split: option.split)
  ultimately show ?thesis
    using d takeWhile_not_sig [OF m(4), of "sign_fn region" "[]"] unfolding region_def by (intro exI [of _ d]) simp
qed

definition sample_data :: data_builder where
  "sample_data = (data_builder_new [NameComponent 8 [0x61]] [1, 2, 3])\<lparr>db_freshness := Some 1000\<rparr>"

theorem data_sign_roundtrip_witness:
  "\<exists>d. data_decode (data_sign_sync sample_data SignatureEd25519 (Some [NameComponent 8 [0x6B]]) (\<lambda>_. replicate 64 9)) = Inr d \<and>
    data_name d = [NameComponent 8 [0x61]] \<and> data_sig_value d = replicate 64 9 \<and> data_content d = Some [1, 2, 3] \<and>
    data_signed_region d = elems_enc (data_signed_elems sample_data SignatureEd25519 (Some [NameComponent 8 [0x6B]]))"
proof -
  let ?kl = "Some [NameComponent 8 [0x6B]]"
  have "length (data_sign_sync sample_data SignatureEd25519 ?kl (\<lambda>_. replicate 64 9)) < 2 ^ 63"
    unfolding data_sign_sync_elems
    by (simp add: data_signed_elems_def data_elems_def sample_data_def data_builder_new_def meta_value_def meta_elems_def
        sig_info_elems_def signature_type_code_def name_elems_def wire_length)
  moreover have "name_ok (db_name sample_data)" "db_name sample_data = [NameComponent 8 [0x61]]" "db_content sample_data = [1, 2, 3]"
      "name_ok [NameComponent 8 [0x6B]]" "signature_type_ok SignatureEd25519"
      "key_locator_rule SignatureEd25519 (map_option KlName ?kl)"
      "sig_value_width_ok (Some SignatureEd25519) (replicate 64 9)"
    by (simp_all add: sample_data_def data_builder_new_def name_ok_def name_elems_def signature_type_ok_def
        signature_type_code_def signature_type_from_code_def key_locator_rule_def sig_value_width_ok_def
        required_signature_value_len_def)
  ultimately show ?thesis
    using data_sign_roundtrip [of sample_data SignatureEd25519 ?kl "\<lambda>_. replicate 64 9"] by auto
qed

text \<open>The typed FinalBlockId strips leading zero bytes, so from 65536 on it is not the name component
  that \<open>Name::append_segment\<close> writes for the same segment, although both read as the same number.\<close>

lemma final_block_id_typed_seg_65536:
  "db_final_block_id (final_block_id_typed_seg 65536 b) = Some [0x32, 3, 1, 0, 0]"
  "final_block_component \<lparr>mi_content_type = Blob, mi_freshness_period = None,
     mi_final_block_id = db_final_block_id (final_block_id_typed_seg 65536 b)\<rparr> =
     Some (Inr (NameComponent SEGMENT [1, 0, 0]))"
  "append_segment [] 65536 = [NameComponent SEGMENT [0, 1, 0, 0]]"
proof -
  show fb: "db_final_block_id (final_block_id_typed_seg 65536 b) = Some [0x32, 3, 1, 0, 0]"
    by (simp add: final_block_id_typed_seg_def encode_nni_be_def to_be_bytes_def)
  have "[0x32, 3, 1, 0, 0] = tlv_enc SEGMENT [1, 0, 0] @ []" by (simp add: tlv_enc_def varu64_enc_def)
  then have "fst (read_tlv (reader_new [0x32, 3, 1, 0, 0])) = Inr (SEGMENT, [1, 0, 0])"
    using fst_read_tlv_enc [of SEGMENT "[1, 0, 0]" "[]"] by (simp add: wire_length)
  then show "final_block_component \<lparr>mi_content_type = Blob, mi_freshness_period = None,
     mi_final_block_id = db_final_block_id (final_block_id_typed_seg 65536 b)\<rparr> =
     Some (Inr (NameComponent SEGMENT [1, 0, 0]))"
    unfolding fb by (simp add: final_block_component_def)
  show "append_segment [] 65536 = [NameComponent SEGMENT [0, 1, 0, 0]]"
    by (simp add: append_segment_def encode_nonneg_integer_eq nni_enc_def nni_width_def)
qed

section \<open>What the verifier is given\<close>

lemma data_step_return: "data_body_step s t v = Return x \<Longrightarrow> \<exists>e. x = Inl e"
  by (auto simp: data_body_step_def split: prod.splits option.splits sum.splits if_splits)

lemma data_step_continue:
  "data_body_step (k, h) t v = Continue s \<Longrightarrow> (case data_elem_index t of
     None \<Rightarrow> fst s = k | Some m \<Rightarrow> k < m \<and> fst s = m)"
  by (auto simp: data_body_step_def split: option.splits sum.splits if_splits)

lemma data_fold_error: "flow_fold data_body_step (\<lambda>_. Inl e) s es \<noteq> Inr h"
proof (induction es arbitrary: s)
  case (Cons a es)
  then show ?case
    using data_step_return [of s "fst a" "snd a"] by (cases a) (auto split: flow.split)
qed simp

lemma data_fold_Cons:
  assumes "flow_fold data_body_step fin s ((t, v) # es) = Inr r"
  obtains s' where "data_body_step s t v = Continue s'" "flow_fold data_body_step fin s' es = Inr r"
  using assms data_step_return [of s t v] by (cases "data_body_step s t v") auto

lemma data_fold_increasing:
  assumes "flow_fold data_body_step fin (k, h) es = Inr r" "e \<in> set es" "data_elem_index (fst e) = Some m"
  shows "k < m"
  using assms
proof (induction es arbitrary: k h)
  case (Cons a es)
  obtain t v where a: "a = (t, v)" by fastforce
  obtain s where s: "data_body_step (k, h) t v = Continue s" "flow_fold data_body_step fin (fst s, snd s) es = Inr r"
    using Cons.prems(1) unfolding a by (rule data_fold_Cons) simp
  have "k \<le> fst s" "data_elem_index t = Some m \<Longrightarrow> k < m"
    using data_step_continue [OF s(1)] by (auto split: option.splits)
  with Cons.IH [OF s(2)] Cons.prems(2,3) show ?case by (auto simp: a)
qed simp

text \<open>Nothing the decoder knows stands behind the signature.\<close>

lemma data_fold_tail:
  assumes "flow_fold data_body_step fin (k, h) es = Inr r" "t \<in> {META_INFO, CONTENT, SIGNATURE_INFO}"
  shows "map_of (takeWhile not_sig es) t = map_of es t"
  using assms
proof (induction es arbitrary: k h)
  case (Cons a es)
  obtain t' v where a: "a = (t', v)" by fastforce
  obtain s where s: "data_body_step (k, h) t' v = Continue s" "flow_fold data_body_step fin (fst s, snd s) es = Inr r"
    using Cons.prems(1) unfolding a by (rule data_fold_Cons) simp
  show ?case
  proof (cases "t' = SIGNATURE_VALUE")
    case True
    then have five: "fst s = 5" using data_step_continue [OF s(1)] by (simp add: data_elem_index_def)
    have "t \<notin> fst ` set es"
    proof
      assume "t \<in> fst ` set es"
      then obtain e where e: "e \<in> set es" "fst e = t" by auto
      obtain m where "data_elem_index (fst e) = Some m" "m \<le> 4"
        using Cons.prems(2) e(2) by (auto simp: data_elem_index_def)
      with data_fold_increasing [OF s(2) e(1)] five show False by fastforce
    qed
    then have "map_of es t = None" by (simp add: map_of_eq_None_iff)
    then show ?thesis
      using True Cons.prems(2) by (auto simp: a not_sig_def)
  next
    case False
    then show ?thesis using Cons.IH [OF s(2) Cons.prems(2)] by (simp add: a not_sig_def)
  qed
qed simp

lemma data_decode_canonical:
  assumes "data_decode raw = Inr d" "length raw < 2 ^ 63"
  obtains body rest where "raw = data_wire (data_name d) body @ rest" "types_ok body" "name_ok (data_name d)"
    "data_name d \<noteq> []" "data_raw d = raw" "data_fold body = Inr ()"
proof -
  obtain val nv inner n where dec: "fst (read_tlv (reader_new raw)) = Inr (DATA, val)"
      "read_tlv (reader_new val) = (Inr (NAME, nv), inner)" "packet_name nv = Inr n" "n \<noteq> []"
      "validate_data_body_structure inner = Inr ()" "data_raw d = raw" "data_name d = n"
    using assms(1) by (auto simp: data_decode_def Let_def split: sum.splits prod.splits if_splits)
  obtain r' where "read_tlv (reader_new raw) = (Inr (DATA, val), r')" using dec(1) by (metis eq_fst_iff)
  from read_tlv_canonical [OF reader_wf_new [OF assms(2)] this] obtain rest where
    raw: "raw = tlv_enc DATA val @ rest" by auto
  have len: "length val < 2 ^ 63" using assms(2) unfolding raw by (rule length_packet_value)
  from read_tlv_canonical [OF reader_wf_new [OF len] dec(2)] obtain rest' where
    val: "val = tlv_enc NAME nv @ rest'" "inner = (reader_new val)\<lparr>rpos := rpos (reader_new val) + length (tlv_enc NAME nv)\<rparr>"
    by auto
  have inner: "as_bytes inner = rest'" using as_bytes_advance [of "reader_new val" "tlv_enc NAME nv" rest'] val by simp
  have lens: "length nv < 2 ^ 63" "length rest' < 2 ^ 63"
    using len length_tlv_enc_value [of nv NAME] by (simp_all add: val(1))
  have n: "name_ok n" "nv = elems_enc (name_elems n)" using packet_name_canonical [OF dec(3) lens(1)] by auto
  obtain body e where es: "tlv_elems (reader_new rest') = (body, e)" by fastforce
  have "(case e of None \<Rightarrow> data_fold body
      | Some e \<Rightarrow> flow_fold data_body_step (\<lambda>_. Inl (Tlv e)) (1, None) body) = Inr ()"
    using dec(5) es unfolding validate_data_body_structure_def scan_elems_def inner
    by (simp add: tlv_loop_flow_fold split: option.splits)
  then have e: "e = None" "data_fold body = Inr ()"
    using data_fold_error by (auto split: option.splits)
  with tlv_elems_canonical [OF reader_wf_new [OF lens(2)] es] have body: "types_ok body" "rest' = elems_enc body"
    by auto
  show ?thesis
    using that [of body rest] raw val(1) n body e(2) dec by simp
qed

text \<open>C2. Everything an application reads from an accepted packet is covered by the signature: when
  nothing follows the packet in its buffer, the bytes given to the verifier start with the name and
  are a sequence of elements in which content, MetaInfo and SignatureInfo are found, and what
  follows them in the packet is the SignatureValue given to the verifier, or nothing.\<close>

theorem data_signed_region_covers:
  assumes "data_decode raw = Inr d" "length raw < 2 ^ 63" "as_bytes (snd (read_tlv (reader_new raw))) = []"
  shows "\<exists>body tail. data_signed_region d = elems_enc ((NAME, elems_enc (name_elems (data_name d))) # body) \<and>
    raw = tlv_enc DATA (data_signed_region d @ tail) \<and>
    (tail = [] \<and> data_sig_value d = [] \<or> (\<exists>tail'. tail = tlv_enc SIGNATURE_VALUE (data_sig_value d) @ tail')) \<and>
    data_content d = map_of body CONTENT \<and>
    data_meta_info d = (case map_of body META_INFO of
      Some v \<Rightarrow> (case meta_info_decode v of Inr mi \<Rightarrow> Some mi | Inl _ \<Rightarrow> None) | None \<Rightarrow> None) \<and>
    data_sig_info d = (case map_of body SIGNATURE_INFO of
      Some v \<Rightarrow> (case sig_info_decode v of Inr si \<Rightarrow> Some si | Inl _ \<Rightarrow> None) | None \<Rightarrow> None)"
proof -
  obtain body rest where w: "raw = data_wire (data_name d) body @ rest" "types_ok body" "name_ok (data_name d)"
      "data_name d \<noteq> []" "data_raw d = raw" "data_fold body = Inr ()"
    using data_decode_canonical [OF assms(1,2)] by metis
  let ?n = "(NAME, elems_enc (name_elems (data_name d)))"
  have rest: "rest = []"
    using assms(3) read_tlv_enc [OF reader_wf_new [OF assms(2)], of DATA "elems_enc (?n # body)" rest]
      as_bytes_advance [of "reader_new raw" "tlv_enc DATA (elems_enc (?n # body))" rest] w(1) by simp
  have raw: "raw = data_wire (data_name d) body" using w(1) rest by simp
  obtain d' where d': "data_decode raw = Inr d'" "data_signed_region d' = elems_enc (takeWhile not_sig (?n # body))"
      "data_sig_value d' = (case map_of (?n # body) SIGNATURE_VALUE of Some v \<Rightarrow> v | None \<Rightarrow> [])"
    using data_decode_exact [OF _ w(2-4,6)] assms(2) raw by metis
  have dd: "d' = d" using d'(1) assms(1) by simp
  let ?b = "takeWhile not_sig body"
  have region: "data_signed_region d = elems_enc (?n # ?b)" using d'(2) dd by (simp add: not_sig_def)
  have split: "elems_enc (?n # body) = elems_enc (?n # ?b) @ elems_enc (dropWhile not_sig body)"
    by (metis append_Cons elems_enc_simps(3) takeWhile_dropWhile_id)
  have tail: "elems_enc (dropWhile not_sig body) = [] \<and> data_sig_value d = [] \<or>
      (\<exists>tail'. elems_enc (dropWhile not_sig body) = tlv_enc SIGNATURE_VALUE (data_sig_value d) @ tail')"
  proof (cases "dropWhile not_sig body")
    case Nil
    then have "SIGNATURE_VALUE \<notin> fst ` set body" by (auto simp: dropWhile_eq_Nil_conv not_sig_def)
    then show ?thesis using Nil d'(3) dd by (simp add: map_of_eq_None_iff [THEN iffD2])
  next
    case (Cons a es)
    obtain v where a: "a = (SIGNATURE_VALUE, v)"
      using Cons hd_dropWhile [of not_sig body] by (cases a) (simp add: not_sig_def)
    have "body = ?b @ (SIGNATURE_VALUE, v) # es" using Cons a by (metis takeWhile_dropWhile_id)
    then have "map_of body SIGNATURE_VALUE = Some v"
      using takeWhile_not_sig(2) [of ?b v es] by (metis list_all_iff set_takeWhileD)
    then show ?thesis using Cons a d'(3) dd by simp
  qed
  have f: "data_content d = map_of (?n # body) CONTENT"
    "data_meta_info d = (case map_of (?n # body) META_INFO of
      Some v \<Rightarrow> (case meta_info_decode v of Inr mi \<Rightarrow> Some mi | Inl _ \<Rightarrow> None) | None \<Rightarrow> None)"
    "data_sig_info d = (case map_of (?n # body) SIGNATURE_INFO of
      Some v \<Rightarrow> (case sig_info_decode v of Inr si \<Rightarrow> Some si | Inl _ \<Rightarrow> None) | None \<Rightarrow> None)"
    using data_fields [of d "?n # body" "[]"] w(1,2,5) rest assms(2) by simp_all
  note t = data_fold_tail [OF w(6)]
  show ?thesis
    using region tail f t [of CONTENT] t [of META_INFO] t [of SIGNATURE_INFO] raw split
    by (intro exI [of _ ?b] exI [of _ "elems_enc (dropWhile not_sig body)"]) simp
qed

lemma sample_sha256_wire:
  "data_decode (data_sign_sync sample_data DigestSha256 None (\<lambda>_. replicate 32 7)) \<noteq> Inl e"
  "length (data_sign_sync sample_data DigestSha256 None (\<lambda>_. replicate 32 7)) < 2 ^ 63"
proof -
  let ?body = "opt_elem META_INFO (Some (elems_enc (meta_value sample_data))) @
     [(CONTENT, [1, 2, 3]), (SIGNATURE_INFO, elems_enc (sig_info_elems DigestSha256 None None None)), (SIGNATURE_VALUE, replicate 32 7)]"
  have wire: "data_sign_sync sample_data DigestSha256 None (\<lambda>_. replicate 32 7) = data_wire [NameComponent 8 [0x61]] ?body"
    unfolding data_sign_sync_elems
    by (simp add: data_signed_elems_def data_elems_def meta_value_def meta_elems_def sample_data_def data_builder_new_def)
  show len: "length (data_sign_sync sample_data DigestSha256 None (\<lambda>_. replicate 32 7)) < 2 ^ 63"
    unfolding wire by (simp add: meta_value_def meta_elems_def sample_data_def data_builder_new_def sig_info_elems_def
        signature_type_code_def name_elems_def wire_length)
  have "length (elems_enc (sig_info_elems DigestSha256 None None None)) < 2 ^ 63"
    by (simp add: sig_info_elems_def signature_type_code_def wire_length)
  then have "sig_info_decode (elems_enc (sig_info_elems DigestSha256 None None None)) =
     Inr \<lparr>si_sig_type = DigestSha256, si_key_locator = None, si_sig_nonce = None, si_sig_time = None, si_sig_seq_num = None\<rparr>"
    using sig_info_decode_elems [of DigestSha256 None None None]
    by (simp add: signature_type_ok_def signature_type_code_def signature_type_from_code_def key_locator_rule_def)
  then have "data_fold ?body = Inr ()"
    by (simp add: data_body_step_def data_elem_index_def sig_value_width_ok_def required_signature_value_len_def)
  then show "data_decode (data_sign_sync sample_data DigestSha256 None (\<lambda>_. replicate 32 7)) \<noteq> Inl e"
    using data_decode_exact [of "[NameComponent 8 [0x61]]" ?body] len unfolding wire
    by (auto simp: name_ok_def name_elems_def)
qed

theorem data_signed_region_covers_witness:
  "\<exists>d tail. data_decode (data_sign_sync sample_data DigestSha256 None (\<lambda>_. replicate 32 7)) = Inr d \<and>
     data_sign_sync sample_data DigestSha256 None (\<lambda>_. replicate 32 7) = tlv_enc DATA (data_signed_region d @ tail)"
proof -
  let ?raw = "data_sign_sync sample_data DigestSha256 None (\<lambda>_. replicate 32 7)"
  obtain d where d: "data_decode ?raw = Inr d" using sample_sha256_wire(1) by (cases "data_decode ?raw") auto
  have "as_bytes (snd (read_tlv (reader_new ?raw))) = []"
    using sample_sha256_wire(2) unfolding data_sign_sync_elems by (intro nothing_follows) simp_all
  from data_signed_region_covers [OF d sample_sha256_wire(2) this] d show ?thesis by blast
qed

section \<open>Bytes behind the packet\<close>

text \<open>A packet made from a signed one: an outer element with a name of the attacker's choice, a
  Content whose value is the signed bytes up to the SignatureInfo, and that SignatureInfo; the
  SignatureValue of the signed packet follows it in the buffer.\<close>

definition forged_wire :: "name \<Rightarrow> (u64 \<times> bytes) list \<Rightarrow> bytes \<Rightarrow> bytes \<Rightarrow> bytes" where
  "forged_wire evil es si sig =
     data_wire evil [(CONTENT, elems_enc es), (SIGNATURE_INFO, si)] @ tlv_enc SIGNATURE_VALUE sig"

text \<open>C10. The byte ranges of \<open>Data::decode\<close> are wrong when bytes follow the packet, and this lets a
  signed packet be replayed under another name: whenever the encoded name and the header of the
  Content together are as long as the SignatureValue element, the forged wire is accepted under the
  chosen name, while the signed region and the signature value it gives the verifier are those of
  the signed packet. The start of the ranges is taken as the length of the buffer minus the length
  of the packet's value.\<close>

theorem data_name_forgery:
  assumes "name_ok evil" "evil \<noteq> []" "types_ok es" "list_all not_sig es" "sig_info_decode si = Inr info"
    and shift: "length (tlv_enc NAME (elems_enc (name_elems evil))) + length (tlv_enc CONTENT (elems_enc es)) =
      length (elems_enc es) + length (tlv_enc SIGNATURE_VALUE sig)"
    and "length (forged_wire evil es si sig) < 2 ^ 63"
  shows "\<exists>d. data_decode (forged_wire evil es si sig) = Inr d \<and> data_name d = evil \<and>
    data_signed_region d = elems_enc (es @ [(SIGNATURE_INFO, si)]) \<and> data_sig_value d = sig \<and>
    data_sig_info d = Some info"
proof -
  let ?body = "[(CONTENT, elems_enc es), (SIGNATURE_INFO, si)]"
  let ?n = "(NAME, elems_enc (name_elems evil))"
  let ?val = "elems_enc (?n # ?body)"
  let ?T = "tlv_enc SIGNATURE_VALUE sig"
  let ?raw = "forged_wire evil es si sig"
  let ?start = "length ?raw - length ?val"
  let ?es = "es @ (SIGNATURE_INFO, si) # [(SIGNATURE_VALUE, sig)]"
  let ?hd = "varu64_enc DATA @ varu64_enc (word_of_nat (length ?val))"
  let ?ch = "varu64_enc CONTENT @ varu64_enc (word_of_nat (length (elems_enc es)))"
  have raw: "?raw = (?hd @ tlv_enc NAME (elems_enc (name_elems evil)) @ ?ch) @ elems_enc ?es"
    by (simp add: forged_wire_def tlv_enc_def [of DATA] tlv_enc_def [of CONTENT])
  have "length (?hd @ tlv_enc NAME (elems_enc (name_elems evil)) @ ?ch) = length ?hd + length ?T"
    using shift by (simp add: tlv_enc_def [of CONTENT])
  moreover have "length ?raw = length ?hd + length ?val + length ?T"
    by (simp add: forged_wire_def tlv_enc_def [of DATA])
  ultimately have st: "?start = length (?hd @ tlv_enc NAME (elems_enc (name_elems evil)) @ ?ch)" by simp
  have dr: "drop ?start ?raw = elems_enc ?es" unfolding st by (subst raw) simp
  have pos: "0 < ?start" unfolding st using varu64_size_bounds(1) [of DATA] by (simp add: length_varu64_enc)
  have ty: "types_ok ?es" "types_ok (?n # ?body)" using assms(3) by simp_all
  obtain s e where se: "scan_for_sig_value ?raw ?start = (s, e)" by fastforce
  let ?d = "\<lparr>data_raw = ?raw, signed_start = ?start, signed_end = (if s > 0 then s else length ?raw),
      sig_value_start = s, sig_value_end = e, data_name = evil, data_content_sha256 = None\<rparr>"
  have fold: "data_fold ?body = Inr ()" using assms(5) by (simp add: data_body_step_def data_elem_index_def)
  have dec: "data_decode ?raw = Inr ?d"
    using data_decode_elems [of evil ?body ?T, folded forged_wire_def] assms(1,2,7) ty fold se
    by (simp del: elems_enc_simps)
  have ns: "list_all not_sig (es @ [(SIGNATURE_INFO, si)])" using assms(4) by (simp add: not_sig_def)
  note r = data_ranges [OF dr ty(1) assms(7) pos diff_le_self se, of ?d]
  have "data_sig_info ?d = Some info"
    using data_fields(3) [of ?d "?n # ?body" ?T] ty(2) assms(5,7) by (simp add: forged_wire_def)
  moreover have "data_signed_region ?d = elems_enc (es @ [(SIGNATURE_INFO, si)])" "data_sig_value ?d = sig"
    using r takeWhile_not_sig [OF ns, of sig "[]"] by simp_all
  ultimately show ?thesis using dec by (intro exI [of _ ?d]) simp
qed

theorem data_name_forgery_witness:
  "\<exists>d. data_decode (forged_wire [NameComponent 8 (replicate 28 0x65)] (data_elems sample_data)
       (elems_enc (sig_info_elems DigestSha256 None None None)) (replicate 32 7)) = Inr d \<and>
    data_name d = [NameComponent 8 (replicate 28 0x65)] \<and>
    data_signed_region d = elems_enc (data_signed_elems sample_data DigestSha256 None) \<and>
    data_sig_value d = replicate 32 7"
proof -
  let ?si = "elems_enc (sig_info_elems DigestSha256 None None None)"
  let ?evil = "[NameComponent 8 (replicate 28 0x65)]"
  have "length ?si < 2 ^ 63" by (simp add: sig_info_elems_def signature_type_code_def wire_length)
  then have si: "sig_info_decode ?si =
     Inr \<lparr>si_sig_type = DigestSha256, si_key_locator = None, si_sig_nonce = None, si_sig_time = None, si_sig_seq_num = None\<rparr>"
    using sig_info_decode_elems [of DigestSha256 None None None]
    by (simp add: signature_type_ok_def signature_type_code_def signature_type_from_code_def key_locator_rule_def)
  have ns: "list_all not_sig (data_elems sample_data)"
    using map_of_data_signed_elems(4) [of sample_data DigestSha256 None] by (simp add: data_signed_elems_def)
  have l: "length (elems_enc (data_elems sample_data)) = 16"
    by (simp add: data_elems_def sample_data_def data_builder_new_def meta_value_def meta_elems_def name_elems_def wire_length)
  have shift: "length (tlv_enc NAME (elems_enc (name_elems ?evil))) + length (tlv_enc CONTENT (elems_enc (data_elems sample_data))) =
      length (elems_enc (data_elems sample_data)) + length (tlv_enc SIGNATURE_VALUE (replicate 32 7))"
    using l by (simp add: name_elems_def wire_length)
  have len: "length (forged_wire ?evil (data_elems sample_data) ?si (replicate 32 7)) < 2 ^ 63"
    using l by (simp add: forged_wire_def sig_info_elems_def signature_type_code_def name_elems_def wire_length)
  have "name_ok ?evil" by (simp add: name_ok_def name_elems_def)
  from data_name_forgery [OF this _ _ ns si shift len] show ?thesis by (auto simp: data_signed_elems_def)
qed

end
