(* ===== verification/Ndn_Interest.thy ===== *)
theory Ndn_Interest
  imports Ndn_Meta
begin

text \<open>
  The Interest packet: \<open>Interest::decode\<close> with its structural validation, the lazily decoded
  fields, the signed region and the HopLimit rewriting
  (\<open>src/crates/core/ndn-packet/src/interest.rs\<close>), \<open>ensure_nonce\<close> (\<open>wire.rs\<close>) and the encoders
  \<open>encode_interest\<close> and \<open>InterestBuilder\<close> (\<open>encode/interest.rs\<close>). SHA-256, the nonce counter, the
  random signature nonce and the clock are arguments. The lemmas show that decoding inverts
  building, what the rewriting steps of the forwarder keep and change, and where they go wrong.
\<close>

abbreviation CAN_BE_PREFIX :: u64 where "CAN_BE_PREFIX \<equiv> 0x21"
abbreviation MUST_BE_FRESH :: u64 where "MUST_BE_FRESH \<equiv> 0x12"
abbreviation FORWARDING_HINT :: u64 where "FORWARDING_HINT \<equiv> 0x1E"
abbreviation NONCE :: u64 where "NONCE \<equiv> 0x0A"
abbreviation INTEREST_LIFETIME :: u64 where "INTEREST_LIFETIME \<equiv> 0x0C"
abbreviation HOP_LIMIT :: u64 where "HOP_LIMIT \<equiv> 0x22"
abbreviation APP_PARAMETERS :: u64 where "APP_PARAMETERS \<equiv> 0x24"
abbreviation REFLEXIVE_NAME :: u64 where "REFLEXIVE_NAME \<equiv> 0x0402"
abbreviation INTEREST_SIGNATURE_INFO :: u64 where "INTEREST_SIGNATURE_INFO \<equiv> 0x2C"
abbreviation INTEREST_SIGNATURE_VALUE :: u64 where "INTEREST_SIGNATURE_VALUE \<equiv> 0x2E"

section \<open>Decoding\<close>

record selector =
  can_be_prefix :: bool
  must_be_fresh :: bool

definition selector_default :: selector where
  "selector_default = \<lparr>can_be_prefix = False, must_be_fresh = False\<rparr>"

text \<open>The lazy fields are functions of the raw bytes, so a decoded Interest is its bytes and its name.\<close>

record interest =
  int_raw :: bytes
  int_name :: name

definition interest_elem_index :: "u64 \<Rightarrow> nat option" where
  "interest_elem_index t =
     (if t = CAN_BE_PREFIX then Some 2
      else if t = MUST_BE_FRESH then Some 3
      else if t = FORWARDING_HINT then Some 4
      else if t = NONCE then Some 5
      else if t = INTEREST_LIFETIME then Some 6
      else if t = HOP_LIMIT then Some 7
      else if t = APP_PARAMETERS then Some 8
      else if t = INTEREST_SIGNATURE_INFO then Some 9
      else if t = INTEREST_SIGNATURE_VALUE then Some 10
      else None)"

definition interest_body_step :: "nat \<times> bool \<Rightarrow> u64 \<Rightarrow> bytes \<Rightarrow> (nat \<times> bool, packet_error + bool) flow" where
  "interest_body_step s t v = (case s of (last_element, has_app_params) \<Rightarrow>
     (case interest_elem_index t of
        Some elem \<Rightarrow>
          if elem \<le> last_element then
            Return (Inl (MalformedPacket ''Interest body element out of spec order or duplicated''))
          else if t = NONCE \<and> length v \<noteq> 4 then
            Return (Inl (MalformedPacket (''Interest Nonce must be exactly 4 bytes; got '' @ show_nat (length v))))
          else if t = INTEREST_SIGNATURE_INFO then
            (case sig_info_decode v of
               Inl e \<Rightarrow> Return (Inl e)
             | Inr _ \<Rightarrow> Continue (elem, has_app_params))
          else Continue (elem, has_app_params \<or> t = APP_PARAMETERS)
      | None \<Rightarrow>
          if is_critical_tlv_type t then
            Return (Inl (MalformedPacket ''unknown critical TLV-TYPE in Interest body''))
          else Continue (last_element, has_app_params)))"

definition validate_interest_body_structure :: "tlv_reader \<Rightarrow> packet_error + bool" where
  "validate_interest_body_structure body =
     scan_elems interest_body_step (\<lambda>(_, has_app_params). Inr has_app_params) (1, False) (as_bytes body)"

definition validate_psdc_structure :: "name \<Rightarrow> bool \<Rightarrow> packet_error + unit" where
  "validate_psdc_structure n has_app_params = (let
     psdc_count = length (filter (\<lambda>c. comp_typ c = PARAMETERS_SHA256) n)
   in if psdc_count > 1 then
        Inl (MalformedPacket ''Interest Name has more than one ParametersSha256DigestComponent'')
      else if has_app_params \<and> psdc_count = 0 then
        Inl (MalformedPacket ''Interest with ApplicationParameters must contain a ParametersSha256DigestComponent'')
      else Inr ())"

definition interest_decode :: "bytes \<Rightarrow> packet_error + interest" where
  "interest_decode raw = (case fst (read_tlv (reader_new raw)) of
     Inl e \<Rightarrow> Inl (Tlv e)
   | Inr (typ, val) \<Rightarrow>
       if typ \<noteq> INTEREST then Inl (UnknownPacketType typ)
       else (case read_tlv (reader_new val) of
         (Inl e, _) \<Rightarrow> Inl (Tlv e)
       | (Inr (name_typ, name_val), inner) \<Rightarrow>
           if name_typ \<noteq> NAME then Inl (UnknownPacketType name_typ)
           else (case packet_name name_val of
             Inl e \<Rightarrow> Inl e
           | Inr n \<Rightarrow>
               if n = [] then Inl (MalformedPacket ''Interest Name must have at least one component'')
               else (case validate_interest_body_structure inner of
                 Inl e \<Rightarrow> Inl e
               | Inr has_app_params \<Rightarrow> (case validate_psdc_structure n has_app_params of
                   Inl e \<Rightarrow> Inl e
                 | Inr _ \<Rightarrow> Inr \<lparr>int_raw = raw, int_name = n\<rparr>)))))"

section \<open>Lazily decoded fields\<close>

definition decode_selectors :: "bytes \<Rightarrow> packet_error + selector" where
  "decode_selectors raw = scan_packet (\<lambda>sel t _. Continue
       (if t = CAN_BE_PREFIX then sel\<lparr>can_be_prefix := True\<rparr>
        else if t = MUST_BE_FRESH then sel\<lparr>must_be_fresh := True\<rparr>
        else sel)) Inr selector_default raw"

definition decode_nonce :: "bytes \<Rightarrow> packet_error + u32 option" where
  "decode_nonce raw = scan_first NONCE (\<lambda>v.
     if length v \<noteq> 4 then
       Inl (MalformedPacket (''Interest Nonce must be exactly 4 bytes; got '' @ show_nat (length v) @ '' bytes''))
     else Inr (Some (from_be_bytes [v ! 0, v ! 1, v ! 2, v ! 3]))) raw"

definition decode_app_params :: "bytes \<Rightarrow> packet_error + bytes option" where
  "decode_app_params raw =
     (if raw = [] then Inr None else scan_first APP_PARAMETERS (\<lambda>v. Inr (Some v)) raw)"

definition hint_names :: "bytes \<Rightarrow> packet_error + name list" where
  "hint_names val = scan_elems (\<lambda>names t v.
       if t = NAME then (case packet_name v of Inl e \<Rightarrow> Return (Inl e) | Inr n \<Rightarrow> Continue (names @ [n]))
       else Continue names) Inr [] val"

definition decode_forwarding_hint :: "bytes \<Rightarrow> packet_error + name list option" where
  "decode_forwarding_hint raw =
     (if raw = [] then Inr None
      else scan_first FORWARDING_HINT (\<lambda>v. case hint_names v of
          Inl e \<Rightarrow> Inl e
        | Inr names \<Rightarrow> if names = [] then Inr None else Inr (Some names)) raw)"

definition decode_reflexive_name :: "bytes \<Rightarrow> packet_error + name option" where
  "decode_reflexive_name raw =
     (if raw = [] then Inr None
      else scan_first REFLEXIVE_NAME (\<lambda>v. case packet_name v of
          Inl e \<Rightarrow> Inl e
        | Inr n \<Rightarrow> if n = [] then Inr None else Inr (Some n)) raw)"

definition decode_hop_limit :: "bytes \<Rightarrow> packet_error + u8 option" where
  "decode_hop_limit raw =
     (if raw = [] then Inr None
      else scan_first HOP_LIMIT (\<lambda>v. if length v = 1 then Inr (Some (v ! 0)) else Inr None) raw)"

definition decode_interest_sig_info :: "bytes \<Rightarrow> packet_error + signature_info option" where
  "decode_interest_sig_info raw =
     (if raw = [] then Inr None
      else scan_first INTEREST_SIGNATURE_INFO (\<lambda>v. case sig_info_decode v of
          Inl e \<Rightarrow> Inl e | Inr si \<Rightarrow> Inr (Some si)) raw)"

definition decode_interest_sig_value :: "bytes \<Rightarrow> packet_error + bytes option" where
  "decode_interest_sig_value raw =
     (if raw = [] then Inr None else scan_first INTEREST_SIGNATURE_VALUE (\<lambda>v. Inr (Some v)) raw)"

definition decode_lifetime :: "bytes \<Rightarrow> packet_error + u64 option" where
  "decode_lifetime raw = scan_first INTEREST_LIFETIME (\<lambda>v. let
       max_ms = ucast MAX_PERSISTENT_LIFETIME_SECS * 1000
     in case decode_nni v of Inl e \<Rightarrow> Inl e | Inr ms \<Rightarrow> Inr (Some (min ms max_ms))) raw"

definition int_selectors :: "interest \<Rightarrow> selector" where
  "int_selectors i = (case decode_selectors (int_raw i) of Inl _ \<Rightarrow> selector_default | Inr sel \<Rightarrow> sel)"

definition int_nonce :: "interest \<Rightarrow> u32 option" where
  "int_nonce i = ok_flatten (decode_nonce (int_raw i))"

definition int_lifetime :: "interest \<Rightarrow> u64 option" where
  "int_lifetime i = ok_flatten (decode_lifetime (int_raw i))"

definition int_app_parameters :: "interest \<Rightarrow> bytes option" where
  "int_app_parameters i = ok_flatten (decode_app_params (int_raw i))"

definition int_forwarding_hint :: "interest \<Rightarrow> name list option" where
  "int_forwarding_hint i = ok_flatten (decode_forwarding_hint (int_raw i))"

definition int_reflexive_name :: "interest \<Rightarrow> name option" where
  "int_reflexive_name i = ok_flatten (decode_reflexive_name (int_raw i))"

definition int_hop_limit :: "interest \<Rightarrow> u8 option" where
  "int_hop_limit i = ok_flatten (decode_hop_limit (int_raw i))"

definition int_sig_info :: "interest \<Rightarrow> signature_info option" where
  "int_sig_info i = ok_flatten (decode_interest_sig_info (int_raw i))"

definition int_sig_value :: "interest \<Rightarrow> bytes option" where
  "int_sig_value i = ok_flatten (decode_interest_sig_value (int_raw i))"

section \<open>The signed region\<close>

definition signed_name_components :: "bytes \<Rightarrow> packet_error + bytes" where
  "signed_name_components name_value = tlv_loop (\<lambda>out r t v r'.
       if t = PARAMETERS_SHA256 then Continue out else Continue (out @ slice_between name_value r r'))
     (\<lambda>e. Inl (Tlv e)) Inr [] (reader_new name_value)"

definition signed_tail :: "bytes \<Rightarrow> tlv_reader \<Rightarrow> packet_error + bytes option \<times> bytes option" where
  "signed_tail interest_value inner = tlv_loop (\<lambda>(ap, si) r t v r'.
       if t = APP_PARAMETERS then Continue (Some (slice_between interest_value r r'), si)
       else if t = INTEREST_SIGNATURE_INFO then Return (Inr (ap, Some (slice_between interest_value r r')))
       else Continue (ap, si))
     (\<lambda>e. Inl (Tlv e)) Inr (None, None) inner"

definition compute_interest_signed_region :: "bytes \<Rightarrow> packet_error + bytes option" where
  "compute_interest_signed_region raw =
     (if raw = [] then Inr None
      else case fst (read_tlv (reader_new raw)) of
        Inl e \<Rightarrow> Inl (Tlv e)
      | Inr (outer_typ, interest_value) \<Rightarrow>
          if outer_typ \<noteq> INTEREST then Inr None
          else (case read_tlv (reader_new interest_value) of
            (Inl e, _) \<Rightarrow> Inl (Tlv e)
          | (Inr (name_typ, name_value), inner) \<Rightarrow>
              if name_typ \<noteq> NAME then Inr None
              else (case signed_name_components name_value of
                Inl e \<Rightarrow> Inl e
              | Inr comps \<Rightarrow> (case signed_tail interest_value inner of
                  Inl e \<Rightarrow> Inl e
                | Inr (Some ap, Some si) \<Rightarrow> Inr (Some (comps @ ap @ si))
                | Inr _ \<Rightarrow> Inr None))))"

definition int_signed_region :: "interest \<Rightarrow> bytes option" where
  "int_signed_region i = ok_flatten (compute_interest_signed_region (int_raw i))"

section \<open>HopLimit rewriting\<close>

text \<open>The walk over the body with the machine's wrap-around addition. Nothing forces the cursor to
  move forward, so the walk is a partial function: \<open>None\<close> means it does not return, otherwise the
  result is the position of the HopLimit byte inside the body, if there is one.\<close>

definition wrap_add :: "nat \<Rightarrow> nat \<Rightarrow> nat" where
  "wrap_add a b = (a + b) mod 2 ^ 64"

partial_function (option) hop_limit_walk :: "bytes \<Rightarrow> nat \<Rightarrow> nat option option" where
  "hop_limit_walk body pos =
     (if pos < length body then
        (case read_varu64 (drop pos body) of
           Inl _ \<Rightarrow> Some None
         | Inr (typ, type_len) \<Rightarrow> (case read_varu64 (drop type_len (drop pos body)) of
             Inl _ \<Rightarrow> Some None
           | Inr (len, len_len) \<Rightarrow>
               if wrap_add (wrap_add pos (type_len + len_len)) (unat len) > length body then Some None
               else if typ = HOP_LIMIT \<and> unat len = 1 then Some (Some (pos + type_len + len_len))
               else hop_limit_walk body (wrap_add pos (wrap_add (type_len + len_len) (unat len)))))
      else Some None)"

definition decrement_hop_limit :: "bytes \<Rightarrow> (bytes \<times> u8) option option" where
  "decrement_hop_limit raw =
     (if raw = [] then Some None
      else case fst (read_tlv (reader_new raw)) of
        Inl _ \<Rightarrow> Some None
      | Inr (_, val) \<Rightarrow> (let header_len = length raw - length val in
          map_option (map_option (\<lambda>off. let
              abs_value_byte = header_len + off;
              new = saturating_sub (raw ! abs_value_byte) 1
            in (raw[abs_value_byte := new], new)))
          (hop_limit_walk (drop header_len raw) 0)))"

definition decrement_hop_limit_in_place :: "bytes \<Rightarrow> (bytes \<times> u8 option) option" where
  "decrement_hop_limit_in_place wire =
     (if wire = [] then Some (wire, None)
      else case read_varu64 wire of
        Inl _ \<Rightarrow> Some (wire, None)
      | Inr (_, type_len) \<Rightarrow> (case read_varu64 (drop type_len wire) of
          Inl _ \<Rightarrow> Some (wire, None)
        | Inr (_, len_len) \<Rightarrow>
            map_option (\<lambda>found. case found of
                Some idx \<Rightarrow> (let new = saturating_sub (wire ! idx) 1 in (wire[idx := new], Some new))
              | None \<Rightarrow> (wire, None))
            (hop_limit_walk wire (type_len + len_len))))"

section \<open>Adding a nonce\<close>

definition has_nonce :: "bytes \<Rightarrow> bool" where
  "has_nonce val = tlv_loop (\<lambda>_ _ t _ _. if t = NONCE then Return True else Continue ())
     (\<lambda>_. False) (\<lambda>_. False) () (reader_new val)"

text \<open>A loop that stops at the first read error and goes on with what it has.\<close>

definition tlv_loop_break :: "('s \<Rightarrow> u64 \<Rightarrow> bytes \<Rightarrow> 's) \<Rightarrow> 's \<Rightarrow> bytes \<Rightarrow> 's" where
  "tlv_loop_break f s val = foldl (\<lambda>s (t, v). f s t v) s (fst (tlv_elems (reader_new val)))"

definition rewrite_with_nonce :: "u32 \<Rightarrow> bytes \<Rightarrow> tlv_writer \<Rightarrow> tlv_writer" where
  "rewrite_with_nonce next_nonce val w = (let
     (w, name_written) = tlv_loop_break (\<lambda>(w, name_written) t v.
         if \<not> name_written \<and> t = NAME
         then (write_tlv NONCE (to_be_bytes next_nonce) (write_tlv t v w), True)
         else (write_tlv t v w, name_written)) (w, False) val
   in if \<not> name_written then write_tlv NONCE (to_be_bytes next_nonce) w else w)"

definition ensure_nonce :: "u32 \<Rightarrow> bytes \<Rightarrow> bytes" where
  "ensure_nonce next_nonce interest_wire = (case fst (read_tlv (reader_new interest_wire)) of
     Inl _ \<Rightarrow> interest_wire
   | Inr (typ, val) \<Rightarrow>
       if typ \<noteq> INTEREST then interest_wire
       else if has_nonce val then interest_wire
       else finish (write_nested INTEREST (rewrite_with_nonce next_nonce val) writer_new))"

section \<open>Encoders\<close>

definition encode_interest :: "(bytes \<Rightarrow> bytes) \<Rightarrow> u32 \<Rightarrow> name \<Rightarrow> bytes option \<Rightarrow> bytes" where
  "encode_interest sha256 next_nonce n app_params = finish (write_nested INTEREST (\<lambda>w.
     case app_params of
       Some params \<Rightarrow> (let
           digest = sha256 (finish (write_tlv APP_PARAMETERS params writer_new));
           w = write_nested NAME (\<lambda>w. write_tlv PARAMETERS_SHA256 digest (write_components n w)) w;
           w = write_tlv NONCE (to_be_bytes next_nonce) w;
           w = write_nni INTEREST_LIFETIME 4000 w
         in write_tlv APP_PARAMETERS params w)
     | None \<Rightarrow>
         write_nni INTEREST_LIFETIME 4000 (write_tlv NONCE (to_be_bytes next_nonce) (write_name n w)))
     writer_new)"

record interest_builder =
  ib_name :: name
  ib_lifetime :: "u64 option"
  ib_can_be_prefix :: bool
  ib_must_be_fresh :: bool
  ib_hop_limit :: "u8 option"
  ib_app_parameters :: "bytes option"
  ib_forwarding_hint :: "name list option"
  ib_reflexive_name :: "name option"
  ib_pin_face :: "u64 option"

definition interest_builder_new :: "name \<Rightarrow> interest_builder" where
  "interest_builder_new n = \<lparr>ib_name = n, ib_lifetime = None, ib_can_be_prefix = False,
     ib_must_be_fresh = False, ib_hop_limit = None, ib_app_parameters = None,
     ib_forwarding_hint = None, ib_reflexive_name = None, ib_pin_face = None\<rparr>"

text \<open>The fields between the Name and the ApplicationParameters, which \<open>build\<close> and
  \<open>build_signed_interest_parts\<close> write alike.\<close>

definition write_body_fields :: "interest_builder \<Rightarrow> u32 \<Rightarrow> tlv_writer \<Rightarrow> tlv_writer" where
  "write_body_fields b next_nonce w = (let
     lifetime_ms = (case ib_lifetime b of Some d \<Rightarrow> d | None \<Rightarrow> 4000);
     w = (if ib_can_be_prefix b then write_tlv CAN_BE_PREFIX [] w else w);
     w = (if ib_must_be_fresh b then write_tlv MUST_BE_FRESH [] w else w);
     w = (case ib_forwarding_hint b of
         Some hints \<Rightarrow> write_nested FORWARDING_HINT (\<lambda>w. foldl (\<lambda>w h. write_name h w) w hints) w
       | None \<Rightarrow> w);
     w = (case ib_reflexive_name b of
         Some rname \<Rightarrow> write_nested REFLEXIVE_NAME (write_components rname) w
       | None \<Rightarrow> w);
     w = write_tlv NONCE (to_be_bytes next_nonce) w;
     w = write_nni INTEREST_LIFETIME lifetime_ms w
   in case ib_hop_limit b of Some h \<Rightarrow> write_tlv HOP_LIMIT [h] w | None \<Rightarrow> w)"

definition interest_build :: "(bytes \<Rightarrow> bytes) \<Rightarrow> u32 \<Rightarrow> interest_builder \<Rightarrow> bytes" where
  "interest_build sha256 next_nonce b = (let
     interest_wire = finish (write_nested INTEREST (\<lambda>w. let
         w = (case ib_app_parameters b of
             Some params \<Rightarrow> (let digest = sha256 (finish (write_tlv APP_PARAMETERS params writer_new)) in
               write_nested NAME (\<lambda>w. write_tlv PARAMETERS_SHA256 digest (write_components (ib_name b) w)) w)
           | None \<Rightarrow> write_name (ib_name b) w);
         w = write_body_fields b next_nonce w
       in case ib_app_parameters b of
           Some params \<Rightarrow> write_tlv APP_PARAMETERS params w
         | None \<Rightarrow> w) writer_new)
   in case ib_pin_face b of
       Some fid \<Rightarrow> encode_lp_with_headers interest_wire \<lparr>lh_pit_token = None, lh_congestion_mark = None,
           lh_incoming_face_id = None, lh_next_hop_face_id = Some fid, lh_cache_policy = None\<rparr>
     | None \<Rightarrow> interest_wire)"

definition build_with_timeout :: "(bytes \<Rightarrow> bytes) \<Rightarrow> u32 \<Rightarrow> interest_builder \<Rightarrow> bytes \<times> nat" where
  "build_with_timeout sha256 next_nonce b =
     (interest_build sha256 next_nonce b, unat (case ib_lifetime b of Some d \<Rightarrow> d | None \<Rightarrow> 4000) + 500)"

record signed_interest_parts =
  sp_name_components :: bytes
  sp_body_fields :: bytes
  sp_app_params_tlv :: bytes
  sp_sig_info_tlv :: bytes

definition build_signed_interest_parts ::
  "u32 \<Rightarrow> bytes \<Rightarrow> u64 \<Rightarrow> interest_builder \<Rightarrow> signature_type \<Rightarrow> name option \<Rightarrow> signed_interest_parts" where
  "build_signed_interest_parts next_nonce nonce_bytes now_ms b sig_type key_locator = (let
     params = (case ib_app_parameters b of Some p \<Rightarrow> p | None \<Rightarrow> [])
   in \<lparr>sp_name_components = finish (write_components
         (filter (\<lambda>c. comp_typ c \<noteq> PARAMETERS_SHA256) (ib_name b)) writer_new),
       sp_body_fields = finish (write_body_fields b next_nonce writer_new),
       sp_app_params_tlv = finish (write_tlv APP_PARAMETERS params writer_new),
       sp_sig_info_tlv = finish (write_nested INTEREST_SIGNATURE_INFO (\<lambda>w. let
           w = write_nni SIGNATURE_TYPE (signature_type_code sig_type) w;
           w = (case key_locator of Some kl \<Rightarrow> write_nested KEY_LOCATOR (write_name kl) w | None \<Rightarrow> w);
           w = write_tlv SIGNATURE_NONCE nonce_bytes w
         in write_tlv SIGNATURE_TIME (nni_bytes now_ms) w) writer_new)\<rparr>)"

definition concat_signed_region :: "signed_interest_parts \<Rightarrow> bytes" where
  "concat_signed_region parts = sp_name_components parts @ sp_app_params_tlv parts @ sp_sig_info_tlv parts"

definition assemble_signed_interest :: "(bytes \<Rightarrow> bytes) \<Rightarrow> signed_interest_parts \<Rightarrow> bytes \<Rightarrow> bytes" where
  "assemble_signed_interest sha256 parts sig_value = (let
     sig_value_tlv = finish (write_tlv INTEREST_SIGNATURE_VALUE sig_value writer_new);
     psdc_digest = sha256 (sp_app_params_tlv parts @ sp_sig_info_tlv parts @ sig_value_tlv);
     psdc_component = finish (write_tlv PARAMETERS_SHA256 psdc_digest writer_new);
     name_tlv = finish (write_nested NAME (\<lambda>w.
       write_raw psdc_component (write_raw (sp_name_components parts) w)) writer_new);
     inner_len = length name_tlv + length (sp_body_fields parts) + length (sp_app_params_tlv parts)
       + length (sp_sig_info_tlv parts) + length sig_value_tlv;
     outer = write_varu64_inner INTEREST writer_new;
     outer = write_varu64_inner (word_of_nat inner_len) outer;
     outer = write_raw name_tlv outer;
     outer = write_raw (sp_body_fields parts) outer;
     outer = write_raw (sp_app_params_tlv parts) outer;
     outer = write_raw (sp_sig_info_tlv parts) outer
   in finish (write_raw sig_value_tlv outer))"

definition interest_sign_sync ::
  "(bytes \<Rightarrow> bytes) \<Rightarrow> u32 \<Rightarrow> bytes \<Rightarrow> u64 \<Rightarrow> interest_builder \<Rightarrow> signature_type \<Rightarrow> name option \<Rightarrow>
   (bytes \<Rightarrow> bytes) \<Rightarrow> bytes" where
  "interest_sign_sync sha256 next_nonce nonce_bytes now_ms b sig_type key_locator sign_fn = (let
     parts = build_signed_interest_parts next_nonce nonce_bytes now_ms b sig_type key_locator
   in assemble_signed_interest sha256 parts (sign_fn (concat_signed_region parts)))"

definition interest_sign_digest_sha256 ::
  "(bytes \<Rightarrow> bytes) \<Rightarrow> u32 \<Rightarrow> bytes \<Rightarrow> u64 \<Rightarrow> interest_builder \<Rightarrow> bytes" where
  "interest_sign_digest_sha256 sha256 next_nonce nonce_bytes now_ms b =
     interest_sign_sync sha256 next_nonce nonce_bytes now_ms b DigestSha256 None sha256"

section \<open>What the decoder accepts\<close>

abbreviation interest_wire :: "name \<Rightarrow> (u64 \<times> bytes) list \<Rightarrow> bytes" where
  "interest_wire n body \<equiv> tlv_enc INTEREST (elems_enc ((NAME, elems_enc (name_elems n)) # body))"

abbreviation interest_fold :: "(u64 \<times> bytes) list \<Rightarrow> packet_error + bool" where
  "interest_fold body \<equiv> flow_fold interest_body_step (\<lambda>(_, has_app_params). Inr has_app_params) (1, False) body"

lemma interest_decode_elems:
  assumes "length (interest_wire n body @ rest) < 2 ^ 63" "types_ok body" "name_ok n" "n \<noteq> []"
  shows "interest_decode (interest_wire n body @ rest) = (case interest_fold body of
      Inl e \<Rightarrow> Inl e
    | Inr has_app_params \<Rightarrow> (case validate_psdc_structure n has_app_params of
        Inl e \<Rightarrow> Inl e
      | Inr _ \<Rightarrow> Inr \<lparr>int_raw = interest_wire n body @ rest, int_name = n\<rparr>))"
proof -
  let ?val = "elems_enc ((NAME, elems_enc (name_elems n)) # body)"
  have len: "length ?val < 2 ^ 63" by (rule length_packet_value [OF assms(1)])
  have n: "length (elems_enc (name_elems n)) < 2 ^ 63"
    by (rule length_elem_value [OF len, of NAME]) simp
  have b: "length (elems_enc body) < 2 ^ 63" using len by simp
  obtain r where r: "read_tlv (reader_new ?val) = (Inr (NAME, elems_enc (name_elems n)), r)" "as_bytes r = elems_enc body"
    using read_first_elem [OF len] by auto
  have "validate_interest_body_structure r = interest_fold body"
    unfolding validate_interest_body_structure_def r(2) by (rule scan_elems_enc [OF b assms(2)])
  then show ?thesis
    using fst_read_tlv_enc [OF assms(1)] r(1) packet_name_enc [OF assms(3) n] assms(4)
    by (simp add: interest_decode_def del: elems_enc_simps)
qed

lemma interest_fold_error: "flow_fold interest_body_step (\<lambda>_. Inl e) s es \<noteq> Inr h"
  by (induction es arbitrary: s) (auto simp: interest_body_step_def split: flow.splits option.splits sum.splits if_splits)

lemma interest_decode_canonical:
  assumes "interest_decode raw = Inr i" "length raw < 2 ^ 63"
  obtains body rest h where "raw = interest_wire (int_name i) body @ rest" "types_ok body" "name_ok (int_name i)"
    "int_name i \<noteq> []" "int_raw i = raw" "interest_fold body = Inr h" "validate_psdc_structure (int_name i) h = Inr ()"
proof -
  obtain val nv inner n h where dec: "fst (read_tlv (reader_new raw)) = Inr (INTEREST, val)"
      "read_tlv (reader_new val) = (Inr (NAME, nv), inner)" "packet_name nv = Inr n" "n \<noteq> []"
      "validate_interest_body_structure inner = Inr h" "validate_psdc_structure n h = Inr ()"
      "i = \<lparr>int_raw = raw, int_name = n\<rparr>"
    using assms(1) by (auto simp: interest_decode_def split: sum.splits prod.splits if_splits)
  obtain r' where "read_tlv (reader_new raw) = (Inr (INTEREST, val), r')" using dec(1) by (metis eq_fst_iff)
  from read_tlv_canonical [OF reader_wf_new [OF assms(2)] this] obtain rest where
    raw: "raw = tlv_enc INTEREST val @ rest" by auto
  have len: "length val < 2 ^ 63" using assms(2) unfolding raw by (rule length_packet_value)
  from read_tlv_canonical [OF reader_wf_new [OF len] dec(2)] obtain rest' where
    val: "val = tlv_enc NAME nv @ rest'" "inner = (reader_new val)\<lparr>rpos := rpos (reader_new val) + length (tlv_enc NAME nv)\<rparr>"
    by auto
  have inner: "as_bytes inner = rest'" using as_bytes_advance [of "reader_new val" "tlv_enc NAME nv" rest'] val by simp
  have lens: "length nv < 2 ^ 63" "length rest' < 2 ^ 63"
    using len length_tlv_enc_value [of nv NAME] by (simp_all add: val(1))
  have n: "name_ok n" "nv = elems_enc (name_elems n)" using packet_name_canonical [OF dec(3) lens(1)] by auto
  obtain body e where es: "tlv_elems (reader_new rest') = (body, e)" by fastforce
  have "(case e of None \<Rightarrow> interest_fold body
      | Some e \<Rightarrow> flow_fold interest_body_step (\<lambda>_. Inl (Tlv e)) (1, False) body) = Inr h"
    using dec(5) es unfolding validate_interest_body_structure_def scan_elems_def inner
    by (simp add: tlv_loop_flow_fold split: option.splits)
  then have e: "e = None" "interest_fold body = Inr h"
    using interest_fold_error by (auto split: option.splits)
  with tlv_elems_canonical [OF reader_wf_new [OF lens(2)] es] have body: "types_ok body" "rest' = elems_enc body"
    by auto
  show ?thesis
    using that [of body rest h] raw val(1) n body e(2) dec by simp
qed

lemma decode_selectors_enc:
  assumes "length (tlv_enc ty (elems_enc es) @ rest) < 2 ^ 63" "types_ok es" "ty \<le> 0xFFFFFFFF"
  shows "decode_selectors (tlv_enc ty (elems_enc es) @ rest) =
    Inr \<lparr>can_be_prefix = (CAN_BE_PREFIX \<in> fst ` set es), must_be_fresh = (MUST_BE_FRESH \<in> fst ` set es)\<rparr>"
proof -
  have "flow_fold (\<lambda>sel t _. Continue
       (if t = CAN_BE_PREFIX then sel\<lparr>can_be_prefix := True\<rparr>
        else if t = MUST_BE_FRESH then sel\<lparr>must_be_fresh := True\<rparr>
        else sel)) (Inr :: selector \<Rightarrow> packet_error + selector) s es = Inr \<lparr>can_be_prefix = (can_be_prefix s \<or> CAN_BE_PREFIX \<in> fst ` set es),
          must_be_fresh = (must_be_fresh s \<or> MUST_BE_FRESH \<in> fst ` set es)\<rparr>" for s :: selector
    by (induction es arbitrary: s) auto
  then show ?thesis
    unfolding decode_selectors_def scan_packet_enc [OF assms] by (simp add: selector_default_def)
qed

text \<open>The fields of a decoded Interest in terms of its elements.\<close>

lemma interest_fields:
  assumes "int_raw i = tlv_enc INTEREST (elems_enc es) @ rest" "types_ok es" "length (int_raw i) < 2 ^ 63"
  shows "int_selectors i = \<lparr>can_be_prefix = (CAN_BE_PREFIX \<in> fst ` set es), must_be_fresh = (MUST_BE_FRESH \<in> fst ` set es)\<rparr>"
    and "int_nonce i = (case map_of es NONCE of Some v \<Rightarrow> if length v = 4 then Some (from_be_bytes v) else None | None \<Rightarrow> None)"
    and "int_lifetime i = (case map_of es INTEREST_LIFETIME of
      Some v \<Rightarrow> (case decode_nni v of Inr ms \<Rightarrow> Some (min ms 3600000) | Inl _ \<Rightarrow> None) | None \<Rightarrow> None)"
    and "int_app_parameters i = map_of es APP_PARAMETERS"
    and "int_forwarding_hint i = (case map_of es FORWARDING_HINT of
      Some v \<Rightarrow> (case hint_names v of Inr names \<Rightarrow> if names = [] then None else Some names | Inl _ \<Rightarrow> None) | None \<Rightarrow> None)"
    and "int_reflexive_name i = (case map_of es REFLEXIVE_NAME of
      Some v \<Rightarrow> (case packet_name v of Inr n \<Rightarrow> if n = [] then None else Some n | Inl _ \<Rightarrow> None) | None \<Rightarrow> None)"
    and "int_hop_limit i = (case map_of es HOP_LIMIT of Some v \<Rightarrow> if length v = 1 then Some (v ! 0) else None | None \<Rightarrow> None)"
    and "int_sig_info i = (case map_of es INTEREST_SIGNATURE_INFO of
      Some v \<Rightarrow> (case sig_info_decode v of Inr si \<Rightarrow> Some si | Inl _ \<Rightarrow> None) | None \<Rightarrow> None)"
    and "int_sig_value i = map_of es INTEREST_SIGNATURE_VALUE"
proof -
  have ne: "tlv_enc INTEREST (elems_enc es) @ rest \<noteq> []"
    using tlv_enc_nonempty [of INTEREST "elems_enc es"] by auto
  note scan = scan_first_enc [OF assms(3) [unfolded assms(1)] assms(2)]
  have sel: "decode_selectors (int_raw i) =
      Inr \<lparr>can_be_prefix = (CAN_BE_PREFIX \<in> fst ` set es), must_be_fresh = (MUST_BE_FRESH \<in> fst ` set es)\<rparr>"
    unfolding assms(1) by (rule decode_selectors_enc [OF assms(3) [unfolded assms(1)] assms(2)]) simp
  show "int_selectors i = \<lparr>can_be_prefix = (CAN_BE_PREFIX \<in> fst ` set es), must_be_fresh = (MUST_BE_FRESH \<in> fst ` set es)\<rparr>"
    unfolding int_selectors_def sel by simp
  have four: "from_be_bytes [v ! 0, v ! 1, v ! 2, v ! 3] = from_be_bytes v" if "length v = 4" for v :: bytes
    using list4_of_length [OF that] by auto
  show "int_nonce i = (case map_of es NONCE of Some v \<Rightarrow> if length v = 4 then Some (from_be_bytes v) else None | None \<Rightarrow> None)"
    unfolding int_nonce_def decode_nonce_def assms(1)
    by (simp add: scan ok_flatten_def four [simplified] split: option.split)
  show "int_lifetime i = (case map_of es INTEREST_LIFETIME of
      Some v \<Rightarrow> (case decode_nni v of Inr ms \<Rightarrow> Some (min ms 3600000) | Inl _ \<Rightarrow> None) | None \<Rightarrow> None)"
    unfolding int_lifetime_def decode_lifetime_def assms(1)
    by (simp add: scan ok_flatten_def MAX_PERSISTENT_LIFETIME_SECS_def split: option.split sum.split)
  show "int_app_parameters i = map_of es APP_PARAMETERS"
    unfolding int_app_parameters_def decode_app_params_def assms(1)
    using ne by (simp add: scan ok_flatten_def split: option.split)
  show "int_forwarding_hint i = (case map_of es FORWARDING_HINT of
      Some v \<Rightarrow> (case hint_names v of Inr names \<Rightarrow> if names = [] then None else Some names | Inl _ \<Rightarrow> None) | None \<Rightarrow> None)"
    unfolding int_forwarding_hint_def decode_forwarding_hint_def assms(1)
    using ne by (simp add: scan ok_flatten_def split: option.split sum.split)
  show "int_reflexive_name i = (case map_of es REFLEXIVE_NAME of
      Some v \<Rightarrow> (case packet_name v of Inr n \<Rightarrow> if n = [] then None else Some n | Inl _ \<Rightarrow> None) | None \<Rightarrow> None)"
    unfolding int_reflexive_name_def decode_reflexive_name_def assms(1)
    using ne by (simp add: scan ok_flatten_def split: option.split sum.split)
  show "int_hop_limit i = (case map_of es HOP_LIMIT of Some v \<Rightarrow> if length v = 1 then Some (v ! 0) else None | None \<Rightarrow> None)"
    unfolding int_hop_limit_def decode_hop_limit_def assms(1)
    using ne by (simp add: scan ok_flatten_def split: option.split)
  show "int_sig_info i = (case map_of es INTEREST_SIGNATURE_INFO of
      Some v \<Rightarrow> (case sig_info_decode v of Inr si \<Rightarrow> Some si | Inl _ \<Rightarrow> None) | None \<Rightarrow> None)"
    unfolding int_sig_info_def decode_interest_sig_info_def assms(1)
    using ne by (simp add: scan ok_flatten_def split: option.split sum.split)
  show "int_sig_value i = map_of es INTEREST_SIGNATURE_VALUE"
    unfolding int_sig_value_def decode_interest_sig_value_def assms(1)
    using ne by (simp add: scan ok_flatten_def split: option.split)
qed

section \<open>What the builders write\<close>

definition hint_elems :: "name list \<Rightarrow> (u64 \<times> bytes) list" where
  "hint_elems hints = map (\<lambda>h. (NAME, elems_enc (name_elems h))) hints"

lemma wbuf_write_hints [codec_simps]:
  "wbuf (foldl (\<lambda>w h. write_name h w) w hints) = wbuf w @ elems_enc (hint_elems hints)"
  by (induction hints arbitrary: w) (simp_all add: hint_elems_def codec_simps)

lemma types_ok_hint_elems [simp]: "types_ok (hint_elems hints)"
  by (induction hints) (simp_all add: hint_elems_def)

lemma hint_names_enc:
  assumes "length (elems_enc (hint_elems hints)) < 2 ^ 63" "\<forall>h \<in> set hints. name_ok h"
  shows "hint_names (elems_enc (hint_elems hints)) = Inr hints"
proof -
  have fold: "flow_fold (\<lambda>names t v.
       if t = NAME then (case packet_name v of Inl e \<Rightarrow> Return (Inl e) | Inr n \<Rightarrow> Continue (names @ [n]))
       else Continue names) Inr acc (hint_elems hs) = Inr (acc @ hs)"
    if "length (elems_enc (hint_elems hs)) < 2 ^ 63" "\<forall>h \<in> set hs. name_ok h" for acc hs
    using that
  proof (induction hs arbitrary: acc)
    case (Cons h hs)
    have "length (elems_enc (name_elems h)) < 2 ^ 63"
      by (rule length_elem_value [OF Cons.prems(1), of NAME]) (simp add: hint_elems_def)
    moreover have "length (elems_enc (hint_elems hs)) < 2 ^ 63"
      using Cons.prems(1) by (simp add: hint_elems_def)
    ultimately show ?case
      using Cons by (simp add: hint_elems_def packet_name_enc)
  qed (simp add: hint_elems_def)
  show ?thesis
    unfolding hint_names_def scan_elems_enc [OF assms(1) types_ok_hint_elems] fold [OF assms] by simp
qed

definition body_elems :: "interest_builder \<Rightarrow> u32 \<Rightarrow> (u64 \<times> bytes) list" where
  "body_elems b nonce =
     opt_elem CAN_BE_PREFIX (if ib_can_be_prefix b then Some [] else None) @
     opt_elem MUST_BE_FRESH (if ib_must_be_fresh b then Some [] else None) @
     opt_elem FORWARDING_HINT (map_option (\<lambda>hs. elems_enc (hint_elems hs)) (ib_forwarding_hint b)) @
     opt_elem REFLEXIVE_NAME (map_option (\<lambda>n. elems_enc (name_elems n)) (ib_reflexive_name b)) @
     [(NONCE, to_be_bytes nonce),
      (INTEREST_LIFETIME, nni_enc (case ib_lifetime b of Some d \<Rightarrow> d | None \<Rightarrow> 4000))] @
     opt_elem HOP_LIMIT (map_option (\<lambda>h. [h]) (ib_hop_limit b))"

lemma wbuf_write_body_fields [codec_simps]:
  "wbuf (write_body_fields b nonce w) = wbuf w @ elems_enc (body_elems b nonce)"
  by (simp add: write_body_fields_def body_elems_def Let_def codec_simps split: option.split)

lemma types_ok_body_elems [simp]: "types_ok (body_elems b nonce)"
  by (simp add: body_elems_def)

text \<open>Each optional element moves the position in the prescribed order forward, or is absent.\<close>

lemma interest_fold_opt:
  assumes "interest_elem_index t = Some e" "k < e" "t \<notin> {NONCE, INTEREST_SIGNATURE_INFO, APP_PARAMETERS}"
  shows "\<exists>k'. k' \<le> e \<and> flow_fold interest_body_step fin (k, h) (opt_elem t v @ es) = flow_fold interest_body_step fin (k', h) es"
  using assms by (cases v) (auto simp: interest_body_step_def intro: exI [of _ k])

lemma interest_fold_body_elems:
  "\<exists>k \<le> 7. flow_fold interest_body_step fin (1, h) (body_elems b nonce @ es) = flow_fold interest_body_step fin (k, h) es"
proof -
  let ?f = "flow_fold interest_body_step fin"
  let ?fh = "opt_elem FORWARDING_HINT (map_option (\<lambda>hs. elems_enc (hint_elems hs)) (ib_forwarding_hint b))"
  let ?rn = "opt_elem REFLEXIVE_NAME (map_option (\<lambda>n. elems_enc (name_elems n)) (ib_reflexive_name b))"
  let ?hl = "opt_elem HOP_LIMIT (map_option (\<lambda>h. [h]) (ib_hop_limit b))"
  let ?mid = "[(NONCE, to_be_bytes nonce), (INTEREST_LIFETIME, nni_enc (case ib_lifetime b of Some d \<Rightarrow> d | None \<Rightarrow> 4000))]"
  let ?mf = "opt_elem MUST_BE_FRESH (if ib_must_be_fresh b then Some [] else None)"
  have split: "body_elems b nonce @ es = opt_elem CAN_BE_PREFIX (if ib_can_be_prefix b then Some [] else None) @
      (?mf @ (?fh @ (?rn @ (?mid @ (?hl @ es)))))"
    by (simp add: body_elems_def)
  obtain k1 where k1: "k1 \<le> 2" "?f (1, h) (body_elems b nonce @ es) = ?f (k1, h) (?mf @ (?fh @ (?rn @ (?mid @ (?hl @ es)))))"
    unfolding split using interest_fold_opt [of CAN_BE_PREFIX 2 1 fin h] by (auto simp: interest_elem_index_def)
  obtain k2 where k2: "k2 \<le> 3" "?f (k1, h) (?mf @ (?fh @ (?rn @ (?mid @ (?hl @ es))))) = ?f (k2, h) (?fh @ (?rn @ (?mid @ (?hl @ es))))"
    using interest_fold_opt [of MUST_BE_FRESH 3 k1 fin h] k1(1) by (auto simp: interest_elem_index_def)
  obtain k3 where k3: "k3 \<le> 4" "?f (k2, h) (?fh @ (?rn @ (?mid @ (?hl @ es)))) = ?f (k3, h) (?rn @ (?mid @ (?hl @ es)))"
    using interest_fold_opt [of FORWARDING_HINT 4 k2 fin h] k2(1) by (auto simp: interest_elem_index_def)
  have k4: "?f (k3, h) (?rn @ (?mid @ (?hl @ es))) = ?f (k3, h) (?mid @ (?hl @ es))"
    by (cases "ib_reflexive_name b") (simp_all add: interest_body_step_def interest_elem_index_def is_critical_tlv_type_def)
  have k5: "?f (k3, h) (?mid @ (?hl @ es)) = ?f (6, h) (?hl @ es)"
    using k3(1) by (simp add: interest_body_step_def interest_elem_index_def)
  obtain k6 where k6: "k6 \<le> 7" "?f (6, h) (?hl @ es) = ?f (k6, h) es"
    using interest_fold_opt [of HOP_LIMIT 7 6 fin h] by (auto simp: interest_elem_index_def)
  show ?thesis using k1 k2 k3 k4 k5 k6 by auto
qed

definition built_name :: "(bytes \<Rightarrow> bytes) \<Rightarrow> interest_builder \<Rightarrow> name" where
  "built_name sha256 b = ib_name b @ (case ib_app_parameters b of
     Some params \<Rightarrow> [NameComponent PARAMETERS_SHA256 (sha256 (tlv_enc APP_PARAMETERS params))] | None \<Rightarrow> [])"

lemma name_elems_append [simp]: "name_elems (m @ n) = name_elems m @ name_elems n"
  by (simp add: name_elems_def)

lemma interest_build_elems:
  assumes "ib_pin_face b = None"
  shows "interest_build sha256 nonce b =
    interest_wire (built_name sha256 b) (body_elems b nonce @ opt_elem APP_PARAMETERS (ib_app_parameters b))"
  using assms
  by (cases "ib_app_parameters b") (simp_all add: interest_build_def built_name_def Let_def codec_simps)

definition builder_ok :: "interest_builder \<Rightarrow> bool" where
  "builder_ok b \<longleftrightarrow> name_ok (ib_name b) \<and> (ib_name b \<noteq> [] \<or> ib_app_parameters b \<noteq> None) \<and>
     length (filter (\<lambda>c. comp_typ c = PARAMETERS_SHA256) (ib_name b)) \<le> (if ib_app_parameters b = None then 1 else 0) \<and>
     (\<forall>hs. ib_forwarding_hint b = Some hs \<longrightarrow> (\<forall>h \<in> set hs. name_ok h)) \<and>
     (\<forall>n. ib_reflexive_name b = Some n \<longrightarrow> name_ok n)"

lemma name_ok_append [simp]: "name_ok (m @ n) \<longleftrightarrow> name_ok m \<and> name_ok n"
  by (simp add: name_ok_def)

lemma interest_fold_built:
  "interest_fold (body_elems b nonce @ opt_elem APP_PARAMETERS (ib_app_parameters b)) = Inr (ib_app_parameters b \<noteq> None)"
proof -
  obtain k where "k \<le> 7" "interest_fold (body_elems b nonce @ opt_elem APP_PARAMETERS (ib_app_parameters b)) =
    flow_fold interest_body_step (\<lambda>(_, has_app_params). Inr has_app_params) (k, False) (opt_elem APP_PARAMETERS (ib_app_parameters b))"
    using interest_fold_body_elems [of _ False b nonce] by blast
  then show ?thesis
    by (cases "ib_app_parameters b") (simp_all add: interest_body_step_def interest_elem_index_def)
qed

lemma interest_decode_build:
  assumes "builder_ok b" "ib_pin_face b = None" "length (interest_build sha256 nonce b) < 2 ^ 63"
  shows "interest_decode (interest_build sha256 nonce b) =
    Inr \<lparr>int_raw = interest_build sha256 nonce b, int_name = built_name sha256 b\<rparr>"
proof -
  let ?body = "body_elems b nonce @ opt_elem APP_PARAMETERS (ib_app_parameters b)"
  have wire: "interest_build sha256 nonce b = interest_wire (built_name sha256 b) ?body @ []"
    using interest_build_elems [OF assms(2)] by simp
  have n: "name_ok (built_name sha256 b)" "built_name sha256 b \<noteq> []"
    using assms(1) by (auto simp: builder_ok_def built_name_def name_ok_def split: option.split)
  have "validate_psdc_structure (built_name sha256 b) (ib_app_parameters b \<noteq> None) = Inr ()"
    using assms(1) by (auto simp: builder_ok_def built_name_def validate_psdc_structure_def Let_def split: option.split if_splits)
  then show ?thesis
    using interest_decode_elems [OF assms(3) [unfolded wire] _ n] interest_fold_built [of b nonce]
    unfolding wire by simp
qed

section \<open>Signed Interests\<close>

definition signed_name :: "interest_builder \<Rightarrow> name" where
  "signed_name b = filter (\<lambda>c. comp_typ c \<noteq> PARAMETERS_SHA256) (ib_name b)"

definition signed_params :: "interest_builder \<Rightarrow> bytes" where
  "signed_params b = (case ib_app_parameters b of Some p \<Rightarrow> p | None \<Rightarrow> [])"

definition signed_info_value :: "signature_type \<Rightarrow> name option \<Rightarrow> bytes \<Rightarrow> u64 \<Rightarrow> bytes" where
  "signed_info_value st kl nonce_bytes now_ms = elems_enc (sig_info_elems st kl (Some nonce_bytes) (Some now_ms))"

lemma signed_parts_elems:
  "build_signed_interest_parts nonce nonce_bytes now_ms b st kl =
    \<lparr>sp_name_components = elems_enc (name_elems (signed_name b)),
     sp_body_fields = elems_enc (body_elems b nonce),
     sp_app_params_tlv = tlv_enc APP_PARAMETERS (signed_params b),
     sp_sig_info_tlv = tlv_enc INTEREST_SIGNATURE_INFO (signed_info_value st kl nonce_bytes now_ms)\<rparr>"
  by (simp add: build_signed_interest_parts_def signed_name_def signed_params_def signed_info_value_def
      sig_info_elems_def Let_def codec_simps nni_bytes_eq split: option.split)

definition signed_region_of :: "interest_builder \<Rightarrow> signature_type \<Rightarrow> name option \<Rightarrow> bytes \<Rightarrow> u64 \<Rightarrow> bytes" where
  "signed_region_of b st kl nonce_bytes now_ms = elems_enc (name_elems (signed_name b)) @
     tlv_enc APP_PARAMETERS (signed_params b) @
     tlv_enc INTEREST_SIGNATURE_INFO (signed_info_value st kl nonce_bytes now_ms)"

definition signed_tail_elems :: "interest_builder \<Rightarrow> signature_type \<Rightarrow> name option \<Rightarrow> bytes \<Rightarrow> u64 \<Rightarrow> bytes \<Rightarrow> (u64 \<times> bytes) list" where
  "signed_tail_elems b st kl nonce_bytes now_ms sig =
     [(APP_PARAMETERS, signed_params b), (INTEREST_SIGNATURE_INFO, signed_info_value st kl nonce_bytes now_ms),
      (INTEREST_SIGNATURE_VALUE, sig)]"

definition signed_full_name :: "(bytes \<Rightarrow> bytes) \<Rightarrow> interest_builder \<Rightarrow> signature_type \<Rightarrow> name option \<Rightarrow> bytes \<Rightarrow> u64 \<Rightarrow> bytes \<Rightarrow> name" where
  "signed_full_name sha256 b st kl nonce_bytes now_ms sig = signed_name b @
     [NameComponent PARAMETERS_SHA256 (sha256 (elems_enc (signed_tail_elems b st kl nonce_bytes now_ms sig)))]"

lemma interest_sign_elems:
  fixes sign_fn b st kl nonce_bytes now_ms
  defines "sig \<equiv> sign_fn (signed_region_of b st kl nonce_bytes now_ms)"
  shows "interest_sign_sync sha256 nonce nonce_bytes now_ms b st kl sign_fn =
    interest_wire (signed_full_name sha256 b st kl nonce_bytes now_ms sig)
      (body_elems b nonce @ signed_tail_elems b st kl nonce_bytes now_ms sig)"
  by (simp add: interest_sign_sync_def assemble_signed_interest_def signed_parts_elems concat_signed_region_def
      sig_def signed_region_of_def signed_full_name_def signed_tail_elems_def Let_def codec_simps tlv_enc_def [of INTEREST]
      add.assoc)

lemma signed_name_components_enc:
  assumes "length (elems_enc (name_elems n)) < 2 ^ 63" "name_ok n"
  shows "signed_name_components (elems_enc (name_elems n)) =
    Inr (elems_enc (name_elems (filter (\<lambda>c. comp_typ c \<noteq> PARAMETERS_SHA256) n)))"
proof -
  have fold: "flow_fold (\<lambda>out t v. if t = PARAMETERS_SHA256 then Continue out else Continue (out @ tlv_enc t v))
      (Inr :: bytes \<Rightarrow> packet_error + bytes) out (name_elems m) =
    Inr (out @ elems_enc (name_elems (filter (\<lambda>c. comp_typ c \<noteq> PARAMETERS_SHA256) m)))" for out m
    by (induction m arbitrary: out) simp_all
  show ?thesis
    unfolding signed_name_components_def
    using tlv_loop_slices [OF reader_wf_new [OF assms(1)] rbuf_reader_new as_bytes_new assms(2) [unfolded name_ok_def],
        of "\<lambda>out t w. if t = PARAMETERS_SHA256 then Continue out else Continue (out @ w)"
           "\<lambda>e. Inl (Tlv e)" Inr "[]"]
    by (simp add: fold)
qed

lemma signed_tail_enc:
  assumes "reader_wf r" "rbuf r = buf" "as_bytes r = elems_enc es" "types_ok es"
  shows "signed_tail buf r = flow_fold (\<lambda>(ap, si) t v.
       if t = APP_PARAMETERS then Continue (Some (tlv_enc t v), si)
       else if t = INTEREST_SIGNATURE_INFO then Return (Inr (ap, Some (tlv_enc t v)))
       else Continue (ap, si)) Inr (None, None) es"
  using tlv_loop_slices [OF assms, of "\<lambda>(ap, si) t w. if t = APP_PARAMETERS then Continue (Some w, si)
       else if t = INTEREST_SIGNATURE_INFO then Return (Inr (ap, Some w)) else Continue (ap, si)"
       "\<lambda>e. Inl (Tlv e)" Inr "(None, None)"]
  by (simp add: signed_tail_def case_prod_unfold)

lemma compute_signed_region_elems:
  assumes "length (interest_wire n body @ rest) < 2 ^ 63" "types_ok body" "name_ok n"
  shows "compute_interest_signed_region (interest_wire n body @ rest) =
    (case flow_fold (\<lambda>(ap, si) t v.
       if t = APP_PARAMETERS then Continue (Some (tlv_enc t v), si)
       else if t = INTEREST_SIGNATURE_INFO then Return (Inr (ap, Some (tlv_enc t v)))
       else Continue (ap, si)) Inr (None, None) body of
      Inl e \<Rightarrow> Inl e
    | Inr (Some ap, Some si) \<Rightarrow>
        Inr (Some (elems_enc (name_elems (filter (\<lambda>c. comp_typ c \<noteq> PARAMETERS_SHA256) n)) @ ap @ si))
    | Inr _ \<Rightarrow> Inr None)"
proof -
  let ?val = "elems_enc ((NAME, elems_enc (name_elems n)) # body)"
  have len: "length ?val < 2 ^ 63" by (rule length_packet_value [OF assms(1)])
  have n: "length (elems_enc (name_elems n)) < 2 ^ 63"
    by (rule length_elem_value [OF len, of NAME]) simp
  have ab: "as_bytes (reader_new ?val) = tlv_enc NAME (elems_enc (name_elems n)) @ elems_enc body" by simp
  obtain r where r: "read_tlv (reader_new ?val) = (Inr (NAME, elems_enc (name_elems n)), r)" "as_bytes r = elems_enc body"
      "rbuf r = ?val"
    using read_tlv_enc [OF reader_wf_new [OF len] ab] as_bytes_advance [OF ab] by auto
  have wf: "reader_wf r" using read_tlv_keeps(1) [OF reader_wf_new [OF len] r(1)] .
  have ne: "interest_wire n body @ rest \<noteq> []"
    using tlv_enc_nonempty [of INTEREST ?val] by (auto simp del: elems_enc_simps)
  show ?thesis
    unfolding compute_interest_signed_region_def
    using ne fst_read_tlv_enc [OF assms(1)] r(1) signed_tail_enc [OF wf r(3,2) assms(2)]
      signed_name_components_enc [OF n assms(3)]
    by (simp del: elems_enc_simps split: sum.split)
qed

end
