(* ===== verification/Interest_Laws.thy ===== *)
theory Interest_Laws
  imports Ndn_Interest
begin

text \<open>
  Laws of the Interest codec over the definitions of the theory before: the builders and the
  decoder are inverse to each other, a signed Interest gives the verifier the bytes that were
  signed, the HopLimit rewriting returns and changes one byte on a wire that is one packet, and
  does not return on a wire with chosen bytes behind the packet; adding a nonce to an Interest with
  selectors gives an Interest that the decoder refuses.
\<close>

section \<open>Round trips\<close>

definition non_empty :: "'a list option \<Rightarrow> 'a list option" where
  "non_empty xs = (if xs = Some [] then None else xs)"

lemma map_of_body_elems:
  "map_of (body_elems b nonce) NONCE = Some (to_be_bytes nonce)"
  "map_of (body_elems b nonce) INTEREST_LIFETIME = Some (nni_enc (case ib_lifetime b of Some d \<Rightarrow> d | None \<Rightarrow> 4000))"
  "map_of (body_elems b nonce) HOP_LIMIT = map_option (\<lambda>h. [h]) (ib_hop_limit b)"
  "map_of (body_elems b nonce) FORWARDING_HINT = map_option (\<lambda>hs. elems_enc (hint_elems hs)) (ib_forwarding_hint b)"
  "map_of (body_elems b nonce) REFLEXIVE_NAME = map_option (\<lambda>n. elems_enc (name_elems n)) (ib_reflexive_name b)"
  "t \<in> {NAME, APP_PARAMETERS, INTEREST_SIGNATURE_INFO, INTEREST_SIGNATURE_VALUE} \<Longrightarrow> map_of (body_elems b nonce) t = None"
  "CAN_BE_PREFIX \<in> fst ` set (body_elems b nonce) \<longleftrightarrow> ib_can_be_prefix b"
  "MUST_BE_FRESH \<in> fst ` set (body_elems b nonce) \<longleftrightarrow> ib_must_be_fresh b"
  by (auto simp: body_elems_def map_add_def image_Un split: option.splits)

text \<open>Decoding the fields an Interest builder writes, whatever follows them in the body.\<close>

lemma interest_fields_built:
  assumes raw: "int_raw i = interest_wire n (body_elems b nonce @ tail)" and len: "length (int_raw i) < 2 ^ 63"
    and ok: "builder_ok b" "types_ok tail"
    and tail: "fst ` set tail \<subseteq> {APP_PARAMETERS, INTEREST_SIGNATURE_INFO, INTEREST_SIGNATURE_VALUE}"
  shows "int_selectors i = \<lparr>can_be_prefix = ib_can_be_prefix b, must_be_fresh = ib_must_be_fresh b\<rparr>"
    and "int_nonce i = Some nonce"
    and "int_lifetime i = Some (min (case ib_lifetime b of Some d \<Rightarrow> d | None \<Rightarrow> 4000) 3600000)"
    and "int_hop_limit i = ib_hop_limit b"
    and "int_forwarding_hint i = non_empty (ib_forwarding_hint b)"
    and "int_reflexive_name i = non_empty (ib_reflexive_name b)"
    and "int_app_parameters i = map_of tail APP_PARAMETERS"
    and "int_sig_info i = (case map_of tail INTEREST_SIGNATURE_INFO of
      Some v \<Rightarrow> (case sig_info_decode v of Inr si \<Rightarrow> Some si | Inl _ \<Rightarrow> None) | None \<Rightarrow> None)"
    and "int_sig_value i = map_of tail INTEREST_SIGNATURE_VALUE"
proof -
  let ?es = "(NAME, elems_enc (name_elems n)) # body_elems b nonce @ tail"
  have raw': "int_raw i = tlv_enc INTEREST (elems_enc ?es) @ []" using raw by simp
  have ty: "types_ok ?es" using ok(2) by simp
  note f = interest_fields [OF raw' ty len]
  have no: "t \<notin> fst ` set tail" if "t \<notin> {APP_PARAMETERS, INTEREST_SIGNATURE_INFO, INTEREST_SIGNATURE_VALUE}" for t
    using that tail by blast
  have tl: "map_of ?es t = map_of (body_elems b nonce) t"
    if "t \<notin> {NAME, APP_PARAMETERS, INTEREST_SIGNATURE_INFO, INTEREST_SIGNATURE_VALUE}" for t
  proof -
    have "map_of tail t = None" using that no [of t] by (simp add: map_of_eq_None_iff)
    then show ?thesis using that by (simp add: map_add_def split: option.split)
  qed
  have tls: "map_of ?es NONCE = Some (to_be_bytes nonce)"
      "map_of ?es INTEREST_LIFETIME = Some (nni_enc (case ib_lifetime b of Some d \<Rightarrow> d | None \<Rightarrow> 4000))"
      "map_of ?es HOP_LIMIT = map_option (\<lambda>h. [h]) (ib_hop_limit b)"
      "map_of ?es FORWARDING_HINT = map_option (\<lambda>hs. elems_enc (hint_elems hs)) (ib_forwarding_hint b)"
      "map_of ?es REFLEXIVE_NAME = map_option (\<lambda>n. elems_enc (name_elems n)) (ib_reflexive_name b)"
    by (subst tl; simp add: map_of_body_elems)+
  have elen: "length (elems_enc ?es) < 2 ^ 63" using len unfolding raw' by (rule length_packet_value)
  have val: "length v < 2 ^ 63" if "map_of ?es t = Some v" for t v
    using length_elem_value [OF elen map_of_SomeD [OF that]] .
  show "int_selectors i = \<lparr>can_be_prefix = ib_can_be_prefix b, must_be_fresh = ib_must_be_fresh b\<rparr>"
    unfolding f(1) using no [of CAN_BE_PREFIX] no [of MUST_BE_FRESH] map_of_body_elems(7,8) [of b nonce]
    by (simp add: image_Un)
  show "int_nonce i = Some nonce"
    unfolding f(2) tls by (simp add: from_to_be_bytes)
  show "int_lifetime i = Some (min (case ib_lifetime b of Some d \<Rightarrow> d | None \<Rightarrow> 4000) 3600000)"
    unfolding f(3) tls by simp
  show "int_hop_limit i = ib_hop_limit b"
    unfolding f(7) tls by (simp split: option.split)
  show "int_forwarding_hint i = non_empty (ib_forwarding_hint b)"
  proof (cases "ib_forwarding_hint b")
    case (Some hs)
    then have "map_of ?es FORWARDING_HINT = Some (elems_enc (hint_elems hs))" unfolding tls by simp
    moreover have "hint_names (elems_enc (hint_elems hs)) = Inr hs"
      using ok(1) Some by (intro hint_names_enc val [OF calculation]) (simp add: builder_ok_def)
    ultimately show ?thesis unfolding f(5) by (simp add: Some non_empty_def)
  qed (simp only: f(5) tls non_empty_def, simp)
  show "int_reflexive_name i = non_empty (ib_reflexive_name b)"
  proof (cases "ib_reflexive_name b")
    case (Some m)
    then have "map_of ?es REFLEXIVE_NAME = Some (elems_enc (name_elems m))" unfolding tls by simp
    moreover have "packet_name (elems_enc (name_elems m)) = Inr m"
      using ok(1) Some by (intro packet_name_enc val [OF calculation]) (simp add: builder_ok_def)
    ultimately show ?thesis unfolding f(6) by (simp add: Some non_empty_def)
  qed (simp only: f(6) tls non_empty_def, simp)
  have last3: "map_of ?es t = map_of tail t"
    if "t \<in> {APP_PARAMETERS, INTEREST_SIGNATURE_INFO, INTEREST_SIGNATURE_VALUE}" for t
    using that map_of_body_elems(6) [of t b nonce] by (auto simp: map_add_def split: option.split)
  show "int_app_parameters i = map_of tail APP_PARAMETERS" unfolding f(4) by (rule last3) simp
  show "int_sig_value i = map_of tail INTEREST_SIGNATURE_VALUE" unfolding f(9) by (rule last3) simp
  show "int_sig_info i = (case map_of tail INTEREST_SIGNATURE_INFO of
      Some v \<Rightarrow> (case sig_info_decode v of Inr si \<Rightarrow> Some si | Inl _ \<Rightarrow> None) | None \<Rightarrow> None)"
    unfolding f(8) by (subst last3) simp_all
qed

text \<open>C30. Round trip of \<open>InterestBuilder::build\<close> and \<open>Interest::decode\<close>: what the builder writes
  decodes, and every accessor returns what was put in. The name has the digest of the parameters
  appended when there are parameters, a lifetime is capped at the hour the decoder allows (and is
  4 s by default), and an empty hint list or reflexive name reads as absent.\<close>

theorem interest_build_roundtrip:
  assumes "builder_ok b" "ib_pin_face b = None" "length (interest_build sha256 nonce b) < 2 ^ 63"
  shows "\<exists>i. interest_decode (interest_build sha256 nonce b) = Inr i \<and>
    int_name i = built_name sha256 b \<and>
    int_selectors i = \<lparr>can_be_prefix = ib_can_be_prefix b, must_be_fresh = ib_must_be_fresh b\<rparr> \<and>
    int_nonce i = Some nonce \<and>
    int_lifetime i = Some (min (case ib_lifetime b of Some d \<Rightarrow> d | None \<Rightarrow> 4000) 3600000) \<and>
    int_hop_limit i = ib_hop_limit b \<and>
    int_forwarding_hint i = non_empty (ib_forwarding_hint b) \<and>
    int_reflexive_name i = non_empty (ib_reflexive_name b) \<and>
    int_app_parameters i = ib_app_parameters b \<and>
    int_sig_info i = None \<and> int_sig_value i = None"
proof -
  let ?i = "\<lparr>int_raw = interest_build sha256 nonce b, int_name = built_name sha256 b\<rparr>"
  have raw: "int_raw ?i = interest_wire (built_name sha256 b) (body_elems b nonce @ opt_elem APP_PARAMETERS (ib_app_parameters b))"
    using interest_build_elems [OF assms(2)] by simp
  have "length (int_raw ?i) < 2 ^ 63" using assms(3) by simp
  note f = interest_fields_built [OF raw this assms(1)]
  show ?thesis
    by (rule exI [of _ ?i]) (simp add: interest_decode_build [OF assms] f)
qed

definition sample_builder :: interest_builder where
  "sample_builder = (interest_builder_new [NameComponent 8 [0x61]])\<lparr>ib_can_be_prefix := True,
     ib_hop_limit := Some 5, ib_lifetime := Some 7200000, ib_app_parameters := Some [1, 2],
     ib_forwarding_hint := Some [[NameComponent 8 [0x62]]]\<rparr>"

lemma sample_builder_ok: "builder_ok sample_builder" "ib_pin_face sample_builder = None"
  by (simp_all add: sample_builder_def interest_builder_new_def builder_ok_def name_ok_def name_elems_def)

lemma sample_wire_length: "length (interest_build (\<lambda>_. replicate 32 7) 9 sample_builder) < 2 ^ 63"
  unfolding interest_build_elems [OF sample_builder_ok(2)]
  by (simp add: sample_builder_def interest_builder_new_def built_name_def body_elems_def hint_elems_def
      name_elems_def wire_length)

theorem interest_build_roundtrip_witness:
  "\<exists>i. interest_decode (interest_build (\<lambda>_. replicate 32 7) 9 sample_builder) = Inr i \<and>
    int_lifetime i = Some 3600000 \<and> int_hop_limit i = Some 5 \<and> int_nonce i = Some 9 \<and>
    int_name i = [NameComponent 8 [0x61], NameComponent 2 (replicate 32 7)]"
  using interest_build_roundtrip [OF sample_builder_ok sample_wire_length]
  by (auto simp: sample_builder_def interest_builder_new_def built_name_def)

section \<open>Signed Interests\<close>

lemma filter_signed_full_name:
  "filter (\<lambda>c. comp_typ c \<noteq> PARAMETERS_SHA256) (signed_full_name sha256 b st kl nb now sig) = signed_name b"
  by (simp add: signed_full_name_def signed_name_def)

lemma name_ok_filter: "name_ok n \<Longrightarrow> name_ok (filter P n)"
  by (auto simp: name_ok_def types_ok_def name_elems_def)

lemma flow_fold_skip:
  assumes "\<And>s t v. (t, v) \<in> set es \<Longrightarrow> f s t v = Continue s"
  shows "flow_fold f fin s (es @ es') = flow_fold f fin s es'"
  using assms by (induction es arbitrary: s) auto

lemma body_elems_unsigned:
  "(t, v) \<in> set (body_elems b nonce) \<Longrightarrow> t \<noteq> APP_PARAMETERS \<and> t \<noteq> INTEREST_SIGNATURE_INFO"
  using map_of_body_elems(6) [of t b nonce] by (force simp: map_of_eq_None_iff)

text \<open>C11. A signed Interest verifies: what \<open>sign_sync\<close> builds decodes, and the decoded packet gives
  the verifier exactly the bytes the signer was given, with the signature value the signer returned
  over them and the SignatureInfo that was requested; the name ends in the digest over parameters,
  SignatureInfo and SignatureValue.\<close>

theorem signed_interest_roundtrip:
  fixes sign_fn b st kl nonce_bytes now_ms
  defines "region \<equiv> signed_region_of b st kl nonce_bytes now_ms"
  assumes "builder_ok b" "signature_type_ok st" "\<forall>n. kl = Some n \<longrightarrow> name_ok n"
    and "key_locator_rule st (map_option KlName kl)"
    and "length (interest_sign_sync sha256 nonce nonce_bytes now_ms b st kl sign_fn) < 2 ^ 63"
  shows "\<exists>i. interest_decode (interest_sign_sync sha256 nonce nonce_bytes now_ms b st kl sign_fn) = Inr i \<and>
    int_name i = signed_full_name sha256 b st kl nonce_bytes now_ms (sign_fn region) \<and>
    int_signed_region i = Some region \<and> int_sig_value i = Some (sign_fn region) \<and>
    int_sig_info i = Some \<lparr>si_sig_type = st, si_key_locator = map_option KlName kl,
      si_sig_nonce = Some nonce_bytes, si_sig_time = Some now_ms, si_sig_seq_num = None\<rparr> \<and>
    int_app_parameters i = Some (signed_params b) \<and> int_nonce i = Some nonce \<and> int_hop_limit i = ib_hop_limit b"
proof -
  let ?sig = "sign_fn region"
  let ?n = "signed_full_name sha256 b st kl nonce_bytes now_ms ?sig"
  let ?tail = "signed_tail_elems b st kl nonce_bytes now_ms ?sig"
  let ?w = "interest_sign_sync sha256 nonce nonce_bytes now_ms b st kl sign_fn"
  let ?i = "\<lparr>int_raw = ?w, int_name = ?n\<rparr>"
  have wire: "?w = interest_wire ?n (body_elems b nonce @ ?tail)"
    unfolding region_def by (rule interest_sign_elems)
  have ty: "types_ok ?tail" by (simp add: signed_tail_elems_def)
  have tail: "fst ` set ?tail \<subseteq> {APP_PARAMETERS, INTEREST_SIGNATURE_INFO, INTEREST_SIGNATURE_VALUE}"
    by (simp add: signed_tail_elems_def)
  have raw: "int_raw ?i = interest_wire ?n (body_elems b nonce @ ?tail)" using wire by simp
  have "length (int_raw ?i) < 2 ^ 63" using assms(6) by simp
  note f = interest_fields_built [OF raw this assms(2) ty tail]
  have elen: "length (elems_enc ((NAME, elems_enc (name_elems ?n)) # body_elems b nonce @ ?tail)) < 2 ^ 63"
    by (rule length_packet_value [of INTEREST _ "[]"]) (use assms(6) wire in simp)
  have "length (signed_info_value st kl nonce_bytes now_ms) < 2 ^ 63"
    by (rule length_elem_value [OF elen, of INTEREST_SIGNATURE_INFO]) (simp add: signed_tail_elems_def)
  then have si: "sig_info_decode (signed_info_value st kl nonce_bytes now_ms) =
     Inr \<lparr>si_sig_type = st, si_key_locator = map_option KlName kl,
      si_sig_nonce = Some nonce_bytes, si_sig_time = Some now_ms, si_sig_seq_num = None\<rparr>"
    unfolding signed_info_value_def by (intro sig_info_decode_elems assms)
  have n: "name_ok ?n" "?n \<noteq> []"
    using assms(2) by (simp_all add: signed_full_name_def signed_name_def builder_ok_def name_ok_filter)
      (simp add: name_ok_def name_elems_def)
  have fold: "interest_fold (body_elems b nonce @ ?tail) = Inr True"
  proof -
    obtain k where "k \<le> 7" "interest_fold (body_elems b nonce @ ?tail) =
        flow_fold interest_body_step (\<lambda>(_, has_app_params). Inr has_app_params) (k, False) ?tail"
      using interest_fold_body_elems [of _ False b nonce] by blast
    then show ?thesis by (simp add: signed_tail_elems_def interest_body_step_def interest_elem_index_def si)
  qed
  have psdc: "validate_psdc_structure ?n True = Inr ()"
    by (simp add: validate_psdc_structure_def signed_full_name_def signed_name_def Let_def)
  have len': "length (interest_wire ?n (body_elems b nonce @ ?tail) @ []) < 2 ^ 63"
    using assms(6) unfolding wire by simp
  have ty': "types_ok (body_elems b nonce @ ?tail)" using ty by simp
  have dec: "interest_decode ?w = Inr ?i"
    using interest_decode_elems [OF len' ty' n] fold psdc unfolding wire by simp
  have "compute_interest_signed_region ?w = Inr (Some region)"
    using compute_signed_region_elems [OF len' ty' n(1)]
    unfolding wire filter_signed_full_name
    by (subst (asm) flow_fold_skip)
      (auto simp: signed_tail_elems_def region_def signed_region_of_def dest: body_elems_unsigned)
  then have "int_signed_region ?i = Some region" by (simp add: int_signed_region_def ok_flatten_def)
  then show ?thesis
    using dec f si by (intro exI [of _ ?i]) (simp add: signed_tail_elems_def)
qed

theorem signed_interest_roundtrip_witness:
  "\<exists>i. interest_decode (interest_sign_digest_sha256 (\<lambda>_. replicate 32 7) 9 [1, 2, 3, 4] 1000 sample_builder) = Inr i \<and>
    int_sig_value i = Some (replicate 32 7) \<and>
    int_signed_region i = Some (signed_region_of sample_builder DigestSha256 None [1, 2, 3, 4] 1000)"
proof -
  have "length (interest_sign_sync (\<lambda>_. replicate 32 7) 9 [1, 2, 3, 4] 1000 sample_builder DigestSha256 None
      (\<lambda>_. replicate 32 7)) < 2 ^ 63"
    unfolding interest_sign_elems
    by (simp add: sample_builder_def interest_builder_new_def signed_full_name_def signed_tail_elems_def
        signed_params_def signed_info_value_def sig_info_elems_def signed_name_def body_elems_def hint_elems_def
        name_elems_def wire_length)
  moreover have "signature_type_ok DigestSha256" "key_locator_rule DigestSha256 (map_option KlName None)"
    by (simp_all add: signature_type_ok_def signature_type_code_def signature_type_from_code_def key_locator_rule_def)
  ultimately show ?thesis
    using signed_interest_roundtrip [OF sample_builder_ok(1), of DigestSha256 None "\<lambda>_. replicate 32 7" 9
        "[1, 2, 3, 4]" 1000 "\<lambda>_. replicate 32 7"]
    by (auto simp: interest_sign_digest_sha256_def)
qed

section \<open>HopLimit rewriting\<close>

fun hop_index :: "nat \<Rightarrow> (u64 \<times> bytes) list \<Rightarrow> nat option" where
  "hop_index k [] = None"
| "hop_index k ((t, v) # es) = (if t = HOP_LIMIT \<and> length v = 1 then Some (k + length (tlv_enc t v) - 1)
     else hop_index (k + length (tlv_enc t v)) es)"

fun set_hop :: "u8 \<Rightarrow> (u64 \<times> bytes) list \<Rightarrow> (u64 \<times> bytes) list" where
  "set_hop x [] = []"
| "set_hop x ((t, v) # es) = (if t = HOP_LIMIT \<and> length v = 1 then (t, [x]) # es else (t, v) # set_hop x es)"

lemma hop_limit_walk_step:
  assumes "length (pre @ tlv_enc t v @ tail) < 2 ^ 63"
  shows "hop_limit_walk (pre @ tlv_enc t v @ tail) (length pre) =
    (if t = HOP_LIMIT \<and> length v = 1 then Some (Some (length pre + length (tlv_enc t v) - 1))
     else hop_limit_walk (pre @ tlv_enc t v @ tail) (length (pre @ tlv_enc t v)))"
proof -
  let ?l = "word_of_nat (length v) :: u64"
  have drop1: "drop (length pre) (pre @ tlv_enc t v @ tail) = varu64_enc t @ varu64_enc ?l @ v @ tail"
    by (simp add: tlv_enc_def)
  have size: "length pre + varu64_size t + varu64_size ?l + length v + length tail < 2 ^ 63"
    using assms by (simp add: length_tlv_enc tlv_size_def)
  have l: "unat ?l = length v" using size by (simp add: unat_of_nat)
  have pos: "length pre < length (pre @ tlv_enc t v @ tail)" using tlv_enc_nonempty [of t v] by simp
  have wrap: "wrap_add (wrap_add (length pre) (varu64_size t + varu64_size ?l)) (length v) = length (pre @ tlv_enc t v)"
    "wrap_add (length pre) (wrap_add (varu64_size t + varu64_size ?l) (length v)) = length (pre @ tlv_enc t v)"
    using size by (simp_all add: wrap_add_def length_tlv_enc tlv_size_def)
  have drop2: "drop (varu64_size t) (varu64_enc t @ varu64_enc ?l @ v @ tail) = varu64_enc ?l @ v @ tail"
    using length_varu64_enc [of t] by simp
  show ?thesis
    apply (subst hop_limit_walk.simps)
    apply (subst drop1)+
    apply (simp only: pos if_True read_varu64_enc drop2 sum.case prod.case l wrap)
    apply (simp add: length_tlv_enc tlv_size_def)
    done
qed

lemma hop_limit_walk_elems:
  assumes "length (pre @ elems_enc es @ rest) < 2 ^ 63"
  shows "hop_limit_walk (pre @ elems_enc es @ rest) (length pre) =
    (case hop_index (length pre) es of
       Some k \<Rightarrow> Some (Some k)
     | None \<Rightarrow> hop_limit_walk (pre @ elems_enc es @ rest) (length (pre @ elems_enc es)))"
  using assms
proof (induction es arbitrary: pre)
  case (Cons e es)
  obtain t v where e: "e = (t, v)" by fastforce
  show ?case
    using hop_limit_walk_step [of pre t v "elems_enc es @ rest"] Cons.IH [of "pre @ tlv_enc t v"] Cons.prems
    by (simp add: e split: option.split)
qed simp

lemma hop_index_found:
  assumes "map_of es HOP_LIMIT = Some [h]"
  shows "\<exists>k. hop_index (length pre) es = Some k \<and> (pre @ elems_enc es @ rest) ! k = h \<and>
    (pre @ elems_enc es @ rest)[k := x] = pre @ elems_enc (set_hop x es) @ rest"
  using assms
proof (induction es arbitrary: pre)
  case (Cons e es)
  obtain t v where e: "e = (t, v)" by fastforce
  show ?case
  proof (cases "t = HOP_LIMIT")
    case True
    have "tlv_enc t [h] = (varu64_enc t @ varu64_enc 1) @ [h]" "tlv_enc t [x] = (varu64_enc t @ varu64_enc 1) @ [x]"
      by (simp_all add: tlv_enc_def)
    with True Cons.prems show ?thesis
      by (simp add: e nth_append list_update_append)
  next
    case False
    with Cons.prems have "map_of es HOP_LIMIT = Some [h]" by (simp add: e)
    from Cons.IH [OF this, of "pre @ tlv_enc t v"] False show ?thesis by (simp add: e)
  qed
qed simp

lemma set_hop_keeps:
  assumes "map_of es HOP_LIMIT = Some [h]"
  shows "map_of (set_hop x es) = (map_of es)(HOP_LIMIT \<mapsto> [x])" "fst ` set (set_hop x es) = fst ` set es"
    "types_ok (set_hop x es) = types_ok es" "length (elems_enc (set_hop x es)) = length (elems_enc es)"
proof -
  show "map_of (set_hop x es) = (map_of es)(HOP_LIMIT \<mapsto> [x])"
    using assms by (induction es) (auto split: if_splits)
  have "map fst (set_hop x es) = map fst es" by (induction es) auto
  then show "fst ` set (set_hop x es) = fst ` set es" by (metis list.set_map)
  show "types_ok (set_hop x es) = types_ok es" by (induction es) (auto split: if_splits)
  show "length (elems_enc (set_hop x es)) = length (elems_enc es)"
    using hop_index_found [OF assms, of "[]" "[]" x] by (metis append_Nil append_Nil2 length_list_update)
qed

lemma flow_fold_set_hop:
  assumes "\<And>s v v'. f s HOP_LIMIT v = f s HOP_LIMIT v'"
  shows "flow_fold f fin s (set_hop x es) = flow_fold f fin s es"
proof (induction es arbitrary: s)
  case (Cons e es)
  obtain t v where e: "e = (t, v)" by fastforce
  have "f s HOP_LIMIT v = f s HOP_LIMIT [x]" by (rule assms)
  then show ?case using Cons.IH by (simp add: e split: flow.split)
qed simp

text \<open>The two routines on a wire whose first elements are those of a packet.\<close>

lemma decrement_in_place_elems:
  assumes "length (tlv_enc INTEREST (elems_enc es) @ rest) < 2 ^ 63" "map_of es HOP_LIMIT = Some [h]"
  shows "decrement_hop_limit_in_place (tlv_enc INTEREST (elems_enc es) @ rest) =
    Some (tlv_enc INTEREST (elems_enc (set_hop (saturating_sub h 1) es)) @ rest, Some (saturating_sub h 1))"
proof -
  let ?l = "word_of_nat (length (elems_enc es)) :: u64"
  let ?pre = "varu64_enc INTEREST @ varu64_enc ?l"
  let ?x = "saturating_sub h 1"
  have wire: "tlv_enc INTEREST (elems_enc es) @ rest = ?pre @ elems_enc es @ rest"
    by (simp add: tlv_enc_def)
  have wire': "tlv_enc INTEREST (elems_enc (set_hop ?x es)) @ rest = ?pre @ elems_enc (set_hop ?x es) @ rest"
    by (simp add: tlv_enc_def set_hop_keeps(4) [OF assms(2)])
  obtain k where k: "hop_index (length ?pre) es = Some k" "(?pre @ elems_enc es @ rest) ! k = h"
      "(?pre @ elems_enc es @ rest)[k := ?x] = ?pre @ elems_enc (set_hop ?x es) @ rest"
    using hop_index_found [OF assms(2)] by blast
  have walk: "hop_limit_walk (?pre @ elems_enc es @ rest) (length ?pre) = Some (Some k)"
    using hop_limit_walk_elems [OF assms(1) [unfolded wire]] k(1) by simp
  have ne: "?pre @ elems_enc es @ rest \<noteq> []" using length_varu64_enc [of INTEREST] varu64_size_bounds(1) [of INTEREST] by auto
  have hd: "read_varu64 (?pre @ elems_enc es @ rest) = Inr (INTEREST, varu64_size INTEREST)"
    "read_varu64 (drop (varu64_size INTEREST) (?pre @ elems_enc es @ rest)) = Inr (?l, varu64_size ?l)"
    using read_varu64_enc [of INTEREST] read_varu64_enc [of ?l] length_varu64_enc [of INTEREST] by simp_all
  have len: "varu64_size INTEREST + varu64_size ?l = length ?pre" by (simp add: length_varu64_enc)
  show ?thesis
    unfolding wire wire' decrement_hop_limit_in_place_def
    by (simp only: ne if_False hd sum.case prod.case len walk option.map option.case k Let_def)
qed

lemma decrement_elems:
  assumes "length (tlv_enc INTEREST (elems_enc es)) < 2 ^ 63" "map_of es HOP_LIMIT = Some [h]"
  shows "decrement_hop_limit (tlv_enc INTEREST (elems_enc es)) =
    Some (Some (tlv_enc INTEREST (elems_enc (set_hop (saturating_sub h 1) es)), saturating_sub h 1))"
proof -
  let ?l = "word_of_nat (length (elems_enc es)) :: u64"
  let ?pre = "varu64_enc INTEREST @ varu64_enc ?l"
  let ?x = "saturating_sub h 1"
  have wire: "tlv_enc INTEREST (elems_enc es) = ?pre @ elems_enc es"
    by (simp add: tlv_enc_def)
  have wire': "tlv_enc INTEREST (elems_enc (set_hop ?x es)) = ?pre @ elems_enc (set_hop ?x es)"
    by (simp add: tlv_enc_def set_hop_keeps(4) [OF assms(2)])
  obtain k where k: "hop_index 0 es = Some k" "elems_enc es ! k = h" "(elems_enc es)[k := ?x] = elems_enc (set_hop ?x es)"
    using hop_index_found [OF assms(2), of "[]" "[]" ?x] by auto
  have len: "length (elems_enc es) < 2 ^ 63" using length_packet_value [of INTEREST _ "[]"] assms(1) by simp
  have walk: "hop_limit_walk (elems_enc es) 0 = Some (Some k)"
    using hop_limit_walk_elems [of "[]" es "[]"] len k(1) by simp
  have ne: "tlv_enc INTEREST (elems_enc es) \<noteq> []" using tlv_enc_nonempty [of INTEREST "elems_enc es"] by auto
  have rd: "fst (read_tlv (reader_new (?pre @ elems_enc es))) = Inr (INTEREST, elems_enc es)"
    using fst_read_tlv_enc [of INTEREST "elems_enc es" "[]"] assms(1) by (simp add: wire)
  have hl: "length (?pre @ elems_enc es) - length (elems_enc es) = length ?pre" by simp
  have dr: "drop (length ?pre) (?pre @ elems_enc es) = elems_enc es" by simp
  have nth: "(?pre @ elems_enc es) ! (length ?pre + k) = h"
    "(?pre @ elems_enc es)[length ?pre + k := ?x] = ?pre @ elems_enc (set_hop ?x es)"
    using k by (simp_all only: nth_append_length_plus list_update_append) (simp_all add: list_update_append)
  show ?thesis
    using ne unfolding wire wire' decrement_hop_limit_def Let_def
    by (simp only: if_False rd sum.case prod.case hl dr walk option.map nth)
qed

text \<open>Two Interests with the same fields apart from the HopLimit.\<close>

definition same_but_hop_limit :: "interest \<Rightarrow> interest \<Rightarrow> bool" where
  "same_but_hop_limit i j \<longleftrightarrow> int_name i = int_name j \<and> int_selectors i = int_selectors j \<and>
     int_nonce i = int_nonce j \<and> int_lifetime i = int_lifetime j \<and>
     int_forwarding_hint i = int_forwarding_hint j \<and> int_reflexive_name i = int_reflexive_name j \<and>
     int_app_parameters i = int_app_parameters j \<and> int_sig_info i = int_sig_info j \<and>
     int_sig_value i = int_sig_value j \<and> int_signed_region i = int_signed_region j"

lemma set_hop_decodes:
  assumes dec: "interest_decode (interest_wire n body @ rest) = Inr i"
    and len: "length (interest_wire n body @ rest) < 2 ^ 63"
    and ok: "types_ok body" "name_ok n" "n \<noteq> []" and hop: "map_of body HOP_LIMIT = Some [h]"
  shows "\<exists>j. interest_decode (interest_wire n (set_hop x body) @ rest) = Inr j \<and> int_hop_limit j = Some x \<and>
    same_but_hop_limit i j"
proof -
  let ?w = "interest_wire n body @ rest" and ?w' = "interest_wire n (set_hop x body) @ rest"
  let ?es = "(NAME, elems_enc (name_elems n)) # body" and ?es' = "(NAME, elems_enc (name_elems n)) # set_hop x body"
  let ?i = "\<lparr>int_raw = ?w, int_name = n\<rparr>" and ?j = "\<lparr>int_raw = ?w', int_name = n\<rparr>"
  note keeps = set_hop_keeps [OF hop, of x]
  have len': "length ?w' < 2 ^ 63" using len keeps(4) by (simp add: length_tlv_enc)
  have ok': "types_ok (set_hop x body)" using ok(1) keeps(3) by simp
  have fold: "interest_fold (set_hop x body) = interest_fold body"
    by (rule flow_fold_set_hop) (simp add: interest_body_step_def interest_elem_index_def split: prod.split)
  obtain b where "interest_fold body = Inr b" "validate_psdc_structure n b = Inr ()"
    using dec interest_decode_elems [OF len ok] by (auto simp del: elems_enc_simps split: sum.splits)
  then have dec': "interest_decode ?w = Inr ?i" "interest_decode ?w' = Inr ?j"
    using interest_decode_elems [OF len ok] interest_decode_elems [OF len' ok' ok(2,3)] fold
    by (simp_all del: elems_enc_simps)
  then have i: "i = ?i" using dec by simp
  note fi = interest_fields [of ?i ?es rest] and fj = interest_fields [of ?j ?es' rest]
  have tys: "types_ok ?es" "types_ok ?es'" using ok(1) ok' by simp_all
  have region: "compute_interest_signed_region ?w' = compute_interest_signed_region ?w"
    unfolding compute_signed_region_elems [OF len ok(1,2)] compute_signed_region_elems [OF len' ok' ok(2)]
    by (subst flow_fold_set_hop) (auto split: prod.split)
  have "int_hop_limit ?j = Some x" using fj(7) tys(2) len' keeps(1) by simp
  moreover have "same_but_hop_limit ?i ?j"
    unfolding same_but_hop_limit_def
    using fi fj tys len len' keeps(1,2) region by (simp add: int_signed_region_def)
  ultimately show ?thesis using dec'(2) i by blast
qed

text \<open>C12. HopLimit rewriting. On an accepted Interest that carries a HopLimit, the in-place routine
  returns, decrements that byte (stopping at zero), and the packet it leaves is an accepted Interest
  of the same length in which every other field, the signed region included, is what it was. The
  copying routine returns the same packet when nothing follows the Interest in the buffer.\<close>

theorem hop_limit_decremented:
  assumes "interest_decode raw = Inr i" "length raw < 2 ^ 63" "int_hop_limit i = Some h"
  shows "\<exists>raw' j. decrement_hop_limit_in_place raw = Some (raw', Some (saturating_sub h 1)) \<and>
    (as_bytes (snd (read_tlv (reader_new raw))) = [] \<longrightarrow>
       decrement_hop_limit raw = Some (Some (raw', saturating_sub h 1))) \<and>
    length raw' = length raw \<and> interest_decode raw' = Inr j \<and>
    int_hop_limit j = Some (saturating_sub h 1) \<and> same_but_hop_limit i j"
proof -
  obtain body rest where w: "raw = interest_wire (int_name i) body @ rest" "types_ok body" "name_ok (int_name i)"
      "int_name i \<noteq> []" "int_raw i = raw"
    using interest_decode_canonical [OF assms(1,2)] by metis
  let ?es = "(NAME, elems_enc (name_elems (int_name i))) # body"
  let ?x = "saturating_sub h 1"
  let ?raw' = "interest_wire (int_name i) (set_hop ?x body) @ rest"
  have "int_hop_limit i = (case map_of ?es HOP_LIMIT of Some v \<Rightarrow> if length v = 1 then Some (v ! 0) else None | None \<Rightarrow> None)"
    by (rule interest_fields(7) [of i ?es rest]) (use w assms(2) in simp_all)
  then obtain v where "map_of body HOP_LIMIT = Some v" "length v = 1" "v ! 0 = h"
    using assms(3) by (auto split: option.splits if_splits)
  then have hop: "map_of body HOP_LIMIT = Some [h]" by (cases v) auto
  then have hop': "map_of ?es HOP_LIMIT = Some [h]" by simp
  have set: "set_hop ?x ?es = (NAME, elems_enc (name_elems (int_name i))) # set_hop ?x body" by simp
  have "decrement_hop_limit_in_place raw = Some (?raw', Some ?x)"
    using decrement_in_place_elems [OF assms(2) [unfolded w(1)] hop'] unfolding set w(1) [symmetric] .
  moreover have "decrement_hop_limit raw = Some (Some (?raw', ?x))" if "as_bytes (snd (read_tlv (reader_new raw))) = []"
  proof -
    have "rest = []"
      using that read_tlv_enc [OF reader_wf_new [OF assms(2)], of INTEREST "elems_enc ?es" rest]
        as_bytes_advance [of "reader_new raw" "tlv_enc INTEREST (elems_enc ?es)" rest] w(1) by simp
    then show ?thesis
      using decrement_elems [OF _ hop'] assms(2) w(1) unfolding set by simp
  qed
  moreover obtain j where "interest_decode ?raw' = Inr j" "int_hop_limit j = Some ?x" "same_but_hop_limit i j"
    using set_hop_decodes [OF assms(1) [unfolded w(1)] assms(2) [unfolded w(1)] w(2-4) hop, of ?x] by blast
  moreover have "length ?raw' = length raw"
    using w(1) set_hop_keeps(4) [OF hop, of ?x] by (simp add: length_tlv_enc)
  ultimately show ?thesis by blast
qed

theorem hop_limit_decremented_witness:
  "\<exists>raw' j. decrement_hop_limit (interest_build (\<lambda>_. replicate 32 7) 9 sample_builder) = Some (Some (raw', 4)) \<and>
    interest_decode raw' = Inr j \<and> int_hop_limit j = Some 4 \<and>
    int_name j = [NameComponent 8 [0x61], NameComponent 2 (replicate 32 7)]"
proof -
  let ?raw = "interest_build (\<lambda>_. replicate 32 7) 9 sample_builder"
  let ?i = "\<lparr>int_raw = ?raw, int_name = built_name (\<lambda>_. replicate 32 7) sample_builder\<rparr>"
  note e = interest_build_elems [OF sample_builder_ok(2)]
  have len: "length ?raw < 2 ^ 63" by (rule sample_wire_length)
  have dec: "interest_decode ?raw = Inr ?i"
    by (rule interest_decode_build [OF sample_builder_ok len])
  have "int_hop_limit ?i = ib_hop_limit sample_builder"
    by (rule interest_fields_built(4) [of ?i _ sample_builder 9 "opt_elem APP_PARAMETERS (ib_app_parameters sample_builder)"])
      (use len e sample_builder_ok in \<open>simp_all add: e\<close>)
  then have "int_hop_limit ?i = Some 5" by (simp add: sample_builder_def)
  moreover have "as_bytes (snd (read_tlv (reader_new ?raw))) = []"
    using len unfolding e by (intro nothing_follows) simp_all
  ultimately show ?thesis
    using hop_limit_decremented [OF dec len, of 5]
    by (auto simp: same_but_hop_limit_def saturating_sub_def built_name_def sample_builder_def interest_builder_new_def)
qed

definition trailing_body :: bytes where
  "trailing_body = [0x01, 0xFF, 0xFF, 0xFF, 0xFF, 0xFF, 0xFF, 0xFF, 0xFF, 0xF6, 0, 0, 0, 0]"

definition trailing_wire :: bytes where
  "trailing_wire = [0x05, 0x0E, 0x07, 0x03, 0x08, 0x01, 0x61, 0x0A, 0x04, 0, 0, 0, 1, 0x22, 0x01, 0x05] @
     trailing_body"

lemma trailing_wire_elems:
  "trailing_wire = interest_wire [NameComponent 8 [0x61]] [(NONCE, [0, 0, 0, 1]), (HOP_LIMIT, [5])] @ trailing_body"
  by (simp add: trailing_wire_def name_elems_def tlv_enc_def varu64_enc_def)

lemma hop_limit_walk_stuck: "hop_limit_walk trailing_body 0 = None"
proof -
  have rd: "read_varu64 (drop 0 trailing_body) = Inr (1, 1)"
    "read_varu64 (drop 1 (drop 0 trailing_body)) = Inr (0xFFFFFFFFFFFFFFF6, 9)"
    by (simp_all add: read_varu64_def trailing_body_def from_be_bytes_def be_nat_def)
  have num: "wrap_add (wrap_add 0 (1 + 9)) (unat (0xFFFFFFFFFFFFFFF6 :: u64)) = 0"
    "wrap_add 0 (wrap_add (1 + 9) (unat (0xFFFFFFFFFFFFFFF6 :: u64))) = 0"
    "((1 :: u64) = HOP_LIMIT) = False" "(0 < length trailing_body) = True" "(length trailing_body < 0) = False"
    by (simp_all add: wrap_add_def trailing_body_def)
  have "\<not> (b = trailing_body \<and> k = 0)" if "hop_limit_walk b k = Some r" for b k r
  proof (rule hop_limit_walk.raw_induct [OF _ that], goal_cases)
    case (1 walk b k r)
    show ?case
    proof
      assume "b = trailing_body \<and> k = 0"
      then have bk: "b = trailing_body" "k = 0" by simp_all
      from 1(2) [unfolded bk] have "walk trailing_body 0 = Some r"
        by (simp only: rd num sum.case prod.case if_True if_False simp_thms)
      then show False using 1(1) by blast
    qed
  qed
  then show ?thesis by (cases "hop_limit_walk trailing_body 0") auto
qed

text \<open>With chosen bytes behind the packet the copying routine does not return. The first packet
  below is an accepted Interest with a nonce and a HopLimit; fourteen bytes follow it in the buffer.
  \<open>decrement_hop_limit\<close> takes its header length from the length of the whole buffer, so its walk
  starts in those bytes, where an element of length \<open>2^64 - 10\<close> moves the cursor by zero.\<close>

lemma decrement_hop_limit_diverges:
  "decrement_hop_limit trailing_wire = None \<and>
   (\<exists>i. interest_decode trailing_wire = Inr i \<and> int_hop_limit i = Some 5 \<and> int_nonce i = Some 1)"
proof -
  let ?n = "[NameComponent 8 [0x61]]" and ?body = "[(NONCE, [0, 0, 0, 1]), (HOP_LIMIT, [5])] :: (u64 \<times> bytes) list"
  let ?es = "(NAME, elems_enc (name_elems ?n)) # ?body"
  let ?i = "\<lparr>int_raw = trailing_wire, int_name = ?n\<rparr>"
  have len: "length trailing_wire = 30" by (simp add: trailing_wire_def trailing_body_def)
  then have len': "length (interest_wire ?n ?body @ trailing_body) < 2 ^ 63"
    unfolding trailing_wire_elems [symmetric] by simp
  have "length (elems_enc ?es) = 14" by (simp add: name_elems_def wire_length)
  moreover have "drop 16 trailing_wire = trailing_body" by (simp add: trailing_wire_def)
  moreover have "fst (read_tlv (reader_new trailing_wire)) = Inr (INTEREST, elems_enc ?es)"
    using fst_read_tlv_enc [OF len'] unfolding trailing_wire_elems by simp
  moreover have "trailing_wire \<noteq> []" by (simp add: trailing_wire_def)
  ultimately have "decrement_hop_limit trailing_wire = None"
    using len hop_limit_walk_stuck by (simp add: decrement_hop_limit_def del: elems_enc_simps)
  moreover have "interest_decode trailing_wire = Inr ?i"
    using interest_decode_elems [OF len'] unfolding trailing_wire_elems [symmetric]
    by (simp add: name_ok_def name_elems_def interest_body_step_def interest_elem_index_def validate_psdc_structure_def)
  moreover have "int_hop_limit ?i = Some 5" "int_nonce ?i = Some 1"
    using interest_fields(2,7) [of ?i ?es trailing_body] len
    by (simp_all add: trailing_wire_elems name_elems_def from_be_bytes_def be_nat_def)
  ultimately show ?thesis by blast
qed

section \<open>Adding a nonce\<close>

lemma ensure_nonce_elems:
  assumes "length (interest_wire n body @ rest) < 2 ^ 63" "types_ok body"
  shows "ensure_nonce x (interest_wire n body @ rest) =
    (if NONCE \<in> fst ` set body then interest_wire n body @ rest
     else interest_wire n ((NONCE, to_be_bytes x) # body))"
proof -
  let ?es = "(NAME, elems_enc (name_elems n)) # body"
  have len: "length (elems_enc ?es) < 2 ^ 63" by (rule length_packet_value [OF assms(1)])
  have elems: "tlv_elems (reader_new (elems_enc ?es)) = (?es, None)"
    using assms(2) by (intro tlv_elems_enc reader_wf_new [OF len]) simp_all
  have "flow_fold (\<lambda>_ t _. if t = NONCE then Return True else Continue ()) (\<lambda>_. False) () es \<longleftrightarrow> NONCE \<in> fst ` set es" for es
    by (induction es) auto
  then have has: "has_nonce (elems_enc ?es) \<longleftrightarrow> NONCE \<in> fst ` set body"
    unfolding has_nonce_def tlv_loop_flow_fold elems by simp
  let ?f = "\<lambda>s (t, v). (\<lambda>(w, name_written) t v.
         if \<not> name_written \<and> t = NAME
         then (write_tlv NONCE (to_be_bytes x) (write_tlv t v w), True)
         else (write_tlv t v w, name_written)) s t v"
  have copy: "\<exists>w'. foldl ?f (w, True) es = (w', True) \<and> wbuf w' = wbuf w @ elems_enc es" for w es
  proof (induction es arbitrary: w)
    case (Cons a es)
    then show ?case
      using Cons.IH [of "write_tlv (fst a) (snd a) w"] by (cases a) (simp add: codec_simps)
  qed simp
  have "wbuf (rewrite_with_nonce x (elems_enc ?es) w) =
      wbuf w @ elems_enc ((NAME, elems_enc (name_elems n)) # (NONCE, to_be_bytes x) # body)" for w
    using copy [of "write_tlv NONCE (to_be_bytes x) (write_tlv NAME (elems_enc (name_elems n)) w)" body]
    unfolding rewrite_with_nonce_def tlv_loop_break_def elems
    by (auto simp: codec_simps)
  then show ?thesis
    using fst_read_tlv_enc [OF assms(1)] has
    by (simp add: ensure_nonce_def codec_simps del: elems_enc_simps)
qed

definition early_elements :: "(u64 \<times> bytes) list \<Rightarrow> bool" where
  "early_elements es \<longleftrightarrow> (\<exists>e \<in> set es. fst e \<in> {CAN_BE_PREFIX, MUST_BE_FRESH, FORWARDING_HINT})"

lemma interest_step_return: "interest_body_step s t v = Return x \<Longrightarrow> \<exists>e. x = Inl e"
  by (auto simp: interest_body_step_def split: prod.splits option.splits sum.splits if_splits)

lemma interest_step_continue:
  "interest_body_step (k, h) t v = Continue s \<Longrightarrow> (case interest_elem_index t of
     None \<Rightarrow> s = (k, h) \<and> \<not> is_critical_tlv_type t | Some m \<Rightarrow> k < m \<and> fst s = m)"
  by (auto simp: interest_body_step_def split: option.splits sum.splits if_splits)

lemma interest_fold_Cons:
  assumes "flow_fold interest_body_step fin s ((t, v) # es) = Inr r"
  obtains s' where "interest_body_step s t v = Continue s'" "flow_fold interest_body_step fin s' es = Inr r"
  using assms interest_step_return [of s t v] by (cases "interest_body_step s t v") auto

lemma interest_fold_increasing:
  assumes "flow_fold interest_body_step (\<lambda>(_, b). Inr b) (k, h) es = Inr r" "e \<in> set es" "interest_elem_index (fst e) = Some m"
  shows "k < m"
  using assms
proof (induction es arbitrary: k h)
  case (Cons a es)
  obtain t v where a: "a = (t, v)" by fastforce
  obtain s where s: "interest_body_step (k, h) t v = Continue s"
      "flow_fold interest_body_step (\<lambda>(_, b). Inr b) (fst s, snd s) es = Inr r"
    using Cons.prems(1) unfolding a by (rule interest_fold_Cons) simp
  have "k \<le> fst s" "interest_elem_index t = Some m \<Longrightarrow> k < m"
    using interest_step_continue [OF s(1)] by (auto split: option.splits)
  with Cons.IH [OF s(2)] Cons.prems(2,3) show ?case by (auto simp: a)
qed simp

lemma interest_elem_index_early:
  "interest_elem_index t = Some m \<Longrightarrow> t \<noteq> NONCE \<Longrightarrow> m \<le> 5 \<longleftrightarrow> t \<in> {CAN_BE_PREFIX, MUST_BE_FRESH, FORWARDING_HINT}"
  by (auto simp: interest_elem_index_def split: if_splits)

text \<open>Starting the order check behind the Nonce.\<close>

lemma interest_fold_after_nonce:
  assumes "flow_fold interest_body_step (\<lambda>(_, b). Inr b) (k, h) es = Inr r" "k \<le> 5" "NONCE \<notin> fst ` set es"
  shows "flow_fold interest_body_step (\<lambda>(_, b). Inr b) (5, h) es =
    (if early_elements es then Inl (MalformedPacket ''Interest body element out of spec order or duplicated'') else Inr r)"
  using assms
proof (induction es arbitrary: k h)
  case (Cons a es)
  obtain t v where a: "a = (t, v)" by fastforce
  have t: "t \<noteq> NONCE" "NONCE \<notin> fst ` set es" using Cons.prems(3) by (auto simp: a)
  obtain s where s: "interest_body_step (k, h) t v = Continue s" "flow_fold interest_body_step (\<lambda>(_, b). Inr b) s es = Inr r"
    using Cons.prems(1) unfolding a by (rule interest_fold_Cons)
  show ?case
  proof (cases "interest_elem_index t")
    case None
    then have nc: "interest_body_step (5, h) t v = Continue (5, h)"
        "flow_fold interest_body_step (\<lambda>(_, b). Inr b) (k, h) es = Inr r"
      using s interest_step_continue [OF s(1)] by (simp_all add: interest_body_step_def)
    have "t \<notin> {CAN_BE_PREFIX, MUST_BE_FRESH, FORWARDING_HINT}" using None by (auto simp: interest_elem_index_def)
    then show ?thesis
      using Cons.IH [OF nc(2) Cons.prems(2) t(2)] nc(1) by (simp add: a early_elements_def)
  next
    case (Some m)
    show ?thesis
    proof (cases "m \<le> 5")
      case True
      then show ?thesis
        using interest_elem_index_early [OF Some t(1)] Some
        by (auto simp: a interest_body_step_def [of _ t] early_elements_def)
    next
      case False
      have m: "fst s = m" using interest_step_continue [OF s(1)] Some by simp
      have "interest_body_step (5, h) t v = interest_body_step (k, h) t v"
        using False Cons.prems(2) Some by (simp add: interest_body_step_def)
      moreover have "\<not> early_elements es"
      proof
        assume "early_elements es"
        then obtain e where e: "e \<in> set es" "fst e \<in> {CAN_BE_PREFIX, MUST_BE_FRESH, FORWARDING_HINT}"
          by (auto simp: early_elements_def)
        then obtain m' where "interest_elem_index (fst e) = Some m'" "m' \<le> 5" by (auto simp: interest_elem_index_def)
        moreover have "flow_fold interest_body_step (\<lambda>(_, b). Inr b) (fst s, snd s) es = Inr r" using s(2) by simp
        ultimately show False using interest_fold_increasing [OF _ e(1)] m False by fastforce
      qed
      moreover have "t \<notin> {CAN_BE_PREFIX, MUST_BE_FRESH, FORWARDING_HINT}"
        using interest_elem_index_early [OF Some t(1)] False by blast
      ultimately show ?thesis using s by (simp add: a early_elements_def)
    qed
  qed
qed (simp add: early_elements_def)

definition carries :: "u64 \<Rightarrow> bytes \<Rightarrow> bool" where
  "carries t raw \<longleftrightarrow> scan_first t (\<lambda>_. Inr (Some ())) raw = Inr (Some ())"

lemma carries_elems:
  assumes "length (tlv_enc INTEREST (elems_enc es) @ rest) < 2 ^ 63" "types_ok es"
  shows "carries t (tlv_enc INTEREST (elems_enc es) @ rest) \<longleftrightarrow> t \<in> fst ` set es"
  unfolding carries_def scan_first_enc [OF assms, simplified]
  by (auto split: option.split simp: map_of_eq_None_iff dest!: map_of_SomeD intro: rev_image_eqI)

lemma nonce_elem_length:
  assumes "flow_fold interest_body_step (\<lambda>(_, b). Inr b) s es = Inr r" "map_of es NONCE = Some v"
  shows "length v = 4"
  using assms
proof (induction es arbitrary: s)
  case (Cons a es)
  obtain t w where a: "a = (t, w)" by fastforce
  obtain s' where s: "interest_body_step s t w = Continue s'" "flow_fold interest_body_step (\<lambda>(_, b). Inr b) s' es = Inr r"
    using Cons.prems(1) unfolding a by (rule interest_fold_Cons)
  show ?case
  proof (cases "t = NONCE")
    case True
    then show ?thesis
      using s(1) Cons.prems(2) by (auto simp: a interest_body_step_def interest_elem_index_def split: prod.splits if_splits)
  next
    case False
    then show ?thesis using Cons.IH [OF s(2)] Cons.prems(2) by (simp add: a)
  qed
qed simp

text \<open>C31. What \<open>ensure_nonce\<close> makes of an accepted Interest without a nonce. The nonce is written
  right behind the Name. When the Interest carries CanBePrefix, MustBeFresh or a ForwardingHint,
  which have to stand before the nonce, the result is refused by \<open>Interest::decode\<close>; otherwise it is
  accepted, has the new nonce, and the other fields are kept.\<close>

theorem ensure_nonce_result:
  assumes "interest_decode raw = Inr i" "length raw < 2 ^ 62" "int_nonce i = None"
  shows "if carries CAN_BE_PREFIX raw \<or> carries MUST_BE_FRESH raw \<or> carries FORWARDING_HINT raw
    then interest_decode (ensure_nonce x raw) =
      Inl (MalformedPacket ''Interest body element out of spec order or duplicated'')
    else \<exists>j. interest_decode (ensure_nonce x raw) = Inr j \<and> int_nonce j = Some x \<and> int_name j = int_name i \<and>
      int_selectors j = int_selectors i \<and> int_lifetime j = int_lifetime i \<and> int_hop_limit j = int_hop_limit i \<and>
      int_app_parameters j = int_app_parameters i \<and> int_sig_info j = int_sig_info i \<and>
      int_sig_value j = int_sig_value i \<and> int_signed_region j = int_signed_region i"
proof -
  have len: "length raw < 2 ^ 63" using assms(2) by simp
  obtain body rest h where w: "raw = interest_wire (int_name i) body @ rest" "types_ok body" "name_ok (int_name i)"
      "int_name i \<noteq> []" "int_raw i = raw" "interest_fold body = Inr h" "validate_psdc_structure (int_name i) h = Inr ()"
    using interest_decode_canonical [OF assms(1) len] by metis
  let ?nm = "(NAME, elems_enc (name_elems (int_name i)))"
  let ?new = "(NONCE, to_be_bytes x) # body"
  let ?w = "interest_wire (int_name i) ?new"
  let ?j = "\<lparr>int_raw = ?w @ [], int_name = int_name i\<rparr>"
  have len1: "length (interest_wire (int_name i) body @ rest) < 2 ^ 63" using len unfolding w(1) .
  have tys: "types_ok (?nm # body)" "types_ok (?nm # ?new)" using w(2) by simp_all
  note fi = interest_fields [of i "?nm # body" rest, OF _ tys(1)]
  have no: "NONCE \<notin> fst ` set body"
  proof
    assume "NONCE \<in> fst ` set body"
    then obtain v where v: "map_of body NONCE = Some v" by (metis map_of_eq_None_iff not_Some_eq)
    with nonce_elem_length [OF w(6)] fi(2) w(1,5) len assms(3) show False by simp
  qed
  have ens: "ensure_nonce x raw = ?w @ []"
    using ensure_nonce_elems [OF len1 w(2), of x] no unfolding w(1) by simp
  have len2: "length (?w @ []) < 2 ^ 63"
  proof -
    have "length (elems_enc (?nm # body)) < 2 ^ 62" using assms(2) unfolding w(1) by (simp add: length_tlv_enc tlv_size_def)
    moreover have "length (tlv_enc NONCE (to_be_bytes x)) = 6" by (simp add: wire_length)
    moreover have "length ?w \<le> length (elems_enc (?nm # ?new)) + 18"
      using varu64_size_bounds(2) [of INTEREST] varu64_size_bounds(2) [of "word_of_nat (length (elems_enc (?nm # ?new)))"]
      by (simp add: length_tlv_enc tlv_size_def)
    ultimately show ?thesis by simp
  qed
  have fold: "interest_fold ?new = (if early_elements body
      then Inl (MalformedPacket ''Interest body element out of spec order or duplicated'') else Inr h)"
    using interest_fold_after_nonce [OF w(6) _ no] by (simp add: interest_body_step_def [of _ NONCE] interest_elem_index_def)
  have early: "carries CAN_BE_PREFIX raw \<or> carries MUST_BE_FRESH raw \<or> carries FORWARDING_HINT raw \<longleftrightarrow> early_elements body"
  proof -
    have "early_elements body \<longleftrightarrow> CAN_BE_PREFIX \<in> fst ` set body \<or> MUST_BE_FRESH \<in> fst ` set body \<or>
        FORWARDING_HINT \<in> fst ` set body"
      by (auto simp: early_elements_def image_iff)
    then show ?thesis using carries_elems [OF len1 tys(1)] unfolding w(1) by simp
  qed
  have dec: "interest_decode (?w @ []) = (if early_elements body
      then Inl (MalformedPacket ''Interest body element out of spec order or duplicated'') else Inr ?j)"
    using interest_decode_elems [OF len2 _ w(3,4)] tys(2) fold w(7) by simp
  have fj: "int_nonce ?j = Some x" "int_selectors ?j = int_selectors i" "int_lifetime ?j = int_lifetime i"
      "int_hop_limit ?j = int_hop_limit i" "int_app_parameters ?j = int_app_parameters i"
      "int_sig_info ?j = int_sig_info i" "int_sig_value ?j = int_sig_value i"
    using interest_fields [of ?j "?nm # ?new" "[]", OF _ tys(2)] fi w(1,5) len len2 by (simp_all add: from_to_be_bytes)
  have "int_signed_region ?j = int_signed_region i"
    using compute_signed_region_elems [OF len1 w(2,3)] compute_signed_region_elems [OF len2 _ w(3)] tys(2) w(1,5)
    by (simp add: int_signed_region_def)
  then show ?thesis
    unfolding early ens dec using fj by simp
qed

definition nonceless_wire :: bytes where
  "nonceless_wire = interest_wire [NameComponent 8 [0x61]] [(MUST_BE_FRESH, [])]"

theorem ensure_nonce_result_witness:
  "(\<exists>i. interest_decode nonceless_wire = Inr i \<and> must_be_fresh (int_selectors i)) \<and>
   interest_decode (ensure_nonce 77 nonceless_wire) =
     Inl (MalformedPacket ''Interest body element out of spec order or duplicated'')"
proof -
  let ?n = "[NameComponent 8 [0x61]]" and ?body = "[(MUST_BE_FRESH, [])] :: (u64 \<times> bytes) list"
  let ?es = "(NAME, elems_enc (name_elems ?n)) # ?body"
  let ?i = "\<lparr>int_raw = nonceless_wire, int_name = ?n\<rparr>"
  have len: "length nonceless_wire = 9" by (simp add: nonceless_wire_def name_elems_def wire_length)
  have raw: "nonceless_wire = tlv_enc INTEREST (elems_enc ?es) @ []" by (simp add: nonceless_wire_def)
  have dec: "interest_decode nonceless_wire = Inr ?i"
    using interest_decode_elems [of ?n ?body "[]"] len unfolding raw [symmetric]
    by (simp add: name_ok_def name_elems_def interest_body_step_def interest_elem_index_def validate_psdc_structure_def)
  have "int_nonce ?i = None" "must_be_fresh (int_selectors ?i)"
    using interest_fields(1,2) [of ?i ?es "[]"] len raw by simp_all
  moreover have "carries MUST_BE_FRESH nonceless_wire"
    using carries_elems [of ?es "[]" MUST_BE_FRESH] len unfolding raw [symmetric] by simp
  ultimately show ?thesis
    using ensure_nonce_result [OF dec, of 77] dec len by simp
qed

end
