(* ===== verification/Ndn_Fragment.thy ===== *)
theory Ndn_Fragment
  imports Ndn_Lp
begin

text \<open>
  NDNLPv2 fragmentation and reassembly
  (\<open>src/crates/core/ndn-packet/src/fragment.rs\<close>) and the fragment fast path of the decode
  stage (\<open>try_collect_fragment\<close> in
  \<open>src/crates/forwarding/ndn-engine/src/stages/decode.rs\<close>). The clock is an argument; an
  \<open>Instant\<close> and a \<open>Duration\<close> are numbers of nanoseconds. The lemmas show that fragments fit the MTU, that the
  groups of different senders and packets do not interfere, that a packet whose fragments
  all arrive comes back unchanged whatever their order, and that memory stays bounded under
  arbitrary input.
\<close>

definition FRAG_OVERHEAD :: nat where "FRAG_OVERHEAD = 50"
definition MAX_FRAGMENTS :: u64 where "MAX_FRAGMENTS = 400"
definition MAX_PENDING_PACKETS :: nat where "MAX_PENDING_PACKETS = 1024"

section \<open>Fragmentation\<close>

definition div_ceil :: "nat \<Rightarrow> nat \<Rightarrow> nat" where
  "div_ceil a b = (a + b - 1) div b"

definition fragment_wire :: "u64 \<Rightarrow> nat \<Rightarrow> nat \<Rightarrow> bytes \<Rightarrow> bytes" where
  "fragment_wire base_seq i frag_count chunk = finish (write_nested LP_PACKET (\<lambda>w.
     write_tlv LP_FRAGMENT chunk
       (write_tlv LP_FRAG_COUNT (to_be_bytes (word_of_nat frag_count :: u64))
         (write_tlv LP_FRAG_INDEX (to_be_bytes (word_of_nat i :: u64))
           (write_tlv LP_SEQUENCE (to_be_bytes (base_seq + word_of_nat i)) w)))) writer_new)"

definition fragment_packet :: "bytes \<Rightarrow> nat \<Rightarrow> u64 \<Rightarrow> bytes list" where
  "fragment_packet packet mtu base_seq = (let
     payload_cap = max (mtu - FRAG_OVERHEAD) 1;
     frag_count = div_ceil (length packet) payload_cap
   in map (\<lambda>i. let
       start = i * payload_cap;
       stop = min (start + payload_cap) (length packet);
       chunk = take (stop - start) (drop start packet)
     in fragment_wire base_seq i frag_count chunk) [0..<frag_count])"

section \<open>Reassembly\<close>

record pending =
  pd_fragments :: "bytes option list"
  pd_frag_count :: nat
  pd_received :: nat
  pd_created :: nat

record reassembly_stats =
  st_fragments_in :: u64
  st_completed :: u64
  st_timed_out :: u64
  st_fragments_wasted :: u64
  st_fragments_rejected :: u64
  st_groups_evicted :: u64

type_synonym frag_key = "u64 \<times> u64"

record reassembly_buffer =
  rb_pending :: "(frag_key \<times> pending) list"
  rb_timeout :: nat
  rb_stats :: reassembly_stats

definition stats_default :: reassembly_stats where
  "stats_default = \<lparr>st_fragments_in = 0, st_completed = 0, st_timed_out = 0,
     st_fragments_wasted = 0, st_fragments_rejected = 0, st_groups_evicted = 0\<rparr>"

definition reassembly_new :: "nat \<Rightarrow> reassembly_buffer" where
  "reassembly_new timeout = \<lparr>rb_pending = [], rb_timeout = timeout, rb_stats = stats_default\<rparr>"

definition purge_expired :: "nat \<Rightarrow> reassembly_buffer \<Rightarrow> reassembly_buffer" where
  "purge_expired now rb = (let
     live = (\<lambda>(k, v). now - pd_created v < rb_timeout rb);
     dead = filter (\<lambda>kv. \<not> live kv) (rb_pending rb)
   in rb\<lparr>rb_pending := filter live (rb_pending rb),
         rb_stats := (rb_stats rb)\<lparr>
           st_timed_out := st_timed_out (rb_stats rb) + word_of_nat (length dead),
           st_fragments_wasted := st_fragments_wasted (rb_stats rb)
             + sum_list (map (\<lambda>(k, v). word_of_nat (pd_received v)) dead)\<rparr>\<rparr>)"

text \<open>\<open>Iterator::min_by_key\<close> keeps the first of several minimal elements.\<close>

fun min_by_key :: "('a \<Rightarrow> nat) \<Rightarrow> 'a list \<Rightarrow> 'a option" where
  "min_by_key f [] = None"
| "min_by_key f (x # xs) = (case min_by_key f xs of
     None \<Rightarrow> Some x
   | Some y \<Rightarrow> Some (if f x \<le> f y then x else y))"

definition evict_oldest :: "reassembly_buffer \<Rightarrow> reassembly_buffer" where
  "evict_oldest rb = (case min_by_key (\<lambda>(k, v). pd_created v) (rb_pending rb) of
     None \<Rightarrow> rb
   | Some (oldest_key, _) \<Rightarrow> (case map_of (rb_pending rb) oldest_key of
       None \<Rightarrow> rb
     | Some dropped \<Rightarrow> rb\<lparr>rb_pending := AList.delete oldest_key (rb_pending rb),
         rb_stats := (rb_stats rb)\<lparr>
           st_groups_evicted := st_groups_evicted (rb_stats rb) + 1,
           st_fragments_wasted := st_fragments_wasted (rb_stats rb) + word_of_nat (pd_received dropped)\<rparr>\<rparr>))"

definition make_room :: "nat \<Rightarrow> frag_key \<Rightarrow> reassembly_buffer \<Rightarrow> reassembly_buffer" where
  "make_room now key rb =
     (if map_of (rb_pending rb) key = None \<and> length (rb_pending rb) \<ge> MAX_PENDING_PACKETS then
        let rb1 = purge_expired now rb in
        if length (rb_pending rb1) \<ge> MAX_PENDING_PACKETS then evict_oldest rb1 else rb1
      else rb)"

definition reject :: "reassembly_buffer \<Rightarrow> reassembly_buffer" where
  "reject rb = rb\<lparr>rb_stats := (rb_stats rb)\<lparr>st_fragments_rejected := st_fragments_rejected (rb_stats rb) + 1\<rparr>\<rparr>"

definition process ::
  "nat \<Rightarrow> u64 \<Rightarrow> u64 \<Rightarrow> u64 \<Rightarrow> u64 \<Rightarrow> bytes \<Rightarrow> reassembly_buffer \<Rightarrow> bytes option \<times> reassembly_buffer" where
  "process now endpoint_id seq frag_index frag_count fragment rb =
     (if frag_count = 0 \<or> frag_count > MAX_FRAGMENTS then (None, reject rb)
      else let count = unat frag_count; idx = unat frag_index in
      if idx \<ge> count then (None, reject rb)
      else let
        key = (endpoint_id, seq);
        rb1 = make_room now key rb;
        ent = (case map_of (rb_pending rb1) key of
            Some e \<Rightarrow> e
          | None \<Rightarrow> \<lparr>pd_fragments = replicate count None, pd_frag_count = count, pd_received = 0,
                     pd_created = now\<rparr>);
        rb2 = rb1\<lparr>rb_pending := AList.update key ent (rb_pending rb1)\<rparr>
      in if pd_frag_count ent \<noteq> count \<or> idx \<ge> pd_frag_count ent then (None, reject rb2)
      else let
        vacant = (pd_fragments ent ! idx = None);
        ent1 = ent\<lparr>pd_received := (if vacant then pd_received ent + 1 else pd_received ent),
                   pd_fragments := (pd_fragments ent)[idx := Some fragment]\<rparr>;
        rb3 = rb2\<lparr>rb_pending := AList.update key ent1 (rb_pending rb2),
                  rb_stats := (if vacant then (rb_stats rb2)\<lparr>st_fragments_in := st_fragments_in (rb_stats rb2) + 1\<rparr>
                               else rb_stats rb2)\<rparr>
      in if pd_received ent1 = pd_frag_count ent1 then
        (Some (concat (map the (pd_fragments ent1))),
         rb3\<lparr>rb_pending := AList.delete key (rb_pending rb3),
             rb_stats := (rb_stats rb3)\<lparr>st_completed := st_completed (rb_stats rb3) + 1\<rparr>\<rparr>)
      else (None, rb3))"

section \<open>The decode stage's fast path\<close>

type_synonym reassembly_table = "(u64 \<times> reassembly_buffer) list"

definition DEFAULT_REASSEMBLY_TIMEOUT :: nat where
  "DEFAULT_REASSEMBLY_TIMEOUT = 5000000000"

definition try_collect_fragment ::
  "nat \<Rightarrow> u64 \<Rightarrow> u64 \<Rightarrow> bytes \<Rightarrow> reassembly_table \<Rightarrow> (bytes + bytes option) \<times> reassembly_table" where
  "try_collect_fragment now fid endpoint_id raw table = (case extract_fragment raw of
     None \<Rightarrow> (Inl raw, table)
   | Some hdr \<Rightarrow> (let
       fragment = take (fh_frag_end hdr - fh_frag_start hdr) (drop (fh_frag_start hdr) raw)
     in case checked_sub (fh_sequence hdr) (fh_frag_index hdr) of
       None \<Rightarrow> (Inr None, table)
     | Some base_seq \<Rightarrow> let
         rb = (case map_of table fid of Some rb \<Rightarrow> rb | None \<Rightarrow> reassembly_new DEFAULT_REASSEMBLY_TIMEOUT);
         (out, rb') = process now endpoint_id base_seq (fh_frag_index hdr) (fh_frag_count hdr) fragment rb
       in (Inr out, AList.update fid rb' table)))"

section \<open>Fragments fit the MTU\<close>

definition fragment_elems :: "u64 \<Rightarrow> nat \<Rightarrow> nat \<Rightarrow> bytes \<Rightarrow> (u64 \<times> bytes) list" where
  "fragment_elems base_seq i n chunk =
     [(LP_SEQUENCE, to_be_bytes (base_seq + word_of_nat i)), (LP_FRAG_INDEX, to_be_bytes (word_of_nat i :: u64)),
      (LP_FRAG_COUNT, to_be_bytes (word_of_nat n :: u64)), (LP_FRAGMENT, chunk)]"

lemma fragment_wire_elems:
  "fragment_wire base_seq i n chunk = tlv_enc LP_PACKET (elems_enc (fragment_elems base_seq i n chunk))"
  by (simp add: fragment_wire_def fragment_elems_def codec_simps)

lemma length_fragment_wire: "length (fragment_wire base_seq i n chunk) \<le> length chunk + 50"
proof -
  have "varu64_size v \<le> 9" for v using varu64_size_bounds(2) .
  from this [of "word_of_nat (length chunk)"]
    this [of "word_of_nat (length (elems_enc (fragment_elems base_seq i n chunk)))"]
  show ?thesis
    by (simp add: fragment_wire_elems fragment_elems_def length_tlv_enc tlv_size_def varu64_size_def
        split: if_splits)
qed

section \<open>Groups do not interfere\<close>

text \<open>What one fragment does to the group it belongs to, and nothing else.\<close>

definition entry_step ::
  "nat \<Rightarrow> u64 \<Rightarrow> u64 \<Rightarrow> bytes \<Rightarrow> pending option \<Rightarrow> bytes option \<times> pending option" where
  "entry_step now frag_index frag_count fragment eo =
     (if frag_count = 0 \<or> frag_count > MAX_FRAGMENTS \<or> unat frag_index \<ge> unat frag_count then (None, eo)
      else let
        count = unat frag_count; idx = unat frag_index;
        ent = (case eo of Some e \<Rightarrow> e
          | None \<Rightarrow> \<lparr>pd_fragments = replicate count None, pd_frag_count = count, pd_received = 0,
                     pd_created = now\<rparr>)
      in if pd_frag_count ent \<noteq> count \<or> idx \<ge> pd_frag_count ent then (None, Some ent)
      else let
        ent1 = ent\<lparr>pd_received := (if pd_fragments ent ! idx = None then pd_received ent + 1 else pd_received ent),
                   pd_fragments := (pd_fragments ent)[idx := Some fragment]\<rparr>
      in if pd_received ent1 = pd_frag_count ent1
         then (Some (concat (map the (pd_fragments ent1))), None) else (None, Some ent1))"

lemma make_room_idle:
  "map_of (rb_pending rb) key \<noteq> None \<or> length (rb_pending rb) < MAX_PENDING_PACKETS \<Longrightarrow> make_room now key rb = rb"
  by (auto simp: make_room_def)

lemma process_entry_step:
  assumes "map_of (rb_pending rb) (ep, seq) \<noteq> None \<or> length (rb_pending rb) < MAX_PENDING_PACKETS"
  shows "fst (process now ep seq idx cnt frag rb) = fst (entry_step now idx cnt frag (map_of (rb_pending rb) (ep, seq)))"
    and "map_of (rb_pending (snd (process now ep seq idx cnt frag rb))) k =
      (if k = (ep, seq) then snd (entry_step now idx cnt frag (map_of (rb_pending rb) (ep, seq)))
       else map_of (rb_pending rb) k)"
  by (simp_all add: process_def entry_step_def Let_def make_room_idle [OF assms] reject_def update_conv'
      delete_conv')

lemma length_update_le: "length (AList.update k v al) \<le> Suc (length al)"
  by (induction al) auto

lemma length_update_twice: "length (AList.update k v (AList.update k w al)) \<le> Suc (length al)"
  by (induction al) auto

lemma length_process:
  assumes "map_of (rb_pending rb) (ep, seq) \<noteq> None \<or> length (rb_pending rb) < MAX_PENDING_PACKETS"
  shows "length (rb_pending (snd (process now ep seq idx cnt frag rb))) \<le> Suc (length (rb_pending rb))"
proof -
  have "length (AList.delete k (AList.update k v (AList.update k w al))) \<le> Suc (length al)"
    for k v w and al :: "(frag_key \<times> pending) list"
    by (rule le_trans [OF length_delete_le length_update_twice])
  then show ?thesis
    unfolding process_def
    by (simp add: Let_def reject_def length_update_le length_update_twice make_room_idle [OF assms])
qed

record frag_input =
  fi_endpoint :: u64
  fi_seq :: u64
  fi_index :: u64
  fi_count :: u64
  fi_data :: bytes

definition fi_key :: "frag_input \<Rightarrow> frag_key" where
  "fi_key x = (fi_endpoint x, fi_seq x)"

fun process_all :: "(nat \<times> frag_input) list \<Rightarrow> reassembly_buffer \<Rightarrow> bytes option list \<times> reassembly_buffer" where
  "process_all [] rb = ([], rb)"
| "process_all ((now, x) # xs) rb =
     (let (out, rb1) = process now (fi_endpoint x) (fi_seq x) (fi_index x) (fi_count x) (fi_data x) rb;
          (outs, rb2) = process_all xs rb1 in (out # outs, rb2))"

fun entry_run :: "pending option \<Rightarrow> (nat \<times> frag_input) list \<Rightarrow> bytes option list \<times> pending option" where
  "entry_run eo [] = ([], eo)"
| "entry_run eo ((now, x) # xs) =
     (let (out, eo1) = entry_step now (fi_index x) (fi_count x) (fi_data x) eo;
          (outs, eo2) = entry_run eo1 xs in (out # outs, eo2))"

definition outputs_for :: "frag_key \<Rightarrow> (nat \<times> frag_input) list \<Rightarrow> bytes option list \<Rightarrow> bytes option list" where
  "outputs_for k xs outs = map snd (filter (\<lambda>((now, x), out). fi_key x = k) (zip xs outs))"

lemma process_all_projects:
  assumes "length (rb_pending rb) + length xs \<le> MAX_PENDING_PACKETS"
  shows "outputs_for k xs (fst (process_all xs rb)) =
      fst (entry_run (map_of (rb_pending rb) k) (filter (\<lambda>(now, x). fi_key x = k) xs)) \<and>
    map_of (rb_pending (snd (process_all xs rb))) k =
      snd (entry_run (map_of (rb_pending rb) k) (filter (\<lambda>(now, x). fi_key x = k) xs))"
  using assms
proof (induction xs arbitrary: rb)
  case Nil
  then show ?case by (simp add: outputs_for_def)
next
  case (Cons a xs)
  obtain now x where a: "a = (now, x)" by fastforce
  let ?p = "process now (fi_endpoint x) (fi_seq x) (fi_index x) (fi_count x) (fi_data x) rb"
  obtain out rb1 where p: "?p = (out, rb1)" by fastforce
  obtain outs rb2 where q: "process_all xs rb1 = (outs, rb2)" by fastforce
  have room: "map_of (rb_pending rb) (fi_endpoint x, fi_seq x) \<noteq> None \<or> length (rb_pending rb) < MAX_PENDING_PACKETS"
    using Cons.prems by simp
  have step: "out = fst (entry_step now (fi_index x) (fi_count x) (fi_data x) (map_of (rb_pending rb) (fi_key x)))"
    "map_of (rb_pending rb1) k = (if k = fi_key x
       then snd (entry_step now (fi_index x) (fi_count x) (fi_data x) (map_of (rb_pending rb) (fi_key x)))
       else map_of (rb_pending rb) k)"
    using process_entry_step [OF room, of now "fi_index x" "fi_count x" "fi_data x"] p
    by (simp_all add: fi_key_def)
  have "length (rb_pending rb1) + length xs \<le> MAX_PENDING_PACKETS"
    using length_process [OF room, of now "fi_index x" "fi_count x" "fi_data x"] p Cons.prems by simp
  from Cons.IH [OF this] show ?case
    using step p q by (auto simp: a outputs_for_def case_prod_beta)
qed

section \<open>All fragments in any order give the packet back\<close>

definition entry_of_set :: "bytes list \<Rightarrow> nat set \<Rightarrow> nat \<Rightarrow> pending option" where
  "entry_of_set chunks S created = (if S = {} then None else Some
     \<lparr>pd_fragments = map (\<lambda>i. if i \<in> S then Some (chunks ! i) else None) [0..<length chunks],
      pd_frag_count = length chunks, pd_received = card S, pd_created = created\<rparr>)"

lemma unat_small: "n \<le> 400 \<Longrightarrow> unat (word_of_nat n :: u64) = n"
  by (simp add: unat_of_nat)

lemma entry_step_collect:
  assumes "1 \<le> length chunks" "length chunks \<le> 400" "i < length chunks" "i \<notin> S" "S \<subseteq> {0..<length chunks}"
  shows "\<exists>created'. entry_step now (word_of_nat i) (word_of_nat (length chunks)) (chunks ! i) (entry_of_set chunks S created) =
    (if insert i S = {0..<length chunks} then (Some (concat chunks), None)
     else (None, entry_of_set chunks (insert i S) created'))"
proof -
  let ?n = "length chunks"
  let ?created = "if S = {} then now else created"
  have fin: "finite S" using assms(5) finite_subset by blast
  have n: "unat (word_of_nat ?n :: u64) = ?n" "unat (word_of_nat i :: u64) = i"
    using assms by (simp_all add: unat_small)
  then have guard: "\<not> ((word_of_nat ?n :: u64) = 0 \<or> word_of_nat ?n > MAX_FRAGMENTS \<or> unat (word_of_nat i :: u64) \<ge> unat (word_of_nat ?n :: u64))"
    using assms by (auto simp: MAX_FRAGMENTS_def word_less_nat_alt unat_eq_0 [symmetric])
  have card: "card (insert i S) = card S + 1" using fin assms(4) by simp
  have full: "insert i S = {0..<?n} \<longleftrightarrow> card S + 1 = ?n"
    using card assms(3,5) by (metis atLeastLessThan_iff card_atLeastLessThan card_subset_eq diff_zero
        finite_atLeastLessThan insert_subset le0)
  define frags where "frags T = map (\<lambda>j. if j \<in> T then Some (chunks ! j) else None) [0..<?n]" for T
  have upd: "(frags S)[i := Some (chunks ! i)] = frags (insert i S)" "frags S ! i = None"
    using assms(3,4) by (auto simp: frags_def nth_list_update intro: nth_equalityI)
  have rep: "replicate ?n None = frags S" if "S = {}"
    using that by (intro nth_equalityI) (auto simp: frags_def)
  have all: "map the (frags (insert i S)) = chunks" if "insert i S = {0..<?n}"
    unfolding frags_def that by (intro nth_equalityI) auto
  have eo: "(case entry_of_set chunks S created of Some e \<Rightarrow> e
      | None \<Rightarrow> \<lparr>pd_fragments = replicate ?n None, pd_frag_count = ?n, pd_received = 0, pd_created = now\<rparr>) =
    \<lparr>pd_fragments = frags S, pd_frag_count = ?n, pd_received = card S, pd_created = ?created\<rparr>"
    using rep by (auto simp: entry_of_set_def frags_def)
  have step: "entry_step now (word_of_nat i) (word_of_nat ?n) (chunks ! i) (entry_of_set chunks S created) =
    (if card S + 1 = ?n then (Some (concat (map the (frags (insert i S)))), None)
     else (None, Some \<lparr>pd_fragments = frags (insert i S), pd_frag_count = ?n, pd_received = card S + 1,
       pd_created = ?created\<rparr>))"
    unfolding entry_step_def using guard assms(3)
    by (simp only: if_False Let_def n eo) (simp add: upd)
  have next_entry: "Some \<lparr>pd_fragments = frags (insert i S), pd_frag_count = ?n, pd_received = card S + 1,
       pd_created = ?created\<rparr> = entry_of_set chunks (insert i S) ?created"
    by (simp add: entry_of_set_def frags_def card del: Suc_eq_plus1 insert_iff)
  show ?thesis
    unfolding step next_entry full [symmetric] using all by (cases "insert i S = {0..<?n}") auto
qed

lemma entry_run_collect:
  assumes "1 \<le> length chunks" "length chunks \<le> 400" "distinct order" "set order \<inter> S = {}"
    "set order \<union> S = {0..<length chunks}" "order \<noteq> []" "length clock = length order"
  shows "entry_run (entry_of_set chunks S created)
      (zip clock (map (\<lambda>i. \<lparr>fi_endpoint = ep, fi_seq = base, fi_index = word_of_nat i,
        fi_count = word_of_nat (length chunks), fi_data = chunks ! i\<rparr>) order)) =
    (replicate (length order - 1) None @ [Some (concat chunks)], None)"
  using assms(3-)
proof (induction order arbitrary: S created clock)
  case (Cons i order)
  obtain now clock' where t: "clock = now # clock'"
    using Cons.prems by (cases clock) auto
  have i: "i < length chunks" "i \<notin> S" "S \<subseteq> {0..<length chunks}"
    using Cons.prems by auto
  obtain created' where step: "entry_step now (word_of_nat i) (word_of_nat (length chunks)) (chunks ! i) (entry_of_set chunks S created) =
    (if insert i S = {0..<length chunks} then (Some (concat chunks), None)
     else (None, entry_of_set chunks (insert i S) created'))"
    using entry_step_collect [OF assms(1,2) i, of now created] by blast
  show ?case
  proof (cases "order = []")
    case True
    then have "insert i S = {0..<length chunks}" using Cons.prems by auto
    with True step Cons.prems t show ?thesis by simp
  next
    case False
    have "insert i S \<noteq> {0..<length chunks}"
      using False Cons.prems by (cases order) auto
    moreover have "entry_run (entry_of_set chunks (insert i S) created')
        (zip clock' (map (\<lambda>i. \<lparr>fi_endpoint = ep, fi_seq = base, fi_index = word_of_nat i,
          fi_count = word_of_nat (length chunks), fi_data = chunks ! i\<rparr>) order)) =
      (replicate (length order - 1) None @ [Some (concat chunks)], None)"
      using False Cons.prems t by (intro Cons.IH) auto
    ultimately show ?thesis
      using step t False by (cases order) simp_all
  qed
qed simp

section \<open>From the sender's packet to the receiver's\<close>

definition chunk_at :: "bytes \<Rightarrow> nat \<Rightarrow> nat \<Rightarrow> bytes" where
  "chunk_at packet cap i = take cap (drop (i * cap) packet)"

lemma concat_chunks_take: "concat (map (chunk_at packet cap) [0..<n]) = take (n * cap) packet"
proof (induction n)
  case (Suc n)
  have "take (n * cap) packet @ take cap (drop (n * cap) packet) = take (n * cap + cap) packet"
    by (simp add: take_add)
  with Suc show ?case by (simp add: chunk_at_def add.commute)
qed simp

lemma div_ceil_covers: "1 \<le> cap \<Longrightarrow> len \<le> div_ceil len cap * cap"
proof -
  assume "1 \<le> cap"
  have "(len + cap - 1) mod cap \<le> cap - 1"
    using \<open>1 \<le> cap\<close> by (metis One_nat_def Suc_le_lessD less_Suc_eq_le mod_less_divisor Suc_diff_1)
  moreover have "(len + cap - 1) div cap * cap + (len + cap - 1) mod cap = len + cap - 1"
    by simp
  ultimately show ?thesis
    using \<open>1 \<le> cap\<close> unfolding div_ceil_def by linarith
qed

lemma concat_chunks: "1 \<le> cap \<Longrightarrow> concat (map (chunk_at packet cap) [0..<div_ceil (length packet) cap]) = packet"
  by (simp add: concat_chunks_take div_ceil_covers)

lemma fragment_packet_chunks:
  "fragment_packet packet mtu base = (let cap = max (mtu - FRAG_OVERHEAD) 1; n = div_ceil (length packet) cap
     in map (\<lambda>i. fragment_wire base i n (chunk_at packet cap i)) [0..<n])"
proof -
  have "take (min (s + cap) (length packet) - s) (drop s packet) = take cap (drop s packet)" for s cap
    by (cases "s + cap \<le> length packet") (simp_all add: min_def)
  then show ?thesis
    by (simp add: fragment_packet_def chunk_at_def Let_def)
qed

lemma lp_decode_fragment_wire:
  assumes "length (fragment_wire base i n chunk) < 2 ^ 63"
  shows "lp_decode (fragment_wire base i n chunk) = Inr (lp_packet_empty\<lparr>lp_fragment := Some chunk,
    lp_sequence := Some (base + word_of_nat i), lp_frag_index := Some (word_of_nat i),
    lp_frag_count := Some (word_of_nat n)\<rparr>)"
proof -
  have "types_ok (fragment_elems base i n chunk)" by (simp add: fragment_elems_def)
  moreover have "flow_fold lp_body lp_finish lp_init (fragment_elems base i n chunk) =
      Inr (lp_packet_empty\<lparr>lp_fragment := Some chunk, lp_sequence := Some (base + word_of_nat i),
        lp_frag_index := Some (word_of_nat i), lp_frag_count := Some (word_of_nat n)\<rparr>)"
    by (simp add: fragment_elems_def lp_body_def lp_order_ok_def lp_init_def lp_finish_def lp_packet_empty_def)
  ultimately show ?thesis
    using lp_decode_elems [of "fragment_elems base i n chunk" "[]"] assms
    by (simp only: fragment_wire_elems append_Nil2)
qed

lemma extract_fragment_wire:
  assumes "length (fragment_wire base i n chunk) < 2 ^ 63" "1 < n" "n \<le> 400"
  shows "\<exists>h. extract_fragment (fragment_wire base i n chunk) = Some h \<and> fh_sequence h = base + word_of_nat i \<and>
    fh_frag_index h = word_of_nat i \<and> fh_frag_count h = word_of_nat n \<and>
    take (fh_frag_end h - fh_frag_start h) (drop (fh_frag_start h) (fragment_wire base i n chunk)) = chunk"
proof -
  let ?p = "lp_packet_empty\<lparr>lp_fragment := Some chunk, lp_sequence := Some (base + word_of_nat i),
      lp_frag_index := Some (word_of_nat i), lp_frag_count := Some (word_of_nat n)\<rparr>"
  let ?raw = "fragment_wire base i n chunk"
  note dec = extract_fragment_decoded [OF lp_decode_fragment_wire [OF assms(1)] assms(1)]
  have "is_fragmented ?p"
    using assms(2,3) by (simp add: is_fragmented_def word_less_nat_alt unat_small)
  then have "extract_fragment ?raw \<noteq> None"
    using dec [THEN conjunct1] by simp
  then obtain h where h: "extract_fragment ?raw = Some h" by blast
  have "get_range ?raw (fh_frag_start h) (fh_frag_end h) = Some chunk"
    "fh_sequence h = base + word_of_nat i" "fh_frag_index h = word_of_nat i" "fh_frag_count h = word_of_nat n"
    using dec [THEN conjunct2, THEN spec, of h, THEN mp, OF h] by auto
  with h show ?thesis by (auto simp: get_range_def split: if_splits)
qed

text \<open>The receive loop of one face: every arriving packet goes through the fragment fast path.\<close>

fun collect_all ::
  "u64 \<Rightarrow> u64 \<Rightarrow> (nat \<times> bytes) list \<Rightarrow> reassembly_table \<Rightarrow> (bytes + bytes option) list \<times> reassembly_table" where
  "collect_all fid ep [] table = ([], table)"
| "collect_all fid ep ((now, raw) # rest) table =
     (let (out, table1) = try_collect_fragment now fid ep raw table;
          (outs, table2) = collect_all fid ep rest table1 in (out # outs, table2))"

abbreviation face_buffer :: "u64 \<Rightarrow> reassembly_table \<Rightarrow> reassembly_buffer" where
  "face_buffer fid table \<equiv>
     (case map_of table fid of Some rb \<Rightarrow> rb | None \<Rightarrow> reassembly_new DEFAULT_REASSEMBLY_TIMEOUT)"

lemma try_collect_fragment_wire:
  assumes "length (fragment_wire base i n chunk) < 2 ^ 63" "1 < n" "n \<le> 400" "i < n" "unat base + n \<le> 2 ^ 64"
  shows "try_collect_fragment now fid ep (fragment_wire base i n chunk) table =
    (let (out, rb) = process now ep base (word_of_nat i) (word_of_nat n) chunk (face_buffer fid table)
     in (Inr out, AList.update fid rb table))"
proof -
  obtain h where h: "extract_fragment (fragment_wire base i n chunk) = Some h"
    "fh_sequence h = base + word_of_nat i" "fh_frag_index h = word_of_nat i" "fh_frag_count h = word_of_nat n"
    "take (fh_frag_end h - fh_frag_start h) (drop (fh_frag_start h) (fragment_wire base i n chunk)) = chunk"
    using extract_fragment_wire [OF assms(1-3)] by blast
  have "unat (base + word_of_nat i :: u64) = unat base + i"
    using assms(3-5) by (simp add: unat_word_ariths unat_small)
  then have "checked_sub (base + word_of_nat i) (word_of_nat i) = Some base"
    using assms(3,4) by (simp add: checked_sub_def word_le_nat_alt unat_small)
  with h show ?thesis by (simp add: try_collect_fragment_def Let_def case_prod_beta)
qed

lemma collect_all_wires:
  assumes "\<forall>i < n. length (fragment_wire base i n (chunks ! i)) < 2 ^ 63" "1 < n" "n \<le> 400"
    "unat base + n \<le> 2 ^ 64" "\<forall>i \<in> set order. i < n" "length clock = length order"
  shows "fst (collect_all fid ep (zip clock (map (\<lambda>i. fragment_wire base i n (chunks ! i)) order)) table) =
    map Inr (fst (process_all (zip clock (map (\<lambda>i. \<lparr>fi_endpoint = ep, fi_seq = base, fi_index = word_of_nat i,
        fi_count = word_of_nat n, fi_data = chunks ! i\<rparr>) order)) (face_buffer fid table)))"
  using assms(5,6)
proof (induction order arbitrary: clock table)
  case (Cons i order)
  obtain now clock' where clock: "clock = now # clock'" using Cons.prems by (cases clock) auto
  obtain out rb where p: "process now ep base (word_of_nat i) (word_of_nat n) (chunks ! i) (face_buffer fid table) = (out, rb)"
    by fastforce
  have "try_collect_fragment now fid ep (fragment_wire base i n (chunks ! i)) table = (Inr out, AList.update fid rb table)"
    using try_collect_fragment_wire [of base i n "chunks ! i" now fid ep table] Cons.prems assms(1-4) p by simp
  moreover have "face_buffer fid (AList.update fid rb table) = rb" by (simp add: update_conv')
  ultimately show ?case
    using Cons.IH [of clock' "AList.update fid rb table"] Cons.prems p
    by (simp add: clock case_prod_beta)
qed simp

lemma outputs_for_all:
  "\<forall>(now, x) \<in> set xs. fi_key x = k \<Longrightarrow> length outs = length xs \<Longrightarrow> outputs_for k xs outs = outs"
proof (induction xs arbitrary: outs)
  case (Cons x xs)
  then show ?case by (cases outs) (auto simp: outputs_for_def)
qed (simp add: outputs_for_def)

lemma length_process_all: "length (fst (process_all xs rb)) = length xs"
  by (induction xs arbitrary: rb) (auto simp: case_prod_beta)

section \<open>Bounded memory\<close>

definition filled :: "bytes option list \<Rightarrow> nat" where
  "filled fs = length (filter (\<lambda>f. f \<noteq> None) fs)"

definition group_ok :: "pending \<Rightarrow> bool" where
  "group_ok e \<longleftrightarrow> length (pd_fragments e) = pd_frag_count e \<and> pd_frag_count e \<le> 400 \<and>
     pd_received e = filled (pd_fragments e) \<and> pd_received e < pd_frag_count e"

definition reassembly_ok :: "reassembly_buffer \<Rightarrow> bool" where
  "reassembly_ok rb \<longleftrightarrow> distinct (map fst (rb_pending rb)) \<and> length (rb_pending rb) \<le> MAX_PENDING_PACKETS \<and>
     (\<forall>e \<in> snd ` set (rb_pending rb). group_ok e)"

lemma filled_update:
  "i < length fs \<Longrightarrow> filled (fs[i := Some v]) = (if fs ! i = None then Suc (filled fs) else filled fs)"
  by (induction fs arbitrary: i) (auto simp: filled_def split: nat.split)

lemma filled_full: "filled fs = length fs \<Longrightarrow> \<exists>cs. fs = map Some cs"
proof (induction fs)
  case (Cons f fs)
  have "filled fs \<le> length fs" unfolding filled_def by (rule length_filter_le)
  with Cons obtain c cs where "f = Some c" "fs = map Some cs"
    by (cases f) (auto simp: filled_def)
  then have "f # fs = map Some (c # cs)" by simp
  then show ?case by (rule exI)
qed simp

lemma group_ok_step:
  assumes "group_ok e" "pd_frag_count e = n" "idx < n"
    "e' = e\<lparr>pd_received := (if pd_fragments e ! idx = None then pd_received e + 1 else pd_received e),
            pd_fragments := (pd_fragments e)[idx := Some v]\<rparr>"
  shows "pd_received e' = pd_frag_count e' \<or> group_ok e'"
    and "pd_received e' = filled (pd_fragments e')" "length (pd_fragments e') = pd_frag_count e'"
  using assms by (auto simp: group_ok_def filled_update)

lemma reassembly_ok_reject [simp]: "reassembly_ok (reject rb) = reassembly_ok rb"
  by (simp add: reassembly_ok_def reject_def)

lemma distinct_fst_filter: "distinct (map fst xs) \<Longrightarrow> distinct (map fst (filter P xs))"
  by (induction xs) auto

lemma reassembly_ok_purge: "reassembly_ok rb \<Longrightarrow> reassembly_ok (purge_expired now rb)"
  by (auto simp: reassembly_ok_def purge_expired_def Let_def distinct_fst_filter
      intro: le_trans [OF length_filter_le])

lemma delete_filter: "AList.delete k xs = filter (\<lambda>(k', v). k \<noteq> k') xs"
  by (simp add: AList.delete_eq)

lemma min_by_key_mem: "min_by_key f xs = Some y \<Longrightarrow> y \<in> set xs"
  by (induction xs arbitrary: y) (auto split: option.splits if_splits)

lemma min_by_key_None: "min_by_key f xs = None \<longleftrightarrow> xs = []"
  by (cases xs) (auto split: option.splits)

lemma length_delete_mem: "k \<in> fst ` set xs \<Longrightarrow> length (AList.delete k xs) < length xs"
  by (induction xs) (use length_delete_le [of k] in \<open>auto simp: less_Suc_eq_le Suc_le_eq\<close>)

lemma reassembly_ok_evict: "reassembly_ok rb \<Longrightarrow> reassembly_ok (evict_oldest rb)"
  by (auto simp: reassembly_ok_def evict_oldest_def delete_filter distinct_fst_filter
      split: option.splits intro: le_trans [OF length_filter_le])

lemma length_evict_oldest:
  assumes "rb_pending rb \<noteq> []"
  shows "length (rb_pending (evict_oldest rb)) < length (rb_pending rb)"
proof -
  obtain k v where m: "min_by_key (\<lambda>(k, v). pd_created v) (rb_pending rb) = Some (k, v)"
    using assms by (cases "min_by_key (\<lambda>(k, v). pd_created v) (rb_pending rb)") (auto simp: min_by_key_None)
  then have mem: "k \<in> fst ` set (rb_pending rb)" using min_by_key_mem by force
  then obtain d where "map_of (rb_pending rb) k = Some d"
    by (metis map_of_eq_None_iff option.exhaust)
  with m mem show ?thesis by (simp add: evict_oldest_def length_delete_mem)
qed

lemma make_room_ok:
  assumes "reassembly_ok rb"
  shows "reassembly_ok (make_room now key rb)"
    and "map_of (rb_pending (make_room now key rb)) key = None \<Longrightarrow>
      length (rb_pending (make_room now key rb)) < MAX_PENDING_PACKETS"
proof -
  let ?rb1 = "purge_expired now rb"
  have ok1: "reassembly_ok ?rb1" by (rule reassembly_ok_purge [OF assms])
  then show "reassembly_ok (make_room now key rb)"
    using assms by (simp add: make_room_def Let_def reassembly_ok_evict)
  have le: "length (rb_pending ?rb1) \<le> MAX_PENDING_PACKETS" using ok1 by (simp add: reassembly_ok_def)
  show "length (rb_pending (make_room now key rb)) < MAX_PENDING_PACKETS"
    if "map_of (rb_pending (make_room now key rb)) key = None"
    using that length_evict_oldest [of ?rb1] le
    by (cases "rb_pending ?rb1 = []") (auto simp: make_room_def Let_def MAX_PENDING_PACKETS_def split: if_splits)
qed

lemma length_update: "length (AList.update k v al) = (if map_of al k = None then Suc (length al) else length al)"
  by (induction al) auto

lemma snd_update: "snd ` set (AList.update key v al) \<subseteq> insert v (snd ` set al)"
  by (induction al) auto

lemma reassembly_ok_store:
  assumes "reassembly_ok rb" "map_of (rb_pending rb) key = None \<Longrightarrow> length (rb_pending rb) < MAX_PENDING_PACKETS"
    "group_ok e" "rb_pending rb' = AList.update key e (rb_pending rb)"
  shows "reassembly_ok rb'"
proof -
  have "\<forall>e \<in> snd ` set (rb_pending rb'). group_ok e"
    using assms(1,3) snd_update [of key e "rb_pending rb"] unfolding reassembly_ok_def assms(4) by blast
  then show ?thesis
    using assms(1,2) unfolding reassembly_ok_def assms(4)
    by (simp add: distinct_update length_update Suc_le_eq)
qed

lemma reassembly_ok_delete:
  assumes "reassembly_ok rb" "rb_pending rb' = AList.delete key (rb_pending rb)"
  shows "reassembly_ok rb'"
  using assms(1) unfolding reassembly_ok_def assms(2)
  by (auto simp: delete_filter distinct_fst_filter intro: le_trans [OF length_filter_le])

lemma delete_update_same: "AList.delete k (AList.update k v al) = AList.delete k al"
  by (induction al) auto

lemma update_same_value: "map_of al k = Some v \<Longrightarrow> AList.update k v al = al"
  by (induction al) (auto split: if_splits)

lemma update_update_same: "AList.update k v (AList.update k w al) = AList.update k v al"
  by (induction al) auto

text \<open>The bytes a group holds.\<close>

definition held_bytes :: "bytes option list \<Rightarrow> nat" where
  "held_bytes fs = sum_list (map (case_option 0 length) fs)"

definition group_bytes :: "pending option \<Rightarrow> nat" where
  "group_bytes e = (case e of Some e \<Rightarrow> held_bytes (pd_fragments e) | None \<Rightarrow> 0)"

lemma held_bytes_update: "held_bytes (fs[i := Some v]) \<le> held_bytes fs + length v"
  by (induction fs arbitrary: i) (auto simp: held_bytes_def split: nat.split)

lemma held_bytes_full: "held_bytes (map Some cs) = length (concat cs)"
  by (induction cs) (simp_all add: held_bytes_def)

text \<open>The fragments of the group a fragment lands in, and whether that group announced as many.\<close>

definition slots_at :: "reassembly_buffer \<Rightarrow> frag_key \<Rightarrow> nat \<Rightarrow> bytes option list" where
  "slots_at rb key n = (case map_of (rb_pending rb) key of Some e \<Rightarrow> pd_fragments e | None \<Rightarrow> replicate n None)"

definition announced_at :: "reassembly_buffer \<Rightarrow> frag_key \<Rightarrow> nat \<Rightarrow> bool" where
  "announced_at rb key n \<longleftrightarrow> (\<forall>e. map_of (rb_pending rb) key = Some e \<longrightarrow> pd_frag_count e = n)"

text \<open>One arriving fragment, with the group it lands in made explicit.\<close>

lemma process_cases:
  assumes "reassembly_ok rb"
  obtains (rejected) "fst (process now ep seq idx cnt frag rb) = None"
      "rb_pending (snd (process now ep seq idx cnt frag rb)) = rb_pending rb"
  | (mismatch) "fst (process now ep seq idx cnt frag rb) = None"
      "rb_pending (snd (process now ep seq idx cnt frag rb)) = rb_pending (make_room now (ep, seq) rb)"
  | (stored) e where "group_ok e" "fst (process now ep seq idx cnt frag rb) = None"
      "rb_pending (snd (process now ep seq idx cnt frag rb)) =
        AList.update (ep, seq) e (rb_pending (make_room now (ep, seq) rb))"
      "group_bytes (Some e) \<le> group_bytes (map_of (rb_pending (make_room now (ep, seq) rb)) (ep, seq)) + length frag"
      "pd_frag_count e = unat cnt" "announced_at (make_room now (ep, seq) rb) (ep, seq) (unat cnt)"
      "pd_fragments e = (slots_at (make_room now (ep, seq) rb) (ep, seq) (unat cnt))[unat idx := Some frag]"
  | (completed) chunks where "length chunks = unat cnt" "chunks ! unat idx = frag" "unat idx < unat cnt"
      "fst (process now ep seq idx cnt frag rb) = Some (concat chunks)"
      "rb_pending (snd (process now ep seq idx cnt frag rb)) =
        AList.delete (ep, seq) (rb_pending (make_room now (ep, seq) rb))"
      "length (concat chunks) \<le> group_bytes (map_of (rb_pending (make_room now (ep, seq) rb)) (ep, seq)) + length frag"
      "announced_at (make_room now (ep, seq) rb) (ep, seq) (unat cnt)"
      "map Some chunks = (slots_at (make_room now (ep, seq) rb) (ep, seq) (unat cnt))[unat idx := Some frag]"
proof -
  define key where "key = (ep, seq)"
  define rb1 where "rb1 = make_room now key rb"
  define n where "n = unat cnt"
  define ent where "ent = (case map_of (rb_pending rb1) key of Some e \<Rightarrow> e
    | None \<Rightarrow> \<lparr>pd_fragments = replicate n None, pd_frag_count = n, pd_received = 0, pd_created = now\<rparr>)"
  define ent1 where "ent1 = ent\<lparr>pd_received := (if pd_fragments ent ! unat idx = None then pd_received ent + 1 else pd_received ent),
    pd_fragments := (pd_fragments ent)[unat idx := Some frag]\<rparr>"
  have ok1: "reassembly_ok rb1" unfolding rb1_def by (rule make_room_ok(1) [OF assms])
  show thesis
  proof (cases "cnt = 0 \<or> cnt > MAX_FRAGMENTS \<or> unat idx \<ge> n")
    case True
    then show thesis by (intro rejected) (auto simp: process_def n_def reject_def)
  next
    case False
    then have n: "0 < n" "n \<le> 400" "unat idx < n"
      by (auto simp: n_def MAX_FRAGMENTS_def unat_gt_0 word_le_nat_alt not_less)
    have ent: "group_ok ent"
    proof (cases "map_of (rb_pending rb1) key")
      case (Some e)
      then show ?thesis using ok1 map_of_SomeD [OF Some] by (force simp: reassembly_ok_def ent_def)
    qed (use n in \<open>simp add: ent_def group_ok_def filled_def\<close>)
    have run: "fst (process now ep seq idx cnt frag rb) =
        (if pd_frag_count ent = n \<and> pd_received ent1 = pd_frag_count ent1
         then Some (concat (map the (pd_fragments ent1))) else None)"
      "rb_pending (snd (process now ep seq idx cnt frag rb)) =
        (if pd_frag_count ent \<noteq> n then AList.update key ent (rb_pending rb1)
         else if pd_received ent1 = pd_frag_count ent1 then AList.delete key (rb_pending rb1)
         else AList.update key ent1 (rb_pending rb1))"
      using False n unfolding process_def key_def [symmetric] Let_def rb1_def [symmetric] n_def [symmetric]
        ent_def [symmetric] ent1_def [symmetric]
      by (simp_all add: delete_update_same update_update_same reject_def)
    show thesis
    proof (cases "pd_frag_count ent = n")
      case False
      then obtain e where e: "map_of (rb_pending rb1) key = Some e" "ent = e"
        by (auto simp: ent_def split: option.splits)
      have "AList.update key ent (rb_pending rb1) = rb_pending rb1"
        unfolding e(2) by (rule update_same_value [OF e(1)])
      then show thesis using False run by (intro mismatch) (simp_all add: key_def rb1_def)
    next
      case True
      note st = group_ok_step [OF ent True n(3) ent1_def]
      have cnt: "pd_frag_count ent1 = n" "pd_fragments ent1 = (pd_fragments ent)[unat idx := Some frag]"
        using True by (simp_all add: ent1_def)
      have slots: "pd_fragments ent = slots_at rb1 key n" "announced_at rb1 key n"
        using True by (auto simp: ent_def slots_at_def announced_at_def split: option.splits)
      have "held_bytes (pd_fragments ent) = group_bytes (map_of (rb_pending rb1) key)"
        by (simp add: ent_def group_bytes_def held_bytes_def split: option.split)
      then have bytes: "held_bytes (pd_fragments ent1) \<le> group_bytes (map_of (rb_pending rb1) key) + length frag"
        unfolding cnt(2) using held_bytes_update [of "pd_fragments ent" "unat idx" frag] by simp
      show thesis
      proof (cases "pd_received ent1 = pd_frag_count ent1")
        case False
        then show thesis
          using run True st(1) bytes cnt slots by (intro stored [of ent1]) (simp_all add: key_def rb1_def group_bytes_def n_def)
      next
        case full: True
        obtain cs where cs: "pd_fragments ent1 = map Some cs"
          using filled_full [of "pd_fragments ent1"] st full by auto
        have "length cs = n" using st(3) cnt(1) arg_cong [OF cs, of length] by simp
        moreover have "map Some cs ! unat idx = Some frag"
          unfolding cs [symmetric] cnt(2) using ent True n(3) by (simp add: group_ok_def)
        moreover have "length (concat cs) \<le> group_bytes (map_of (rb_pending rb1) key) + length frag"
          using bytes unfolding cs held_bytes_full .
        ultimately show thesis
          using run True full n cs cnt(2) slots by (intro completed [of cs]) (simp_all add: key_def rb1_def n_def comp_def)
      qed
    qed
  qed
qed

lemma reassembly_ok_new: "reassembly_ok (reassembly_new timeout)"
  by (simp add: reassembly_ok_def reassembly_new_def)

lemma reassembly_ok_process:
  assumes "reassembly_ok rb"
  shows "reassembly_ok (snd (process now ep seq idx cnt frag rb))"
proof -
  note room = make_room_ok [OF assms, of now "(ep, seq)"]
  from assms show ?thesis
  proof (cases rule: process_cases [where now = now and ep = ep and seq = seq and idx = idx and cnt = cnt and frag = frag])
    case rejected
    then show ?thesis using assms by (simp add: reassembly_ok_def)
  next
    case mismatch
    then show ?thesis using room(1) by (simp add: reassembly_ok_def)
  next
    case (stored e)
    then show ?thesis using reassembly_ok_store [OF room stored(1) stored(3)] by simp
  next
    case (completed chunks)
    then show ?thesis using reassembly_ok_delete [OF room(1) completed(5)] by simp
  qed
qed

lemma purge_expired_pending:
  "rb_pending (purge_expired now rb) = filter (\<lambda>(k, v). now - pd_created v < rb_timeout rb) (rb_pending rb)"
  by (simp add: purge_expired_def Let_def)

section \<open>Every stored fragment was received\<close>

text \<open>A buffer with the fragments it has been given so far, purges at any time in between.\<close>

inductive reassembly_history :: "nat \<Rightarrow> frag_input list \<Rightarrow> reassembly_buffer \<Rightarrow> bool" for timeout where
  new: "reassembly_history timeout [] (reassembly_new timeout)"
| fragment: "reassembly_history timeout h rb \<Longrightarrow>
    reassembly_history timeout (h @ [x]) (snd (process now (fi_endpoint x) (fi_seq x) (fi_index x) (fi_count x) (fi_data x) rb))"
| purge: "reassembly_history timeout h rb \<Longrightarrow> reassembly_history timeout h (purge_expired now rb)"

definition received_as :: "frag_input list \<Rightarrow> frag_key \<Rightarrow> nat \<Rightarrow> nat \<Rightarrow> bytes \<Rightarrow> bool" where
  "received_as h key n i v \<longleftrightarrow>
     (\<exists>x \<in> set h. fi_key x = key \<and> unat (fi_count x) = n \<and> unat (fi_index x) = i \<and> fi_data x = v)"

definition backed :: "frag_input list \<Rightarrow> reassembly_buffer \<Rightarrow> bool" where
  "backed h rb \<longleftrightarrow> (\<forall>(k, e) \<in> set (rb_pending rb). \<forall>i < length (pd_fragments e). \<forall>v.
     pd_fragments e ! i = Some v \<longrightarrow> received_as h k (pd_frag_count e) i v)"

lemma received_as_mono: "received_as h key n i v \<Longrightarrow> received_as (h @ [x]) key n i v"
  by (auto simp: received_as_def)

lemma backed_subset: "backed h rb \<Longrightarrow> set (rb_pending rb') \<subseteq> set (rb_pending rb) \<Longrightarrow> backed h rb'"
  unfolding backed_def by blast

lemma make_room_subset: "set (rb_pending (make_room now key rb)) \<subseteq> set (rb_pending rb)"
proof -
  have "set (rb_pending (evict_oldest rb)) \<subseteq> set (rb_pending rb)" for rb
    by (auto simp: evict_oldest_def delete_filter split: option.split)
  moreover have "set (rb_pending (purge_expired now rb)) \<subseteq> set (rb_pending rb)"
    by (auto simp: purge_expired_def Let_def)
  ultimately show ?thesis by (auto simp: make_room_def Let_def)
qed

lemma slots_received:
  assumes "backed h rb" "announced_at rb (fi_key x) (unat (fi_count x))" "i < length fs" "fs ! i = Some v"
    "fs = (slots_at rb (fi_key x) (unat (fi_count x)))[unat (fi_index x) := Some (fi_data x)]"
  shows "received_as (h @ [x]) (fi_key x) (unat (fi_count x)) i v"
proof (cases "i = unat (fi_index x)")
  case True
  then have "v = fi_data x" using assms(3-5) by simp
  then show ?thesis using True by (auto simp: received_as_def)
next
  case False
  then have s: "slots_at rb (fi_key x) (unat (fi_count x)) ! i = Some v" "i < length (slots_at rb (fi_key x) (unat (fi_count x)))"
    using assms(3-5) by simp_all
  then obtain e where e: "map_of (rb_pending rb) (fi_key x) = Some e" "pd_fragments e ! i = Some v" "i < length (pd_fragments e)"
    by (auto simp: slots_at_def split: option.splits)
  then have "received_as h (fi_key x) (pd_frag_count e) i v"
    using assms(1) map_of_SomeD [OF e(1)] by (auto simp: backed_def)
  then show ?thesis using assms(2) e(1) by (auto simp: announced_at_def intro: received_as_mono)
qed

lemma set_update_subset: "set (AList.update k v al) \<subseteq> insert (k, v) (set al)"
  by (induction al) auto

lemma backed_process:
  assumes "reassembly_ok rb" "backed h rb"
  shows "backed (h @ [x]) (snd (process now (fi_endpoint x) (fi_seq x) (fi_index x) (fi_count x) (fi_data x) rb))"
proof -
  let ?rb = "make_room now (fi_endpoint x, fi_seq x) rb"
  have key: "fi_key x = (fi_endpoint x, fi_seq x)" by (simp add: fi_key_def)
  have old: "backed (h @ [x]) rb" using assms(2) received_as_mono by (fastforce simp: backed_def)
  have room: "backed (h @ [x]) ?rb" "backed h ?rb" using backed_subset make_room_subset old assms(2) by blast+
  from assms(1) show ?thesis
  proof (cases rule: process_cases [where now = now and ep = "fi_endpoint x" and seq = "fi_seq x" and idx = "fi_index x" and cnt = "fi_count x" and frag = "fi_data x"])
    case rejected
    then show ?thesis using backed_subset [OF old] by simp
  next
    case mismatch
    then show ?thesis using backed_subset [OF room(1)] by simp
  next
    case (stored e)
    have "received_as (h @ [x]) (fi_endpoint x, fi_seq x) (pd_frag_count e) i v"
      if "i < length (pd_fragments e)" "pd_fragments e ! i = Some v" for i v
      using slots_received [OF room(2), of x i "pd_fragments e" v] stored(5-7) that by (simp add: key)
    then show ?thesis
      using room(1) set_update_subset [of "(fi_endpoint x, fi_seq x)" e "rb_pending ?rb"] unfolding backed_def stored(3) by blast
  next
    case (completed chunks)
    then show ?thesis using backed_subset [OF room(1)] by (simp add: delete_filter)
  qed
qed

lemma history_ok: "reassembly_history timeout h rb \<Longrightarrow> reassembly_ok rb \<and> backed h rb"
proof (induction rule: reassembly_history.induct)
  case new
  show ?case using reassembly_ok_new by (simp add: backed_def) (simp add: reassembly_new_def)
next
  case (fragment h rb x now)
  then show ?case using reassembly_ok_process backed_process by blast
next
  case (purge h rb now)
  then show ?case
    using reassembly_ok_purge backed_subset [of h rb "purge_expired now rb"] by (auto simp: purge_expired_pending)
qed

section \<open>Properties\<close>

text \<open>Fragmentation: every fragment of a packet fits the MTU whenever the MTU exceeds the header
  reserve of 50 bytes, the number of fragments is the payload size divided by the room per
  fragment, rounded up, and the fragments carry the packet's bytes in order without gap or overlap.\<close>

lemma fragments_fit_mtu:
  assumes "FRAG_OVERHEAD < mtu"
  shows "\<exists>chunks. fragment_packet packet mtu base_seq =
      map (\<lambda>i. fragment_wire base_seq i (length chunks) (chunks ! i)) [0..<length chunks] \<and>
    concat chunks = packet \<and> length chunks = div_ceil (length packet) (mtu - FRAG_OVERHEAD) \<and>
    (\<forall>w \<in> set (fragment_packet packet mtu base_seq). length w \<le> mtu)"
proof -
  define cap where "cap = mtu - FRAG_OVERHEAD"
  define n where "n = div_ceil (length packet) cap"
  define chunks where "chunks = map (chunk_at packet cap) [0..<n]"
  have cap: "1 \<le> cap" "max (mtu - FRAG_OVERHEAD) 1 = cap" "cap + 50 = mtu"
    using assms by (simp_all add: cap_def FRAG_OVERHEAD_def)
  have wires: "fragment_packet packet mtu base_seq = map (\<lambda>i. fragment_wire base_seq i n (chunk_at packet cap i)) [0..<n]"
    by (simp only: fragment_packet_chunks cap(2) n_def Let_def)
  have "length (fragment_wire base_seq i n (chunk_at packet cap i)) \<le> mtu" for i
    using length_fragment_wire [of base_seq i n "chunk_at packet cap i"] cap(3)
    by (simp add: chunk_at_def)
  moreover have "concat chunks = packet"
    unfolding chunks_def n_def by (rule concat_chunks [OF cap(1)])
  ultimately show ?thesis
    by (intro exI [of _ chunks]) (auto simp: wires chunks_def n_def cap_def)
qed

text \<open>Reassembly is independent of order and of other traffic: when the fragments of one packet
  arrive in any order, interleaved with arbitrary other fragments (of other senders, other packets,
  or malformed), and the buffer does not overflow meanwhile, then exactly the last of them makes the
  buffer hand out the packet, with the bytes that were cut up.\<close>

lemma reassembly_any_order:
  assumes "1 \<le> length chunks" "length chunks \<le> 400" "distinct order" "set order = {0..<length chunks}"
    and "length clock = length order"
    and "filter (\<lambda>(now, x). fi_key x = (ep, base)) xs =
      zip clock (map (\<lambda>i. \<lparr>fi_endpoint = ep, fi_seq = base, fi_index = word_of_nat i,
        fi_count = word_of_nat (length chunks), fi_data = chunks ! i\<rparr>) order)"
    and "map_of (rb_pending rb) (ep, base) = None"
    and "length (rb_pending rb) + length xs \<le> MAX_PENDING_PACKETS"
  shows "outputs_for (ep, base) xs (fst (process_all xs rb)) =
      replicate (length chunks - 1) None @ [Some (concat chunks)] \<and>
    map_of (rb_pending (snd (process_all xs rb))) (ep, base) = None"
proof -
  have len: "length order = length chunks" and "order \<noteq> []"
    using assms(1,3,4) distinct_card [OF assms(3)] by auto
  then show ?thesis
    using process_all_projects [OF assms(8), of "(ep, base)"]
      entry_run_collect [OF assms(1-3), of "{}" clock 0 ep base] assms(4,5,6,7)
    by (simp add: entry_of_set_def)
qed

text \<open>C17. End to end over the wire: the fragments that the sender writes for a packet, delivered to
  the decode stage in any order, are all recognised by the fragment fast path, and the last one
  returns the original packet.\<close>

theorem fragment_reassembly_end_to_end:
  assumes "wires = fragment_packet packet mtu base" "1 < length wires" "length wires \<le> 400"
    and "unat base + length wires \<le> 2 ^ 64" "\<forall>w \<in> set wires. length w < 2 ^ 63"
    and "distinct order" "set order = {0..<length wires}" "length clock = length order"
    and "map_of (rb_pending (face_buffer fid table)) (ep, base) = None"
    and "length (rb_pending (face_buffer fid table)) + length wires \<le> MAX_PENDING_PACKETS"
  shows "fst (collect_all fid ep (zip clock (map ((!) wires) order)) table) =
    replicate (length wires - 1) (Inr None) @ [Inr (Some packet)]"
proof -
  define cap where "cap = max (mtu - FRAG_OVERHEAD) 1"
  define n where "n = div_ceil (length packet) cap"
  define chunks where "chunks = map (chunk_at packet cap) [0..<n]"
  have w: "wires = map (\<lambda>i. fragment_wire base i n (chunk_at packet cap i)) [0..<n]"
    unfolding assms(1) fragment_packet_chunks Let_def cap_def n_def ..
  have n: "length wires = n" "length chunks = n" by (simp_all add: w chunks_def)
  have nth: "wires ! i = fragment_wire base i n (chunks ! i)" if "i < n" for i
    using that by (simp add: w chunks_def)
  have packet: "concat chunks = packet"
    unfolding chunks_def n_def by (rule concat_chunks) (simp add: cap_def)
  have order: "\<forall>i \<in> set order. i < n" using assms(7) n by auto
  let ?xs = "zip clock (map (\<lambda>i. \<lparr>fi_endpoint = ep, fi_seq = base, fi_index = word_of_nat i,
        fi_count = word_of_nat n, fi_data = chunks ! i\<rparr>) order)"
  have sends: "map ((!) wires) order = map (\<lambda>i. fragment_wire base i n (chunks ! i)) order"
    using order nth by auto
  have small: "\<forall>i < n. length (fragment_wire base i n (chunks ! i)) < 2 ^ 63"
    using assms(5) nth nth_mem n(1) by metis
  have out: "fst (collect_all fid ep (zip clock (map ((!) wires) order)) table) =
      map Inr (fst (process_all ?xs (face_buffer fid table)))"
    unfolding sends using assms(2-4) n(1)
    by (intro collect_all_wires [OF small _ _ _ order assms(8)]) simp_all
  have keys: "\<forall>(now, x) \<in> set ?xs. fi_key x = (ep, base)"
    by (auto simp: fi_key_def dest!: set_zip_rightD)
  then have only: "filter (\<lambda>(now, x). fi_key x = (ep, base)) ?xs = ?xs"
    by (intro filter_True) auto
  have len: "length order = n" using assms(6,7) n(1) distinct_card [OF assms(6)] by simp
  have ne: "order \<noteq> []" using len assms(2) n(1) by auto
  have "fst (process_all ?xs (face_buffer fid table)) = fst (entry_run None ?xs)"
    using process_all_projects [of "face_buffer fid table" ?xs "(ep, base)"]
      outputs_for_all [OF keys length_process_all] assms(8-10) n(1) len only by simp
  also have "\<dots> = replicate (n - 1) None @ [Some packet]"
    using entry_run_collect [of chunks order "{}" clock 0 ep base] assms(2,3,6,7,8) n len packet ne
    by (auto simp: entry_of_set_def)
  finally show ?thesis unfolding out n(1) by simp
qed

theorem fragment_reassembly_end_to_end_witness:
  "fst (collect_all 1 9 (zip [5, 6, 7] (map ((!) (fragment_packet [1, 2, 3, 4, 5] 52 7)) [2, 0, 1])) []) =
     [Inr None, Inr None, Inr (Some [1, 2, 3, 4, 5])]"
proof -
  have size: "length [1, 2, 3, 4, 5 :: u8] = 5" "max (52 - FRAG_OVERHEAD) 1 = 2" "div_ceil 5 2 = 3"
    by (simp_all add: FRAG_OVERHEAD_def div_ceil_def)
  have n: "length (fragment_packet [1, 2, 3, 4, 5] 52 7) = 3"
    unfolding fragment_packet_def Let_def size by simp
  have "length w \<le> 52" if mem: "w \<in> set (fragment_packet [1, 2, 3, 4, 5] 52 7)" for w
  proof -
    obtain i where w: "w = fragment_wire 7 i 3 (chunk_at [1, 2, 3, 4, 5] 2 i)"
      using mem unfolding fragment_packet_chunks Let_def size set_map by blast
    show ?thesis
      using length_fragment_wire [of 7 i 3 "chunk_at [1, 2, 3, 4, 5] 2 i"] unfolding w by (simp add: chunk_at_def)
  qed
  then have len: "\<forall>w \<in> set (fragment_packet [1, 2, 3, 4, 5] 52 7). length w < 2 ^ 63"
    by fastforce
  have order: "distinct [2, 0, 1 :: nat]" "set [2, 0, 1] = {0..<3 :: nat}" by auto
  have "fst (collect_all 1 9 (zip [5, 6, 7] (map ((!) (fragment_packet [1, 2, 3, 4, 5] 52 7)) [2, 0, 1])) []) =
      replicate (3 - 1) (Inr None) @ [Inr (Some [1, 2, 3, 4, 5])]"
    by (rule fragment_reassembly_end_to_end [where clock = "[5, 6, 7]" and fid = 1 and
      table = "[]" and ep = 9, OF refl _ _ _ len order(1), unfolded n])
      (simp_all only: order, simp_all add: reassembly_new_def MAX_PENDING_PACKETS_def)
  then show ?thesis by (simp only: numeral_3_eq_3 diff_Suc_1 One_nat_def replicate_Suc replicate_0 append.simps diff_Suc_Suc diff_0_eq_0 minus_nat.diff_0)
qed

text \<open>C26. Reassembly stays bounded and invents nothing, whatever arrives. After any sequence of fragments,
  malformed ones included, and purges, at most 1024 groups are pending, each with fewer fragments than the at
  most 400 it announces. A packet is handed out only when each of the announced fragments has been received,
  under its key, with its number and with the announced count, and it is their concatenation in order.\<close>

theorem reassembly_memory_bounded:
  assumes "reassembly_history timeout h rb"
  shows "length (rb_pending rb) \<le> 1024 \<and> distinct (map fst (rb_pending rb)) \<and>
    (\<forall>(k, e) \<in> set (rb_pending rb). filled (pd_fragments e) < length (pd_fragments e) \<and> length (pd_fragments e) \<le> 400) \<and>
    (\<forall>packet. fst (process now (fi_endpoint x) (fi_seq x) (fi_index x) (fi_count x) (fi_data x) rb) = Some packet \<longrightarrow>
      (\<exists>chunks. length chunks = unat (fi_count x) \<and> packet = concat chunks \<and>
        (\<forall>i < unat (fi_count x). received_as (h @ [x]) (fi_key x) (unat (fi_count x)) i (chunks ! i))))"
proof -
  note ok = history_ok [OF assms, THEN conjunct1] and b = history_ok [OF assms, THEN conjunct2]
  have key: "fi_key x = (fi_endpoint x, fi_seq x)" by (simp add: fi_key_def)
  have "\<exists>chunks. length chunks = unat (fi_count x) \<and> packet = concat chunks \<and>
      (\<forall>i < unat (fi_count x). received_as (h @ [x]) (fi_key x) (unat (fi_count x)) i (chunks ! i))"
    if p: "fst (process now (fi_endpoint x) (fi_seq x) (fi_index x) (fi_count x) (fi_data x) rb) = Some packet" for packet
    using ok
  proof (cases rule: process_cases [where now = now and ep = "fi_endpoint x" and seq = "fi_seq x" and idx = "fi_index x" and cnt = "fi_count x" and frag = "fi_data x"])
    case (completed chunks)
    have "backed h (make_room now (fi_key x) rb)" using backed_subset [OF b] make_room_subset by blast
    then have "received_as (h @ [x]) (fi_key x) (unat (fi_count x)) i (chunks ! i)" if "i < unat (fi_count x)" for i
      using completed(1,7) that by (intro slots_received [OF _ _ _ _ completed(8) [folded key]]) (simp_all add: key)
    then show ?thesis using completed(1,4) p by (intro exI [of _ chunks]) simp
  qed (use p in simp_all)
  moreover have "\<forall>(k, e) \<in> set (rb_pending rb). filled (pd_fragments e) < length (pd_fragments e) \<and> length (pd_fragments e) \<le> 400"
    using ok by (force simp: reassembly_ok_def group_ok_def)
  ultimately show ?thesis
    using ok by (simp add: reassembly_ok_def MAX_PENDING_PACKETS_def)
qed

definition sample_fragment :: "u64 \<Rightarrow> bytes \<Rightarrow> frag_input" where
  "sample_fragment i v = \<lparr>fi_endpoint = 9, fi_seq = 4, fi_index = i, fi_count = 2, fi_data = v\<rparr>"

theorem reassembly_memory_bounded_witness:
  "length (rb_pending (snd (process 0 9 4 1 2 [2] (reassembly_new 5)))) \<le> 1024 \<and>
   (\<exists>chunks. length chunks = 2 \<and> fst (process 1 9 4 0 2 [1] (snd (process 0 9 4 1 2 [2] (reassembly_new 5)))) = Some (concat chunks) \<and>
     (\<forall>i < 2. received_as [sample_fragment 1 [2], sample_fragment 0 [1]] (9, 4) 2 i (chunks ! i)))"
proof -
  have h: "reassembly_history 5 [sample_fragment 1 [2]] (snd (process 0 9 4 1 2 [2] (reassembly_new 5)))"
    using reassembly_history.fragment [OF reassembly_history.new, of 5 "sample_fragment 1 [2]" 0] by (simp add: sample_fragment_def)
  have "fst (process 1 9 4 0 2 [1] (snd (process 0 9 4 1 2 [2] (reassembly_new 5)))) = Some [1, 2]"
    by (simp add: process_def make_room_def reassembly_new_def MAX_FRAGMENTS_def MAX_PENDING_PACKETS_def Let_def)
      (simp add: numeral_2_eq_2)
  with reassembly_memory_bounded [OF h, of 1 "sample_fragment 0 [1]"] show ?thesis
    by (simp add: sample_fragment_def fi_key_def)
qed

end
