(* ===== verification/Table_Laws.thy ===== *)
theory Table_Laws
  imports Ndn_Prelude "HOL-Library.Multiset"
begin

text \<open>
  Laws of the association lists that model the forwarder's hash maps: deleting a set of keys,
  evicting the entries with the least sort key, and a locale for tables whose entries have a
  deadline and a purge operation. The locale is interpreted on the Dead Nonce List, the PIT and
  the parked subscriptions.
\<close>

section \<open>Deleting keys\<close>

lemma foldl_delete:
  "foldl (\<lambda>es k. AList.delete k es) al ks = filter (\<lambda>(k, _). k \<notin> set ks) al"
proof (induction ks arbitrary: al)
  case (Cons x ks)
  have "filter (\<lambda>(k, _). k \<notin> set ks) (AList.delete x al) = filter (\<lambda>(k, _). k \<notin> set (x # ks)) al"
    by (induction al) auto
  then show ?case using Cons.IH [of "AList.delete x al"] by simp
qed simp

lemma map_of_filter_keys: "map_of (filter (\<lambda>(k, _). P k) al) k = (if P k then map_of al k else None)"
  by (induction al) auto

lemma map_of_filter_values:
  "distinct (map fst al) \<Longrightarrow> map_of (filter (\<lambda>(_, v). P v) al) k =
     (case map_of al k of Some v \<Rightarrow> if P v then Some v else None | None \<Rightarrow> None)"
proof (induction al)
  case (Cons a al)
  obtain x v where a: "a = (x, v)" by fastforce
  have "k = x \<Longrightarrow> map_of al k = None" using Cons.prems by (simp add: a map_of_eq_None_iff)
  then show ?case using Cons by (auto simp: a)
qed simp

lemma distinct_filter_keys: "distinct (map fst al) \<Longrightarrow> distinct (map fst (filter P al))"
  by (rule distinct_map_filter)

text \<open>Deleting the keys of the entries that satisfy a predicate keeps the others.\<close>

lemma delete_selected:
  assumes "distinct (map fst al)"
  shows "filter (\<lambda>(k, _). k \<notin> fst ` set (filter (\<lambda>(_, v). P v) al)) al = filter (\<lambda>(_, v). \<not> P v) al"
proof (rule filter_cong [OF refl])
  fix e assume e: "e \<in> set al"
  obtain k v where kv: "e = (k, v)" by fastforce
  have "(k \<in> fst ` set (filter (\<lambda>(_, v). P v) al)) = P v"
  proof
    assume "k \<in> fst ` set (filter (\<lambda>(_, v). P v) al)"
    then obtain v' where "(k, v') \<in> set al" "P v'" by auto
    moreover have "v' = v" using eq_key_imp_eq_value [OF assms] e calculation(1) kv by simp
    ultimately show "P v" by simp
  next
    assume "P v"
    then have "(k, v) \<in> set (filter (\<lambda>(_, v). P v) al)" using e kv by simp
    then show "k \<in> fst ` set (filter (\<lambda>(_, v). P v) al)" by force
  qed
  then show "(case e of (k, _) \<Rightarrow> k \<notin> fst ` set (filter (\<lambda>(_, v). P v) al)) = (case e of (_, v) \<Rightarrow> \<not> P v)"
    by (simp add: kv)
qed

section \<open>The values of a table\<close>

lemma map_of_snd: "map_of al k = Some v \<Longrightarrow> v \<in> snd ` set al"
  by (metis image_eqI map_of_SomeD snd_conv)

lemma snd_set_update: "snd ` set (AList.update k v al) \<subseteq> insert v (snd ` set al)"
  by (induction al) auto

section \<open>Evicting the least entries\<close>

lemma foldl_delete_keys:
  "foldl (\<lambda>ks (_, fp). AList.delete fp ks) al xs = filter (\<lambda>(k, _). k \<notin> snd ` set xs) al"
proof (induction xs arbitrary: al)
  case (Cons x xs)
  obtain a fp where x: "x = (a, fp)" by fastforce
  have "filter (\<lambda>(k, _). k \<notin> snd ` set xs) (AList.delete fp al) = filter (\<lambda>(k, _). k \<notin> snd ` set (x # xs)) al"
    by (induction al) (auto simp: x)
  then show ?case using Cons.IH [of "AList.delete fp al"] by (simp add: x)
qed simp

lemma length_filter_keys:
  assumes "distinct (map fst al)" "set ks \<subseteq> fst ` set al" "distinct ks"
  shows "length (filter (\<lambda>(k, _). k \<notin> set ks) al) = length al - length ks"
proof -
  have "length (filter (\<lambda>(k, _). k \<in> set ks) al) = length ks"
  proof -
    have "map fst (filter (\<lambda>(k, _). k \<in> set ks) al) = filter (\<lambda>k. k \<in> set ks) (map fst al)"
      by (induction al) auto
    then have "length (filter (\<lambda>(k, _). k \<in> set ks) al) = length (filter (\<lambda>k. k \<in> set ks) (map fst al))"
      by (metis length_map)
    also have "\<dots> = card (set (filter (\<lambda>k. k \<in> set ks) (map fst al)))"
      using assms(1) by (metis distinct_card distinct_filter)
    also have "set (filter (\<lambda>k. k \<in> set ks) (map fst al)) = set ks" using assms(2) by auto
    finally show ?thesis using assms(3) by (simp add: distinct_card)
  qed
  then show ?thesis
    using sum_length_filter_compl [of "\<lambda>(k, _). k \<in> set ks" al] by (simp add: case_prod_unfold)
qed

text \<open>Evicting the least keys of a table by a sort key leaves the wanted number of them.\<close>

lemma length_evicted:
  fixes f :: "'v \<Rightarrow> 'o :: linorder"
  assumes "distinct (map fst al)" "n \<le> length al"
  shows "length (foldl (\<lambda>ks (_, fp). AList.delete fp ks) al
    (take n (sort_key fst (map (\<lambda>(fp, v). (f v, fp)) al)))) = length al - n"
proof -
  let ?s = "sort_key fst (map (\<lambda>(fp, v). (f v, fp)) al)"
  have keys: "mset (map snd ?s) = mset (map fst al)"
    by (simp add: mset_map case_prod_unfold image_mset.compositionality comp_def)
  have d: "distinct (map snd ?s)" using assms(1) mset_eq_imp_distinct_iff [OF keys] by blast
  have "set (map snd ?s) = fst ` set al" using mset_eq_setD [OF keys] by (metis list.set_map)
  then have "set (take n (map snd ?s)) \<subseteq> fst ` set al" using set_take_subset [of n "map snd ?s"] by blast
  moreover have "distinct (take n (map snd ?s))" using d by (rule distinct_take)
  ultimately have "length (filter (\<lambda>(k, _). k \<notin> set (take n (map snd ?s))) al) = length al - length (take n (map snd ?s))"
    by (rule length_filter_keys [OF assms(1)])
  moreover have "set (take n (map snd ?s)) = snd ` set (take n ?s)" by (simp add: take_map)
  ultimately show ?thesis
    unfolding foldl_delete_keys using assms(2) by simp
qed

section \<open>Sums over a table\<close>

definition table_sum :: "('v \<Rightarrow> nat) \<Rightarrow> ('k \<times> 'v) list \<Rightarrow> nat" where
  "table_sum g al = sum_list (map (\<lambda>(_, v). g v) al)"

lemma table_sum_update:
  "table_sum g (AList.update k v al) + case_option 0 g (map_of al k) = table_sum g al + g v"
  by (induction al) (auto simp: table_sum_def)

lemma table_sum_delete: "table_sum g (AList.delete k al) + case_option 0 g (map_of al k) \<le> table_sum g al"
proof (induction al)
  case (Cons a al)
  obtain x v where a: "a = (x, v)" by fastforce
  show ?case using Cons.IH by (cases "x = k") (auto simp: a table_sum_def split: option.splits)
qed (simp add: table_sum_def)

lemma table_sum_filter: "table_sum g (filter P al) \<le> table_sum g al"
  by (induction al) (auto simp: table_sum_def)

section \<open>Tables with deadlines\<close>

locale expiring_table =
  fixes look :: "'s \<Rightarrow> 'k \<Rightarrow> 'v option" and deadline :: "'v \<Rightarrow> u64" and purge :: "u64 \<Rightarrow> 's \<Rightarrow> 's"
    and wf :: "'s \<Rightarrow> bool"
  assumes purge_wf: "wf s \<Longrightarrow> wf (purge now s)"
    and look_purge: "wf s \<Longrightarrow> look (purge now s) k =
      (case look s k of Some v \<Rightarrow> if deadline v > now then Some v else None | None \<Rightarrow> None)"
begin

lemma purge_keeps_live: "wf s \<Longrightarrow> look s k = Some v \<Longrightarrow> now < deadline v \<Longrightarrow> look (purge now s) k = Some v"
  by (simp add: look_purge)

lemma purge_drops_expired: "wf s \<Longrightarrow> look (purge now s) k = Some v \<Longrightarrow> now < deadline v \<and> look s k = Some v"
  by (auto simp: look_purge split: option.splits if_splits)

lemma purge_purge: "wf s \<Longrightarrow> look (purge t (purge u s)) k = look (purge (max t u) s) k"
  using purge_wf [of s u] by (auto simp: look_purge max_def split: option.split)

lemma purge_idem: "wf s \<Longrightarrow> look (purge t (purge t s)) k = look (purge t s) k"
  by (simp add: purge_purge)

end

end
