(* ===== verification/Store_Pit.thy ===== *)
theory Store_Pit
  imports Ndn_Interest Table_Laws
begin

text \<open>
  The Pending Interest Table and the Dead Nonce List of ndn-store
  (\<open>src/crates/forwarding/ndn-store/src/pit.rs\<close>, \<open>dead_nonce_list.rs\<close>). The concurrent hash maps are
  association lists with distinct keys, every operation one atomic step; times are \<open>u64\<close>
  nanoseconds with wrap-around. The standard library's \<open>DefaultHasher\<close>, whose algorithm is
  unspecified, is the argument \<open>hasher\<close>: one hash of a name component and one of a name hash with its
  discriminator. The calls of an attached \<open>PitObserver\<close> are recorded in a log.
\<close>

section \<open>Dead Nonce List\<close>

record nonce_fingerprint =
  nf_name_hash :: u64
  nf_nonce :: u32

record dead_nonce_list =
  dnl_entries :: "(nonce_fingerprint \<times> u64) list"
  dnl_lifetime_ns :: u64
  dnl_capacity :: nat

definition dnl_with_lifetime_and_capacity :: "u64 \<Rightarrow> nat \<Rightarrow> dead_nonce_list" where
  "dnl_with_lifetime_and_capacity lifetime_ns capacity =
     \<lparr>dnl_entries = [], dnl_lifetime_ns = lifetime_ns, dnl_capacity = max capacity 1\<rparr>"

definition dnl_purge_expired :: "u64 \<Rightarrow> dead_nonce_list \<Rightarrow> dead_nonce_list \<times> nat" where
  "dnl_purge_expired now_ns d = (let
     stale = map fst (filter (\<lambda>(_, e). now_ns \<ge> e) (dnl_entries d))
   in (d\<lparr>dnl_entries := foldl (\<lambda>es fp. AList.delete fp es) (dnl_entries d) stale\<rparr>, length stale))"

text \<open>The order among equal expiry times is unspecified in the code; here it is the order of the table.\<close>

definition dnl_enforce_capacity :: "u64 \<Rightarrow> dead_nonce_list \<Rightarrow> dead_nonce_list" where
  "dnl_enforce_capacity now_ns d = (let
     d = fst (dnl_purge_expired now_ns d);
     len = length (dnl_entries d)
   in if len \<le> dnl_capacity d then d
      else (let
        target = dnl_capacity d - dnl_capacity d div 10;
        to_remove = len - target;
        by_expiry = sort_key fst (map (\<lambda>(fp, e). (e, fp)) (dnl_entries d))
      in d\<lparr>dnl_entries := foldl (\<lambda>es (_, fp). AList.delete fp es) (dnl_entries d) (take to_remove by_expiry)\<rparr>))"

definition dnl_insert :: "nonce_fingerprint \<Rightarrow> u64 \<Rightarrow> dead_nonce_list \<Rightarrow> dead_nonce_list" where
  "dnl_insert fp now_ns d = (let
     expiry = saturating_add now_ns (dnl_lifetime_ns d);
     d = d\<lparr>dnl_entries := AList.update fp expiry (dnl_entries d)\<rparr>
   in if length (dnl_entries d) > dnl_capacity d then dnl_enforce_capacity now_ns d else d)"

definition dnl_contains :: "nonce_fingerprint \<Rightarrow> u64 \<Rightarrow> dead_nonce_list \<Rightarrow> bool" where
  "dnl_contains fp now_ns d = (case map_of (dnl_entries d) fp of Some e \<Rightarrow> now_ns < e | None \<Rightarrow> False)"

section \<open>Name hashes and tokens\<close>

datatype pit_key_discriminator = Classical | PersistentAttach

record hasher =
  hash_component :: "name_component \<Rightarrow> u64"
  hash_token :: "u64 \<Rightarrow> pit_key_discriminator \<Rightarrow> u64"

definition HASH_MIX :: u64 where "HASH_MIX = 0x517cc1b727220a95"

definition hash_accumulate :: "hasher \<Rightarrow> u64 \<Rightarrow> name_component \<Rightarrow> u64" where
  "hash_accumulate H state c = state * HASH_MIX + hash_component H c"

text \<open>\<open>NameHashes\<close> is its list of prefix hashes.\<close>

definition name_hashes_compute :: "hasher \<Rightarrow> name \<Rightarrow> u64 list" where
  "name_hashes_compute H n = snd (foldl (\<lambda>(state, hashes) c.
     let state = hash_accumulate H state c in (state, hashes @ [state])) (0, []) n)"

definition full_hash :: "u64 list \<Rightarrow> u64" where
  "full_hash hashes = (if hashes = [] then 0 else last hashes)"

definition prefix_hash :: "u64 list \<Rightarrow> nat \<Rightarrow> u64" where
  "prefix_hash hashes n = (if n = 0 then 0 else hashes ! (n - 1))"

definition full_name_hash :: "hasher \<Rightarrow> name \<Rightarrow> u64" where
  "full_name_hash H n = foldl (hash_accumulate H) 0 n"

definition from_name_hash_keyed :: "hasher \<Rightarrow> u64 \<Rightarrow> name list option \<Rightarrow> pit_key_discriminator \<Rightarrow> u64" where
  "from_name_hash_keyed H name_hash forwarding_hint disc = hash_token H name_hash disc"

definition from_name_hash :: "hasher \<Rightarrow> u64 \<Rightarrow> name list option \<Rightarrow> u64" where
  "from_name_hash H name_hash forwarding_hint = from_name_hash_keyed H name_hash forwarding_hint Classical"

definition from_interest_full :: "hasher \<Rightarrow> name \<Rightarrow> name list option \<Rightarrow> u64" where
  "from_interest_full H n forwarding_hint = from_name_hash H (full_name_hash H n) forwarding_hint"

definition from_interest :: "hasher \<Rightarrow> name \<Rightarrow> u64" where
  "from_interest H n = from_interest_full H n None"

definition persistent_attach_full :: "hasher \<Rightarrow> name \<Rightarrow> name list option \<Rightarrow> u64" where
  "persistent_attach_full H n forwarding_hint =
     from_name_hash_keyed H (full_name_hash H n) forwarding_hint PersistentAttach"

definition persistent_attach :: "hasher \<Rightarrow> name \<Rightarrow> u64" where
  "persistent_attach H n = from_name_hash_keyed H (full_name_hash H n) None PersistentAttach"

section \<open>PIT entries\<close>

record persistent_state =
  ps_data_count_remaining :: u32
  ps_reap_at :: u64
  ps_subscription_id :: "bytes option"

record orphaned_subscription =
  os_data_count_remaining :: u32
  os_reap_at :: u64

record in_record =
  ir_face_id :: u64
  ir_nonce :: u32
  ir_expires_at :: u64
  ir_lp_pit_token :: "bytes option"
  ir_selector :: selector
  ir_persistent :: "persistent_state option"
  ir_trace_ids :: "bytes list"

record out_record =
  or_face_id :: u64
  or_last_nonce :: u32
  or_sent_at :: u64

record pit_entry =
  pe_name :: name
  pe_retx_suppress_interval_ns :: u64
  pe_in_records :: "in_record list"
  pe_out_records :: "out_record list"
  pe_nonces_seen :: "u32 list"
  pe_is_satisfied :: bool
  pe_created_at :: u64
  pe_expires_at :: u64
  pe_persistent :: "persistent_state option"
  pe_forward_cancelled :: bool
  pe_upstream_lost :: bool

definition RETX_SUPPRESS_INITIAL_NS :: u64 where "RETX_SUPPRESS_INITIAL_NS = 10000000"
definition RETX_SUPPRESS_MAX_NS :: u64 where "RETX_SUPPRESS_MAX_NS = 250000000"
definition RETX_SUPPRESS_MULTIPLIER :: u64 where "RETX_SUPPRESS_MULTIPLIER = 2"

definition pit_entry_new :: "name \<Rightarrow> u64 \<Rightarrow> u64 \<Rightarrow> pit_entry" where
  "pit_entry_new n now lifetime_ms = \<lparr>pe_name = n, pe_retx_suppress_interval_ns = 0, pe_in_records = [],
     pe_out_records = [], pe_nonces_seen = [], pe_is_satisfied = False, pe_created_at = now,
     pe_expires_at = now + lifetime_ms * 1000000, pe_persistent = None, pe_forward_cancelled = False,
     pe_upstream_lost = False\<rparr>"

definition add_in_record_inner ::
  "u64 \<Rightarrow> u32 \<Rightarrow> u64 \<Rightarrow> bytes option \<Rightarrow> selector \<Rightarrow> persistent_state option \<Rightarrow> bytes list \<Rightarrow> pit_entry \<Rightarrow> pit_entry" where
  "add_in_record_inner face_id nonce expires_at lp_token sel persistent trace_ids e = (let
     e = e\<lparr>pe_in_records := pe_in_records e @ [\<lparr>ir_face_id = face_id, ir_nonce = nonce, ir_expires_at = expires_at,
       ir_lp_pit_token = lp_token, ir_selector = sel, ir_persistent = persistent, ir_trace_ids = trace_ids\<rparr>]\<rparr>
   in if nonce \<notin> set (pe_nonces_seen e) then e\<lparr>pe_nonces_seen := pe_nonces_seen e @ [nonce]\<rparr> else e)"

definition add_in_record_with_persistent ::
  "u64 \<Rightarrow> u32 \<Rightarrow> u64 \<Rightarrow> bytes option \<Rightarrow> selector \<Rightarrow> persistent_state option \<Rightarrow> pit_entry \<Rightarrow> pit_entry" where
  "add_in_record_with_persistent face_id nonce expires_at lp_token sel persistent e =
     add_in_record_inner face_id nonce expires_at lp_token sel persistent [] e"

definition add_in_record :: "u64 \<Rightarrow> u32 \<Rightarrow> u64 \<Rightarrow> bytes option \<Rightarrow> selector \<Rightarrow> pit_entry \<Rightarrow> pit_entry" where
  "add_in_record face_id nonce expires_at lp_token sel e =
     add_in_record_with_persistent face_id nonce expires_at lp_token sel None e"

definition add_in_record_with_trace_ids ::
  "u64 \<Rightarrow> u32 \<Rightarrow> u64 \<Rightarrow> bytes option \<Rightarrow> selector \<Rightarrow> persistent_state option \<Rightarrow> bytes list \<Rightarrow> pit_entry \<Rightarrow> pit_entry" where
  "add_in_record_with_trace_ids face_id nonce expires_at lp_token sel persistent trace_ids e =
     add_in_record_inner face_id nonce expires_at lp_token sel persistent trace_ids e"

definition in_record_faces :: "pit_entry \<Rightarrow> u64 list" where
  "in_record_faces e = map ir_face_id (pe_in_records e)"

definition is_persistent :: "pit_entry \<Rightarrow> bool" where
  "is_persistent e \<longleftrightarrow> pe_persistent e \<noteq> None \<or> list_ex (\<lambda>r. ir_persistent r \<noteq> None) (pe_in_records e)"

fun renew_out_record :: "u64 \<Rightarrow> u32 \<Rightarrow> u64 \<Rightarrow> out_record list \<Rightarrow> out_record list option" where
  "renew_out_record face_id nonce sent_at [] = None"
| "renew_out_record face_id nonce sent_at (r # rs) =
     (if or_face_id r = face_id then Some (r\<lparr>or_last_nonce := nonce, or_sent_at := sent_at\<rparr> # rs)
      else map_option (\<lambda>rs. r # rs) (renew_out_record face_id nonce sent_at rs))"

definition add_out_record :: "u64 \<Rightarrow> u32 \<Rightarrow> u64 \<Rightarrow> pit_entry \<Rightarrow> pit_entry" where
  "add_out_record face_id nonce sent_at e = (case renew_out_record face_id nonce sent_at (pe_out_records e) of
     Some rs \<Rightarrow> e\<lparr>pe_out_records := rs\<rparr>
   | None \<Rightarrow> e\<lparr>pe_out_records := pe_out_records e @
       [\<lparr>or_face_id = face_id, or_last_nonce = nonce, or_sent_at = sent_at\<rparr>]\<rparr>)"

definition note_forward_decision :: "pit_entry \<Rightarrow> pit_entry" where
  "note_forward_decision e = (let
     cur = (if pe_retx_suppress_interval_ns e = 0 then RETX_SUPPRESS_INITIAL_NS else pe_retx_suppress_interval_ns e)
   in e\<lparr>pe_retx_suppress_interval_ns := min (saturating_mul cur RETX_SUPPRESS_MULTIPLIER) RETX_SUPPRESS_MAX_NS\<rparr>)"

definition suppressed_upstreams :: "pit_entry \<Rightarrow> u64 \<Rightarrow> u64 list" where
  "suppressed_upstreams e now_ns = map or_face_id
     (filter (\<lambda>r. saturating_sub now_ns (or_sent_at r) < RETX_SUPPRESS_INITIAL_NS) (pe_out_records e))"

definition last_out :: "pit_entry \<Rightarrow> u64 option" where
  "last_out e = (case map or_sent_at (pe_out_records e) of [] \<Rightarrow> None | t # ts \<Rightarrow> Some (foldl max t ts))"

definition entry_retx_suppressed :: "pit_entry \<Rightarrow> u64 \<Rightarrow> bool" where
  "entry_retx_suppressed e now_ns = (case last_out e of
     None \<Rightarrow> False
   | Some t \<Rightarrow> saturating_sub now_ns t <
       (if pe_retx_suppress_interval_ns e = 0 then RETX_SUPPRESS_INITIAL_NS else pe_retx_suppress_interval_ns e))"

section \<open>The table\<close>

datatype pit_event = OnPitInsert name | OnPitRemove name

record pit =
  pit_observer :: bool
  pit_entries :: "(u64 \<times> pit_entry) list"
  pit_orphans :: "(bytes \<times> orphaned_subscription) list"
  pit_log :: "pit_event list"

definition pit_new :: pit where
  "pit_new = \<lparr>pit_observer = False, pit_entries = [], pit_orphans = [], pit_log = []\<rparr>"

definition pit_clear :: "pit \<Rightarrow> pit" where
  "pit_clear p = p\<lparr>pit_entries := [], pit_orphans := []\<rparr>"

definition notify_insert :: "pit_entry \<Rightarrow> pit \<Rightarrow> pit" where
  "notify_insert e p = (if pit_observer p then p\<lparr>pit_log := pit_log p @ [OnPitInsert (pe_name e)]\<rparr> else p)"

definition notify_remove :: "pit_entry \<Rightarrow> pit \<Rightarrow> pit" where
  "notify_remove e p = (if pit_observer p then p\<lparr>pit_log := pit_log p @ [OnPitRemove (pe_name e)]\<rparr> else p)"

definition set_observer :: "pit \<Rightarrow> pit" where
  "set_observer p = p\<lparr>pit_observer := True\<rparr>"

definition pit_insert :: "u64 \<Rightarrow> pit_entry \<Rightarrow> pit \<Rightarrow> pit" where
  "pit_insert token e p = (let p = notify_insert e p in p\<lparr>pit_entries := AList.update token e (pit_entries p)\<rparr>)"

definition pit_contains :: "u64 \<Rightarrow> pit \<Rightarrow> bool" where
  "pit_contains token p \<longleftrightarrow> map_of (pit_entries p) token \<noteq> None"

definition with_entry :: "u64 \<Rightarrow> (pit_entry \<Rightarrow> 'r) \<Rightarrow> pit \<Rightarrow> 'r option" where
  "with_entry token f p = map_option f (map_of (pit_entries p) token)"

definition with_named_entry :: "hasher \<Rightarrow> name \<Rightarrow> pit_key_discriminator \<Rightarrow> (pit_entry \<Rightarrow> 'r) \<Rightarrow> pit \<Rightarrow> 'r option" where
  "with_named_entry H n disc f p = (let token = from_name_hash_keyed H (full_name_hash H n) None disc in with_entry token f p)"

definition with_entry_mut :: "u64 \<Rightarrow> (pit_entry \<Rightarrow> pit_entry \<times> 'r) \<Rightarrow> pit \<Rightarrow> pit \<times> 'r option" where
  "with_entry_mut token f p = (case map_of (pit_entries p) token of
     None \<Rightarrow> (p, None)
   | Some e \<Rightarrow> (case f e of (e', r) \<Rightarrow> (p\<lparr>pit_entries := AList.update token e' (pit_entries p)\<rparr>, Some r)))"

definition with_entry_or_insert ::
  "u64 \<Rightarrow> (pit_entry \<Rightarrow> pit_entry \<times> 'r) \<Rightarrow> pit_entry \<times> 'r \<Rightarrow> pit \<Rightarrow> pit \<times> 'r" where
  "with_entry_or_insert token on_existing on_new p = (case map_of (pit_entries p) token of
     Some e \<Rightarrow> (case on_existing e of (e', r) \<Rightarrow> (p\<lparr>pit_entries := AList.update token e' (pit_entries p)\<rparr>, r))
   | None \<Rightarrow> (case on_new of (e, r) \<Rightarrow> (p\<lparr>pit_entries := AList.update token e (pit_entries p)\<rparr>, r)))"

definition pit_remove :: "u64 \<Rightarrow> pit \<Rightarrow> pit \<times> pit_entry option" where
  "pit_remove token p = (case map_of (pit_entries p) token of
     None \<Rightarrow> (p, None)
   | Some e \<Rightarrow> (notify_remove e (p\<lparr>pit_entries := AList.delete token (pit_entries p)\<rparr>), Some e))"

definition drain_expired_entries :: "u64 \<Rightarrow> pit \<Rightarrow> pit \<times> (u64 \<times> pit_entry) list" where
  "drain_expired_entries now_ns p = (let
     expired = map fst (filter (\<lambda>(_, e). pe_expires_at e \<le> now_ns) (pit_entries p))
   in foldl (\<lambda>(p, out) token. case pit_remove token p of
        (p', Some e) \<Rightarrow> (p', out @ [(token, e)])
      | (p', None) \<Rightarrow> (p', out)) (p, []) expired)"

definition pit_drain_expired :: "u64 \<Rightarrow> pit \<Rightarrow> pit \<times> (u64 \<times> u64 list) list" where
  "pit_drain_expired now_ns p = (case drain_expired_entries now_ns p of
     (p', drained) \<Rightarrow> (p', map (\<lambda>(token, e). (token, map ir_face_id (pe_in_records e))) drained))"

definition park_orphan :: "bytes \<Rightarrow> u32 \<Rightarrow> u64 \<Rightarrow> pit \<Rightarrow> pit" where
  "park_orphan i data_count_remaining reap_at p =
     (if data_count_remaining = 0 then p
      else (let
        merged = (case map_of (pit_orphans p) i of
            Some o' \<Rightarrow> \<lparr>os_data_count_remaining = max (os_data_count_remaining o') data_count_remaining,
              os_reap_at = max (os_reap_at o') reap_at\<rparr>
          | None \<Rightarrow> \<lparr>os_data_count_remaining = data_count_remaining, os_reap_at = reap_at\<rparr>)
      in p\<lparr>pit_orphans := AList.update i merged (pit_orphans p)\<rparr>))"

definition park_record :: "in_record \<Rightarrow> pit \<Rightarrow> pit" where
  "park_record r p = (case ir_persistent r of
     Some ps \<Rightarrow> (case ps_subscription_id ps of
         Some i \<Rightarrow> park_orphan i (ps_data_count_remaining ps) (ps_reap_at ps) p
       | None \<Rightarrow> p)
   | None \<Rightarrow> p)"

definition park_dying_records :: "pit_entry \<Rightarrow> u64 \<Rightarrow> pit \<Rightarrow> pit" where
  "park_dying_records e face_id p =
     foldl (\<lambda>p r. if ir_face_id r \<noteq> face_id then p else park_record r p) p (pe_in_records e)"

definition all_in_on_face :: "u64 \<Rightarrow> pit_entry \<Rightarrow> bool" where
  "all_in_on_face face_id e \<longleftrightarrow> pe_in_records e \<noteq> [] \<and> list_all (\<lambda>r. ir_face_id r = face_id) (pe_in_records e)"

definition touches_face :: "u64 \<Rightarrow> pit_entry \<Rightarrow> bool" where
  "touches_face face_id e \<longleftrightarrow> list_ex (\<lambda>r. ir_face_id r = face_id) (pe_in_records e) \<or>
     list_ex (\<lambda>r. or_face_id r = face_id) (pe_out_records e)"

definition prune_face :: "u64 \<Rightarrow> pit_entry \<Rightarrow> pit_entry" where
  "prune_face face_id e = (let
     lost_upstream = list_ex (\<lambda>r. or_face_id r = face_id) (pe_out_records e);
     e = e\<lparr>pe_in_records := filter (\<lambda>r. ir_face_id r \<noteq> face_id) (pe_in_records e)\<rparr>;
     e = e\<lparr>pe_out_records := filter (\<lambda>r. or_face_id r \<noteq> face_id) (pe_out_records e)\<rparr>
   in if lost_upstream then e\<lparr>pe_upstream_lost := True\<rparr> else e)"

definition pit_remove_face :: "u64 \<Rightarrow> pit \<Rightarrow> pit \<times> nat" where
  "pit_remove_face face_id p = (let
     p = foldl (\<lambda>p (_, e). if list_ex (\<lambda>r. ir_face_id r = face_id) (pe_in_records e)
           then park_dying_records e face_id p else p) p (pit_entries p);
     to_remove = map fst (filter (\<lambda>(_, e). all_in_on_face face_id e) (pit_entries p));
     to_prune = map fst (filter (\<lambda>(_, e). \<not> all_in_on_face face_id e \<and> touches_face face_id e) (pit_entries p));
     removed = length to_remove;
     p = foldl (\<lambda>p token. fst (pit_remove token p)) p to_remove;
     p = foldl (\<lambda>p token. fst (with_entry_mut token (\<lambda>e. (prune_face face_id e, ())) p)) p to_prune
   in (p, removed))"

definition take_orphan :: "bytes \<Rightarrow> u64 \<Rightarrow> pit \<Rightarrow> pit \<times> orphaned_subscription option" where
  "take_orphan i now_ns p = (case map_of (pit_orphans p) i of
     None \<Rightarrow> (p, None)
   | Some o' \<Rightarrow> (p\<lparr>pit_orphans := AList.delete i (pit_orphans p)\<rparr>, if os_reap_at o' > now_ns then Some o' else None))"

definition reap_orphans :: "u64 \<Rightarrow> pit \<Rightarrow> pit \<times> nat" where
  "reap_orphans now_ns p = (let
     before = length (pit_orphans p);
     p = p\<lparr>pit_orphans := filter (\<lambda>(_, o'). os_reap_at o' > now_ns) (pit_orphans p)\<rparr>
   in (p, before - length (pit_orphans p)))"

section \<open>Name hashes\<close>

lemma name_hashes_fold:
  "foldl (\<lambda>(state, hashes) c. let state = hash_accumulate H state c in (state, hashes @ [state])) (s, hs) n =
     (foldl (hash_accumulate H) s n, hs @ map (\<lambda>k. foldl (hash_accumulate H) s (take (Suc k) n)) [0..<length n])"
proof (induction n arbitrary: s hs)
  case (Cons c n)
  have "map (\<lambda>k. foldl (hash_accumulate H) s (take (Suc k) (c # n))) [0..<length (c # n)] =
    hash_accumulate H s c # map (\<lambda>k. foldl (hash_accumulate H) (hash_accumulate H s c) (take (Suc k) n)) [0..<length n]"
    by (simp add: upt_conv_Cons map_Suc_upt [symmetric] del: upt_Suc)
  then show ?case using Cons.IH [of "hash_accumulate H s c" "hs @ [hash_accumulate H s c]"] by (simp add: Let_def)
qed simp

lemma name_hashes_compute_nth:
  "name_hashes_compute H n = map (\<lambda>k. full_name_hash H (take (Suc k) n)) [0..<length n]"
  by (simp add: name_hashes_compute_def name_hashes_fold full_name_hash_def)

lemma length_name_hashes [simp]: "length (name_hashes_compute H n) = length n"
  by (simp add: name_hashes_compute_nth)

text \<open>The prefix hashes, computed in one pass, are the hashes of the prefixes.\<close>

lemma prefix_hash_compute: "k \<le> length n \<Longrightarrow> prefix_hash (name_hashes_compute H n) k = full_name_hash H (take k n)"
  by (cases k) (simp_all add: prefix_hash_def name_hashes_compute_nth full_name_hash_def)

lemma full_hash_compute: "full_hash (name_hashes_compute H n) = full_name_hash H n"
proof (cases "n = []")
  case False
  then have "last (name_hashes_compute H n) = full_name_hash H n"
    by (simp add: last_conv_nth name_hashes_compute_nth)
  then show ?thesis using False by (simp add: full_hash_def) (metis length_0_conv length_name_hashes)
qed (simp add: full_hash_def name_hashes_compute_def full_name_hash_def)

section \<open>The Dead Nonce List\<close>

definition dnl_ok :: "dead_nonce_list \<Rightarrow> bool" where
  "dnl_ok d \<longleftrightarrow> distinct (map fst (dnl_entries d)) \<and> length (dnl_entries d) \<le> dnl_capacity d \<and> 1 \<le> dnl_capacity d"

lemma dnl_purge_entries:
  "distinct (map fst (dnl_entries d)) \<Longrightarrow>
     fst (dnl_purge_expired now d) = d\<lparr>dnl_entries := filter (\<lambda>(_, e). now < e) (dnl_entries d)\<rparr>"
  using delete_selected [of "dnl_entries d" "\<lambda>e. now \<ge> e"]
  by (simp add: dnl_purge_expired_def foldl_delete not_le)

interpretation dnl_table: expiring_table "\<lambda>d. map_of (dnl_entries d)" "\<lambda>e. e"
  "\<lambda>now d. fst (dnl_purge_expired now d)" "\<lambda>d. distinct (map fst (dnl_entries d))"
  by unfold_locales (simp_all add: dnl_purge_entries distinct_filter_keys map_of_filter_values)

lemma dnl_new_ok: "dnl_ok (dnl_with_lifetime_and_capacity l c)"
  by (simp add: dnl_ok_def dnl_with_lifetime_and_capacity_def)

lemma dnl_enforce_ok:
  assumes "distinct (map fst (dnl_entries d))" "1 \<le> dnl_capacity d"
  shows "dnl_ok (dnl_enforce_capacity now d)"
proof -
  let ?p = "filter (\<lambda>(_, e). now < e) (dnl_entries d)"
  have dp: "distinct (map fst ?p)" using assms(1) by (rule distinct_filter_keys)
  show ?thesis
  proof (cases "length ?p \<le> dnl_capacity d")
    case True
    then show ?thesis using assms dp by (simp add: dnl_enforce_capacity_def dnl_purge_entries dnl_ok_def)
  next
    case False
    let ?n = "length ?p - (dnl_capacity d - dnl_capacity d div 10)"
    have "length (foldl (\<lambda>es (_, fp). AList.delete fp es) ?p (take ?n (sort_key fst (map (\<lambda>(fp, e). (e, fp)) ?p)))) =
      length ?p - ?n"
      by (rule length_evicted [OF dp, where f = "\<lambda>e. e"]) simp
    moreover have "length ?p - ?n \<le> dnl_capacity d" using False by linarith
    ultimately show ?thesis
      using assms dp False
      by (simp add: dnl_enforce_capacity_def dnl_purge_entries dnl_ok_def Let_def foldl_delete_keys distinct_filter_keys
          del: length_filter_le)
  qed
qed

text \<open>The list never holds more than its capacity.\<close>

lemma dnl_insert_ok: "dnl_ok d \<Longrightarrow> dnl_ok (dnl_insert fp now d)"
proof -
  assume ok: "dnl_ok d"
  let ?d = "d\<lparr>dnl_entries := AList.update fp (saturating_add now (dnl_lifetime_ns d)) (dnl_entries d)\<rparr>"
  have "dnl_ok (dnl_enforce_capacity now ?d)"
    by (rule dnl_enforce_ok) (use ok in \<open>simp_all add: dnl_ok_def distinct_update\<close>)
  then show ?thesis using ok by (simp add: dnl_insert_def Let_def dnl_ok_def [of ?d]) (simp add: dnl_ok_def distinct_update)
qed

text \<open>
  An inserted nonce is found until its lifetime is over, also when the insertion evicts: at least one
  entry survives an eviction and the newest expires last.
\<close>

lemma evict_keeps_latest:
  fixes f :: "'v \<Rightarrow> 'o :: linorder"
  assumes dist: "distinct (map fst al)" and k: "map_of al k = Some v" and n: "n < length al"
    and later: "\<And>k' v'. (k', v') \<in> set al \<Longrightarrow> k' \<noteq> k \<Longrightarrow> f v' < f v"
  shows "map_of (foldl (\<lambda>ks (_, fp). AList.delete fp ks) al
    (take n (sort_key fst (map (\<lambda>(fp, v). (f v, fp)) al)))) k = Some v"
proof -
  let ?s = "sort_key fst (map (\<lambda>(fp, v). (f v, fp)) al)"
  have len: "length ?s = length al" by simp
  have mem: "set ?s = (\<lambda>(fp, v). (f v, fp)) ` set al" by simp
  have keys: "mset (map snd ?s) = mset (map fst al)"
    by (simp add: mset_map case_prod_unfold image_mset.compositionality comp_def)
  have d: "distinct (map snd ?s)" using dist mset_eq_imp_distinct_iff [OF keys] by blast
  have "k \<notin> snd ` set (take n ?s)"
  proof
    assume "k \<in> snd ` set (take n ?s)"
    then obtain i where i: "i < n" "snd (?s ! i) = k" using n len by (auto simp: in_set_conv_nth)
    have il: "i < length ?s" using i(1) n len by linarith
    have last: "length al - 1 < length ?s" "i < length al - 1" using n i(1) len by auto
    obtain vi where vi: "?s ! i = (f vi, k)" "(k, vi) \<in> set al"
      using nth_mem [OF il] i(2) unfolding mem by auto
    have "vi = v" using vi(2) k dist by (metis map_of_is_SomeI option.inject)
    obtain kl vl where vl: "?s ! (length al - 1) = (f vl, kl)" "(kl, vl) \<in> set al"
      using nth_mem [OF last(1)] unfolding mem by auto
    have "kl \<noteq> k"
    proof
      assume "kl = k"
      then have "map snd ?s ! i = map snd ?s ! (length al - 1)" using vi(1) vl(1) il last(1) by simp
      then have "i = length al - 1" using nth_eq_iff_index_eq [OF d, of i "length al - 1"] il last(1) by simp
      then show False using last(2) by simp
    qed
    then have "f vl < f v" by (rule later [OF vl(2)])
    moreover have "fst (?s ! i) \<le> fst (?s ! (length al - 1))"
      using sorted_nth_mono [of "map fst ?s" i "length al - 1"] il last by simp
    ultimately show False using vi(1) vl(1) \<open>vi = v\<close> by simp
  qed
  then show ?thesis by (simp add: foldl_delete_keys map_of_filter_keys k)
qed

lemma dnl_insert_contains:
  assumes ok: "dnl_ok d" and fresh: "now < saturating_add now (dnl_lifetime_ns d)"
    and later: "\<And>k e. (k, e) \<in> set (dnl_entries d) \<Longrightarrow> k \<noteq> fp \<Longrightarrow> e < saturating_add now (dnl_lifetime_ns d)"
  shows "dnl_contains fp t (dnl_insert fp now d) \<longleftrightarrow> t < saturating_add now (dnl_lifetime_ns d)"
proof -
  let ?e = "saturating_add now (dnl_lifetime_ns d)"
  let ?al = "AList.update fp ?e (dnl_entries d)"
  let ?d = "d\<lparr>dnl_entries := ?al\<rparr>"
  let ?p = "filter (\<lambda>(_, e). now < e) ?al"
  have da: "distinct (map fst ?al)" using ok by (simp add: dnl_ok_def distinct_update)
  then have dp: "distinct (map fst ?p)" by (rule distinct_filter_keys)
  have pk: "map_of ?p fp = Some ?e" using map_of_filter_values [OF da, of "\<lambda>e. now < e" fp] fresh
    by (simp add: update_conv)
  have mem: "(k, e) \<in> set ?al \<Longrightarrow> k \<noteq> fp \<Longrightarrow> (k, e) \<in> set (dnl_entries d)" for k e
    using da by (metis (no_types) map_of_SomeD map_of_eq_Some_iff update_conv' fun_upd_other)
  have cap: "1 \<le> dnl_capacity d" using ok by (simp add: dnl_ok_def)
  have "map_of (dnl_entries (dnl_insert fp now d)) fp = Some ?e"
  proof (cases "length ?al > dnl_capacity d")
    case False
    then show ?thesis by (simp add: dnl_insert_def update_conv)
  next
    case True
    have purged: "fst (dnl_purge_expired now ?d) = ?d\<lparr>dnl_entries := ?p\<rparr>" using da by (simp add: dnl_purge_entries)
    let ?n = "length ?p - (dnl_capacity d - dnl_capacity d div 10)"
    have "dnl_capacity d - dnl_capacity d div 10 > 0" using cap by linarith
    moreover have "length ?p > 0" using pk by (cases ?p) auto
    ultimately have n: "?n < length ?p" by linarith
    have "map_of (foldl (\<lambda>ks (_, fp). AList.delete fp ks) ?p
      (take ?n (sort_key fst (map (\<lambda>(fp, v). (v, fp)) ?p)))) fp = Some ?e"
      by (rule evict_keeps_latest [OF dp pk n, where f = "\<lambda>e. e"]) (use mem later in auto)
    then show ?thesis using True pk
      by (simp add: dnl_insert_def dnl_enforce_capacity_def Let_def purged)
  qed
  then show ?thesis by (simp add: dnl_contains_def)
qed

section \<open>The table's invariant\<close>

definition pit_ok :: "pit \<Rightarrow> bool" where
  "pit_ok p \<longleftrightarrow> distinct (map fst (pit_entries p)) \<and> distinct (map fst (pit_orphans p))"

lemma pit_new_ok [simp]: "pit_ok pit_new" "pit_ok (pit_clear p)"
  by (simp_all add: pit_ok_def pit_new_def pit_clear_def)

lemma notify_simps [simp]:
  "pit_entries (notify_insert e p) = pit_entries p" "pit_orphans (notify_insert e p) = pit_orphans p"
  "pit_entries (notify_remove e p) = pit_entries p" "pit_orphans (notify_remove e p) = pit_orphans p"
  "pit_observer (notify_insert e p) = pit_observer p" "pit_observer (notify_remove e p) = pit_observer p"
  by (simp_all add: notify_insert_def notify_remove_def)

lemma pit_insert_ok: "pit_ok p \<Longrightarrow> pit_ok (pit_insert t e p)"
  by (simp add: pit_ok_def pit_insert_def Let_def distinct_update)

lemma with_entry_mut_ok: "pit_ok p \<Longrightarrow> pit_ok (fst (with_entry_mut t f p))"
  by (auto simp: pit_ok_def with_entry_mut_def distinct_update split: option.split prod.split)

lemma with_entry_or_insert_ok: "pit_ok p \<Longrightarrow> pit_ok (fst (with_entry_or_insert t f n p))"
  by (auto simp: pit_ok_def with_entry_or_insert_def distinct_update split: option.split prod.split)

lemma pit_remove_ok: "pit_ok p \<Longrightarrow> pit_ok (fst (pit_remove t p))"
  by (auto simp: pit_ok_def pit_remove_def distinct_delete split: option.split)

lemma park_orphan_entries [simp]:
  "pit_entries (park_orphan i c r p) = pit_entries p" "pit_log (park_orphan i c r p) = pit_log p"
  "pit_observer (park_orphan i c r p) = pit_observer p"
  by (simp_all add: park_orphan_def Let_def)

lemma park_record_entries [simp]:
  "pit_entries (park_record r p) = pit_entries p" "pit_log (park_record r p) = pit_log p"
  "pit_observer (park_record r p) = pit_observer p"
  by (simp_all add: park_record_def split: option.split)

lemma park_record_ok: "pit_ok p \<Longrightarrow> pit_ok (park_record r p)"
  by (simp add: pit_ok_def park_record_def park_orphan_def Let_def distinct_update split: option.split)

section \<open>Lookups after each operation\<close>

lemma look_insert: "map_of (pit_entries (pit_insert t e p)) = (map_of (pit_entries p))(t \<mapsto> e)"
  by (simp add: pit_insert_def Let_def update_conv')

lemma look_remove: "map_of (pit_entries (fst (pit_remove t p))) = (map_of (pit_entries p))(t := None)"
  by (auto simp: pit_remove_def delete_conv' split: option.split)

lemma snd_remove: "snd (pit_remove t p) = map_of (pit_entries p) t"
  by (simp add: pit_remove_def split: option.split)

lemma look_entry_mut:
  "map_of (pit_entries (fst (with_entry_mut t f p))) =
     (case map_of (pit_entries p) t of None \<Rightarrow> map_of (pit_entries p)
      | Some e \<Rightarrow> (map_of (pit_entries p))(t \<mapsto> fst (f e)))"
  by (auto simp: with_entry_mut_def update_conv' split: option.split prod.split)

lemma snd_entry_mut: "snd (with_entry_mut t f p) = map_option (\<lambda>e. snd (f e)) (map_of (pit_entries p) t)"
  by (simp add: with_entry_mut_def split: option.split prod.split)

lemma look_or_insert:
  "map_of (pit_entries (fst (with_entry_or_insert t f n p))) =
     (map_of (pit_entries p))(t \<mapsto> (case map_of (pit_entries p) t of Some e \<Rightarrow> fst (f e) | None \<Rightarrow> fst n))"
  by (auto simp: with_entry_or_insert_def update_conv' split: option.split prod.split)

lemma snd_or_insert:
  "snd (with_entry_or_insert t f n p) = (case map_of (pit_entries p) t of Some e \<Rightarrow> snd (f e) | None \<Rightarrow> snd n)"
  by (simp add: with_entry_or_insert_def split: option.split prod.split)

text \<open>
  \<open>with_entry_or_insert\<close> creates entries without telling the observer, while every removal is reported:
  an attached observer sees removals of entries it never saw inserted.
\<close>

lemma or_insert_not_reported: "pit_log (fst (with_entry_or_insert t f n p)) = pit_log p"
  by (simp add: with_entry_or_insert_def split: option.split prod.split)

lemma remove_reported:
  "pit_observer p \<Longrightarrow> map_of (pit_entries p) t = Some e \<Longrightarrow>
     pit_log (fst (pit_remove t p)) = pit_log p @ [OnPitRemove (pe_name e)]"
  by (simp add: pit_remove_def notify_remove_def)

section \<open>Draining expired entries\<close>

lemma drain_fold:
  assumes "set ks \<subseteq> fst ` set (pit_entries p)" "distinct ks"
  shows "foldl (\<lambda>(p, out) token. case pit_remove token p of
        (p', Some e) \<Rightarrow> (p', out @ [(token, e)]) | (p', None) \<Rightarrow> (p', out)) (p, out) ks =
    (p\<lparr>pit_entries := filter (\<lambda>(k, _). k \<notin> set ks) (pit_entries p),
       pit_log := pit_log p @ (if pit_observer p then map (\<lambda>k. OnPitRemove (pe_name (the (map_of (pit_entries p) k)))) ks else [])\<rparr>,
     out @ map (\<lambda>k. (k, the (map_of (pit_entries p) k))) ks)"
  using assms
proof (induction ks arbitrary: p out)
  case (Cons k ks)
  obtain e where e: "map_of (pit_entries p) k = Some e"
    using Cons.prems(1) by (metis image_subset_iff insert_subset list.simps(15) map_of_eq_None_iff option.exhaust)
  define q where "q = p\<lparr>pit_entries := AList.delete k (pit_entries p),
    pit_log := pit_log p @ (if pit_observer p then [OnPitRemove (pe_name e)] else [])\<rparr>"
  have step: "pit_remove k p = (q, Some e)" by (simp add: pit_remove_def e q_def notify_remove_def)
  have look: "k' \<in> set ks \<Longrightarrow> map_of (AList.delete k (pit_entries p)) k' = map_of (pit_entries p) k'" for k'
    using Cons.prems(2) by (auto simp: delete_conv')
  have "fst ` set (pit_entries q) = fst ` set (pit_entries p) - {k}"
    by (simp add: q_def) (metis delete_keys set_map set_removeAll)
  then have "set ks \<subseteq> fst ` set (pit_entries q)" using Cons.prems by auto
  moreover have "distinct ks" using Cons.prems by simp
  moreover have "filter (\<lambda>(k', _). k' \<notin> set ks) (AList.delete k (pit_entries p)) =
      filter (\<lambda>(k', _). k' \<notin> set (k # ks)) (pit_entries p)"
    using foldl_delete [of "pit_entries p" "k # ks"] foldl_delete [of "AList.delete k (pit_entries p)" ks] by simp
  ultimately show ?case
    using Cons.IH [of q "out @ [(k, e)]"] look by (simp add: step) (simp add: q_def e)
qed simp

text \<open>Exactly the expired entries leave the table, each is returned, and the observer is told of each.\<close>

lemma drain_expired_exact:
  fixes now :: u64
  assumes "pit_ok p"
  defines "dead \<equiv> filter (\<lambda>(_, e). pe_expires_at e \<le> now) (pit_entries p)"
  shows "drain_expired_entries now p =
    (p\<lparr>pit_entries := filter (\<lambda>(_, e). now < pe_expires_at e) (pit_entries p),
       pit_log := pit_log p @ (if pit_observer p then map (\<lambda>(_, e). OnPitRemove (pe_name e)) dead else [])\<rparr>, dead)"
proof -
  have d: "distinct (map fst (pit_entries p))" using assms(1) by (simp add: pit_ok_def)
  have sub: "set (map fst dead) \<subseteq> fst ` set (pit_entries p)" "distinct (map fst dead)"
    using distinct_filter_keys [OF d] by (auto simp: dead_def)
  have val: "map_of (pit_entries p) (fst x) = Some (snd x)" if "x \<in> set dead" for x
  proof -
    have "x \<in> set (pit_entries p)" using that unfolding dead_def by (metis filter_is_subset subsetD)
    then show ?thesis using map_of_is_SomeI [OF d, of "fst x" "snd x"] by simp
  qed
  have keep: "filter (\<lambda>(k, _). k \<notin> set (map fst dead)) (pit_entries p) = filter (\<lambda>(_, e). now < pe_expires_at e) (pit_entries p)"
    using delete_selected [OF d, of "\<lambda>e. pe_expires_at e \<le> now"] by (simp add: dead_def not_le)
  have out: "map (\<lambda>k. (k, the (map_of (pit_entries p) k))) (map fst dead) = dead"
    using val by (induction dead) auto
  have log: "map (\<lambda>k. OnPitRemove (pe_name (the (map_of (pit_entries p) k)))) (map fst dead) =
      map (\<lambda>(_, e). OnPitRemove (pe_name e)) dead"
    using val by (induction dead) auto
  show ?thesis
    unfolding drain_expired_entries_def Let_def dead_def [symmetric] drain_fold [OF sub] keep out log by simp
qed

interpretation pit_table: expiring_table "\<lambda>p. map_of (pit_entries p)" pe_expires_at
  "\<lambda>now p. fst (drain_expired_entries now p)" pit_ok
  by unfold_locales (auto simp: drain_expired_exact pit_ok_def distinct_filter_keys map_of_filter_values)

interpretation orphan_table: expiring_table "\<lambda>p. map_of (pit_orphans p)" os_reap_at
  "\<lambda>now p. fst (reap_orphans now p)" pit_ok
  by unfold_locales (auto simp: reap_orphans_def Let_def pit_ok_def distinct_filter_keys map_of_filter_values)

section \<open>Removing a face\<close>

lemma park_dying_entries [simp]:
  "pit_entries (park_dying_records e f p) = pit_entries p" "pit_log (park_dying_records e f p) = pit_log p"
  "pit_observer (park_dying_records e f p) = pit_observer p"
  "pit_ok p \<Longrightarrow> pit_ok (park_dying_records e f p)"
proof -
  have "pit_entries (foldl (\<lambda>p r. if ir_face_id r \<noteq> f then p else park_record r p) p rs) = pit_entries p \<and>
    pit_log (foldl (\<lambda>p r. if ir_face_id r \<noteq> f then p else park_record r p) p rs) = pit_log p \<and>
    pit_observer (foldl (\<lambda>p r. if ir_face_id r \<noteq> f then p else park_record r p) p rs) = pit_observer p \<and>
    (pit_ok p \<longrightarrow> pit_ok (foldl (\<lambda>p r. if ir_face_id r \<noteq> f then p else park_record r p) p rs))" for rs
    by (induction rs arbitrary: p) (simp_all add: park_record_ok)
  from this [of "pe_in_records e"]
  show "pit_entries (park_dying_records e f p) = pit_entries p" "pit_log (park_dying_records e f p) = pit_log p"
    "pit_observer (park_dying_records e f p) = pit_observer p"
    "pit_ok p \<Longrightarrow> pit_ok (park_dying_records e f p)"
    by (simp_all add: park_dying_records_def)
qed

text \<open>Credit of at least \<open>c\<close> with a deadline of at least \<open>t\<close> is parked under a subscription.\<close>

definition parked :: "bytes \<Rightarrow> u32 \<Rightarrow> u64 \<Rightarrow> pit \<Rightarrow> bool" where
  "parked i c t p \<longleftrightarrow> (case map_of (pit_orphans p) i of
     Some o' \<Rightarrow> c \<le> os_data_count_remaining o' \<and> t \<le> os_reap_at o' | None \<Rightarrow> False)"

lemma parked_park_record: "parked i c t p \<Longrightarrow> parked i c t (park_record r p)"
  by (auto simp: parked_def park_record_def park_orphan_def Let_def update_conv' le_max_iff_disj split: option.splits)

lemma park_record_parks:
  "ir_persistent r = Some ps \<Longrightarrow> ps_subscription_id ps = Some i \<Longrightarrow> ps_data_count_remaining ps \<noteq> 0 \<Longrightarrow>
     parked i (ps_data_count_remaining ps) (ps_reap_at ps) (park_record r p)"
  by (auto simp: parked_def park_record_def park_orphan_def Let_def update_conv' split: option.split)

lemma parked_dying: "parked i c t p \<Longrightarrow> parked i c t (park_dying_records e f p)"
proof -
  have "parked i c t p \<Longrightarrow> parked i c t (foldl (\<lambda>p r. if ir_face_id r \<noteq> f then p else park_record r p) p rs)" for rs
    by (induction rs arbitrary: p) (simp_all add: parked_park_record)
  then show "parked i c t p \<Longrightarrow> ?thesis" by (simp add: park_dying_records_def)
qed

lemma park_dying_parks:
  assumes "r \<in> set (pe_in_records e)" "ir_face_id r = f" "ir_persistent r = Some ps" "ps_subscription_id ps = Some i"
    "ps_data_count_remaining ps \<noteq> 0"
  shows "parked i (ps_data_count_remaining ps) (ps_reap_at ps) (park_dying_records e f p)"
proof -
  obtain rs1 rs2 where rs: "pe_in_records e = rs1 @ r # rs2" using assms(1) by (meson split_list)
  let ?step = "\<lambda>p r. if ir_face_id r \<noteq> f then p else park_record r p"
  have eq: "park_dying_records e f p = park_dying_records (e\<lparr>pe_in_records := rs2\<rparr>) f (park_record r (foldl ?step p rs1))"
    using assms(2) by (simp add: park_dying_records_def rs)
  show ?thesis unfolding eq by (rule parked_dying, rule park_record_parks [OF assms(3,4,5)])
qed

definition park_phase :: "u64 \<Rightarrow> pit \<Rightarrow> (u64 \<times> pit_entry) list \<Rightarrow> pit" where
  "park_phase f = foldl (\<lambda>p (_, e). if list_ex (\<lambda>r. ir_face_id r = f) (pe_in_records e)
     then park_dying_records e f p else p)"

lemma park_phase_keeps:
  "pit_entries (park_phase f p es) = pit_entries p" "pit_log (park_phase f p es) = pit_log p"
  "pit_observer (park_phase f p es) = pit_observer p"
  "pit_ok p \<Longrightarrow> pit_ok (park_phase f p es)"
  "parked i c t p \<Longrightarrow> parked i c t (park_phase f p es)"
  by (induction es arbitrary: p) (simp_all add: park_phase_def parked_dying split: prod.split)

lemma park_phase_parks:
  assumes "(k, e) \<in> set es" "r \<in> set (pe_in_records e)" "ir_face_id r = f" "ir_persistent r = Some ps"
    "ps_subscription_id ps = Some i" "ps_data_count_remaining ps \<noteq> 0"
  shows "parked i (ps_data_count_remaining ps) (ps_reap_at ps) (park_phase f p es)"
proof -
  obtain es1 es2 where es: "es = es1 @ (k, e) # es2" using assms(1) by (meson split_list)
  have "list_ex (\<lambda>r. ir_face_id r = f) (pe_in_records e)" using assms(2,3) by (auto simp: list_ex_iff)
  then have eq: "park_phase f p es = park_phase f (park_dying_records e f (park_phase f p es1)) es2"
    by (simp add: park_phase_def es)
  show ?thesis unfolding eq by (rule park_phase_keeps(5), rule park_dying_parks [OF assms(2-)])
qed

lemma remove_phase:
  "map_of (pit_entries (foldl (\<lambda>p token. fst (pit_remove token p)) p ks)) k =
     (if k \<in> set ks then None else map_of (pit_entries p) k)"
  "pit_orphans (foldl (\<lambda>p token. fst (pit_remove token p)) p ks) = pit_orphans p"
  "pit_ok p \<Longrightarrow> pit_ok (foldl (\<lambda>p token. fst (pit_remove token p)) p ks)"
proof (induction ks arbitrary: p)
  case (Cons t ks)
  { case 1 show ?case by (simp add: Cons.IH look_remove) }
  { case 2 show ?case by (simp add: Cons.IH) (simp add: pit_remove_def split: option.split) }
  { case 3 then show ?case by (simp add: Cons.IH pit_remove_ok) }
qed simp_all

lemma prune_phase:
  "distinct ks \<Longrightarrow> map_of (pit_entries (foldl (\<lambda>p token. fst (with_entry_mut token (\<lambda>e. (prune_face f e, ())) p)) p ks)) k =
     (if k \<in> set ks then map_option (prune_face f) (map_of (pit_entries p) k) else map_of (pit_entries p) k)"
  "pit_orphans (foldl (\<lambda>p token. fst (with_entry_mut token (\<lambda>e. (prune_face f e, ())) p)) p ks) = pit_orphans p"
  "pit_ok p \<Longrightarrow> pit_ok (foldl (\<lambda>p token. fst (with_entry_mut token (\<lambda>e. (prune_face f e, ())) p)) p ks)"
proof (induction ks arbitrary: p)
  case (Cons t ks)
  { case 1 then show ?case by (auto simp: Cons.IH look_entry_mut split: option.split) }
  { case 2 show ?case by (simp add: Cons.IH) (simp add: with_entry_mut_def split: option.split) }
  { case 3 then show ?case by (simp add: Cons.IH with_entry_mut_ok) }
qed simp_all

lemma prune_untouched: "\<not> touches_face f e \<Longrightarrow> prune_face f e = e"
proof -
  assume a: "\<not> touches_face f e"
  then have "filter (\<lambda>r. ir_face_id r \<noteq> f) (pe_in_records e) = pe_in_records e"
    "filter (\<lambda>r. or_face_id r \<noteq> f) (pe_out_records e) = pe_out_records e"
    "\<not> list_ex (\<lambda>r. or_face_id r = f) (pe_out_records e)"
    by (auto simp: touches_face_def list_ex_iff filter_id_conv)
  then show ?thesis by (simp add: prune_face_def)
qed

lemma prune_face_clean: "\<not> touches_face f (prune_face f e)"
  by (auto simp: touches_face_def prune_face_def Let_def list_ex_iff)

lemma remove_face_phases:
  "pit_remove_face f p = (let
     p1 = park_phase f p (pit_entries p);
     rem = map fst (filter (\<lambda>(_, e). all_in_on_face f e) (pit_entries p));
     pru = map fst (filter (\<lambda>(_, e). \<not> all_in_on_face f e \<and> touches_face f e) (pit_entries p));
     p2 = foldl (\<lambda>p token. fst (pit_remove token p)) p1 rem
   in (foldl (\<lambda>p token. fst (with_entry_mut token (\<lambda>e. (prune_face f e, ())) p)) p2 pru, length rem))"
  by (simp add: pit_remove_face_def Let_def park_phase_def [symmetric] park_phase_keeps)

lemma remove_face_ok: "pit_ok p \<Longrightarrow> pit_ok (fst (pit_remove_face f p))"
  by (simp add: remove_face_phases Let_def prune_phase(3) remove_phase(3) park_phase_keeps(4))

lemma selected_key:
  assumes "distinct (map fst al)"
  shows "k \<in> set (map fst (filter (\<lambda>(_, e). P e) al)) \<longleftrightarrow> (\<exists>e. map_of al k = Some e \<and> P e)"
proof
  assume "k \<in> set (map fst (filter (\<lambda>(_, e). P e) al))"
  then obtain e where "(k, e) \<in> set al" "P e" by auto
  then show "\<exists>e. map_of al k = Some e \<and> P e" using assms by auto
next
  assume "\<exists>e. map_of al k = Some e \<and> P e"
  then obtain e where "(k, e) \<in> set al" "P e" by (auto dest: map_of_SomeD)
  then show "k \<in> set (map fst (filter (\<lambda>(_, e). P e) al))" by force
qed

lemma remove_face_look:
  assumes "pit_ok p"
  shows "map_of (pit_entries (fst (pit_remove_face f p))) k = (case map_of (pit_entries p) k of
      Some e \<Rightarrow> if all_in_on_face f e then None else Some (prune_face f e) | None \<Rightarrow> None)"
proof -
  have d: "distinct (map fst (pit_entries p))" using assms by (simp add: pit_ok_def)
  show ?thesis
    unfolding remove_face_phases Let_def fst_conv
      prune_phase(1) [OF distinct_filter_keys [OF d]] remove_phase(1) park_phase_keeps(1)
      selected_key [OF d]
    by (auto simp: prune_untouched split: option.split)
qed

lemma remove_face_parks:
  assumes "map_of (pit_entries p) k = Some e" and r: "r \<in> set (pe_in_records e)" "ir_face_id r = f"
      "ir_persistent r = Some ps" "ps_subscription_id ps = Some i" "ps_data_count_remaining ps \<noteq> 0"
  shows "parked i (ps_data_count_remaining ps) (ps_reap_at ps) (fst (pit_remove_face f p))"
proof -
  have "(k, e) \<in> set (pit_entries p)" using assms(1) by (simp add: map_of_SomeD)
  from park_phase_parks [OF this r, of p] show ?thesis
    by (simp add: remove_face_phases Let_def parked_def prune_phase(2) remove_phase(2))
qed

text \<open>C21.
  Tearing down a face removes exactly the entries whose downstreams are all on it, takes its records
  out of every other entry (flagging a lost upstream) and changes nothing else; no trace of the face
  remains, and the credit of every subscription that was pending on it is parked under its id.\<close>

theorem pit_remove_face_exact:
  assumes ok: "pit_ok p"
  shows "(\<forall>k. map_of (pit_entries (fst (pit_remove_face f p))) k = (case map_of (pit_entries p) k of
        Some e \<Rightarrow> if all_in_on_face f e then None else Some (prune_face f e) | None \<Rightarrow> None)) \<and>
    list_all (\<lambda>(_, e). \<not> touches_face f e) (pit_entries (fst (pit_remove_face f p))) \<and>
    (\<forall>k e r ps i. map_of (pit_entries p) k = Some e \<and> r \<in> set (pe_in_records e) \<and> ir_face_id r = f \<and>
      ir_persistent r = Some ps \<and> ps_subscription_id ps = Some i \<and> ps_data_count_remaining ps \<noteq> 0 \<longrightarrow>
      parked i (ps_data_count_remaining ps) (ps_reap_at ps) (fst (pit_remove_face f p)))"
proof (intro conjI allI impI)
  let ?p = "fst (pit_remove_face f p)"
  show "map_of (pit_entries ?p) k = (case map_of (pit_entries p) k of
        Some e \<Rightarrow> if all_in_on_face f e then None else Some (prune_face f e) | None \<Rightarrow> None)" for k
    by (rule remove_face_look [OF ok])
  have d': "distinct (map fst (pit_entries ?p))" using remove_face_ok [OF ok] by (simp add: pit_ok_def)
  have "\<not> touches_face f e'" if "(k', e') \<in> set (pit_entries ?p)" for k' e'
    using map_of_is_SomeI [OF d' that] unfolding remove_face_look [OF ok]
    by (auto simp: prune_face_clean split: option.splits if_splits)
  then show "list_all (\<lambda>(_, e). \<not> touches_face f e) (pit_entries ?p)" by (auto simp: list_all_iff)
qed (elim conjE, rule remove_face_parks)

definition two_entry_pit :: pit where
  "two_entry_pit = pit_insert 1 (add_in_record 7 100 0 None selector_default (pit_entry_new [] 0 4000))
     (pit_insert 2 (add_in_record 8 101 0 None selector_default
        (add_in_record 7 102 0 None selector_default (pit_entry_new [] 0 4000))) pit_new)"

lemma two_entry_pit_ok: "pit_ok two_entry_pit"
  by (simp add: two_entry_pit_def pit_insert_ok)

lemma two_entry_pit_look:
  "map_of (pit_entries two_entry_pit) 1 = Some (add_in_record 7 100 0 None selector_default (pit_entry_new [] 0 4000))"
  "map_of (pit_entries two_entry_pit) 2 = Some (add_in_record 8 101 0 None selector_default
     (add_in_record 7 102 0 None selector_default (pit_entry_new [] 0 4000)))"
  by (simp_all add: two_entry_pit_def look_insert)

theorem pit_remove_face_exact_witness:
  "map_of (pit_entries (fst (pit_remove_face 7 two_entry_pit))) 1 = None \<and>
   map_option (\<lambda>e. map ir_face_id (pe_in_records e)) (map_of (pit_entries (fst (pit_remove_face 7 two_entry_pit))) 2) = Some [8]"
proof -
  note exact = conjunct1 [OF pit_remove_face_exact [OF two_entry_pit_ok, of 7]]
  show ?thesis
    using exact [rule_format, of 1] exact [rule_format, of 2]
    by (simp add: two_entry_pit_look all_in_on_face_def prune_face_def add_in_record_def
        add_in_record_with_persistent_def add_in_record_inner_def pit_entry_new_def)
qed

end
