(* ===== verification/Name_Trie.thy ===== *)
theory Name_Trie
  imports Ndn_Name
begin

text \<open>
  The name trie of ndn-store (\<open>src/crates/forwarding/ndn-store/src/trie.rs\<close>) and its two
  clients, \<open>Fib\<close> (\<open>fib.rs\<close>) and \<open>StrategyTable\<close> (\<open>strategy_table.rs\<close>). A node's
  \<open>HashMap\<close> of children is an association list, whose order stands for the map's
  unspecified iteration order; theorems speak of sets where that order shows. The locale
  \<open>lpm_table\<close> is the contract of a longest-prefix-match table; the tries of this theory and
  the forwarding engine's own trie are shown to meet it.
\<close>

section \<open>The trie\<close>

datatype 'v trie = TrieNode (entry: "'v option") (children: "(name_component \<times> 'v trie) list")

definition trie_new :: "'v trie" where
  "trie_new = TrieNode None []"

fun lpm_loop :: "'v option \<Rightarrow> 'v trie \<Rightarrow> name \<Rightarrow> 'v option" where
  "lpm_loop best current [] = best"
| "lpm_loop best current (component # rest) = (case map_of (children current) component of
     None \<Rightarrow> best
   | Some child \<Rightarrow> lpm_loop (if entry child \<noteq> None then entry child else best) child rest)"

definition trie_lpm :: "'v trie \<Rightarrow> name \<Rightarrow> 'v option" where
  "trie_lpm t n = lpm_loop (entry t) t n"

fun trie_get :: "'v trie \<Rightarrow> name \<Rightarrow> 'v option" where
  "trie_get current [] = entry current"
| "trie_get current (component # rest) = (case map_of (children current) component of
     None \<Rightarrow> None
   | Some c \<Rightarrow> trie_get c rest)"

fun trie_update :: "'v trie \<Rightarrow> name \<Rightarrow> ('v option \<Rightarrow> 'v option) \<Rightarrow> 'v trie" where
  "trie_update (TrieNode e ch) [] f = TrieNode (f e) ch"
| "trie_update (TrieNode e ch) (component # rest) f =
     (let child = (case map_of ch component of None \<Rightarrow> trie_new | Some c \<Rightarrow> c) in
      TrieNode e (AList.update component (trie_update child rest f) ch))"

fun trie_insert :: "'v trie \<Rightarrow> name \<Rightarrow> 'v \<Rightarrow> 'v trie" where
  "trie_insert (TrieNode e ch) [] v = TrieNode (Some v) ch"
| "trie_insert (TrieNode e ch) (component # rest) v =
     (let child = (case map_of ch component of None \<Rightarrow> trie_new | Some c \<Rightarrow> c) in
      TrieNode e (AList.update component (trie_insert child rest v) ch))"

fun trie_remove :: "'v trie \<Rightarrow> name \<Rightarrow> 'v trie" where
  "trie_remove (TrieNode e ch) [] = TrieNode None ch"
| "trie_remove (TrieNode e ch) (component # rest) = (case map_of ch component of
     None \<Rightarrow> TrieNode e ch
   | Some c \<Rightarrow> TrieNode e (AList.update component (trie_remove c rest) ch))"

lemma child_size: "(c, t) \<in> set ch \<Longrightarrow> size t \<le> size_list (size_prod (\<lambda>_. 0) size) ch"
  by (induction ch) auto

function (sequential) dump_subtree :: "'v trie \<Rightarrow> name \<Rightarrow> (name \<times> 'v) list" where
  "dump_subtree (TrieNode e ch) path =
     (case e of Some v \<Rightarrow> [(path, v)] | None \<Rightarrow> []) @
     concat (map (\<lambda>(comp, child). dump_subtree child (path @ [comp])) ch)"
  by pat_completeness auto
termination
  by (relation "measure (\<lambda>(t, path). size t)") (auto dest!: child_size)

definition trie_dump :: "'v trie \<Rightarrow> (name \<times> 'v) list" where
  "trie_dump t = dump_subtree t []"

function (sequential) collect_subtree :: "'v trie \<Rightarrow> 'v list" where
  "collect_subtree (TrieNode e ch) =
     (case e of Some v \<Rightarrow> [v] | None \<Rightarrow> []) @ concat (map (\<lambda>(_, child). collect_subtree child) ch)"
  by pat_completeness auto
termination
  by (relation "measure size") (auto dest!: child_size)

fun subtree :: "'v trie \<Rightarrow> name \<Rightarrow> 'v trie option" where
  "subtree current [] = Some current"
| "subtree current (component # rest) = (case map_of (children current) component of
     None \<Rightarrow> None
   | Some c \<Rightarrow> subtree c rest)"

definition descendants :: "'v trie \<Rightarrow> name \<Rightarrow> 'v list" where
  "descendants t pre = (case subtree t pre of None \<Rightarrow> [] | Some c \<Rightarrow> collect_subtree c)"

fun first_some :: "'a option list \<Rightarrow> 'a option" where
  "first_some [] = None"
| "first_some (Some v # xs) = Some v"
| "first_some (None # xs) = first_some xs"

function (sequential) first_in_subtree :: "'v trie \<Rightarrow> 'v option" where
  "first_in_subtree (TrieNode e ch) = (case e of
     Some v \<Rightarrow> Some v
   | None \<Rightarrow> first_some (map (\<lambda>(_, child). first_in_subtree child) ch))"
  by pat_completeness auto
termination
  by (relation "measure size") (auto dest!: child_size)

definition first_descendant :: "'v trie \<Rightarrow> name \<Rightarrow> 'v option" where
  "first_descendant t pre = (case subtree t pre of None \<Rightarrow> None | Some c \<Rightarrow> first_in_subtree c)"

section \<open>Fib and StrategyTable of ndn-store\<close>

record store_nexthop =
  sn_face_id :: u32
  sn_cost :: u32

record store_fib_entry =
  se_nexthops :: "store_nexthop list"

type_synonym store_fib = "store_fib_entry trie"

definition store_fib_lpm :: "store_fib \<Rightarrow> name \<Rightarrow> store_fib_entry option" where
  "store_fib_lpm fib n = trie_lpm fib n"

definition store_fib_get :: "store_fib \<Rightarrow> name \<Rightarrow> store_fib_entry option" where
  "store_fib_get fib n = trie_get fib n"

definition store_fib_insert :: "store_fib \<Rightarrow> name \<Rightarrow> store_fib_entry \<Rightarrow> store_fib" where
  "store_fib_insert fib n e = trie_insert fib n e"

definition store_fib_add_nexthop :: "store_fib \<Rightarrow> name \<Rightarrow> store_nexthop \<Rightarrow> store_fib" where
  "store_fib_add_nexthop fib n nexthop = trie_update fib n (\<lambda>slot.
     let nexthops = (case slot of
         Some existing \<Rightarrow> se_nexthops existing @ [nexthop]
       | None \<Rightarrow> [nexthop])
     in Some \<lparr>se_nexthops = nexthops\<rparr>)"

definition store_fib_remove :: "store_fib \<Rightarrow> name \<Rightarrow> store_fib" where
  "store_fib_remove fib n = trie_remove fib n"

type_synonym 's strategy_table = "'s trie"

definition strategy_lpm :: "'s strategy_table \<Rightarrow> name \<Rightarrow> 's option" where
  "strategy_lpm t n = trie_lpm t n"

definition strategy_insert :: "'s strategy_table \<Rightarrow> name \<Rightarrow> 's \<Rightarrow> 's strategy_table" where
  "strategy_insert t n s = trie_insert t n s"

definition strategy_remove :: "'s strategy_table \<Rightarrow> name \<Rightarrow> 's strategy_table" where
  "strategy_remove t n = trie_remove t n"

definition strategy_dump :: "'s strategy_table \<Rightarrow> (name \<times> 's) list" where
  "strategy_dump t = trie_dump t"

section \<open>Longest-prefix-match tables\<close>

text \<open>The specification: a partial map from prefixes to values, looked up at the longest
  prefix of the name in its domain.\<close>

definition lpm_spec :: "(name \<Rightarrow> 'v option) \<Rightarrow> name \<Rightarrow> 'v option" where
  "lpm_spec m n = first_some (map m (rev (prefixes n)))"

lemma first_some_append:
  "first_some (xs @ ys) = (case first_some xs of None \<Rightarrow> first_some ys | Some v \<Rightarrow> Some v)"
  by (induction xs rule: first_some.induct) auto

lemma first_some_None: "first_some xs = None \<longleftrightarrow> (\<forall>x \<in> set xs. x = None)"
  by (induction xs rule: first_some.induct) auto

lemma lpm_spec_Nil [simp]: "lpm_spec m [] = m []"
  by (cases "m []") (simp_all add: lpm_spec_def)

lemma lpm_spec_Cons:
  "lpm_spec m (c # n) = (case lpm_spec (\<lambda>p. m (c # p)) n of None \<Rightarrow> m [] | Some v \<Rightarrow> Some v)"
  by (cases "m []") (simp_all add: lpm_spec_def rev_map first_some_append comp_def split: option.splits)

lemma lpm_spec_snoc:
  "lpm_spec m (n @ [c]) = (case m (n @ [c]) of None \<Rightarrow> lpm_spec m n | Some v \<Rightarrow> Some v)"
  by (cases "m (n @ [c])") (simp_all add: lpm_spec_def)

lemma lpm_spec_Some:
  "lpm_spec m n = Some v \<longleftrightarrow>
     (\<exists>p. prefix p n \<and> m p = Some v \<and> (\<forall>q. prefix q n \<and> m q \<noteq> None \<longrightarrow> prefix q p))"
proof (induction n rule: rev_induct)
  case Nil
  then show ?case by auto
next
  case (snoc c n)
  show ?case
  proof (cases "m (n @ [c])")
    case None
    then have "prefix q (n @ [c]) \<and> m q = Some w \<longleftrightarrow> prefix q n \<and> m q = Some w"
      "prefix q (n @ [c]) \<and> m q \<noteq> None \<longleftrightarrow> prefix q n \<and> m q \<noteq> None" for q w
      by auto
    with None snoc show ?thesis
      unfolding lpm_spec_snoc conj_assoc [symmetric] by simp
  next
    case (Some w)
    let ?top = "\<lambda>q. \<forall>r. prefix r (n @ [c]) \<and> m r \<noteq> None \<longrightarrow> prefix r q"
    have top: "prefix q (n @ [c]) \<and> ?top q \<longleftrightarrow> q = n @ [c]" for q
      using Some by (auto simp del: prefix_snoc intro: prefix_order.antisym)
    have "(\<exists>q. prefix q (n @ [c]) \<and> m q = Some v \<and> ?top q) \<longleftrightarrow>
        (\<exists>q. (prefix q (n @ [c]) \<and> ?top q) \<and> m q = Some v)"
      by (simp only: conj_ac)
    also have "\<dots> \<longleftrightarrow> m (n @ [c]) = Some v"
      unfolding top by simp
    finally show ?thesis using Some by (simp add: lpm_spec_snoc del: prefix_snoc)
  qed
qed

lemma lpm_spec_None: "lpm_spec m n = None \<longleftrightarrow> (\<forall>p. prefix p n \<longrightarrow> m p = None)"
  by (auto simp: lpm_spec_def first_some_None)

locale lpm_table =
  fixes empty_table :: 't and get :: "'t \<Rightarrow> name \<Rightarrow> 'v option" and ins :: "'t \<Rightarrow> name \<Rightarrow> 'v \<Rightarrow> 't"
    and rem :: "'t \<Rightarrow> name \<Rightarrow> 't" and lpm :: "'t \<Rightarrow> name \<Rightarrow> 'v option"
  assumes get_empty: "get empty_table n = None"
    and get_ins: "get (ins t n v) = (get t)(n \<mapsto> v)"
    and get_rem: "get (rem t n) = (get t)(n := None)"
    and lpm_eq: "lpm t n = lpm_spec (get t) n"
begin

lemma lpm_longest:
  "lpm t n = Some v \<longleftrightarrow>
     (\<exists>p. prefix p n \<and> get t p = Some v \<and> (\<forall>q. prefix q n \<and> get t q \<noteq> None \<longrightarrow> length q \<le> length p))"
proof -
  have "(\<forall>q. prefix q n \<and> get t q \<noteq> None \<longrightarrow> prefix q p) \<longleftrightarrow>
      (\<forall>q. prefix q n \<and> get t q \<noteq> None \<longrightarrow> length q \<le> length p)" if "prefix p n" for p
    using that by (metis prefix_length_prefix prefix_length_le)
  then show ?thesis
    unfolding lpm_eq lpm_spec_Some by blast
qed

lemma lpm_none: "lpm t n = None \<longleftrightarrow> (\<forall>p. prefix p n \<longrightarrow> get t p = None)"
  unfolding lpm_eq lpm_spec_None ..

lemma lpm_exact: "get t n = Some v \<Longrightarrow> lpm t n = Some v"
  unfolding lpm_longest by (auto dest: prefix_length_le)

lemma lpm_ins_unrelated: "\<not> prefix p n \<Longrightarrow> lpm (ins t p v) n = lpm t n"
  unfolding lpm_eq lpm_spec_def get_ins
  by (rule arg_cong [where f = first_some], rule map_cong) auto

lemma lpm_ins_covers:
  "prefix p n \<Longrightarrow> \<forall>q. prefix q n \<and> get t q \<noteq> None \<longrightarrow> length q \<le> length p \<Longrightarrow> lpm (ins t p v) n = Some v"
  unfolding lpm_longest get_ins by (intro exI [of _ p]) auto

lemma lpm_rem_unrelated: "\<not> prefix p n \<Longrightarrow> lpm (rem t p) n = lpm t n"
  unfolding lpm_eq lpm_spec_def get_rem
  by (rule arg_cong [where f = first_some], rule map_cong) auto

end

section \<open>The trie is such a table\<close>

function (sequential) trie_ok :: "'v trie \<Rightarrow> bool" where
  "trie_ok (TrieNode e ch) \<longleftrightarrow> distinct (map fst ch) \<and> (\<forall>(c, t) \<in> set ch. trie_ok t)"
  by pat_completeness auto
termination
  by (relation "measure size") (auto dest!: child_size)

lemma trie_get_new [simp]: "trie_get trie_new n = None"
  by (cases n) (simp_all add: trie_new_def)

lemma trie_ok_new [wf_intros, simp]: "trie_ok trie_new"
  by (simp add: trie_new_def)

lemma trie_get_update:
  "trie_get (trie_update t n f) m = (if m = n then f (trie_get t n) else trie_get t m)"
proof (induction t n f arbitrary: m rule: trie_update.induct)
  case (1 e ch f)
  then show ?case by (cases m) auto
next
  case (2 e ch c n f)
  then show ?case
    by (cases m) (auto simp: update_conv' Let_def split: option.splits)
qed

lemma trie_insert_update: "trie_insert t n v = trie_update t n (\<lambda>_. Some v)"
  by (induction t n v rule: trie_insert.induct) (simp_all add: Let_def)

lemma trie_get_insert: "trie_get (trie_insert t n v) = (trie_get t)(n \<mapsto> v)"
  by (rule ext) (simp add: trie_insert_update trie_get_update)

lemma trie_get_remove: "trie_get (trie_remove t n) = (trie_get t)(n := None)"
proof (induction t n rule: trie_remove.induct)
  case (1 e ch)
  show ?case
  proof
    fix m show "trie_get (trie_remove (TrieNode e ch) []) m = ((trie_get (TrieNode e ch))([] := None)) m"
      by (cases m) auto
  qed
next
  case (2 e ch c n)
  show ?case
  proof
    fix m show "trie_get (trie_remove (TrieNode e ch) (c # n)) m
        = ((trie_get (TrieNode e ch))(c # n := None)) m"
      using 2 by (cases m) (auto simp: update_conv' split: option.splits)
  qed
qed

lemma lpm_spec_root:
  "lpm_spec m n = (case lpm_spec (m([] := None)) n of None \<Rightarrow> m [] | Some v \<Rightarrow> Some v)"
  by (cases n) (simp_all add: lpm_spec_Cons split: option.splits)

lemma lpm_spec_empty [simp]: "lpm_spec (\<lambda>_. None) n = None"
  by (simp add: lpm_spec_None)

lemma lpm_loop_eq:
  "lpm_loop best t n = (case lpm_spec ((trie_get t)([] := None)) n of None \<Rightarrow> best | Some v \<Rightarrow> Some v)"
proof (induction n arbitrary: best t)
  case Nil
  then show ?case by simp
next
  case (Cons c n)
  show ?case
  proof (cases "map_of (children t) c")
    case None
    then show ?thesis by (simp add: lpm_spec_Cons)
  next
    case (Some child)
    then have "lpm_spec ((trie_get t)([] := None)) (c # n) = lpm_spec (trie_get child) n"
      by (simp add: lpm_spec_Cons split: option.splits)
    moreover have "lpm_spec (trie_get child) n =
        (case lpm_spec ((trie_get child)([] := None)) n of None \<Rightarrow> entry child | Some v \<Rightarrow> Some v)"
      by (subst lpm_spec_root) (simp split: option.splits)
    moreover have "lpm_loop best t (c # n) =
        (case lpm_spec ((trie_get child)([] := None)) n of
           None \<Rightarrow> if entry child \<noteq> None then entry child else best | Some v \<Rightarrow> Some v)"
      unfolding Cons.IH [symmetric] using Some by simp
    ultimately show ?thesis
      by (cases "lpm_spec ((trie_get child)([] := None)) n"; cases "entry child")
        (simp_all del: fun_upd_apply lpm_loop.simps)
  qed
qed

lemma trie_lpm_eq: "trie_lpm t n = lpm_spec (trie_get t) n"
  by (subst lpm_spec_root) (simp add: trie_lpm_def lpm_loop_eq split: option.splits)

interpretation name_trie: lpm_table trie_new trie_get trie_insert trie_remove trie_lpm
  by unfold_locales (simp_all add: trie_get_insert trie_get_remove trie_lpm_eq)

lemma store_fib_get_eq: "store_fib_get = trie_get"
  by (rule ext)+ (simp add: store_fib_get_def)

interpretation store_fib: lpm_table trie_new store_fib_get store_fib_insert store_fib_remove store_fib_lpm
  by unfold_locales
    (simp_all add: store_fib_get_eq store_fib_insert_def store_fib_remove_def store_fib_lpm_def
      trie_get_insert trie_get_remove trie_lpm_eq)

interpretation strategy_table: lpm_table trie_new trie_get strategy_insert strategy_remove strategy_lpm
  by unfold_locales
    (simp_all add: strategy_insert_def strategy_remove_def strategy_lpm_def
      trie_get_insert trie_get_remove trie_lpm_eq)

section \<open>Enumeration\<close>

lemma trie_ok_child: "trie_ok (TrieNode e ch) \<Longrightarrow> map_of ch c = Some t \<Longrightarrow> trie_ok t"
  by (auto dest: map_of_SomeD)

lemma trie_ok_set_child:
  assumes "trie_ok (TrieNode e ch)" "trie_ok t"
  shows "trie_ok (TrieNode e' (AList.update c t ch))"
proof -
  have d: "distinct (map fst (AList.update c t ch))"
    using assms(1) by (simp add: distinct_update)
  have "trie_ok x" if "(k, x) \<in> set (AList.update c t ch)" for k x
  proof -
    have "map_of (AList.update c t ch) k = Some x"
      using that d by simp
    then show ?thesis
      using assms by (auto simp: update_conv' split: if_splits dest: trie_ok_child)
  qed
  with d show ?thesis by auto
qed

lemma trie_ok_update [wf_intros]: "trie_ok t \<Longrightarrow> trie_ok (trie_update t n f)"
proof (induction t n f rule: trie_update.induct)
  case (2 e ch c n f)
  then show ?case
    by (auto simp: Let_def simp del: trie_ok.simps intro!: trie_ok_set_child
        dest: trie_ok_child split: option.splits)
qed simp

lemma trie_ok_insert [wf_intros]: "trie_ok t \<Longrightarrow> trie_ok (trie_insert t n v)"
  by (simp add: trie_insert_update trie_ok_update)

lemma trie_ok_remove [wf_intros]: "trie_ok t \<Longrightarrow> trie_ok (trie_remove t n)"
proof (induction t n rule: trie_remove.induct)
  case (2 e ch c n)
  then show ?case
    by (auto simp del: trie_ok.simps intro!: trie_ok_set_child dest: trie_ok_child split: option.splits)
qed simp

lemma dump_subtree_set:
  "trie_ok t \<Longrightarrow> set (dump_subtree t path) = {(path @ n, v) | n v. trie_get t n = Some v}"
proof (induction t path rule: dump_subtree.induct)
  case (1 e ch path)
  have IH: "set (dump_subtree t (path @ [c])) = {(path @ [c] @ n, v) | n v. trie_get t n = Some v}"
    if "(c, t) \<in> set ch" for c t
    using "1.IH" [OF that refl] "1.prems" that by auto
  have mem: "(c, t) \<in> set ch \<longleftrightarrow> map_of ch c = Some t" for c t
    using "1.prems" by simp
  have "set (dump_subtree (TrieNode e ch) path)
      = (case e of Some v \<Rightarrow> {(path, v)} | None \<Rightarrow> {}) \<union> (\<Union>(c, t) \<in> set ch. set (dump_subtree t (path @ [c])))"
    by (auto split: option.splits)
  also have "(\<Union>(c, t) \<in> set ch. set (dump_subtree t (path @ [c])))
      = {(path @ c # n, v) | c n v. trie_get (TrieNode e ch) (c # n) = Some v}"
    (is "?L = ?R")
  proof -
    have "x \<in> ?L \<longleftrightarrow> x \<in> ?R" for x
    proof -
      have "x \<in> ?L \<longleftrightarrow> (\<exists>c t. map_of ch c = Some t \<and> (\<exists>n v. x = (path @ c # n, v) \<and> trie_get t n = Some v))"
        unfolding mem [symmetric] by (simp add: case_prod_beta Bex_def IH)
      also have "\<dots> \<longleftrightarrow> x \<in> ?R"
        by (auto split: option.splits)
      finally show ?thesis .
    qed
    then show ?thesis by blast
  qed
  also have "(case e of Some v \<Rightarrow> {(path, v)} | None \<Rightarrow> {}) \<union> \<dots>
      = {(path @ n, v) | n v. trie_get (TrieNode e ch) n = Some v}"
    (is "?A \<union> ?B = ?C")
  proof (intro equalityI subsetI)
    fix x
    assume "x \<in> ?A \<union> ?B"
    then show "x \<in> ?C"
    proof
      assume "x \<in> ?A"
      then obtain v where "x = (path @ [], v)" "trie_get (TrieNode e ch) [] = Some v"
        by (auto split: option.splits)
      then show "x \<in> ?C" by blast
    qed blast
  next
    fix x
    assume "x \<in> ?C"
    then obtain n v where n: "x = (path @ n, v)" "trie_get (TrieNode e ch) n = Some v"
      by blast
    then show "x \<in> ?A \<union> ?B"
      by (cases n) (simp, blast)
  qed
  finally show ?case .
qed

lemma trie_dump_set:
  "trie_ok t \<Longrightarrow> set (trie_dump t) = {(n, v). trie_get t n = Some v}"
  by (simp add: trie_dump_def dump_subtree_set)

lemma trie_get_subtree:
  "trie_get t (p @ n) = (case subtree t p of None \<Rightarrow> None | Some s \<Rightarrow> trie_get s n)"
  by (induction t p rule: subtree.induct) (auto split: option.splits)

lemma trie_ok_subtree: "trie_ok t \<Longrightarrow> subtree t p = Some s \<Longrightarrow> trie_ok s"
proof (induction t p rule: subtree.induct)
  case (2 t c p)
  then show ?case
    by (cases t) (auto split: option.splits dest: trie_ok_child simp del: trie_ok.simps)
qed simp

lemma collect_dump: "collect_subtree t = map snd (dump_subtree t path)"
proof (induction t path rule: dump_subtree.induct)
  case (1 e ch path)
  have eq: "map (\<lambda>(_, child). collect_subtree child) ch
      = map (\<lambda>x. map snd (dump_subtree (snd x) (path @ [fst x]))) ch"
    using 1 by (auto intro!: map_cong)
  show ?case
    unfolding collect_subtree.simps eq dump_subtree.simps
    by (simp add: map_concat comp_def case_prod_beta split: option.splits)
qed

lemma first_some_concat:
  "first_some (map (\<lambda>ys. case ys of [] \<Rightarrow> None | v # _ \<Rightarrow> Some v) yss)
   = (case concat yss of [] \<Rightarrow> None | v # _ \<Rightarrow> Some v)"
proof (induction yss)
  case (Cons ys yss)
  then show ?case by (cases ys) simp_all
qed simp

lemma first_collect: "first_in_subtree t = (case collect_subtree t of [] \<Rightarrow> None | v # _ \<Rightarrow> Some v)"
proof (induction t rule: collect_subtree.induct)
  case (1 e ch)
  have "map (\<lambda>(_, child). first_in_subtree child) ch =
      map (\<lambda>ys. case ys of [] \<Rightarrow> None | v # _ \<Rightarrow> Some v) (map (\<lambda>(_, child). collect_subtree child) ch)"
    using 1 by (auto simp: comp_def intro!: map_cong)
  then show ?case
    by (simp only: first_in_subtree.simps first_some_concat collect_subtree.simps)
      (simp split: option.splits)
qed

section \<open>Properties\<close>

text \<open>C27. Longest prefix match: a lookup in the name trie returns the value stored at the
  longest stored prefix of the name, \<open>None\<close> exactly when no prefix of the name (the root
  included) has a value.\<close>

theorem trie_lpm_longest_prefix:
  "(trie_lpm t n = Some v \<longleftrightarrow> (\<exists>p. prefix p n \<and> trie_get t p = Some v \<and>
      (\<forall>q. prefix q n \<and> trie_get t q \<noteq> None \<longrightarrow> length q \<le> length p))) \<and>
   (trie_lpm t n = None \<longleftrightarrow> (\<forall>p. prefix p n \<longrightarrow> trie_get t p = None))"
  using name_trie.lpm_longest [of t n v] name_trie.lpm_none [of t n] by (rule conjI)

theorem trie_lpm_longest_prefix_witness:
  "trie_lpm (trie_insert (trie_insert trie_new [] (1 :: nat)) [generic [97]] 2)
     [generic [97], generic [98]] = Some 2"
proof -
  let ?t = "trie_insert (trie_insert trie_new [] (1 :: nat)) [generic [97]] 2"
  have "prefix q [generic [97], generic [98]] \<and> trie_get ?t q \<noteq> None \<longrightarrow> length q \<le> 1" for q
    by (auto simp: trie_get_insert)
  then show ?thesis
    using trie_lpm_longest_prefix [of ?t "[generic [97], generic [98]]" 2]
    by (auto simp: trie_get_insert intro!: exI [of _ "[generic [97]]"])
qed

text \<open>The mutators of the trie are map updates: \<open>insert\<close>, \<open>update\<close> and \<open>remove\<close> change what
  \<open>get\<close> returns at the given name only, a removed name is gone, and all of them keep the
  invariant (one child per component) under which \<open>dump\<close> lists every entry and nothing
  else, and \<open>descendants\<close> exactly the entries at or below a prefix.\<close>

lemma trie_mutators_refine_map:
  assumes "trie_ok t"
  shows "trie_get (trie_insert t n v) = (trie_get t)(n \<mapsto> v) \<and>
    trie_get (trie_update t n f) = (trie_get t)(n := f (trie_get t n)) \<and>
    trie_get (trie_remove t n) = (trie_get t)(n := None) \<and>
    trie_ok (trie_insert t n v) \<and> trie_ok (trie_update t n f) \<and> trie_ok (trie_remove t n) \<and>
    set (trie_dump t) = {(p, w). trie_get t p = Some w} \<and>
    set (descendants t n) = {w. \<exists>p. prefix n p \<and> trie_get t p = Some w}"
proof -
  have "set (descendants t n) = {w. \<exists>p. prefix n p \<and> trie_get t p = Some w}"
  proof (cases "subtree t n")
    case None
    then show ?thesis
      by (auto simp: descendants_def prefix_def trie_get_subtree)
  next
    case (Some s)
    then have "set (descendants t n) = snd ` set (dump_subtree s [])"
      by (simp add: descendants_def collect_dump [of s "[]"])
    also have "\<dots> = {w. \<exists>m. trie_get s m = Some w}"
      using dump_subtree_set [OF trie_ok_subtree [OF assms Some]] by force
    finally show ?thesis
      using Some by (auto simp: prefix_def trie_get_subtree)
  qed
  then show ?thesis
    using assms
    by (simp add: trie_get_insert trie_get_remove trie_dump_set wf_intros)
      (simp add: trie_get_update fun_eq_iff)
qed

end
