(* ===== verification/Engine_Fib.thy ===== *)
theory Engine_Fib
  imports Name_Trie
begin

text \<open>
  The forwarding engine's FIB (\<open>src/crates/forwarding/ndn-engine/src/fib.rs\<close>): the
  copy-on-write trie \<open>FibTrie\<close> and the \<open>Fib\<close> over it. The \<open>rcu\<close> closures are state
  transformers of the trie. The lemmas show that \<open>FibTrie\<close> is a longest-prefix-match table,
  that every sequence of FIB operations keeps the next hops of each entry non-empty and
  sorted by cost, and what each operation does to the entries.
\<close>

record fib_nexthop =
  face_id :: u64
  cost :: u32

record fib_entry =
  nexthops :: "fib_nexthop list"

definition nexthops_excluding :: "fib_entry \<Rightarrow> u64 \<Rightarrow> fib_nexthop list" where
  "nexthops_excluding e exclude = filter (\<lambda>n. face_id n \<noteq> exclude) (nexthops e)"

section \<open>FibTrie\<close>

type_synonym fib_trie = "fib_entry trie"

fun lpm_with_depth_loop ::
  "(nat \<times> fib_entry) option \<Rightarrow> nat \<Rightarrow> fib_trie \<Rightarrow> name \<Rightarrow> (nat \<times> fib_entry) option" where
  "lpm_with_depth_loop best i node [] = best"
| "lpm_with_depth_loop best i node (component # rest) = (case map_of (children node) component of
     Some child \<Rightarrow>
       lpm_with_depth_loop
         (case entry child of Some e \<Rightarrow> Some (i + 1, e) | None \<Rightarrow> best) (i + 1) child rest
   | None \<Rightarrow> best)"

definition fibtrie_lpm_with_depth :: "fib_trie \<Rightarrow> name \<Rightarrow> (nat \<times> fib_entry) option" where
  "fibtrie_lpm_with_depth t n =
     lpm_with_depth_loop (map_option (\<lambda>e. (0, e)) (entry t)) 0 t n"

definition fibtrie_lpm :: "fib_trie \<Rightarrow> name \<Rightarrow> fib_entry option" where
  "fibtrie_lpm t n = map_option snd (fibtrie_lpm_with_depth t n)"

fun fibtrie_get :: "fib_trie \<Rightarrow> name \<Rightarrow> fib_entry option" where
  "fibtrie_get node [] = entry node"
| "fibtrie_get node (component # rest) = (case map_of (children node) component of
     Some child \<Rightarrow> fibtrie_get child rest
   | None \<Rightarrow> None)"

fun fibtrie_insert :: "fib_trie \<Rightarrow> name \<Rightarrow> fib_entry \<Rightarrow> fib_trie" where
  "fibtrie_insert (TrieNode e ch) [] v = TrieNode (Some v) ch"
| "fibtrie_insert (TrieNode e ch) (component # rest) v =
     (let child = (case map_of ch component of Some c \<Rightarrow> c | None \<Rightarrow> TrieNode None []) in
      TrieNode e (AList.update component (fibtrie_insert child rest v) ch))"

fun fibtrie_remove :: "fib_trie \<Rightarrow> name \<Rightarrow> fib_trie" where
  "fibtrie_remove (TrieNode e ch) [] = TrieNode None ch"
| "fibtrie_remove (TrieNode e ch) (component # rest) = (case map_of ch component of
     Some child \<Rightarrow> TrieNode e (AList.update component (fibtrie_remove child rest) ch)
   | None \<Rightarrow> TrieNode e ch)"

function (sequential) fibtrie_dump ::
  "fib_trie \<Rightarrow> name \<Rightarrow> (name \<times> fib_entry) list" where
  "fibtrie_dump (TrieNode e ch) path =
     (case e of Some v \<Rightarrow> [(path, v)] | None \<Rightarrow> []) @
     concat (map (\<lambda>(component, child). fibtrie_dump child (path @ [component])) ch)"
  by pat_completeness auto
termination
  by (relation "measure (\<lambda>(t, path). size t)") (auto dest!: child_size)

section \<open>Fib\<close>

record fib =
  fib_trie :: fib_trie

definition fib_new :: fib where
  "fib_new = \<lparr>fib_trie = TrieNode None []\<rparr>"

definition fib_lpm :: "fib \<Rightarrow> name \<Rightarrow> fib_entry option" where
  "fib_lpm fib n = fibtrie_lpm (fib_trie fib) n"

definition fib_lpm_with_depth :: "fib \<Rightarrow> name \<Rightarrow> (nat \<times> fib_entry) option" where
  "fib_lpm_with_depth fib n = fibtrie_lpm_with_depth (fib_trie fib) n"

definition add_nexthop :: "fib \<Rightarrow> name \<Rightarrow> u64 \<Rightarrow> u32 \<Rightarrow> fib" where
  "add_nexthop fib pre fid c = (let
     t = fib_trie fib;
     nhs = (case fibtrie_get t pre of Some e \<Rightarrow> nexthops e | None \<Rightarrow> []);
     nhs = filter (\<lambda>n. face_id n \<noteq> fid) nhs;
     nhs = nhs @ [\<lparr>face_id = fid, cost = c\<rparr>];
     nhs = sort_key cost nhs
   in fib\<lparr>fib_trie := fibtrie_insert t pre \<lparr>nexthops = nhs\<rparr>\<rparr>)"

definition fib_dump :: "fib \<Rightarrow> (name \<times> fib_entry) list" where
  "fib_dump fib = fibtrie_dump (fib_trie fib) []"

definition remove_prefix :: "fib \<Rightarrow> name \<Rightarrow> fib" where
  "remove_prefix fib pre = fib\<lparr>fib_trie := fibtrie_remove (fib_trie fib) pre\<rparr>"

definition set_nexthops :: "fib \<Rightarrow> name \<Rightarrow> fib_nexthop list \<Rightarrow> fib" where
  "set_nexthops fib pre nhs = fib\<lparr>fib_trie :=
     (if nhs = [] then fibtrie_remove (fib_trie fib) pre
      else fibtrie_insert (fib_trie fib) pre \<lparr>nexthops = sort_key cost nhs\<rparr>)\<rparr>"

definition remove_face_entry :: "u64 \<Rightarrow> fib_trie \<Rightarrow> name \<times> fib_entry \<Rightarrow> fib_trie" where
  "remove_face_entry fid t pe = (case pe of (pre, e) \<Rightarrow>
     if list_ex (\<lambda>n. face_id n = fid) (nexthops e) then
       let nhs = filter (\<lambda>n. face_id n \<noteq> fid) (nexthops e) in
       if nhs = [] then fibtrie_remove t pre else fibtrie_insert t pre \<lparr>nexthops = nhs\<rparr>
     else t)"

definition fib_remove_face :: "fib \<Rightarrow> u64 \<Rightarrow> fib" where
  "fib_remove_face fib fid =
     fib\<lparr>fib_trie := foldl (remove_face_entry fid) (fib_trie fib) (fibtrie_dump (fib_trie fib) [])\<rparr>"

definition fib_remove_nexthop :: "fib \<Rightarrow> name \<Rightarrow> u64 \<Rightarrow> fib" where
  "fib_remove_nexthop fib pre fid = fib\<lparr>fib_trie :=
     (case fibtrie_get (fib_trie fib) pre of
        Some existing \<Rightarrow>
          let nhs = filter (\<lambda>n. face_id n \<noteq> fid) (nexthops existing) in
          if nhs = [] then fibtrie_remove (fib_trie fib) pre
          else fibtrie_insert (fib_trie fib) pre \<lparr>nexthops = nhs\<rparr>
      | None \<Rightarrow> fib_trie fib)\<rparr>"

section \<open>FibTrie is a longest-prefix-match table\<close>

lemma fibtrie_get_eq: "fibtrie_get = trie_get"
proof (rule ext)+
  fix t n show "fibtrie_get t n = trie_get t n"
    by (induction t n rule: fibtrie_get.induct) (auto split: option.splits)
qed

lemma fibtrie_insert_eq: "fibtrie_insert = trie_insert"
proof (rule ext)+
  fix t n v show "fibtrie_insert t n v = trie_insert t n v"
    by (induction t n v rule: fibtrie_insert.induct) (auto simp: trie_new_def Let_def split: option.splits)
qed

lemma fibtrie_remove_eq: "fibtrie_remove = trie_remove"
proof (rule ext)+
  fix t n show "fibtrie_remove t n = trie_remove t n"
    by (induction t n rule: fibtrie_remove.induct) (auto split: option.splits)
qed

lemma fibtrie_dump_eq: "fibtrie_dump = dump_subtree"
proof (rule ext)+
  fix t p show "fibtrie_dump t p = dump_subtree t p"
  proof (induction t p rule: fibtrie_dump.induct)
    case (1 e ch path)
    then have "map (\<lambda>(component, child). fibtrie_dump child (path @ [component])) ch
        = map (\<lambda>(component, child). dump_subtree child (path @ [component])) ch"
      by (auto intro!: map_cong)
    then show ?case by (simp only: fibtrie_dump.simps dump_subtree.simps)
  qed
qed

lemmas fibtrie_eqs = fibtrie_get_eq fibtrie_insert_eq fibtrie_remove_eq fibtrie_dump_eq

lemma lpm_with_depth_loop_snd:
  "map_option snd (lpm_with_depth_loop best i t n) = lpm_loop (map_option snd best) t n"
  by (induction best i t n rule: lpm_with_depth_loop.induct) (auto split: option.splits)

lemma fibtrie_lpm_eq: "fibtrie_lpm = trie_lpm"
  by (rule ext)+ (simp add: fibtrie_lpm_def fibtrie_lpm_with_depth_def lpm_with_depth_loop_snd
      trie_lpm_def option.map_comp comp_def option.map_ident)

interpretation fibtrie: lpm_table "TrieNode None []" fibtrie_get fibtrie_insert fibtrie_remove fibtrie_lpm
  using name_trie.get_empty
  by unfold_locales
    (simp_all add: fibtrie_eqs fibtrie_lpm_eq trie_get_insert trie_get_remove trie_lpm_eq trie_new_def)

lemma lpm_with_depth_loop_depth:
  assumes "lpm_with_depth_loop best i t n = Some (d, e)"
  shows "best = Some (d, e) \<or> (i < d \<and> d \<le> i + length n \<and> trie_get t (take (d - i) n) = Some e)"
  using assms
proof (induction best i t n rule: lpm_with_depth_loop.induct)
  case (2 best i t c n)
  show ?case
  proof (cases "map_of (children t) c")
    case None
    with 2 show ?thesis by simp
  next
    case (Some child)
    from 2 Some have "(case entry child of Some e \<Rightarrow> Some (i + 1, e) | None \<Rightarrow> best) = Some (d, e) \<or>
        i + 1 < d \<and> d \<le> i + 1 + length n \<and> trie_get child (take (d - (i + 1)) n) = Some e"
      by simp
    then show ?thesis
    proof
      assume "(case entry child of Some e \<Rightarrow> Some (i + 1, e) | None \<Rightarrow> best) = Some (d, e)"
      with Some show ?thesis by (auto split: option.splits)
    next
      assume *: "i + 1 < d \<and> d \<le> i + 1 + length n \<and> trie_get child (take (d - (i + 1)) n) = Some e"
      then have "d - i = Suc (d - (i + 1))" by auto
      then have "take (d - i) (c # n) = c # take (d - (i + 1)) n" by simp
      with * Some show ?thesis by auto
    qed
  qed
qed simp

lemma lpm_with_depth_entry:
  assumes "fibtrie_lpm_with_depth t n = Some (d, e)"
  shows "d \<le> length n \<and> trie_get t (take d n) = Some e"
  using lpm_with_depth_loop_depth [OF assms [unfolded fibtrie_lpm_with_depth_def]] by auto

lemma lpm_with_depth_loop_deepest:
  assumes "lpm_with_depth_loop best i t n = Some (d, e)" and "\<forall>d0 e0. best = Some (d0, e0) \<longrightarrow> d0 \<le> i"
  shows "\<forall>k. d < k \<and> i < k \<and> k \<le> i + length n \<longrightarrow> trie_get t (take (k - i) n) = None"
  using assms
proof (induction best i t n rule: lpm_with_depth_loop.induct)
  case (2 best i t c n)
  have step: "k - i = Suc (k - Suc i)" if "i < k" for k using that by simp
  show ?case
  proof (cases "map_of (children t) c")
    case None
    then show ?thesis by (auto simp: step)
  next
    case (Some child)
    let ?best = "case entry child of Some e \<Rightarrow> Some (i + 1, e) | None \<Rightarrow> best"
    have r: "lpm_with_depth_loop ?best (i + 1) child n = Some (d, e)"
      using "2.prems"(1) Some by simp
    have b: "\<forall>d0 e0. ?best = Some (d0, e0) \<longrightarrow> d0 \<le> i + 1"
      using "2.prems"(2) by (fastforce split: option.splits)
    have deeper: "trie_get child (take (k - (i + 1)) n) = None"
      if "d < k" "i + 1 < k" "k \<le> i + 1 + length n" for k
      using "2.IH" [OF Some r b] that by blast
    have here: "entry child = None" if "d \<le> i"
      using lpm_with_depth_loop_depth [OF r] that by (auto split: option.splits)
    show ?thesis
    proof (intro allI impI)
      fix k
      assume k: "d < k \<and> i < k \<and> k \<le> i + length (c # n)"
      show "trie_get t (take (k - i) (c # n)) = None"
        using k Some here deeper [of k] by (cases "k = i + 1") (auto simp: step)
    qed
  qed
qed auto

section \<open>What the operations do to the entries\<close>

definition fib_get :: "fib \<Rightarrow> name \<Rightarrow> fib_entry option" where
  "fib_get fib p = trie_get (fib_trie fib) p"

definition fib_wf :: "fib \<Rightarrow> bool" where
  "fib_wf fib \<longleftrightarrow> trie_ok (fib_trie fib) \<and>
     (\<forall>p e. fib_get fib p = Some e \<longrightarrow> nexthops e \<noteq> [] \<and> sorted (map cost (nexthops e)))"

text \<open>The next hops of an optional entry, and the entry a list of next hops makes.\<close>

definition hops :: "fib_entry option \<Rightarrow> fib_nexthop list" where
  "hops eo = (case eo of Some e \<Rightarrow> nexthops e | None \<Rightarrow> [])"

definition entry_of :: "fib_nexthop list \<Rightarrow> fib_entry option" where
  "entry_of nhs = (if nhs = [] then None else Some \<lparr>nexthops = nhs\<rparr>)"

lemma hops_entry_of [simp]: "hops (entry_of nhs) = nhs"
  by (simp add: hops_def entry_of_def)

lemma hops_simps [simp]: "hops None = []" "hops (Some e) = nexthops e"
  by (simp_all add: hops_def)

lemma fib_get_new [simp]: "fib_get fib_new p = None"
  using name_trie.get_empty [of p] by (simp add: fib_get_def fib_new_def trie_new_def)

lemma fib_get_add_nexthop:
  "fib_get (add_nexthop fib pre fid c) = (fib_get fib)(pre \<mapsto> \<lparr>nexthops =
     sort_key cost (filter (\<lambda>n. face_id n \<noteq> fid) (hops (fib_get fib pre)) @ [\<lparr>face_id = fid, cost = c\<rparr>])\<rparr>)"
  by (rule ext)
    (simp add: fib_get_def add_nexthop_def Let_def fibtrie_eqs trie_get_insert hops_def split: option.splits)

lemma fib_get_remove_prefix: "fib_get (remove_prefix fib pre) = (fib_get fib)(pre := None)"
  by (rule ext) (simp add: fib_get_def remove_prefix_def fibtrie_eqs trie_get_remove)

lemma fib_get_set_nexthops:
  "fib_get (set_nexthops fib pre nhs) = (fib_get fib)(pre := entry_of (sort_key cost nhs))"
proof -
  have "sort_key cost nhs = [] \<longleftrightarrow> nhs = []"
    by (metis length_0_conv length_sort)
  then show ?thesis
    by (intro ext) (simp add: fib_get_def set_nexthops_def fibtrie_eqs trie_get_insert trie_get_remove
        entry_of_def)
qed

lemma fib_get_remove_nexthop:
  "fib_get (fib_remove_nexthop fib pre fid) =
     (fib_get fib)(pre := entry_of (filter (\<lambda>n. face_id n \<noteq> fid) (hops (fib_get fib pre))))"
  by (rule ext)
    (auto simp: fib_get_def fib_remove_nexthop_def fibtrie_eqs trie_get_insert trie_get_remove
      entry_of_def hops_def Let_def split: option.splits)

definition without_face :: "u64 \<Rightarrow> fib_entry \<Rightarrow> fib_entry option" where
  "without_face fid e = entry_of (nexthops_excluding e fid)"

lemma without_face_absent:
  "nexthops e \<noteq> [] \<Longrightarrow> \<not> list_ex (\<lambda>n. face_id n = fid) (nexthops e) \<Longrightarrow> without_face fid e = Some e"
  by (simp add: without_face_def entry_of_def nexthops_excluding_def list_ex_iff filter_True)

lemma trie_get_remove_face_entry:
  "nexthops e \<noteq> [] \<Longrightarrow> trie_get t p = Some e \<or> trie_get t p = without_face fid e \<Longrightarrow>
   trie_get (remove_face_entry fid t (p, e)) = (trie_get t)(p := without_face fid e)"
  by (rule ext) (auto simp: remove_face_entry_def fibtrie_eqs trie_get_insert trie_get_remove Let_def
      without_face_absent, auto simp: without_face_def entry_of_def nexthops_excluding_def)

lemma trie_get_remove_face_fold:
  assumes "\<forall>(p, e) \<in> set es. nexthops e \<noteq> [] \<and> m p = Some e"
    and "\<forall>p e. m p = Some e \<longrightarrow> trie_get t p = Some e \<or> trie_get t p = without_face fid e"
  shows "trie_get (foldl (remove_face_entry fid) t es) p =
    (case m p of Some e \<Rightarrow> if (p, e) \<in> set es then without_face fid e else trie_get t p
     | None \<Rightarrow> trie_get t p)"
  using assms
proof (induction es arbitrary: t)
  case (Cons pe es)
  obtain p0 e0 where pe: "pe = (p0, e0)" by fastforce
  have "trie_get (remove_face_entry fid t pe) = (trie_get t)(p0 := without_face fid e0)"
    using Cons.prems pe by (intro trie_get_remove_face_entry [of e0 t p0, folded pe]) auto
  moreover have "trie_get (foldl (remove_face_entry fid) (remove_face_entry fid t pe) es) p =
    (case m p of Some e \<Rightarrow> if (p, e) \<in> set es then without_face fid e
        else trie_get (remove_face_entry fid t pe) p
     | None \<Rightarrow> trie_get (remove_face_entry fid t pe) p)"
    using Cons.prems pe calculation by (intro Cons.IH) auto
  ultimately show ?case
    using Cons.prems pe by (auto split: option.splits)
qed (simp split: option.splits)

lemma trie_ok_remove_face_entry [wf_intros]: "trie_ok t \<Longrightarrow> trie_ok (remove_face_entry fid t pe)"
  by (cases pe) (simp add: remove_face_entry_def Let_def fibtrie_eqs wf_intros)

lemma trie_ok_remove_face_fold [wf_intros]:
  "trie_ok t \<Longrightarrow> trie_ok (foldl (remove_face_entry fid) t es)"
  by (induction es arbitrary: t) (simp_all add: wf_intros)

lemma fib_get_remove_face:
  assumes "fib_wf fib"
  shows "fib_get (fib_remove_face fib fid) p = entry_of (filter (\<lambda>n. face_id n \<noteq> fid) (hops (fib_get fib p)))"
proof -
  let ?t = "fib_trie fib"
  have dump: "set (fibtrie_dump ?t []) = {(n, v). trie_get ?t n = Some v}"
    using assms trie_dump_set [of ?t] by (simp add: fib_wf_def fibtrie_eqs trie_dump_def)
  have "trie_get (foldl (remove_face_entry fid) ?t (fibtrie_dump ?t [])) p =
    (case trie_get ?t p of Some e \<Rightarrow> if (p, e) \<in> set (fibtrie_dump ?t []) then without_face fid e
       else trie_get ?t p | None \<Rightarrow> trie_get ?t p)"
    using assms by (intro trie_get_remove_face_fold) (auto simp: dump fib_wf_def fib_get_def)
  then show ?thesis
    by (simp add: dump fib_get_def fib_remove_face_def without_face_def nexthops_excluding_def
        entry_of_def split: option.splits)
qed

section \<open>Every reachable FIB is cost-sorted\<close>

inductive fib_step :: "fib \<Rightarrow> fib \<Rightarrow> bool" where
  step_add_nexthop: "fib_step fib (add_nexthop fib pre fid c)"
| step_remove_prefix: "fib_step fib (remove_prefix fib pre)"
| step_set_nexthops: "fib_step fib (set_nexthops fib pre nhs)"
| step_remove_face: "fib_step fib (fib_remove_face fib fid)"
| step_remove_nexthop: "fib_step fib (fib_remove_nexthop fib pre fid)"

lemma fib_wf_new [wf_intros]: "fib_wf fib_new"
  using trie_ok_new by (simp add: fib_wf_def) (simp add: fib_new_def trie_new_def)

lemma sorted_filter_cost: "sorted (map cost nhs) \<Longrightarrow> sorted (map cost (filter P nhs))"
  by (rule sorted_filter)

lemma fib_wf_set:
  assumes "fib_wf fib" "trie_ok (fib_trie fib')" "fib_get fib' = (fib_get fib)(pre := entry_of nhs)"
    and "sorted (map cost nhs)"
  shows "fib_wf fib'"
  using assms by (auto simp: fib_wf_def entry_of_def split: if_splits)

lemma sort_cost_nonempty: "nhs \<noteq> [] \<Longrightarrow> sort_key cost nhs \<noteq> []"
  by (metis length_0_conv length_sort)

lemma sorted_hops: "fib_wf fib \<Longrightarrow> sorted (map cost (hops (fib_get fib p)))"
  by (cases "fib_get fib p") (auto simp: fib_wf_def)

lemma fib_wf_trie_ok: "fib_wf fib \<Longrightarrow> trie_ok (fib_trie fib)"
  by (simp add: fib_wf_def)

lemma trie_ok_fib_ops [wf_intros]:
  assumes "trie_ok (fib_trie fib)"
  shows "trie_ok (fib_trie (add_nexthop fib pre fid c))" "trie_ok (fib_trie (remove_prefix fib pre))"
    "trie_ok (fib_trie (set_nexthops fib pre nhs))" "trie_ok (fib_trie (fib_remove_face fib fid))"
    "trie_ok (fib_trie (fib_remove_nexthop fib pre fid))"
  using assms
  by (simp_all add: add_nexthop_def remove_prefix_def set_nexthops_def fib_remove_face_def
      fib_remove_nexthop_def fibtrie_eqs Let_def wf_intros split: option.split)

lemma fib_get_add_nexthop_entry:
  "fib_get (add_nexthop fib pre fid c) = (fib_get fib)(pre := entry_of
     (sort_key cost (filter (\<lambda>n. face_id n \<noteq> fid) (hops (fib_get fib pre)) @ [\<lparr>face_id = fid, cost = c\<rparr>])))"
  using sort_cost_nonempty [of "filter (\<lambda>n. face_id n \<noteq> fid) (hops (fib_get fib pre)) @ [\<lparr>face_id = fid, cost = c\<rparr>]"]
  by (simp add: fib_get_add_nexthop entry_of_def)

lemma fib_get_remove_prefix_entry:
  "fib_get (remove_prefix fib pre) = (fib_get fib)(pre := entry_of [])"
  by (simp add: fib_get_remove_prefix entry_of_def)

lemma fib_step_wf: "fib_step fib fib' \<Longrightarrow> fib_wf fib \<Longrightarrow> fib_wf fib'"
proof (induction rule: fib_step.induct)
  case (step_add_nexthop fib pre fid c)
  then show ?case
    by (rule fib_wf_set [OF _ _ fib_get_add_nexthop_entry]) (simp_all add: step_add_nexthop fib_wf_trie_ok wf_intros)
next
  case (step_remove_prefix fib pre)
  then show ?case
    by (rule fib_wf_set [OF _ _ fib_get_remove_prefix_entry]) (simp_all add: step_remove_prefix fib_wf_trie_ok wf_intros)
next
  case (step_set_nexthops fib pre nhs)
  then show ?case
    by (rule fib_wf_set [OF _ _ fib_get_set_nexthops]) (simp_all add: step_set_nexthops fib_wf_trie_ok wf_intros)
next
  case (step_remove_face fib fid)
  then have "trie_ok (fib_trie (fib_remove_face fib fid))"
    by (simp add: fib_wf_trie_ok wf_intros)
  moreover have "sorted (map cost (filter (\<lambda>n. face_id n \<noteq> fid) (hops (fib_get fib p))))" for p
    using step_remove_face by (intro sorted_filter_cost sorted_hops)
  ultimately show ?case
    unfolding fib_wf_def by (simp add: fib_get_remove_face [OF step_remove_face] entry_of_def)
next
  case (step_remove_nexthop fib pre fid)
  then show ?case
    by (rule fib_wf_set [OF _ _ fib_get_remove_nexthop])
      (simp_all add: step_remove_nexthop fib_wf_trie_ok wf_intros sorted_filter_cost sorted_hops)
qed

lemma fib_reachable_wf: "fib_step\<^sup>*\<^sup>* fib_new fib \<Longrightarrow> fib_wf fib"
  by (induction rule: rtranclp_induct) (auto intro: fib_wf_new fib_step_wf)

section \<open>Properties\<close>

text \<open>Best route: in every FIB reached from the empty one by any sequence of
  \<open>add_nexthop\<close>, \<open>remove_nexthop\<close>, \<open>set_nexthops\<close>, \<open>remove_prefix\<close> and \<open>remove_face\<close>, an
  entry found by a lookup has a next hop, and its first next hop (the one the best-route
  strategy takes) is one of lowest cost.\<close>

lemma fib_lookup_first_is_cheapest:
  assumes "fib_step\<^sup>*\<^sup>* fib_new fib" and "fib_lpm fib n = Some e"
  shows "nexthops e \<noteq> [] \<and> (\<forall>nh \<in> set (nexthops e). cost (hd (nexthops e)) \<le> cost nh)"
proof -
  obtain p where "fib_get fib p = Some e"
    using assms(2) fibtrie.lpm_longest [of "fib_trie fib" n e]
    by (auto simp: fib_lpm_def fib_get_def fibtrie_get_eq)
  then have "nexthops e \<noteq> []" "sorted (map cost (nexthops e))"
    using fib_reachable_wf [OF assms(1)] by (auto simp: fib_wf_def)
  then show ?thesis
    by (cases "nexthops e") auto
qed

text \<open>Removing a face: afterwards no prefix has a next hop on that face, the other next hops
  of every prefix are all kept in their order, and an entry disappears exactly when it had
  no other next hop.\<close>

lemma fib_remove_face_exact:
  assumes "fib_step\<^sup>*\<^sup>* fib_new fib"
  shows "fib_get (fib_remove_face fib fid) p =
    entry_of (filter (\<lambda>nh. face_id nh \<noteq> fid) (hops (fib_get fib p)))"
  using fib_get_remove_face [OF fib_reachable_wf [OF assms]] .

text \<open>The diagnostic lookup reports the right depth: the entry \<open>lpm_with_depth\<close> returns is
  the one stored at the first \<open>d\<close> components of the name, and no longer prefix of the name
  has an entry; \<open>lpm\<close> returns the same entry.\<close>

lemma fib_lpm_with_depth_deepest:
  assumes "fib_lpm_with_depth fib n = Some (d, e)"
  shows "d \<le> length n \<and> fib_get fib (take d n) = Some e \<and>
    (\<forall>k. d < k \<and> k \<le> length n \<longrightarrow> fib_get fib (take k n) = None) \<and> fib_lpm fib n = Some e"
proof -
  have l: "lpm_with_depth_loop (map_option (\<lambda>e. (0, e)) (entry (fib_trie fib))) 0 (fib_trie fib) n = Some (d, e)"
    using assms by (simp add: fib_lpm_with_depth_def fibtrie_lpm_with_depth_def)
  have "\<forall>k. d < k \<and> 0 < k \<and> k \<le> 0 + length n \<longrightarrow> trie_get (fib_trie fib) (take (k - 0) n) = None"
    by (rule lpm_with_depth_loop_deepest [OF l]) auto
  then show ?thesis
    using lpm_with_depth_entry [of "fib_trie fib" n d e] assms
    by (auto simp: fib_lpm_with_depth_def fib_get_def fib_lpm_def fibtrie_lpm_def)
qed

end
