(* ===== verification/Fwd_Core.thy ===== *)
theory Fwd_Core
  imports Engine_Fib
begin

text \<open>
  The crate ndn-fwd-core: forwarding rules without I/O. Freshness in its absolute and its
  wrapping form, the selection rule of longest-prefix match, the Interest and Data decisions
  over abstract stores, the two simple strategies and the observing decorators. The stores are
  parameters (\<open>fib_store\<close>, \<open>pit_store\<close> and \<open>cs_store\<close> are the traits); the selection rule is
  shown to give the result of the name trie the native forwarder uses, and the conformance
  vectors of the crate are run on both.
\<close>

section \<open>Freshness\<close>

definition fresh_until :: "u64 \<Rightarrow> u64 \<Rightarrow> bool" where
  "fresh_until now stale_at \<longleftrightarrow> now < stale_at"

definition fresh_for :: "u32 \<Rightarrow> u32 \<Rightarrow> u32 \<Rightarrow> bool" where
  "fresh_for now stored period = (if period = 0 then False else now - stored < period)"

section \<open>Longest match\<close>

definition longest_match :: "nat \<Rightarrow> (nat \<times> 'v) list \<Rightarrow> 'v option" where
  "longest_match name_len candidates = map_option snd (foldl (\<lambda>best (prefix_len, value).
     if prefix_len > name_len then best
     else if (case best of None \<Rightarrow> True | Some (b, _) \<Rightarrow> prefix_len > b) then Some (prefix_len, value)
     else best) None candidates)"

section \<open>Stores\<close>

text \<open>The traits \<open>FibStore\<close>, \<open>PitStore\<close> and \<open>CsStore\<close>. \<open>satisfy\<close> returns the faces it calls
  \<open>send_to\<close> with, in order.\<close>

record ('s, 'f) fib_store =
  fs_lpm :: "bytes list \<Rightarrow> 's \<Rightarrow> 'f option"

record ('s, 'f) pit_store =
  ps_has_nonce :: "u32 \<Rightarrow> 's \<Rightarrow> bool"
  ps_record_pending :: "bytes list \<Rightarrow> 'f \<Rightarrow> u32 \<Rightarrow> u32 \<Rightarrow> u32 \<Rightarrow> 's \<Rightarrow> 's"
  ps_satisfy :: "bytes list \<Rightarrow> 's \<Rightarrow> 's \<times> 'f list \<times> bool"
  ps_discard_pending :: "bytes list \<Rightarrow> 's \<Rightarrow> 's \<times> bool"

record 's cs_store =
  cst_lookup :: "bytes list \<Rightarrow> u32 \<Rightarrow> 's \<Rightarrow> bytes option"
  cst_admit :: "bytes list \<Rightarrow> bytes \<Rightarrow> u32 \<Rightarrow> u32 \<Rightarrow> 's \<Rightarrow> 's"
  cst_len :: "'s \<Rightarrow> nat"

definition no_cs :: "unit cs_store" where
  "no_cs = \<lparr>cst_lookup = \<lambda>_ _ _. None, cst_admit = \<lambda>_ _ _ _ s. s, cst_len = \<lambda>_. 0\<rparr>"

section \<open>Decisions\<close>

datatype core_drop_reason = CoreHopLimitExceeded | DuplicateNonce | NoRouteDrop | SplitHorizon

datatype 'f forward_action = Now 'f | After 'f u32

datatype 'f interest_decision = DecideDrop core_drop_reason | DecideForward 'f bool

record 'f interest_inputs =
  ii_hop_limit :: "u8 option"
  ii_duplicate_nonce :: bool
  ii_nexthop :: "'f option"
  ii_incoming_face :: 'f

definition decide_interest :: "'f interest_inputs \<Rightarrow> 'f interest_decision" where
  "decide_interest inputs =
     (if ii_duplicate_nonce inputs then DecideDrop DuplicateNonce
      else if ii_hop_limit inputs = Some 0 then DecideDrop CoreHopLimitExceeded
      else case ii_nexthop inputs of
        None \<Rightarrow> DecideDrop NoRouteDrop
      | Some nexthop \<Rightarrow>
          if nexthop = ii_incoming_face inputs then DecideDrop SplitHorizon
          else DecideForward nexthop (ii_hop_limit inputs \<noteq> None))"

definition decide_interest_with ::
  "('b, 'f) fib_store \<Rightarrow> ('p, 'f) pit_store \<Rightarrow> 'b \<Rightarrow> 'p \<Rightarrow> bytes list \<Rightarrow> u8 option \<Rightarrow> u32 \<Rightarrow> 'f \<Rightarrow> 'f interest_decision" where
  "decide_interest_with F P fib pit components hop_limit nonce incoming_face = decide_interest
     \<lparr>ii_hop_limit = hop_limit, ii_duplicate_nonce = (nonce \<noteq> 0 \<and> ps_has_nonce P nonce pit),
      ii_nexthop = fs_lpm F components fib, ii_incoming_face = incoming_face\<rparr>"

datatype data_decision = Satisfied | Unsolicited

definition decide_data ::
  "('p, 'f) pit_store \<Rightarrow> 'c cs_store \<Rightarrow> bytes list \<Rightarrow> bytes \<Rightarrow> u32 \<Rightarrow> u32 \<Rightarrow> 'p \<times> 'c \<Rightarrow> ('p \<times> 'c) \<times> 'f list \<times> data_decision" where
  "decide_data P C components wire freshness_ms now_ms st = (case st of (pit, cs) \<Rightarrow>
     (case ps_satisfy P components pit of
        (pit, sent, True) \<Rightarrow> ((pit, cst_admit C components wire freshness_ms now_ms cs), sent, Satisfied)
      | (pit, sent, False) \<Rightarrow> ((pit, cs), sent, Unsolicited)))"

section \<open>Strategies\<close>

record 'f decide_ctx =
  dc_components :: "bytes list"
  dc_nexthops :: "'f list"
  dc_incoming :: 'f
  dc_now_ms :: u32

definition core_best_route_decide :: "'f decide_ctx \<Rightarrow> 'f forward_action list" where
  "core_best_route_decide ctx = (case find (\<lambda>f. f \<noteq> dc_incoming ctx) (dc_nexthops ctx) of
     Some nh \<Rightarrow> [Now nh] | None \<Rightarrow> [])"

definition core_multicast_decide :: "'f decide_ctx \<Rightarrow> 'f forward_action list" where
  "core_multicast_decide ctx = map Now (filter (\<lambda>f. f \<noteq> dc_incoming ctx) (dc_nexthops ctx))"

section \<open>Observed stores\<close>

datatype table_event = OnPitInsert "bytes list" | OnPitRemove "bytes list" | OnCsAdmit "bytes list"

text \<open>The wrapped store and the calls its observer got.\<close>

record 's observed =
  ob_inner :: 's
  ob_events :: "table_event list"

definition observed_pit :: "('s, 'f) pit_store \<Rightarrow> ('s observed, 'f) pit_store" where
  "observed_pit P = \<lparr>
     ps_has_nonce = \<lambda>nonce s. ps_has_nonce P nonce (ob_inner s),
     ps_record_pending = \<lambda>components incoming nonce lifetime_ms created_ms s. (let
         s = s\<lparr>ob_events := ob_events s @ [OnPitInsert components]\<rparr>
       in s\<lparr>ob_inner := ps_record_pending P components incoming nonce lifetime_ms created_ms (ob_inner s)\<rparr>),
     ps_satisfy = \<lambda>components s. (case ps_satisfy P components (ob_inner s) of
         (inner, sent, hit) \<Rightarrow> (let s = s\<lparr>ob_inner := inner\<rparr> in
           (if hit then s\<lparr>ob_events := ob_events s @ [OnPitRemove components]\<rparr> else s, sent, hit))),
     ps_discard_pending = \<lambda>components s. (case ps_discard_pending P components (ob_inner s) of
         (inner, hit) \<Rightarrow> (let s = s\<lparr>ob_inner := inner\<rparr> in
           (if hit then s\<lparr>ob_events := ob_events s @ [OnPitRemove components]\<rparr> else s, hit)))\<rparr>"

definition observed_cs :: "'s cs_store \<Rightarrow> 's observed cs_store" where
  "observed_cs C = \<lparr>
     cst_lookup = \<lambda>components now_ms s. cst_lookup C components now_ms (ob_inner s),
     cst_admit = \<lambda>components wire freshness_ms now_ms s. (let
         s = s\<lparr>ob_events := ob_events s @ [OnCsAdmit components]\<rparr>
       in s\<lparr>ob_inner := cst_admit C components wire freshness_ms now_ms (ob_inner s)\<rparr>),
     cst_len = \<lambda>s. cst_len C (ob_inner s)\<rparr>"

section \<open>Conformance vectors\<close>

definition LPM_ROUTES :: "(string \<times> u32) list" where
  "LPM_ROUTES = [(''/ndn'', 1), (''/ndn/edu'', 2), (''/ndn/edu/ucla'', 3)]"

definition LPM_CASES :: "(string \<times> u32 option) list" where
  "LPM_CASES = [(''/ndn/edu/ucla/data'', Some 3), (''/ndn/edu/mit'', Some 2), (''/ndn/other'', Some 1),
     (''/ndn'', Some 1), (''/com/example'', None)]"

record interest_decision_case =
  idc_hop_limit :: "u8 option"
  idc_duplicate_nonce :: bool
  idc_has_route :: bool
  idc_route_to_incoming :: bool
  idc_expect_forward :: bool

definition INTEREST_DECISION_CASES :: "interest_decision_case list" where
  "INTEREST_DECISION_CASES = [
     \<lparr>idc_hop_limit = None, idc_duplicate_nonce = False, idc_has_route = True, idc_route_to_incoming = False, idc_expect_forward = True\<rparr>,
     \<lparr>idc_hop_limit = Some 5, idc_duplicate_nonce = False, idc_has_route = True, idc_route_to_incoming = False, idc_expect_forward = True\<rparr>,
     \<lparr>idc_hop_limit = Some 5, idc_duplicate_nonce = False, idc_has_route = False, idc_route_to_incoming = False, idc_expect_forward = False\<rparr>,
     \<lparr>idc_hop_limit = Some 0, idc_duplicate_nonce = False, idc_has_route = True, idc_route_to_incoming = False, idc_expect_forward = False\<rparr>,
     \<lparr>idc_hop_limit = None, idc_duplicate_nonce = False, idc_has_route = True, idc_route_to_incoming = True, idc_expect_forward = False\<rparr>]"

definition FRESH_FOR_CASES :: "(u32 \<times> u32 \<times> u32 \<times> bool) list" where
  "FRESH_FOR_CASES = [(50, 0, 100, True), (100, 0, 100, False), (0, 0, 0, False), (5, 0xFFFFFFFF - 4, 100, True)]"

section \<open>Laws of the rules\<close>

text \<open>The wrapping form is right for every age the clock can tell apart, also across its wrap.\<close>

lemma fresh_for_age:
  assumes "age < 2 ^ 32"
  shows "fresh_for (word_of_nat (t + age)) (word_of_nat t) period \<longleftrightarrow> age < unat period"
proof -
  have "word_of_nat (t + age) - word_of_nat t = (word_of_nat age :: u32)" by simp
  moreover have "unat (word_of_nat age :: u32) = age" using assms by (simp add: unat_of_nat take_bit_nat_eq_self)
  ultimately show ?thesis by (auto simp: fresh_for_def word_less_nat_alt)
qed

lemma fresh_for_cases: "list_all (\<lambda>(now, stored, period, fresh). fresh_for now stored period = fresh) FRESH_FOR_CASES"
  by (simp add: FRESH_FOR_CASES_def fresh_for_def)

text \<open>The one-pass reduction keeps the first of the longest candidates.\<close>

lemma longest_match_fold:
  fixes n :: nat
  assumes "foldl (\<lambda>best (l, v). if l > n then best
      else if (case best of None \<Rightarrow> True | Some (b, _) \<Rightarrow> l > b) then Some (l, v) else best) None cs = r"
  shows "case r of
      None \<Rightarrow> \<forall>(l, v) \<in> set cs. l > n
    | Some (l, v) \<Rightarrow> (l, v) \<in> set cs \<and> l \<le> n \<and> (\<forall>(l', v') \<in> set cs. l' \<le> n \<longrightarrow> l' \<le> l)"
  using assms
proof (induction cs arbitrary: r rule: rev_induct)
  case (snoc c cs)
  obtain l v where c: "c = (l, v)" by (cases c)
  show ?case
    using snoc.IH [OF refl] snoc.prems by (auto simp: c split: option.splits if_splits prod.splits)
qed simp

lemma longest_match_Some:
  "longest_match n cs = Some v \<Longrightarrow>
     \<exists>l. (l, v) \<in> set cs \<and> l \<le> n \<and> (\<forall>(l', v') \<in> set cs. l' \<le> n \<longrightarrow> l' \<le> l)"
  using longest_match_fold [of n cs, OF refl] by (auto simp: longest_match_def)

lemma longest_match_None: "longest_match n cs = None \<longleftrightarrow> (\<forall>(l, v) \<in> set cs. l > n)"
  using longest_match_fold [of n cs, OF refl]
  by (fastforce simp: longest_match_def split: option.splits)

text \<open>A linear table, one entry per prefix, under the selection rule is longest-prefix match over the
  map the table stands for.\<close>

lemma longest_match_lpm_spec:
  assumes "distinct (map fst routes)"
  shows "longest_match (length n) (map (\<lambda>(p, v). (length p, v)) (filter (\<lambda>(p, _). has_prefix n p) routes)) = lpm_spec (map_of routes) n"
proof (cases "longest_match (length n) (map (\<lambda>(p, v). (length p, v)) (filter (\<lambda>(p, _). has_prefix n p) routes))")
  case None
  then have "\<forall>(p, v) \<in> set routes. \<not> has_prefix n p"
    by (fastforce simp: longest_match_None has_prefix_iff dest: prefix_length_le)
  then have "lpm_spec (map_of routes) n = None"
    by (force simp: lpm_spec_None has_prefix_iff dest: map_of_SomeD simp: map_of_eq_None_iff)
  then show ?thesis using None by simp
next
  case (Some v)
  then obtain p where p: "(p, v) \<in> set routes" "prefix p n"
    and max: "\<And>q w. (q, w) \<in> set routes \<Longrightarrow> prefix q n \<Longrightarrow> length q \<le> length p"
    by (fastforce dest!: longest_match_Some simp: has_prefix_iff dest: prefix_length_le)
  have "map_of routes p = Some v" using p(1) assms by simp
  moreover have "prefix q p" if "prefix q n" "map_of routes q \<noteq> None" for q
    using that max [of q] p(2) by (auto dest!: map_of_SomeD intro: prefix_length_prefix)
  ultimately have "lpm_spec (map_of routes) n = Some v" using p(2) by (auto simp: lpm_spec_Some)
  then show ?thesis using Some by simp
qed

text \<open>The strategies respect split horizon, and over a FIB lookup the best route is a cheapest one.\<close>

lemma core_best_route_cheapest:
  assumes "fib_step\<^sup>*\<^sup>* fib_new fib" "fib_lpm fib n = Some e" "dc_nexthops ctx = map face_id (nexthops e)"
  shows "case core_best_route_decide ctx of
      [] \<Rightarrow> \<forall>nh \<in> set (nexthops e). face_id nh = dc_incoming ctx
    | a # as \<Rightarrow> as = [] \<and> (\<exists>nh \<in> set (nexthops e). a = Now (face_id nh) \<and> face_id nh \<noteq> dc_incoming ctx \<and>
        (\<forall>nh' \<in> set (nexthops e). face_id nh' \<noteq> dc_incoming ctx \<longrightarrow> cost nh \<le> cost nh'))"
proof -
  obtain p where "fib_get fib p = Some e"
    using assms(2) fibtrie.lpm_longest [of "fib_trie fib" n e] by (auto simp: fib_lpm_def fib_get_def fibtrie_get_eq)
  then have "sorted (map cost (nexthops e))" using fib_reachable_wf [OF assms(1)] by (auto simp: fib_wf_def)
  then show ?thesis
    unfolding core_best_route_decide_def assms(3)
  proof (induction "nexthops e" arbitrary: e)
    case (Cons nh nhs)
    let ?e = "e\<lparr>nexthops := nhs\<rparr>"
    have "sorted (map cost (nexthops ?e))" using Cons.prems Cons.hyps(2) [symmetric] by simp
    note IH = Cons.hyps(1) [of ?e, OF _ this, simplified]
    show ?case
      using Cons.prems IH unfolding Cons.hyps(2) [symmetric] by (auto split: option.splits)
  qed simp
qed

lemma core_multicast_split_horizon:
  "set (core_multicast_decide ctx) = Now ` (set (dc_nexthops ctx) - {dc_incoming ctx})"
  by (auto simp: core_multicast_decide_def)

text \<open>What the \<open>PitStore\<close> trait promises: a recorded name is pending until it is satisfied or
  discarded, and these report whether it was. Under that contract an observer that counts an insertion
  and forgets a name on a removal knows exactly the pending names.\<close>

definition pit_store_lawful :: "('s, 'f) pit_store \<Rightarrow> ('s \<Rightarrow> bytes list set) \<Rightarrow> bool" where
  "pit_store_lawful P pending \<longleftrightarrow>
     (\<forall>c f n l t s. pending (ps_record_pending P c f n l t s) = insert c (pending s)) \<and>
     (\<forall>c s. let (s', _, hit) = ps_satisfy P c s in pending s' = pending s - {c} \<and> (hit \<longleftrightarrow> c \<in> pending s)) \<and>
     (\<forall>c s. let (s', hit) = ps_discard_pending P c s in pending s' = pending s - {c} \<and> (hit \<longleftrightarrow> c \<in> pending s))"

definition mirror :: "bytes list set \<Rightarrow> table_event \<Rightarrow> bytes list set" where
  "mirror m e = (case e of OnPitInsert c \<Rightarrow> insert c m | OnPitRemove c \<Rightarrow> m - {c} | OnCsAdmit c \<Rightarrow> m)"

lemma observed_pit_lawful:
  assumes "pit_store_lawful P pending"
  shows "pit_store_lawful (observed_pit P) (\<lambda>s. pending (ob_inner s))"
  using assms by (auto simp: pit_store_lawful_def observed_pit_def Let_def split: prod.splits)

lemma observed_pit_mirrors:
  assumes "pit_store_lawful P pending" "pending (ob_inner s) = foldl mirror m (ob_events s)"
    and "s' = ps_record_pending (observed_pit P) c f n l t s \<or> s' = fst (ps_satisfy (observed_pit P) c s) \<or>
      s' = fst (ps_discard_pending (observed_pit P) c s)"
  shows "pending (ob_inner s') = foldl mirror m (ob_events s')"
proof -
  obtain s1 x1 b1 where sat: "ps_satisfy P c (ob_inner s) = (s1, x1, b1)" by (metis prod_cases3)
  obtain s2 b2 where dis: "ps_discard_pending P c (ob_inner s) = (s2, b2)" by fastforce
  have "pending s1 = pending (ob_inner s) - {c} \<and> (b1 \<longleftrightarrow> c \<in> pending (ob_inner s))"
    using assms(1) sat unfolding pit_store_lawful_def by (fastforce simp: Let_def split: prod.splits)
  moreover have "pending s2 = pending (ob_inner s) - {c} \<and> (b2 \<longleftrightarrow> c \<in> pending (ob_inner s))"
    using assms(1) dis unfolding pit_store_lawful_def by (fastforce simp: Let_def split: prod.splits)
  moreover have "pending (ps_record_pending P c f n l t (ob_inner s)) = insert c (pending (ob_inner s))"
    using assms(1) by (simp add: pit_store_lawful_def)
  ultimately show ?thesis
    using assms(3,2) by (elim disjE) (auto simp: observed_pit_def mirror_def sat dis Let_def)
qed

section \<open>Properties\<close>

text \<open>C20. The linear table of a constrained forwarder and the name trie of the native one cannot drift apart:
  when both hold the same routes, one per prefix, the selection rule applied to the matching routes
  in any order gives exactly what the trie lookup gives.\<close>

theorem linear_table_agrees_with_trie:
  assumes "distinct (map fst routes)" "\<forall>p. map_of routes p = trie_get t p"
  shows "longest_match (length n) (map (\<lambda>(p, v). (length p, v)) (filter (\<lambda>(p, _). has_prefix n p) routes)) = trie_lpm t n"
proof -
  have "map_of routes = trie_get t" using assms(2) by (simp add: fun_eq_iff)
  then show ?thesis using longest_match_lpm_spec [OF assms(1), of n] by (simp add: trie_lpm_eq)
qed

text \<open>The conformance routes, in the table and in the trie.\<close>

fun split_slash :: "string \<Rightarrow> string list" where
  "split_slash [] = [[]]"
| "split_slash (c # cs) = (case split_slash cs of
     w # ws \<Rightarrow> if c = CHR ''/'' then [] # w # ws else (c # w) # ws | [] \<Rightarrow> [[c]])"

definition slash_name :: "string \<Rightarrow> name" where
  "slash_name s = map (\<lambda>w. generic (ascii w)) (filter (\<lambda>w. w \<noteq> []) (split_slash s))"

definition conformance_routes :: "(name \<times> u32) list" where
  "conformance_routes = map (\<lambda>(p, v). (slash_name p, v)) LPM_ROUTES"

definition conformance_trie :: "u32 trie" where
  "conformance_trie = foldl (\<lambda>t (p, v). trie_insert t p v) trie_new conformance_routes"

lemma conformance_names:
  "conformance_routes = [([generic (ascii ''ndn'')], 1), ([generic (ascii ''ndn''), generic (ascii ''edu'')], 2),
     ([generic (ascii ''ndn''), generic (ascii ''edu''), generic (ascii ''ucla'')], 3)]"
  by (simp add: conformance_routes_def LPM_ROUTES_def slash_name_def)

lemma generic_eq: "generic a = generic b \<longleftrightarrow> a = b"
  by (simp add: generic_def)

lemma conformance_trie_routes: "map_of conformance_routes p = trie_get conformance_trie p"
  unfolding conformance_trie_def by (simp add: conformance_names trie_get_insert)

theorem linear_table_agrees_with_trie_witness:
  "map (\<lambda>(q, _). let n = slash_name q in
      longest_match (length n) (map (\<lambda>(p, v). (length p, v)) (filter (\<lambda>(p, _). has_prefix n p) conformance_routes))) LPM_CASES =
   map snd LPM_CASES"
proof -
  have "distinct (map fst conformance_routes)" by (simp add: conformance_names generic_eq)
  note agree = linear_table_agrees_with_trie [OF this allI [OF conformance_trie_routes]]
  have "map (\<lambda>(q, _). trie_lpm conformance_trie (slash_name q)) LPM_CASES = map snd LPM_CASES"
    by (simp add: LPM_CASES_def slash_name_def conformance_trie_def conformance_names trie_lpm_def trie_new_def
        generic_eq ascii_def)
  then show ?thesis unfolding Let_def agree .
qed

lemma interest_decision_cases:
  "list_all (\<lambda>c. (case decide_interest \<lparr>ii_hop_limit = idc_hop_limit c, ii_duplicate_nonce = idc_duplicate_nonce c,
        ii_nexthop = (if idc_has_route c then Some (if idc_route_to_incoming c then 1 else 2) else None),
        ii_incoming_face = (1 :: u8)\<rparr> of DecideForward _ _ \<Rightarrow> True | DecideDrop _ \<Rightarrow> False) = idc_expect_forward c)
     INTEREST_DECISION_CASES"
  by (simp add: INTEREST_DECISION_CASES_def decide_interest_def)

end
