(* ===== verification/Store_Cs.thy ===== *)
theory Store_Cs
  imports Fwd_Core Ndn_Interest Ndn_Data Table_Laws
begin

text \<open>
  The Content Store of ndn-store: entries and admission policies (\<open>content_store.rs\<close>), the
  byte-bounded LRU store (\<open>lru_cs.rs\<close>), its sharded and its observed form (\<open>sharded_cs.rs\<close>,
  \<open>observable_cs.rs\<close>), and the key codec of the persistent stores (\<open>cs_keycodec.rs\<close>). The
  LRU map is the crate \<open>lru\<close>: a record of its operations is an argument, and \<open>lru_lawful\<close>
  states what its documentation promises. The clock and SHA-256 are arguments too. An atomic counter
  that wraps is a 64-bit word.
\<close>

section \<open>Entries, results, policies\<close>

record cs_entry =
  ce_data :: bytes
  ce_stale_at :: u64
  ce_name :: name

definition is_fresh :: "cs_entry \<Rightarrow> u64 \<Rightarrow> bool" where
  "is_fresh e now_ns = fresh_until now_ns (ce_stale_at e)"

datatype insert_result = CsInserted | CsReplaced | CsSkipped

record cs_stats =
  st_hits :: u64
  st_misses :: u64
  st_inserts :: u64
  st_evictions :: u64

definition cs_stats_default :: cs_stats where
  "cs_stats_default = \<lparr>st_hits = 0, st_misses = 0, st_inserts = 0, st_evictions = 0\<rparr>"

definition default_should_admit :: "data \<Rightarrow> bool" where
  "default_should_admit d = (case data_meta_info d of
     None \<Rightarrow> False
   | Some m \<Rightarrow> (case mi_freshness_period m of Some p \<Rightarrow> p \<noteq> 0 | None \<Rightarrow> False))"

definition admit_all_should_admit :: "data \<Rightarrow> bool" where
  "admit_all_should_admit d = True"

section \<open>The LRU map\<close>

record 'c lru_ops =
  lru_unbounded :: 'c
  lru_get :: "name \<Rightarrow> 'c \<Rightarrow> 'c \<times> cs_entry option"
  lru_peek :: "name \<Rightarrow> 'c \<Rightarrow> cs_entry option"
  lru_put :: "name \<Rightarrow> cs_entry \<Rightarrow> 'c \<Rightarrow> 'c"
  lru_pop :: "name \<Rightarrow> 'c \<Rightarrow> 'c \<times> cs_entry option"
  lru_pop_lru :: "'c \<Rightarrow> 'c \<times> (name \<times> cs_entry) option"

text \<open>The documented behaviour, over the entries from the most to the least recently used:
  \<open>get\<close> and \<open>put\<close> make an entry the most recent one, \<open>peek\<close> does not, \<open>pop_lru\<close> takes the
  least recent one.\<close>

definition lru_lawful :: "'c lru_ops \<Rightarrow> ('c \<Rightarrow> (name \<times> cs_entry) list) \<Rightarrow> bool" where
  "lru_lawful L items \<longleftrightarrow>
     items (lru_unbounded L) = [] \<and>
     (\<forall>c. distinct (map fst (items c))) \<and>
     (\<forall>k c. lru_peek L k c = map_of (items c) k) \<and>
     (\<forall>k c. snd (lru_get L k c) = map_of (items c) k \<and>
        items (fst (lru_get L k c)) = (case map_of (items c) k of
          Some v \<Rightarrow> (k, v) # AList.delete k (items c) | None \<Rightarrow> items c)) \<and>
     (\<forall>k v c. items (lru_put L k v c) = (k, v) # AList.delete k (items c)) \<and>
     (\<forall>k c. snd (lru_pop L k c) = map_of (items c) k \<and> items (fst (lru_pop L k c)) = AList.delete k (items c)) \<and>
     (\<forall>c. snd (lru_pop_lru L c) = (if items c = [] then None else Some (last (items c))) \<and>
        items (fst (lru_pop_lru L c)) = butlast (items c))"

section \<open>LruCs\<close>

record 'c lru_cs =
  cs_cache :: 'c
  cs_prefix_index :: "name trie"
  cs_current_bytes :: nat
  cs_capacity_bytes :: nat
  cs_entry_count :: u64
  cs_admit :: bool
  cs_serve :: bool
  cs_counters :: cs_stats

definition lru_cs_new :: "'c lru_ops \<Rightarrow> nat \<Rightarrow> 'c lru_cs" where
  "lru_cs_new L capacity_bytes = \<lparr>cs_cache = lru_unbounded L, cs_prefix_index = trie_new, cs_current_bytes = 0,
     cs_capacity_bytes = capacity_bytes, cs_entry_count = 0, cs_admit = True, cs_serve = True,
     cs_counters = cs_stats_default\<rparr>"

definition cache_get :: "'c lru_ops \<Rightarrow> name \<Rightarrow> 'c lru_cs \<Rightarrow> 'c lru_cs \<times> cs_entry option" where
  "cache_get L n cs = (case lru_get L n (cs_cache cs) of (c, r) \<Rightarrow> (cs\<lparr>cs_cache := c\<rparr>, r))"

definition cs_lookup :: "'c lru_ops \<Rightarrow> (bytes \<Rightarrow> bytes) \<Rightarrow> u64 \<Rightarrow> interest \<Rightarrow> 'c lru_cs \<Rightarrow> 'c lru_cs \<times> cs_entry option" where
  "cs_lookup L sha256 now_ns i cs =
     (if \<not> cs_serve cs then (cs, None)
      else if cs_entry_count cs = 0 then (cs, None)
      else let
        comps = int_name i;
        has_implicit_digest = (comps \<noteq> [] \<and> comp_typ (last comps) = IMPLICIT_SHA256);
        has_psdc = (comps \<noteq> [] \<and> comp_typ (last comps) = PARAMETERS_SHA256);
        found = (if has_implicit_digest then
            (case cache_get L (take (length comps - 1) comps) cs of
               (cs, None) \<Rightarrow> (cs, None)
             | (cs, Some candidate) \<Rightarrow>
                 (cs, if comp_val (last comps) \<noteq> sha256 (ce_data candidate) then None else Some candidate))
          else if has_psdc then cache_get L (take (length comps - 1) comps) cs
          else if can_be_prefix (int_selectors i) then
            (case first_descendant (cs_prefix_index cs) comps of
               None \<Rightarrow> (cs, None)
             | Some dn \<Rightarrow> cache_get L dn cs)
          else cache_get L comps cs)
      in case found of
           (cs, None) \<Rightarrow> (cs, None)
         | (cs, Some e) \<Rightarrow> (cs, if must_be_fresh (int_selectors i) \<and> \<not> is_fresh e now_ns then None else Some e))"

definition count_lookup :: "cs_entry option \<Rightarrow> cs_stats \<Rightarrow> cs_stats" where
  "count_lookup r s = (if r \<noteq> None then s\<lparr>st_hits := st_hits s + 1\<rparr> else s\<lparr>st_misses := st_misses s + 1\<rparr>)"

definition cs_get :: "'c lru_ops \<Rightarrow> (bytes \<Rightarrow> bytes) \<Rightarrow> u64 \<Rightarrow> interest \<Rightarrow> 'c lru_cs \<Rightarrow> 'c lru_cs \<times> cs_entry option" where
  "cs_get L sha256 now_ns i cs = (case cs_lookup L sha256 now_ns i cs of
     (cs, r) \<Rightarrow> (cs\<lparr>cs_counters := count_lookup r (cs_counters cs)\<rparr>, r))"

text \<open>Evicting the least recently used entry: the bookkeeping common to the two loops.\<close>

definition drop_entry :: "name \<Rightarrow> cs_entry \<Rightarrow> 'c \<Rightarrow> 'c lru_cs \<Rightarrow> 'c lru_cs" where
  "drop_entry n e c cs = cs\<lparr>cs_cache := c, cs_current_bytes := cs_current_bytes cs - length (ce_data e),
     cs_prefix_index := trie_remove (cs_prefix_index cs) n, cs_entry_count := cs_entry_count cs - 1\<rparr>"

partial_function (option) insert_evict_loop :: "'c lru_ops \<Rightarrow> nat \<Rightarrow> 'c lru_cs \<Rightarrow> 'c lru_cs option" where
  "insert_evict_loop L entry_bytes cs =
     (if cs_current_bytes cs + entry_bytes > cs_capacity_bytes cs then
        (case lru_pop_lru L (cs_cache cs) of
           (c, Some (evicted_name, evicted)) \<Rightarrow> (let
             cs = drop_entry evicted_name evicted c cs;
             cs = cs\<lparr>cs_counters := (cs_counters cs)\<lparr>st_evictions := st_evictions (cs_counters cs) + 1\<rparr>\<rparr>
           in insert_evict_loop L entry_bytes cs)
         | (c, None) \<Rightarrow> Some (cs\<lparr>cs_cache := c\<rparr>))
      else Some cs)"

definition cs_insert :: "'c lru_ops \<Rightarrow> bytes \<Rightarrow> name \<Rightarrow> u64 \<Rightarrow> 'c lru_cs \<Rightarrow> ('c lru_cs \<times> insert_result) option" where
  "cs_insert L data n stale_at cs =
     (if \<not> cs_admit cs then Some (cs, CsSkipped)
      else let
        entry_bytes = length data;
        (cs, was_present) = (case lru_peek L n (cs_cache cs) of
            Some old \<Rightarrow> (cs\<lparr>cs_current_bytes := cs_current_bytes cs - length (ce_data old)\<rparr>, True)
          | None \<Rightarrow> (cs, False))
      in case insert_evict_loop L entry_bytes cs of
           None \<Rightarrow> None
         | Some cs \<Rightarrow> (let
             entry = \<lparr>ce_data = data, ce_stale_at = stale_at, ce_name = n\<rparr>;
             cs = cs\<lparr>cs_cache := lru_put L n entry (cs_cache cs)\<rparr>;
             cs = cs\<lparr>cs_current_bytes := cs_current_bytes cs + entry_bytes\<rparr>;
             cs = (if \<not> was_present then cs\<lparr>cs_prefix_index := trie_insert (cs_prefix_index cs) n n\<rparr> else cs);
             cs = (if \<not> was_present then cs\<lparr>cs_entry_count := cs_entry_count cs + 1\<rparr> else cs);
             cs = cs\<lparr>cs_counters := (cs_counters cs)\<lparr>st_inserts := st_inserts (cs_counters cs) + 1\<rparr>\<rparr>
           in Some (cs, if was_present then CsReplaced else CsInserted)))"

definition cs_evict :: "'c lru_ops \<Rightarrow> name \<Rightarrow> 'c lru_cs \<Rightarrow> 'c lru_cs \<times> bool" where
  "cs_evict L n cs = (case lru_pop L n (cs_cache cs) of
     (c, Some evicted) \<Rightarrow> (drop_entry n evicted c cs, True)
   | (c, None) \<Rightarrow> (cs\<lparr>cs_cache := c\<rparr>, False))"

partial_function (option) capacity_loop :: "'c lru_ops \<Rightarrow> nat \<Rightarrow> 'c lru_cs \<Rightarrow> 'c lru_cs option" where
  "capacity_loop L max_bytes cs =
     (if cs_current_bytes cs > max_bytes then
        (case lru_pop_lru L (cs_cache cs) of
           (c, Some (evicted_name, evicted)) \<Rightarrow> capacity_loop L max_bytes (drop_entry evicted_name evicted c cs)
         | (c, None) \<Rightarrow> Some (cs\<lparr>cs_cache := c\<rparr>))
      else Some cs)"

definition cs_set_capacity :: "'c lru_ops \<Rightarrow> nat \<Rightarrow> 'c lru_cs \<Rightarrow> 'c lru_cs option" where
  "cs_set_capacity L max_bytes cs = capacity_loop L max_bytes (cs\<lparr>cs_capacity_bytes := max_bytes\<rparr>)"

definition cs_set_admit :: "bool \<Rightarrow> 'c lru_cs \<Rightarrow> 'c lru_cs" where
  "cs_set_admit enabled cs = cs\<lparr>cs_admit := enabled\<rparr>"

definition cs_set_serve :: "bool \<Rightarrow> 'c lru_cs \<Rightarrow> 'c lru_cs" where
  "cs_set_serve enabled cs = cs\<lparr>cs_serve := enabled\<rparr>"

primrec evict_names :: "'c lru_ops \<Rightarrow> nat option \<Rightarrow> name list \<Rightarrow> nat \<Rightarrow> 'c lru_cs \<Rightarrow> 'c lru_cs \<times> nat" where
  "evict_names L limit [] evicted cs = (cs, evicted)"
| "evict_names L limit (n # ns) evicted cs =
     (if (case limit of Some m \<Rightarrow> evicted \<ge> m | None \<Rightarrow> False) then (cs, evicted)
      else case lru_pop L n (cs_cache cs) of
        (c, Some e) \<Rightarrow> evict_names L limit ns (evicted + 1) (drop_entry n e c cs)
      | (c, None) \<Rightarrow> evict_names L limit ns evicted (cs\<lparr>cs_cache := c\<rparr>))"

definition cs_evict_prefix :: "'c lru_ops \<Rightarrow> name \<Rightarrow> nat option \<Rightarrow> 'c lru_cs \<Rightarrow> 'c lru_cs \<times> nat" where
  "cs_evict_prefix L pre limit cs = evict_names L limit (descendants (cs_prefix_index cs) pre) 0 cs"

section \<open>What the store holds\<close>

definition cached_bytes :: "(name \<times> cs_entry) list \<Rightarrow> nat" where
  "cached_bytes xs = table_sum (\<lambda>e. length (ce_data e)) xs"

lemma cached_bytes_simps [simp]:
  "cached_bytes [] = 0" "cached_bytes ((n, e) # xs) = length (ce_data e) + cached_bytes xs"
  "cached_bytes (xs @ ys) = cached_bytes xs + cached_bytes ys"
  by (simp_all add: cached_bytes_def table_sum_def)

lemma cached_bytes_delete:
  assumes "distinct (map fst xs)" "map_of xs n = Some e"
  shows "cached_bytes (AList.delete n xs) + length (ce_data e) = cached_bytes xs"
  using assms
proof (induction xs)
  case (Cons x xs)
  then show ?case by (cases x) (auto split: if_splits)
qed simp

lemma cached_bytes_take_drop: "cached_bytes (take k xs) + cached_bytes (drop k xs) = cached_bytes xs"
  by (metis append_take_drop_id cached_bytes_simps(3))

text \<open>The bookkeeping of the store agrees with the map: byte total, entry counter, prefix index, names.\<close>

definition cs_ok :: "('c \<Rightarrow> (name \<times> cs_entry) list) \<Rightarrow> 'c lru_cs \<Rightarrow> bool" where
  "cs_ok items cs \<longleftrightarrow>
     cs_current_bytes cs = cached_bytes (items (cs_cache cs)) \<and>
     cs_entry_count cs = word_of_nat (length (items (cs_cache cs))) \<and>
     trie_ok (cs_prefix_index cs) \<and>
     (\<forall>n. trie_get (cs_prefix_index cs) n = (if n \<in> fst ` set (items (cs_cache cs)) then Some n else None)) \<and>
     (\<forall>(n, e) \<in> set (items (cs_cache cs)). ce_name e = n)"

lemma cs_ok_counters [simp]: "cs_ok items (cs\<lparr>cs_counters := x\<rparr>) = cs_ok items cs"
  by (simp add: cs_ok_def)

lemma lru_lawfulD:
  assumes "lru_lawful L items"
  shows "items (lru_unbounded L) = []" "distinct (map fst (items c))" "lru_peek L k c = map_of (items c) k"
    "snd (lru_get L k c) = map_of (items c) k"
    "items (fst (lru_get L k c)) = (case map_of (items c) k of Some v \<Rightarrow> (k, v) # AList.delete k (items c) | None \<Rightarrow> items c)"
    "items (lru_put L k v c) = (k, v) # AList.delete k (items c)"
    "snd (lru_pop L k c) = map_of (items c) k" "items (fst (lru_pop L k c)) = AList.delete k (items c)"
    "snd (lru_pop_lru L c) = (if items c = [] then None else Some (last (items c)))"
    "items (fst (lru_pop_lru L c)) = butlast (items c)"
  using assms unfolding lru_lawful_def by blast+

lemma cs_new_ok: "lru_lawful L items \<Longrightarrow> cs_ok items (lru_cs_new L cap)"
  by (simp add: cs_ok_def lru_cs_new_def lru_lawfulD)

text \<open>The eviction loop keeps the longest run of most recent entries that fits, and always ends. \<open>k\<close> is
  the number of entries kept.\<close>

definition evicted_to :: "('c \<Rightarrow> (name \<times> cs_entry) list) \<Rightarrow> nat \<Rightarrow> 'c lru_cs \<Rightarrow> nat \<Rightarrow> 'c lru_cs \<Rightarrow> bool" where
  "evicted_to items eb cs k cs' \<longleftrightarrow> (let xs = items (cs_cache cs) in
     k \<le> length xs \<and> items (cs_cache cs') = take k xs \<and>
     cs_current_bytes cs' = cs_current_bytes cs - cached_bytes (drop k xs) \<and>
     cs_entry_count cs' = cs_entry_count cs - word_of_nat (length xs - k) \<and>
     (trie_ok (cs_prefix_index cs) \<longrightarrow> trie_ok (cs_prefix_index cs')) \<and>
     (\<forall>n. trie_get (cs_prefix_index cs') n = (if n \<in> fst ` set (drop k xs) then None else trie_get (cs_prefix_index cs) n)) \<and>
     cs_capacity_bytes cs' = cs_capacity_bytes cs \<and> cs_admit cs' = cs_admit cs \<and> cs_serve cs' = cs_serve cs \<and>
     (k = 0 \<or> cs_current_bytes cs' + eb \<le> cs_capacity_bytes cs) \<and>
     (\<forall>j. k < j \<longrightarrow> j \<le> length xs \<longrightarrow> cs_current_bytes cs - cached_bytes (drop j xs) + eb > cs_capacity_bytes cs))"

lemma evicted_to_step:
  assumes xs: "items (cs_cache cs) = xs @ [(n, e)]" and c: "items c = xs"
    and full: "cs_current_bytes cs + eb > cs_capacity_bytes cs"
    and IH: "evicted_to items eb (drop_entry n e c cs) k cs'"
  shows "evicted_to items eb cs k cs'"
proof -
  have k: "k \<le> length xs" using IH by (simp add: evicted_to_def drop_entry_def c)
  then have "cs_entry_count cs - 1 - word_of_nat (length xs - k) = cs_entry_count cs - word_of_nat (Suc (length xs) - k)"
    by (simp add: Suc_diff_le)
  moreover have "cs_current_bytes cs - cached_bytes (drop j (xs @ [(n, e)])) = cs_current_bytes cs - length (ce_data e) - cached_bytes (drop j xs)"
    if "j \<le> length xs" for j using that by simp
  ultimately show ?thesis
    using IH full k unfolding evicted_to_def drop_entry_def Let_def xs
    by (auto simp: c trie_ok_remove trie_get_remove le_Suc_eq)
qed

lemma evicted_to_self: "cs_current_bytes cs + eb \<le> cs_capacity_bytes cs \<Longrightarrow> evicted_to items eb cs (length (items (cs_cache cs))) cs"
  by (simp add: evicted_to_def)

lemma evicted_to_counters [simp]: "evicted_to items eb (cs\<lparr>cs_counters := x\<rparr>) k cs' = evicted_to items eb cs k cs'"
  by (simp add: evicted_to_def cong: if_cong)

lemma insert_evict_loop_result:
  assumes "lru_lawful L items"
  shows "\<exists>k cs'. insert_evict_loop L eb cs = Some cs' \<and> evicted_to items eb cs k cs'"
proof (induction "items (cs_cache cs)" arbitrary: cs rule: rev_induct)
  case Nil
  obtain c r where pop: "lru_pop_lru L (cs_cache cs) = (c, r)" by fastforce
  have "r = None" "items c = []" using lru_lawfulD(9,10) [OF assms, of "cs_cache cs"] pop Nil by simp_all
  then show ?case
    using Nil by (intro exI [of _ 0]) (auto simp: insert_evict_loop.simps pop evicted_to_def)
next
  case (snoc x xs)
  obtain n e where x: "x = (n, e)" by fastforce
  note xs = snoc.hyps(2) [symmetric, unfolded x]
  show ?case
  proof (cases "cs_current_bytes cs + eb > cs_capacity_bytes cs")
    case False
    then show ?thesis using evicted_to_self [of cs eb items] by (auto simp: insert_evict_loop.simps not_less)
  next
    case True
    obtain c r where pop: "lru_pop_lru L (cs_cache cs) = (c, r)" by fastforce
    have r: "r = Some (n, e)" and c: "items c = xs"
      using lru_lawfulD(9,10) [OF assms, of "cs_cache cs"] pop xs by simp_all
    let ?d = "drop_entry n e c cs"
    let ?cs = "?d\<lparr>cs_counters := (cs_counters ?d)\<lparr>st_evictions := st_evictions (cs_counters ?d) + 1\<rparr>\<rparr>"
    have step: "insert_evict_loop L eb cs = insert_evict_loop L eb ?cs"
      using True by (simp add: insert_evict_loop.simps [of L eb cs] pop r Let_def)
    have "xs = items (cs_cache ?cs)" by (simp add: drop_entry_def c)
    from snoc.hyps(1) [OF this] obtain k cs' where IH: "insert_evict_loop L eb ?cs = Some cs'" "evicted_to items eb ?cs k cs'" by blast
    have "evicted_to items eb ?d k cs'" using IH(2) by simp
    then show ?thesis using evicted_to_step [OF xs c True] IH(1) step by metis
  qed
qed

text \<open>\<open>capacity_loop\<close> is the same loop for an entry of no bytes, without the eviction counter.\<close>

lemma capacity_loop_result:
  assumes "lru_lawful L items"
  shows "\<exists>k cs'. capacity_loop L (cs_capacity_bytes cs) cs = Some cs' \<and> evicted_to items 0 cs k cs'"
proof (induction "items (cs_cache cs)" arbitrary: cs rule: rev_induct)
  case Nil
  obtain c r where pop: "lru_pop_lru L (cs_cache cs) = (c, r)" by fastforce
  have "r = None" "items c = []" using lru_lawfulD(9,10) [OF assms, of "cs_cache cs"] pop Nil by simp_all
  then show ?case
    using Nil by (intro exI [of _ 0]) (auto simp: capacity_loop.simps pop evicted_to_def)
next
  case (snoc x xs)
  obtain n e where x: "x = (n, e)" by fastforce
  note xs = snoc.hyps(2) [symmetric, unfolded x]
  show ?case
  proof (cases "cs_current_bytes cs > cs_capacity_bytes cs")
    case False
    then show ?thesis using evicted_to_self [of cs 0 items] by (auto simp: capacity_loop.simps not_less)
  next
    case True
    obtain c r where pop: "lru_pop_lru L (cs_cache cs) = (c, r)" by fastforce
    have r: "r = Some (n, e)" and c: "items c = xs"
      using lru_lawfulD(9,10) [OF assms, of "cs_cache cs"] pop xs by simp_all
    let ?d = "drop_entry n e c cs"
    have cap: "cs_capacity_bytes ?d = cs_capacity_bytes cs" by (simp add: drop_entry_def)
    have step: "capacity_loop L (cs_capacity_bytes cs) cs = capacity_loop L (cs_capacity_bytes ?d) ?d"
      using True by (simp add: capacity_loop.simps [of L _ cs] pop r cap)
    have "xs = items (cs_cache ?d)" by (simp add: drop_entry_def c)
    from snoc.hyps(1) [OF this] show ?thesis using evicted_to_step [OF xs c, of 0] True step by auto
  qed
qed

lemma distinct_take_drop:
  "distinct (map fst xs) \<Longrightarrow> n \<in> fst ` set xs \<Longrightarrow> n \<notin> fst ` set (drop k xs) \<longleftrightarrow> n \<in> fst ` set (take k xs)"
proof -
  assume "distinct (map fst xs)" "n \<in> fst ` set xs"
  then have "distinct (map fst (take k xs) @ map fst (drop k xs))" "n \<in> set (map fst (take k xs) @ map fst (drop k xs))"
    by (simp_all add: map_append [symmetric] del: map_append)
  then show ?thesis by auto
qed

text \<open>One insertion: \<open>k\<close> entries survive the eviction, the new one is put in front.\<close>

definition inserted_as :: "('c \<Rightarrow> (name \<times> cs_entry) list) \<Rightarrow> bytes \<Rightarrow> name \<Rightarrow> u64 \<Rightarrow> 'c lru_cs \<Rightarrow> nat \<Rightarrow> 'c lru_cs \<Rightarrow> bool" where
  "inserted_as items d n s cs k cs' \<longleftrightarrow> (let
     xs = items (cs_cache cs);
     old = (case map_of xs n of Some e \<Rightarrow> length (ce_data e) | None \<Rightarrow> 0)
   in k \<le> length xs \<and> items (cs_cache cs') = (n, \<lparr>ce_data = d, ce_stale_at = s, ce_name = n\<rparr>) # AList.delete n (take k xs) \<and>
     cs_current_bytes cs' = cached_bytes xs - old - cached_bytes (drop k xs) + length d \<and>
     cs_entry_count cs' = (if n \<in> fst ` set xs then word_of_nat k else word_of_nat (Suc k)) \<and>
     trie_ok (cs_prefix_index cs') \<and>
     (\<forall>m. trie_get (cs_prefix_index cs') m =
       (if m \<in> fst ` set (take k xs) \<or> m = n \<and> n \<notin> fst ` set xs then Some m else None)) \<and>
     cs_capacity_bytes cs' = cs_capacity_bytes cs \<and> cs_admit cs' = cs_admit cs \<and> cs_serve cs' = cs_serve cs \<and>
     (k = 0 \<or> cs_current_bytes cs' \<le> cs_capacity_bytes cs) \<and>
     (\<forall>j. k < j \<longrightarrow> j \<le> length xs \<longrightarrow> cached_bytes xs - old - cached_bytes (drop j xs) + length d > cs_capacity_bytes cs))"

lemma inserted_asD:
  assumes "inserted_as items d n s cs k cs'"
  shows "k \<le> length (items (cs_cache cs))"
    "items (cs_cache cs') = (n, \<lparr>ce_data = d, ce_stale_at = s, ce_name = n\<rparr>) # AList.delete n (take k (items (cs_cache cs)))"
    "k = 0 \<or> cs_current_bytes cs' \<le> cs_capacity_bytes cs"
    "k < j \<Longrightarrow> j \<le> length (items (cs_cache cs)) \<Longrightarrow> cs_capacity_bytes cs < cached_bytes (items (cs_cache cs)) -
      (case map_of (items (cs_cache cs)) n of Some e \<Rightarrow> length (ce_data e) | None \<Rightarrow> 0) -
      cached_bytes (drop j (items (cs_cache cs))) + length d"
    "cs_current_bytes cs' = cached_bytes (items (cs_cache cs)) -
      (case map_of (items (cs_cache cs)) n of Some e \<Rightarrow> length (ce_data e) | None \<Rightarrow> 0) -
      cached_bytes (drop k (items (cs_cache cs))) + length d"
  using assms unfolding inserted_as_def Let_def by blast+

lemma cs_insert_result:
  assumes law: "lru_lawful L items" and ok: "cs_ok items cs" and admit: "cs_admit cs"
  shows "\<exists>k cs'. cs_insert L d n s cs = Some (cs', if n \<in> fst ` set (items (cs_cache cs)) then CsReplaced else CsInserted) \<and>
    inserted_as items d n s cs k cs'"
proof -
  let ?xs = "items (cs_cache cs)"
  let ?old = "case map_of ?xs n of Some e \<Rightarrow> length (ce_data e) | None \<Rightarrow> 0"
  let ?cs0 = "cs\<lparr>cs_current_bytes := cs_current_bytes cs - ?old\<rparr>"
  have present: "map_of ?xs n = None \<longleftrightarrow> n \<notin> fst ` set ?xs" by (simp add: map_of_eq_None_iff)
  obtain k cs1 where loop: "insert_evict_loop L (length d) ?cs0 = Some cs1" and ev: "evicted_to items (length d) ?cs0 k cs1"
    using insert_evict_loop_result [OF law] by blast
  let ?e = "\<lparr>ce_data = d, ce_stale_at = s, ce_name = n\<rparr>"
  let ?cs' = "cs1\<lparr>cs_cache := lru_put L n ?e (cs_cache cs1), cs_current_bytes := cs_current_bytes cs1 + length d,
    cs_prefix_index := (if n \<in> fst ` set ?xs then cs_prefix_index cs1 else trie_insert (cs_prefix_index cs1) n n),
    cs_entry_count := (if n \<in> fst ` set ?xs then cs_entry_count cs1 else cs_entry_count cs1 + 1),
    cs_counters := (cs_counters cs1)\<lparr>st_inserts := st_inserts (cs_counters cs1) + 1\<rparr>\<rparr>"
  have run: "cs_insert L d n s cs = Some (?cs', if n \<in> fst ` set ?xs then CsReplaced else CsInserted)"
    using loop admit present
    by (cases "map_of ?xs n") (auto simp: cs_insert_def lru_lawfulD(3) [OF law] Let_def)
  have dist: "distinct (map fst ?xs)" by (rule lru_lawfulD(2) [OF law])
  have bytes: "cs_current_bytes cs = cached_bytes ?xs" and count: "cs_entry_count cs = word_of_nat (length ?xs)"
    and idx: "trie_ok (cs_prefix_index cs)" "\<And>m. trie_get (cs_prefix_index cs) m = (if m \<in> fst ` set ?xs then Some m else None)"
    using ok by (simp_all add: cs_ok_def)
  have k: "k \<le> length ?xs" using ev by (simp add: evicted_to_def Let_def)
  have cnt: "(word_of_nat (length ?xs) :: u64) - word_of_nat (length ?xs - k) = word_of_nat k" using k by (simp add: of_nat_diff)
  have sub: "fst ` set (take k ?xs) \<subseteq> fst ` set ?xs" by (auto dest: in_set_takeD)
  have look: "trie_get (cs_prefix_index cs1) m = (if m \<in> fst ` set (take k ?xs) then Some m else None)" for m
    using ev idx(2) distinct_take_drop [OF dist, of m k] sub unfolding evicted_to_def Let_def by auto
  have "inserted_as items d n s cs k ?cs'"
    using ev k cnt sub unfolding inserted_as_def evicted_to_def Let_def
    by (auto simp: lru_lawfulD(6) [OF law] bytes count look idx(1) trie_ok_insert trie_get_insert)
  with run show ?thesis by blast
qed

lemma delete_absent_length: "n \<notin> fst ` set xs \<Longrightarrow> length (AList.delete n xs) = length xs"
  by simp

lemma length_delete_present:
  assumes "distinct (map fst xs)" "n \<in> fst ` set xs"
  shows "Suc (length (AList.delete n xs)) = length xs"
  using assms by (induction xs) (auto split: if_splits)

lemma set_delete: "set (AList.delete n xs) = {(m, e) \<in> set xs. m \<noteq> n}"
  by (auto simp: AList.delete_eq)

text \<open>Unless the eviction reached the old entry of the same name, the bookkeeping is right afterwards.\<close>

lemma inserted_ok:
  assumes dist: "distinct (map fst (items (cs_cache cs)))" and ok: "cs_ok items cs" and ins: "inserted_as items d n s cs k cs'"
    and kept: "n \<in> fst ` set (items (cs_cache cs)) \<longrightarrow> n \<in> fst ` set (take k (items (cs_cache cs)))"
  shows "cs_ok items cs'"
proof -
  let ?xs = "items (cs_cache cs)"
  let ?ys = "AList.delete n (take k ?xs)"
  have k: "k \<le> length ?xs" and items': "items (cs_cache cs') = (n, \<lparr>ce_data = d, ce_stale_at = s, ce_name = n\<rparr>) # ?ys"
    using ins by (simp_all add: inserted_as_def Let_def)
  have distk: "distinct (map fst (take k ?xs))" using dist by (simp add: take_map [symmetric])
  have sub: "fst ` set (take k ?xs) \<subseteq> fst ` set ?xs" by (auto dest: in_set_takeD)
  have bytes: "cs_current_bytes cs' = length d + cached_bytes ?ys"
  proof (cases "n \<in> fst ` set ?xs")
    case True
    then obtain e where e: "map_of (take k ?xs) n = Some e" using kept by (metis map_of_eq_None_iff option.exhaust)
    have "(n, e) \<in> set ?xs" using map_of_SomeD [OF e] by (rule in_set_takeD)
    then have "map_of ?xs n = Some e" using dist by simp
    then show ?thesis
      using ins cached_bytes_delete [OF distk e] cached_bytes_take_drop [of k ?xs] by (simp add: inserted_as_def Let_def)
  next
    case False
    then have n: "n \<notin> fst ` set (take k ?xs)" using sub by blast
    have "map_of ?xs n = None" using False by (simp add: map_of_eq_None_iff)
    moreover have "AList.delete n (take k ?xs) = take k ?xs" using n by simp
    ultimately show ?thesis
      using ins cached_bytes_take_drop [of k ?xs] by (simp add: inserted_as_def Let_def)
  qed
  have count: "cs_entry_count cs' = word_of_nat (Suc (length ?ys))"
  proof (cases "n \<in> fst ` set ?xs")
    case True
    have "cs_entry_count cs' = word_of_nat k" using True ins by (simp add: inserted_as_def Let_def)
    moreover have "Suc (length ?ys) = length (take k ?xs)" using True kept by (intro length_delete_present [OF distk]) simp
    ultimately show ?thesis using k by (simp only: length_take min_absorb2)
  next
    case False
    have "cs_entry_count cs' = word_of_nat (Suc k)" using False ins by (simp add: inserted_as_def Let_def)
    moreover have "length ?ys = length (take k ?xs)" using False sub by (intro delete_absent_length) blast
    ultimately show ?thesis using k by (simp only: length_take min_absorb2)
  qed
  have idx: "trie_get (cs_prefix_index cs') m =
      (if m \<in> fst ` set (take k ?xs) \<or> m = n \<and> n \<notin> fst ` set ?xs then Some m else None)" for m
    using ins by (simp add: inserted_as_def Let_def)
  have names: "\<forall>(m, e) \<in> set ?xs. ce_name e = m" using ok by (simp add: cs_ok_def)
  show ?thesis
    unfolding cs_ok_def items'
  proof (intro conjI allI)
    show "trie_ok (cs_prefix_index cs')" using ins by (simp add: inserted_as_def Let_def)
    show "\<forall>(m, e) \<in> set ((n, \<lparr>ce_data = d, ce_stale_at = s, ce_name = n\<rparr>) # ?ys). ce_name e = m"
      using names by (auto simp: set_delete dest: in_set_takeD)
    fix m
    have "m \<in> fst ` set ?ys \<longleftrightarrow> m \<in> fst ` set (take k ?xs) \<and> m \<noteq> n" by (force simp: set_delete)
    then show "trie_get (cs_prefix_index cs') m =
        (if m \<in> fst ` set ((n, \<lparr>ce_data = d, ce_stale_at = s, ce_name = n\<rparr>) # ?ys) then Some m else None)"
      unfolding idx using kept by auto
  qed (use bytes count in simp_all)
qed

text \<open>When it did, the index has lost the new entry and the counter is one short.\<close>

lemma inserted_corrupt:
  assumes dist: "distinct (map fst (items (cs_cache cs)))" and ins: "inserted_as items d n s cs k cs'"
    and gone: "n \<in> fst ` set (items (cs_cache cs))" "n \<notin> fst ` set (take k (items (cs_cache cs)))"
  shows "trie_get (cs_prefix_index cs') n = None" "cs_entry_count cs' + 1 = word_of_nat (length (items (cs_cache cs')))"
    "n \<in> fst ` set (items (cs_cache cs'))"
  using ins gone by (auto simp: inserted_as_def Let_def)

section \<open>Lookup\<close>

text \<open>When an entry answers an Interest.\<close>

definition cs_matches :: "(bytes \<Rightarrow> bytes) \<Rightarrow> interest \<Rightarrow> cs_entry \<Rightarrow> bool" where
  "cs_matches sha256 i e \<longleftrightarrow> (let comps = int_name i in
     if comps \<noteq> [] \<and> comp_typ (last comps) = IMPLICIT_SHA256 then
       comps = append_implicit_digest (ce_name e) (sha256 (ce_data e))
     else if comps \<noteq> [] \<and> comp_typ (last comps) = PARAMETERS_SHA256 then butlast comps = ce_name e
     else if can_be_prefix (int_selectors i) then has_prefix (ce_name e) comps
     else ce_name e = comps)"

lemma cache_get_result:
  assumes law: "lru_lawful L items"
  shows "snd (cache_get L n cs) = map_of (items (cs_cache cs)) n"
    "set (items (cs_cache (fst (cache_get L n cs)))) = set (items (cs_cache cs))"
    "cs_ok items cs \<Longrightarrow> cs_ok items (fst (cache_get L n cs))"
    "cs_serve (fst (cache_get L n cs)) = cs_serve cs" "cs_capacity_bytes (fst (cache_get L n cs)) = cs_capacity_bytes cs"
    "cs_admit (fst (cache_get L n cs)) = cs_admit cs"
proof -
  obtain c r where g: "lru_get L n (cs_cache cs) = (c, r)" by fastforce
  let ?xs = "items (cs_cache cs)"
  have r: "r = map_of ?xs n" and c: "items c = (case map_of ?xs n of Some v \<Rightarrow> (n, v) # AList.delete n ?xs | None \<Rightarrow> ?xs)"
    using lru_lawfulD(4,5) [OF law, of n "cs_cache cs"] g by simp_all
  have dist: "distinct (map fst ?xs)" by (rule lru_lawfulD(2) [OF law])
  have set: "set (items c) = set ?xs"
    using dist by (auto simp: c set_delete split: option.split dest: map_of_SomeD) (metis map_of_is_SomeI option.inject)
  have len: "length (items c) = length ?xs"
  proof (cases "map_of ?xs n")
    case (Some v)
    then have "n \<in> fst ` set ?xs" by (metis domI dom_map_of_conv_image_fst)
    then show ?thesis using Some length_delete_present [OF dist, of n] by (simp add: c)
  qed (simp add: c)
  have bytes: "cached_bytes (items c) = cached_bytes ?xs"
    using cached_bytes_delete [OF dist, of n] by (auto simp: c split: option.split)
  show "snd (cache_get L n cs) = map_of ?xs n" "set (items (cs_cache (fst (cache_get L n cs)))) = set ?xs"
    "cs_serve (fst (cache_get L n cs)) = cs_serve cs" "cs_capacity_bytes (fst (cache_get L n cs)) = cs_capacity_bytes cs"
    "cs_admit (fst (cache_get L n cs)) = cs_admit cs"
    by (simp_all add: cache_get_def g r set)
  show "cs_ok items cs \<Longrightarrow> cs_ok items (fst (cache_get L n cs))"
    by (simp add: cs_ok_def cache_get_def g set len bytes)
qed

lemma set_descendants:
  assumes "trie_ok t"
  shows "set (descendants t p) = {v. \<exists>n. trie_get t (p @ n) = Some v}"
proof (cases "subtree t p")
  case (Some s)
  have "set (collect_subtree s) = snd ` {(n, v) | n v. trie_get s n = Some v}"
    using dump_subtree_set [OF trie_ok_subtree [OF assms Some], of "[]"] by (simp add: collect_dump [of s "[]"])
  then show ?thesis by (force simp: descendants_def Some trie_get_subtree)
qed (simp add: descendants_def trie_get_subtree)

lemma first_descendant_hd: "first_descendant t p = (case descendants t p of [] \<Rightarrow> None | v # _ \<Rightarrow> Some v)"
  by (simp add: first_descendant_def descendants_def first_collect split: option.split)

lemma descendants_indexed:
  assumes "trie_ok t" "\<forall>n. trie_get t n = (if n \<in> K then Some n else None)"
  shows "set (descendants t p) = {n \<in> K. prefix p n}"
  using assms(2) by (auto simp: set_descendants [OF assms(1)] prefix_def split: if_splits)

lemma first_descendant_indexed:
  assumes "trie_ok t" "\<forall>n. trie_get t n = (if n \<in> K then Some n else None)"
  shows "first_descendant t p = Some n \<Longrightarrow> n \<in> K \<and> prefix p n"
    and "first_descendant t p = None \<longleftrightarrow> (\<forall>n \<in> K. \<not> prefix p n)"
proof -
  note set = descendants_indexed [OF assms, of p]
  show "first_descendant t p = Some n \<Longrightarrow> n \<in> K \<and> prefix p n"
    using set by (auto simp: first_descendant_hd split: list.splits)
  show "first_descendant t p = None \<longleftrightarrow> (\<forall>n \<in> K. \<not> prefix p n)"
    using set by (auto simp: first_descendant_hd split: list.splits)
qed

text \<open>The entry the lookup finds, before freshness is looked at.\<close>

definition cs_found :: "('c \<Rightarrow> (name \<times> cs_entry) list) \<Rightarrow> (bytes \<Rightarrow> bytes) \<Rightarrow> interest \<Rightarrow> 'c lru_cs \<Rightarrow> cs_entry option" where
  "cs_found items sha256 i cs = (let comps = int_name i; xs = items (cs_cache cs) in
     if comps \<noteq> [] \<and> comp_typ (last comps) = IMPLICIT_SHA256 then
       (case map_of xs (take (length comps - 1) comps) of
          Some e \<Rightarrow> if comp_val (last comps) \<noteq> sha256 (ce_data e) then None else Some e | None \<Rightarrow> None)
     else if comps \<noteq> [] \<and> comp_typ (last comps) = PARAMETERS_SHA256 then map_of xs (take (length comps - 1) comps)
     else if can_be_prefix (int_selectors i) then
       (case first_descendant (cs_prefix_index cs) comps of Some dn \<Rightarrow> map_of xs dn | None \<Rightarrow> None)
     else map_of xs comps)"

lemma cs_lookup_found:
  assumes law: "lru_lawful L items" and run: "cs_lookup L sha256 now i cs = (cs', r)" and ok: "cs_ok items cs"
  shows "set (items (cs_cache cs')) = set (items (cs_cache cs)) \<and> cs_ok items cs' \<and> cs_serve cs' = cs_serve cs \<and>
      cs_admit cs' = cs_admit cs \<and> cs_capacity_bytes cs' = cs_capacity_bytes cs"
    and "r = (if \<not> cs_serve cs \<or> cs_entry_count cs = 0 then None else case cs_found items sha256 i cs of
      None \<Rightarrow> None | Some e \<Rightarrow> if must_be_fresh (int_selectors i) \<and> \<not> is_fresh e now then None else Some e)"
proof -
  note g = cache_get_result [OF law]
  define F where "F n = fst (cache_get L n cs)" for n
  have get: "cache_get L n cs = (F n, map_of (items (cs_cache cs)) n)" for n by (simp add: F_def g(1) [symmetric])
  show "set (items (cs_cache cs')) = set (items (cs_cache cs)) \<and> cs_ok items cs' \<and> cs_serve cs' = cs_serve cs \<and>
      cs_admit cs' = cs_admit cs \<and> cs_capacity_bytes cs' = cs_capacity_bytes cs"
  proof -
    have "cs' = cs \<or> (\<exists>n. cs' = F n)"
      using run by (simp add: cs_lookup_def Let_def get split: if_splits option.splits) blast+
    then show ?thesis using ok g(2-6) [where cs = cs, folded F_def] by (elim disjE exE) simp_all
  qed
  show "r = (if \<not> cs_serve cs \<or> cs_entry_count cs = 0 then None else case cs_found items sha256 i cs of
      None \<Rightarrow> None | Some e \<Rightarrow> if must_be_fresh (int_selectors i) \<and> \<not> is_fresh e now then None else Some e)"
    using arg_cong [OF run, of snd, symmetric] by (simp add: cs_lookup_def cs_found_def Let_def get split: option.split)
qed

lemma cs_okD:
  assumes "cs_ok items cs"
  shows "trie_ok (cs_prefix_index cs)" "(n, e) \<in> set (items (cs_cache cs)) \<Longrightarrow> ce_name e = n"
    "\<forall>n. trie_get (cs_prefix_index cs) n = (if n \<in> fst ` set (items (cs_cache cs)) then Some n else None)"
  using assms by (auto simp: cs_ok_def)

lemma take_all_but_last: "take (length xs - 1) xs = butlast xs"
  by (simp add: butlast_conv_take)

lemma cs_found_sound:
  assumes law: "lru_lawful L items" and ok: "cs_ok items cs" and found: "cs_found items sha256 i cs = Some e"
  shows "(ce_name e, e) \<in> set (items (cs_cache cs)) \<and> cs_matches sha256 i e"
proof -
  let ?c = "int_name i" and ?xs = "items (cs_cache cs)"
  note name = cs_okD(2) [OF ok]
  note idx = first_descendant_indexed(1) [OF cs_okD(1,3) [OF ok]]
  consider (digest) "?c \<noteq> []" "comp_typ (last ?c) = IMPLICIT_SHA256" "map_of ?xs (butlast ?c) = Some e" "comp_val (last ?c) = sha256 (ce_data e)"
    | (psdc) "?c \<noteq> []" "comp_typ (last ?c) = PARAMETERS_SHA256" "map_of ?xs (butlast ?c) = Some e"
    | (cbp) dn where "\<not> (?c \<noteq> [] \<and> comp_typ (last ?c) \<in> {IMPLICIT_SHA256, PARAMETERS_SHA256})" "can_be_prefix (int_selectors i)"
        "first_descendant (cs_prefix_index cs) ?c = Some dn" "map_of ?xs dn = Some e"
    | (exact) "\<not> (?c \<noteq> [] \<and> comp_typ (last ?c) \<in> {IMPLICIT_SHA256, PARAMETERS_SHA256})" "\<not> can_be_prefix (int_selectors i)" "map_of ?xs ?c = Some e"
    using found unfolding cs_found_def Let_def take_all_but_last by (auto split: if_splits option.splits)
  then show ?thesis
  proof cases
    case digest
    have "ce_name e = butlast ?c" using name [OF map_of_SomeD [OF digest(3)]] .
    moreover have "?c = butlast ?c @ [NameComponent (comp_typ (last ?c)) (comp_val (last ?c))]" using digest(1) by simp
    ultimately show ?thesis using digest map_of_SomeD [OF digest(3)]
      by (auto simp: cs_matches_def append_implicit_digest_def)
  next
    case psdc
    then show ?thesis using name [OF map_of_SomeD [OF psdc(3)]] map_of_SomeD [OF psdc(3)] by (simp add: cs_matches_def)
  next
    case (cbp dn)
    have "ce_name e = dn" using name [OF map_of_SomeD [OF cbp(4)]] .
    then show ?thesis using cbp idx [OF cbp(3)] map_of_SomeD [OF cbp(4)] by (auto simp: cs_matches_def Let_def)
  next
    case exact
    then show ?thesis using name [OF map_of_SomeD [OF exact(3)]] map_of_SomeD [OF exact(3)] by (auto simp: cs_matches_def Let_def)
  qed
qed

lemma cs_found_complete:
  assumes law: "lru_lawful L items" and ok: "cs_ok items cs" and e: "(n, e) \<in> set (items (cs_cache cs))" "cs_matches sha256 i e"
  shows "cs_found items sha256 i cs \<noteq> None"
proof -
  let ?c = "int_name i" and ?xs = "items (cs_cache cs)"
  have n: "ce_name e = n" using cs_okD(2) [OF ok e(1)] .
  have look: "map_of ?xs n = Some e" using e(1) lru_lawfulD(2) [OF law] by simp
  note idx = first_descendant_indexed [OF cs_okD(1,3) [OF ok], of ?c]
  have "first_descendant (cs_prefix_index cs) ?c \<noteq> None" if "prefix ?c n"
    using idx(2) that e(1) by (metis fst_conv image_eqI)
  moreover have "map_of ?xs dn \<noteq> None" if "first_descendant (cs_prefix_index cs) ?c = Some dn" for dn
    using idx(1) [OF that] by (simp add: map_of_eq_None_iff)
  ultimately show ?thesis
    using e(2) look n unfolding cs_matches_def cs_found_def Let_def take_all_but_last
    by (auto simp: append_implicit_digest_def split: if_splits option.splits)
qed

text \<open>Interests whose answer may have a longer name. Of several cached packets under the prefix the lookup
  considers one only; any other Interest matches at most one cached packet.\<close>

definition asks_prefix :: "interest \<Rightarrow> bool" where
  "asks_prefix i \<longleftrightarrow> can_be_prefix (int_selectors i) \<and>
     (int_name i = [] \<or> comp_typ (last (int_name i)) \<notin> {IMPLICIT_SHA256, PARAMETERS_SHA256})"

lemma cs_matches_unique:
  assumes law: "lru_lawful L items" and ok: "cs_ok items cs" and "\<not> asks_prefix i"
    "(n, e) \<in> set (items (cs_cache cs))" "cs_matches sha256 i e" "(n', e') \<in> set (items (cs_cache cs))" "cs_matches sha256 i e'"
  shows "e = e'"
proof -
  have names: "ce_name e = n" "ce_name e' = n'" using cs_okD(2) [OF ok] assms(4,6) by blast+
  have "ce_name e = ce_name e'"
    using assms(3,5,7) by (auto simp: cs_matches_def asks_prefix_def append_implicit_digest_def Let_def split: if_splits)
  then show ?thesis using names assms(4,6) lru_lawfulD(2) [OF law, of "cs_cache cs"] eq_key_imp_eq_value by metis
qed

lemma first_descendant_here: "trie_get t n = Some v \<Longrightarrow> first_descendant t n = Some v"
proof (induction n arbitrary: t)
  case Nil
  then show ?case by (cases t) (simp add: first_descendant_def)
next
  case (Cons c n)
  have "first_descendant t (c # n) = (case map_of (children t) c of None \<Rightarrow> None | Some s \<Rightarrow> first_descendant s n)"
    by (simp add: first_descendant_def split: option.split)
  then show ?case using Cons by (cases t) (auto split: option.splits)
qed

lemma cs_found_here:
  assumes law: "lru_lawful L items" and ok: "cs_ok items cs" and "asks_prefix i" "(int_name i, e) \<in> set (items (cs_cache cs))"
  shows "cs_found items sha256 i cs = Some e"
proof -
  have "trie_get (cs_prefix_index cs) (int_name i) = Some (int_name i)"
    using cs_okD(3) [OF ok] assms(4) by (metis fst_conv image_eqI)
  then have "first_descendant (cs_prefix_index cs) (int_name i) = Some (int_name i)" by (rule first_descendant_here)
  moreover have "map_of (items (cs_cache cs)) (int_name i) = Some e" using assms(4) lru_lawfulD(2) [OF law] by simp
  ultimately show ?thesis using assms(3) by (auto simp: cs_found_def asks_prefix_def Let_def)
qed

section \<open>Removal\<close>

lemma drop_entry_ok:
  assumes dist: "distinct (map fst (items (cs_cache cs)))" and ok: "cs_ok items cs" and look: "map_of (items (cs_cache cs)) n = Some e"
    and c: "items c = AList.delete n (items (cs_cache cs))"
  shows "cs_ok items (drop_entry n e c cs)"
proof -
  let ?xs = "items (cs_cache cs)"
  have n: "n \<in> fst ` set ?xs" using look by (metis domI dom_map_of_conv_image_fst)
  have "length ?xs = Suc (length (AList.delete n ?xs))" using length_delete_present [OF dist n] by simp
  moreover have "m \<in> fst ` set (AList.delete n ?xs) \<longleftrightarrow> m \<in> fst ` set ?xs \<and> m \<noteq> n" for m by (force simp: set_delete)
  ultimately show ?thesis
    using ok cached_bytes_delete [OF dist look] unfolding cs_ok_def drop_entry_def
    by (auto simp: c trie_ok_remove trie_get_remove set_delete)
qed

lemma cs_evict_result:
  assumes law: "lru_lawful L items" and ok: "cs_ok items cs"
  shows "cs_ok items (fst (cs_evict L n cs))" "items (cs_cache (fst (cs_evict L n cs))) = AList.delete n (items (cs_cache cs))"
    "snd (cs_evict L n cs) \<longleftrightarrow> n \<in> fst ` set (items (cs_cache cs))"
proof -
  let ?xs = "items (cs_cache cs)"
  obtain c r where p: "lru_pop L n (cs_cache cs) = (c, r)" by fastforce
  have r: "r = map_of ?xs n" and c: "items c = AList.delete n ?xs" using lru_lawfulD(7,8) [OF law, of n "cs_cache cs"] p by simp_all
  have "cs_ok items (fst (cs_evict L n cs)) \<and> items (cs_cache (fst (cs_evict L n cs))) = AList.delete n ?xs \<and>
    (snd (cs_evict L n cs) \<longleftrightarrow> n \<in> fst ` set ?xs)"
  proof (cases "map_of ?xs n")
    case None
    then have "n \<notin> fst ` set ?xs" by (simp add: map_of_eq_None_iff)
    then show ?thesis using ok c by (simp add: cs_evict_def p r None cs_ok_def)
  next
    case (Some e)
    then have "n \<in> fst ` set ?xs" by (metis domI dom_map_of_conv_image_fst)
    then show ?thesis
      using drop_entry_ok [OF lru_lawfulD(2) [OF law] ok Some c] c by (simp add: cs_evict_def p r Some drop_entry_def)
  qed
  then show "cs_ok items (fst (cs_evict L n cs))" "items (cs_cache (fst (cs_evict L n cs))) = AList.delete n ?xs"
    "snd (cs_evict L n cs) \<longleftrightarrow> n \<in> fst ` set ?xs" by simp_all
qed

lemma evicted_ok:
  assumes dist: "distinct (map fst (items (cs_cache cs)))" and ok: "cs_ok items cs" and ev: "evicted_to items eb cs k cs'"
  shows "cs_ok items cs'"
proof -
  let ?xs = "items (cs_cache cs)"
  have k: "k \<le> length ?xs" and xs': "items (cs_cache cs') = take k ?xs" using ev by (simp_all add: evicted_to_def Let_def)
  have sub: "fst ` set (take k ?xs) \<subseteq> fst ` set ?xs" by (auto dest: in_set_takeD)
  have "trie_get (cs_prefix_index cs') m = (if m \<in> fst ` set (take k ?xs) then Some m else None)" for m
    using ev ok distinct_take_drop [OF dist, of m k] sub unfolding evicted_to_def Let_def cs_ok_def by auto
  moreover have "cs_current_bytes cs' = cached_bytes (take k ?xs)"
    using ev ok cached_bytes_take_drop [of k ?xs] unfolding evicted_to_def Let_def cs_ok_def by simp
  moreover have "cs_entry_count cs' = word_of_nat (length (take k ?xs))"
    using ev ok k unfolding evicted_to_def Let_def cs_ok_def by (simp add: of_nat_diff)
  moreover have "trie_ok (cs_prefix_index cs')" using ev ok unfolding evicted_to_def Let_def cs_ok_def by simp
  ultimately show ?thesis using ok unfolding cs_ok_def xs' by (auto dest: in_set_takeD)
qed

lemma cs_set_capacity_result:
  assumes law: "lru_lawful L items" and ok: "cs_ok items cs"
  shows "\<exists>k cs'. cs_set_capacity L m cs = Some cs' \<and> cs_ok items cs' \<and> items (cs_cache cs') = take k (items (cs_cache cs)) \<and>
    cs_capacity_bytes cs' = m \<and> cs_current_bytes cs' \<le> m"
proof -
  let ?cs = "cs\<lparr>cs_capacity_bytes := m\<rparr>"
  obtain k cs' where run: "cs_set_capacity L m cs = Some cs'" and ev: "evicted_to items 0 ?cs k cs'"
    using capacity_loop_result [OF law, of ?cs] by (auto simp: cs_set_capacity_def)
  have "cs_ok items ?cs" using ok by (simp add: cs_ok_def)
  from evicted_ok [OF _ this ev] have ok': "cs_ok items cs'" using lru_lawfulD(2) [OF law] by simp
  have items': "items (cs_cache cs') = take k (items (cs_cache cs))" using ev by (simp add: evicted_to_def Let_def)
  have "cs_current_bytes cs' \<le> m"
    using ev ok' items' by (auto simp: evicted_to_def Let_def cs_ok_def)
  moreover have "cs_capacity_bytes cs' = m" using ev by (simp add: evicted_to_def Let_def)
  ultimately show ?thesis using run ok' items' by blast
qed

lemma evict_names_result:
  assumes law: "lru_lawful L items" and ok: "cs_ok items cs"
  shows "cs_ok items (fst (evict_names L limit ns k cs)) \<and>
    set (items (cs_cache (fst (evict_names L limit ns k cs)))) \<subseteq> set (items (cs_cache cs)) \<and>
    (limit = None \<longrightarrow> set (items (cs_cache (fst (evict_names L limit ns k cs)))) = {(m, e) \<in> set (items (cs_cache cs)). m \<notin> set ns})"
  using ok
proof (induction ns arbitrary: k cs)
  case (Cons n ns)
  let ?xs = "items (cs_cache cs)"
  obtain c r where p: "lru_pop L n (cs_cache cs) = (c, r)" by fastforce
  have r: "r = map_of ?xs n" and c: "items c = AList.delete n ?xs" using lru_lawfulD(7,8) [OF law, of n "cs_cache cs"] p by simp_all
  show ?case
  proof (cases "map_of ?xs n")
    case None
    then have "n \<notin> fst ` set ?xs" by (simp add: map_of_eq_None_iff)
    then have "cs_ok items (cs\<lparr>cs_cache := c\<rparr>)" using Cons.prems c by (simp add: cs_ok_def)
    note IH = Cons.IH [OF this, of k]
    show ?thesis
      using IH Cons.prems by (cases limit) (auto simp: p r None c set_delete)
  next
    case (Some e)
    have "cs_ok items (drop_entry n e c cs)" by (rule drop_entry_ok [OF lru_lawfulD(2) [OF law] Cons.prems Some c])
    note IH = Cons.IH [OF this, of "k + 1"]
    moreover have "items (cs_cache (drop_entry n e c cs)) = AList.delete n ?xs" by (simp add: drop_entry_def c)
    ultimately show ?thesis
      using Cons.prems by (cases limit) (auto simp: p r Some c set_delete)
  qed
qed auto

lemma cs_evict_prefix_result:
  assumes law: "lru_lawful L items" and ok: "cs_ok items cs"
  shows "cs_ok items (fst (cs_evict_prefix L pre limit cs))"
    "set (items (cs_cache (fst (cs_evict_prefix L pre None cs)))) = {(m, e) \<in> set (items (cs_cache cs)). \<not> has_prefix m pre}"
proof -
  note descendants_indexed [OF cs_okD(1,3) [OF ok], of pre]
  then show "cs_ok items (fst (cs_evict_prefix L pre limit cs))"
    "set (items (cs_cache (fst (cs_evict_prefix L pre None cs)))) = {(m, e) \<in> set (items (cs_cache cs)). \<not> has_prefix m pre}"
    using evict_names_result [OF law ok] by (auto simp: cs_evict_prefix_def intro: rev_image_eqI)
qed

section \<open>Properties of the LRU store\<close>

text \<open>C18. An insertion keeps the most recent entries that fit. For a new name, or a replacement that needs no
  eviction, the operation returns; the new entry comes first, followed by the longest run of most recently used
  entries that leaves room for it; byte total, entry counter and prefix index agree with the contents; and the
  capacity is respected whenever the packet itself fits.\<close>

theorem cs_insert_keeps_recent:
  assumes law: "lru_lawful L items" and ok: "cs_ok items cs" and admit: "cs_admit cs"
    and new: "n \<notin> fst ` set (items (cs_cache cs)) \<or>
      cached_bytes (AList.delete n (items (cs_cache cs))) + length d \<le> cs_capacity_bytes cs"
  shows "\<exists>k cs' r. cs_insert L d n s cs = Some (cs', r) \<and> cs_ok items cs' \<and>
    items (cs_cache cs') = (n, \<lparr>ce_data = d, ce_stale_at = s, ce_name = n\<rparr>) # AList.delete n (take k (items (cs_cache cs))) \<and>
    (length d \<le> cs_capacity_bytes cs \<longrightarrow> cs_current_bytes cs' \<le> cs_capacity_bytes cs) \<and>
    (\<forall>j. k < j \<longrightarrow> j \<le> length (items (cs_cache cs)) \<longrightarrow>
      cached_bytes (take j (items (cs_cache cs))) + length d > cs_capacity_bytes cs)"
proof -
  let ?xs = "items (cs_cache cs)"
  have dist: "distinct (map fst ?xs)" by (rule lru_lawfulD(2) [OF law])
  obtain k cs' r where run: "cs_insert L d n s cs = Some (cs', r)" and ins: "inserted_as items d n s cs k cs'"
    using cs_insert_result [OF law ok admit] by blast
  have full: "k = length ?xs" if "n \<in> fst ` set ?xs"
  proof (rule ccontr)
    assume "k \<noteq> length ?xs"
    then have lt: "k < length ?xs" using inserted_asD(1) [OF ins] by simp
    have "map_of ?xs n \<noteq> None" using that by (simp add: map_of_eq_None_iff)
    then obtain e where e: "map_of ?xs n = Some e" by blast
    have "cached_bytes ?xs - length (ce_data e) + length d > cs_capacity_bytes cs"
      using inserted_asD(4) [OF ins lt order_refl] e by simp
    then show False using new that cached_bytes_delete [OF dist e] by simp
  qed
  then have ok': "cs_ok items cs'" using inserted_ok [OF dist ok ins] by simp
  note items' = inserted_asD(2) [OF ins]
  have "cs_current_bytes cs' \<le> cs_capacity_bytes cs" if "length d \<le> cs_capacity_bytes cs"
    using inserted_asD(3) [OF ins] ok' that items' by (auto simp: cs_ok_def)
  moreover have "cached_bytes (take j ?xs) + length d > cs_capacity_bytes cs" if "k < j" "j \<le> length ?xs" for j
    using inserted_asD(4) [OF ins that] cached_bytes_take_drop [of j ?xs] by linarith
  ultimately show ?thesis using run ok' items' by blast
qed



section \<open>A concrete LRU map and store\<close>

definition list_lru :: "(name \<times> cs_entry) list lru_ops" where
  "list_lru = \<lparr>lru_unbounded = [],
     lru_get = \<lambda>k c. (let xs = AList.clearjunk c in
       (case map_of xs k of Some v \<Rightarrow> (k, v) # AList.delete k xs | None \<Rightarrow> xs, map_of xs k)),
     lru_peek = \<lambda>k c. map_of c k,
     lru_put = \<lambda>k v c. (k, v) # AList.delete k c,
     lru_pop = \<lambda>k c. (AList.delete k c, map_of c k),
     lru_pop_lru = \<lambda>c. (let xs = AList.clearjunk c in (butlast xs, if xs = [] then None else Some (last xs)))\<rparr>"

lemma clearjunk_distinct: "distinct (map fst xs) \<Longrightarrow> AList.clearjunk xs = xs"
  by (induction xs) auto

lemma list_lru_lawful: "lru_lawful list_lru AList.clearjunk"
proof -
  have "distinct (map fst (butlast (AList.clearjunk c)))" for c :: "(name \<times> cs_entry) list"
    by (simp add: map_butlast distinct_butlast distinct_clearjunk)
  then show ?thesis
    by (auto simp: lru_lawful_def list_lru_def Let_def distinct_clearjunk map_of_clearjunk clearjunk_distinct
        clearjunk_delete delete_idem split: option.split)
qed

definition sample_cached :: cs_entry where
  "sample_cached = \<lparr>ce_data = [1, 2, 3], ce_stale_at = 10, ce_name = [generic [97]]\<rparr>"

definition sample_store :: "(name \<times> cs_entry) list lru_cs" where
  "sample_store = \<lparr>cs_cache = [([generic [97]], sample_cached)], cs_prefix_index = trie_insert trie_new [generic [97]] [generic [97]],
     cs_current_bytes = 3, cs_capacity_bytes = 4, cs_entry_count = 1, cs_admit = True, cs_serve = True, cs_counters = cs_stats_default\<rparr>"

lemma sample_store_ok: "cs_ok AList.clearjunk sample_store"
proof -
  have "trie_ok (cs_prefix_index sample_store)" by (simp add: sample_store_def wf_intros)
  then show ?thesis by (simp add: cs_ok_def sample_store_def sample_cached_def trie_get_insert)
qed

theorem cs_insert_keeps_recent_witness:
  "\<exists>cs' r. cs_insert list_lru [7, 8, 9] [generic [98]] 20 sample_store = Some (cs', r) \<and> cs_ok AList.clearjunk cs' \<and>
     cs_current_bytes cs' \<le> 4"
proof -
  have "cs_admit sample_store" "[generic [98]] \<notin> fst ` set (AList.clearjunk (cs_cache sample_store))" "cs_capacity_bytes sample_store = 4"
    by (simp_all add: sample_store_def generic_def)
  from cs_insert_keeps_recent [OF list_lru_lawful sample_store_ok this(1) disjI1 [OF this(2)], of "[7, 8, 9]" 20] this(3)
  show ?thesis by auto
qed



end
