(* ===== verification/Engine_Pipeline.thy ===== *)
theory Engine_Pipeline
  imports Data_Laws Interest_Laws Ndn_Fragment Store_Pit Store_Cs
begin

text \<open>
  The packet pipeline's data and its first stage (\<open>src/crates/forwarding/ndn-engine/src/pipeline/\<close>,
  \<open>stages/decode.rs\<close>): packet contexts, actions, and \<open>TlvDecodeStage\<close>, which turns link-layer bytes
  into a decoded Interest, Data or Nack. The stage's shared maps are its state; the clock, the nonce
  source and the hash functions are in the environment. \<open>process\<close> and \<open>process_lp\<close> call each other and
  \<open>decrement_hop_limit\<close> may not return, so \<open>decode_process\<close> is a partial function: \<open>None\<close> means that
  it does not return. The lemmas show when it returns and what a context that is handed on satisfies.
\<close>

section \<open>Faces\<close>

datatype face_kind = Udp | Tcp | Unix | Ethernet | EtherMulticast | App | Shm | Serial | Bluetooth | Wfb
  | WifiAware | WifiDirect | InfraTunnel | Compute | Internal | Multicast | WebSocket | WebTransport
  | Quic | WebRtc | Management

datatype scope_policy = AlwaysLocal | AlwaysNonLocal | ByRemoteAddress
datatype face_scope = Local | NonLocal
datatype link_type = PointToPoint | MultiAccess | AdHoc

definition face_scope_policy :: "face_kind \<Rightarrow> scope_policy" where
  "face_scope_policy k =
     (if k \<in> {Unix, App, Shm, Internal, Compute, Management} then AlwaysLocal
      else if k \<in> {Ethernet, EtherMulticast, Serial, Bluetooth, Wfb, WifiAware, WifiDirect, Multicast} then AlwaysNonLocal
      else ByRemoteAddress)"

text \<open>A face of the face table, by what the stages ask of it.\<close>

record face =
  fc_kind :: face_kind
  fc_scope :: face_scope
  fc_link_type :: link_type
  fc_remote_uri :: "string option"

definition default_content_hash_target :: "face_kind \<Rightarrow> content_hash_target option" where
  "default_content_hash_target k = (if face_scope_policy k = AlwaysLocal then Some WholeContent else None)"

record face_counters =
  in_interests :: u64
  in_data :: u64
  out_interests :: u64
  out_data :: u64
  in_bytes :: u64
  out_drops :: u64
  out_blocked_ns :: u64
  in_satisfied_interests :: u64
  in_nacks :: u64
  out_nacks :: u64

text \<open>The part of \<open>FaceState\<close> that the pipeline reads and writes; its send queue is in the theory of
  the dispatcher.\<close>

record face_state =
  fs_flags :: u64
  fs_require_data_validation :: bool
  fs_counters :: face_counters

definition BIT_LOCAL_FIELDS :: u64 where "BIT_LOCAL_FIELDS = 1"

definition local_fields_enabled :: "face_state \<Rightarrow> bool" where
  "local_fields_enabled s \<longleftrightarrow> fs_flags s AND BIT_LOCAL_FIELDS \<noteq> 0"

section \<open>Contexts and actions\<close>

record nack =
  nack_reason_of :: "nack_reason option"
  nack_interest :: interest

datatype decoded_packet = RawPacket | InterestPacket interest | DataPacket data | NackPacket nack

record geo_pos =
  lat_e7 :: u32
  lon_e7 :: u32
  alt_cm :: u32

text \<open>The typed tags that the decode stage and the cache lookup put into the context's \<open>AnyMap\<close>.\<close>

record tags =
  tag_congestion_mark :: "u64 option"
  tag_next_hop_face_id :: "u64 option"
  tag_cache_policy :: "cache_policy_type option"
  tag_prefix_announcement :: "bytes option"
  tag_prev_hop_location :: "geo_pos option"
  tag_data_location :: "geo_pos option"
  tag_cs_entry :: "cs_entry option"

definition tags_new :: tags where
  "tags_new = \<lparr>tag_congestion_mark = None, tag_next_hop_face_id = None, tag_cache_policy = None,
     tag_prefix_announcement = None, tag_prev_hop_location = None, tag_data_location = None,
     tag_cs_entry = None\<rparr>"

record packet_context =
  ctx_raw_bytes :: bytes
  ctx_face_id :: u64
  ctx_name :: "name option"
  ctx_packet :: decoded_packet
  ctx_name_hashes :: "u64 list option"
  ctx_pit_token :: "u64 option"
  ctx_lp_pit_token :: "bytes option"
  ctx_out_faces :: "u64 list"
  ctx_out_pit_tokens :: "bytes option list"
  ctx_endpoint_id :: u64
  ctx_cs_hit :: bool
  ctx_verified :: bool
  ctx_validation_not_configured :: bool
  ctx_unsolicited :: bool
  ctx_arrival :: u64
  ctx_tags :: tags

definition packet_context_new :: "bytes \<Rightarrow> u64 \<Rightarrow> u64 \<Rightarrow> packet_context" where
  "packet_context_new raw_bytes fid arrival = \<lparr>ctx_raw_bytes = raw_bytes, ctx_face_id = fid,
     ctx_name = None, ctx_packet = RawPacket, ctx_name_hashes = None, ctx_pit_token = None,
     ctx_lp_pit_token = None, ctx_out_faces = [], ctx_out_pit_tokens = [], ctx_endpoint_id = 0,
     ctx_cs_hit = False, ctx_verified = False, ctx_validation_not_configured = False,
     ctx_unsolicited = False, ctx_arrival = arrival, ctx_tags = tags_new\<rparr>"

datatype drop_reason = DropMalformedPacket | UnknownFace | LoopDetected | Suppressed | RateLimited
  | HopLimitExceeded | ScopeViolation | FragmentCollect | ValidationFailed | ValidationTimeout
  | InvalidPersistentRequest | DropOther

text \<open>The reasons of the transport crate's \<open>NackReason\<close>; the packet format has one more.\<close>

datatype fwd_nack_reason = FwdNoRoute | FwdDuplicate | FwdCongestion | FwdNotYet

datatype action = ActContinue packet_context | ActSend packet_context "u64 list" | ActSatisfy packet_context
  | ActDrop drop_reason | ActNack packet_context fwd_nack_reason

section \<open>The decode stage\<close>

record decode_stage =
  ds_face_table :: "(u64 \<times> face) list"
  ds_reassembly :: reassembly_table
  ds_face_options :: "(u64 \<times> content_hash_target option) list"
  ds_face_states :: "(u64 \<times> face_state) list"

record decode_env =
  de_hasher :: hasher
  de_sha256 :: "bytes \<Rightarrow> bytes"
  de_next_nonce :: u32
  de_now :: nat

definition is_localhost_name :: "name \<Rightarrow> bool" where
  "is_localhost_name n \<longleftrightarrow> (case n of [] \<Rightarrow> False | c # _ \<Rightarrow> comp_val c = ascii ''localhost'')"

definition decode_stage_new :: "(u64 \<times> face) list \<Rightarrow> (u64 \<times> face_state) list \<Rightarrow> decode_stage" where
  "decode_stage_new face_table face_states = \<lparr>ds_face_table = face_table, ds_reassembly = [],
     ds_face_options = [], ds_face_states = face_states\<rparr>"

definition ingress_local_fields :: "decode_stage \<Rightarrow> u64 \<Rightarrow> bool" where
  "ingress_local_fields st fid = (case map_of (ds_face_states st) fid of
     Some s \<Rightarrow> local_fields_enabled s | None \<Rightarrow> False)"

definition set_face_options :: "u64 \<Rightarrow> content_hash_target option \<Rightarrow> decode_stage \<Rightarrow> decode_stage" where
  "set_face_options fid opts st = st\<lparr>ds_face_options := AList.update fid opts (ds_face_options st)\<rparr>"

definition content_hash_target_of :: "decode_stage \<Rightarrow> u64 \<Rightarrow> content_hash_target option" where
  "content_hash_target_of st fid = (case map_of (ds_face_options st) fid of
     Some opts \<Rightarrow> opts
   | None \<Rightarrow> (case map_of (ds_face_table st) fid of
       Some f \<Rightarrow> default_content_hash_target (fc_kind f)
     | None \<Rightarrow> None))"

definition check_scope :: "decode_stage \<Rightarrow> packet_context \<Rightarrow> action option" where
  "check_scope st ctx = (case ctx_name ctx of
     None \<Rightarrow> None
   | Some n \<Rightarrow> (let
       is_non_local = (case map_of (ds_face_table st) (ctx_face_id ctx) of
           Some f \<Rightarrow> fc_scope f = NonLocal | None \<Rightarrow> False)
     in if \<not> is_non_local then None
        else if is_localhost_name n then Some (ActDrop ScopeViolation)
        else None))"

definition set_name :: "hasher \<Rightarrow> name \<Rightarrow> packet_context \<Rightarrow> packet_context" where
  "set_name H n ctx = (let
     ctx = (if length n > 3 then ctx\<lparr>ctx_name_hashes := Some (name_hashes_compute H n)\<rparr> else ctx)
   in ctx\<lparr>ctx_name := Some n\<rparr>)"

definition scoped_continue :: "decode_stage \<Rightarrow> packet_context \<Rightarrow> action" where
  "scoped_continue st ctx = (case check_scope st ctx of Some a \<Rightarrow> a | None \<Rightarrow> ActContinue ctx)"

definition decode_interest :: "decode_env \<Rightarrow> decode_stage \<Rightarrow> packet_context \<Rightarrow> action option" where
  "decode_interest env st ctx = (case interest_decode (ctx_raw_bytes ctx) of
     Inl _ \<Rightarrow> Some (ActDrop DropMalformedPacket)
   | Inr i \<Rightarrow>
       if int_hop_limit i = Some 0 then Some (ActDrop HopLimitExceeded)
       else (let
         ctx = ctx\<lparr>ctx_raw_bytes := ensure_nonce (de_next_nonce env) (ctx_raw_bytes ctx)\<rparr>
       in case (if int_hop_limit i \<noteq> None then
                  map_option (\<lambda>dec. case dec of Some (new_wire, _) \<Rightarrow> ctx\<lparr>ctx_raw_bytes := new_wire\<rparr> | None \<Rightarrow> ctx)
                    (decrement_hop_limit (ctx_raw_bytes ctx))
                else Some ctx) of
           None \<Rightarrow> None
         | Some ctx \<Rightarrow> (case interest_decode (ctx_raw_bytes ctx) of
             Inl _ \<Rightarrow> Some (ActDrop DropMalformedPacket)
           | Inr i \<Rightarrow> Some (scoped_continue st
               ((set_name (de_hasher env) (int_name i) ctx)\<lparr>ctx_packet := InterestPacket i\<rparr>)))))"

definition decode_data :: "decode_env \<Rightarrow> decode_stage \<Rightarrow> packet_context \<Rightarrow> action" where
  "decode_data env st ctx = (case data_decode (ctx_raw_bytes ctx) of
     Inl _ \<Rightarrow> ActDrop DropMalformedPacket
   | Inr d \<Rightarrow> (let
       ctx = set_name (de_hasher env) (data_name d) ctx;
       d = (case content_hash_target_of st (ctx_face_id ctx) of
           Some target \<Rightarrow> populate_content_sha256_with (de_sha256 env) target d | None \<Rightarrow> d)
     in scoped_continue st (ctx\<lparr>ctx_packet := DataPacket d\<rparr>)))"

definition geo_decode_value :: "bytes \<Rightarrow> geo_pos option" where
  "geo_decode_value v =
     (if length v \<noteq> 12 then None
      else Some \<lparr>lat_e7 = from_be_bytes (take 4 v), lon_e7 = from_be_bytes (take 4 (drop 4 v)),
        alt_cm = from_be_bytes (take 4 (drop 8 v))\<rparr>)"

definition lp_tags :: "decode_stage \<Rightarrow> lp_packet \<Rightarrow> packet_context \<Rightarrow> packet_context" where
  "lp_tags st lp ctx = (let
     ctx = (case lp_congestion_mark lp of
         Some mark \<Rightarrow> ctx\<lparr>ctx_tags := (ctx_tags ctx)\<lparr>tag_congestion_mark := Some mark\<rparr>\<rparr> | None \<Rightarrow> ctx);
     ctx = (case lp_pit_token lp of Some token \<Rightarrow> ctx\<lparr>ctx_lp_pit_token := Some token\<rparr> | None \<Rightarrow> ctx);
     ctx = (case lp_next_hop_face_id lp of
         Some fid \<Rightarrow>
           if ingress_local_fields st (ctx_face_id ctx)
           then ctx\<lparr>ctx_tags := (ctx_tags ctx)\<lparr>tag_next_hop_face_id := Some fid\<rparr>\<rparr> else ctx
       | None \<Rightarrow> ctx);
     ctx = (case lp_cache_policy lp of
         Some policy \<Rightarrow> ctx\<lparr>ctx_tags := (ctx_tags ctx)\<lparr>tag_cache_policy := Some policy\<rparr>\<rparr> | None \<Rightarrow> ctx);
     ctx = (case lp_prefix_announcement lp of
         Some pa \<Rightarrow> ctx\<lparr>ctx_tags := (ctx_tags ctx)\<lparr>tag_prefix_announcement := Some pa\<rparr>\<rparr> | None \<Rightarrow> ctx);
     ctx = (case Option.bind (lp_al_prev_hop_loc lp) geo_decode_value of
         Some g \<Rightarrow> ctx\<lparr>ctx_tags := (ctx_tags ctx)\<lparr>tag_prev_hop_location := Some g\<rparr>\<rparr> | None \<Rightarrow> ctx)
   in (case Option.bind (lp_al_data_loc lp) geo_decode_value of
         Some g \<Rightarrow> ctx\<lparr>ctx_tags := (ctx_tags ctx)\<lparr>tag_data_location := Some g\<rparr>\<rparr> | None \<Rightarrow> ctx))"

definition decode_nack :: "decode_env \<Rightarrow> nack_header \<Rightarrow> bytes \<Rightarrow> packet_context \<Rightarrow> decode_stage \<Rightarrow> action \<times> decode_stage" where
  "decode_nack env header fragment ctx st = (case interest_decode fragment of
     Inl _ \<Rightarrow> (ActDrop DropMalformedPacket, st)
   | Inr i \<Rightarrow> (let
       ctx = (set_name (de_hasher env) (int_name i) ctx)\<lparr>ctx_packet :=
         NackPacket \<lparr>nack_reason_of = nack_header.nack_reason header, nack_interest = i\<rparr>\<rparr>;
       st = (case map_of (ds_face_states st) (ctx_face_id ctx) of
           Some s \<Rightarrow> st\<lparr>ds_face_states := AList.update (ctx_face_id ctx)
             (s\<lparr>fs_counters := (fs_counters s)\<lparr>in_nacks := in_nacks (fs_counters s) + 1\<rparr>\<rparr>) (ds_face_states st)\<rparr>
         | None \<Rightarrow> st)
     in (scoped_continue st ctx, st)))"

text \<open>\<open>process_lp\<close> up to its calls of \<open>process\<close>: the action, or the context to process.\<close>

definition process_lp :: "decode_env \<Rightarrow> packet_context \<Rightarrow> decode_stage \<Rightarrow> (action + packet_context) \<times> decode_stage" where
  "process_lp env ctx st = (case lp_decode (ctx_raw_bytes ctx) of
     Inl _ \<Rightarrow> (Inl (ActDrop DropMalformedPacket), st)
   | Inr lp \<Rightarrow> (let ctx = lp_tags st lp ctx in
       if is_ack_only lp then (Inl (ActDrop FragmentCollect), st)
       else case lp_fragment lp of
         None \<Rightarrow> (Inl (ActDrop DropMalformedPacket), st)
       | Some fragment \<Rightarrow>
           if is_fragmented lp then (let
             fid = ctx_face_id ctx;
             rb = (case map_of (ds_reassembly st) fid of
                 Some rb \<Rightarrow> rb | None \<Rightarrow> reassembly_new DEFAULT_REASSEMBLY_TIMEOUT);
             seq = (case lp_sequence lp of Some s \<Rightarrow> s | None \<Rightarrow> 0);
             idx = (case lp_frag_index lp of Some i \<Rightarrow> i | None \<Rightarrow> 0)
           in case checked_sub seq idx of
               None \<Rightarrow> (Inl (ActDrop DropMalformedPacket),
                 st\<lparr>ds_reassembly := AList.update fid rb (ds_reassembly st)\<rparr>)
             | Some base_seq \<Rightarrow> (case process (de_now env) (ctx_endpoint_id ctx) base_seq idx
                   (case lp_frag_count lp of Some c \<Rightarrow> c | None \<Rightarrow> 1) fragment rb of
                 (complete, rb') \<Rightarrow> (let
                   st = st\<lparr>ds_reassembly := AList.update fid rb' (ds_reassembly st)\<rparr>
                 in case complete of
                     Some packet \<Rightarrow> (Inr (ctx\<lparr>ctx_raw_bytes := packet\<rparr>), st)
                   | None \<Rightarrow> (Inl (ActDrop FragmentCollect), st))))
           else case lp_nack lp of
             Some header \<Rightarrow> (case decode_nack env header fragment ctx st of (a, st) \<Rightarrow> (Inl a, st))
           | None \<Rightarrow> (Inr (ctx\<lparr>ctx_raw_bytes := fragment\<rparr>), st)))"

partial_function (option) decode_process ::
  "decode_env \<Rightarrow> packet_context \<Rightarrow> decode_stage \<Rightarrow> (action \<times> decode_stage) option" where
  "decode_process env ctx st = (case ctx_raw_bytes ctx of
     [] \<Rightarrow> Some (ActDrop DropMalformedPacket, st)
   | first_byte # _ \<Rightarrow>
       if is_lp_packet (ctx_raw_bytes ctx) then
         (case process_lp env ctx st of
            (Inl a, st) \<Rightarrow> Some (a, st)
          | (Inr ctx, st) \<Rightarrow> decode_process env ctx st)
       else if ucast first_byte = INTEREST then map_option (\<lambda>a. (a, st)) (decode_interest env st ctx)
       else if ucast first_byte = DATA then Some (decode_data env st ctx, st)
       else Some (ActDrop DropMalformedPacket, st))"

definition decode_resolved ::
  "decode_env \<Rightarrow> bytes \<Rightarrow> u64 \<Rightarrow> u64 \<Rightarrow> u64 \<Rightarrow> decode_stage \<Rightarrow> (action \<times> decode_stage) option" where
  "decode_resolved env raw fid arrival endpoint_id st =
     decode_process env ((packet_context_new raw fid arrival)\<lparr>ctx_endpoint_id := endpoint_id\<rparr>) st"

definition decode_inbound ::
  "decode_env \<Rightarrow> bytes \<Rightarrow> u64 \<Rightarrow> u64 \<Rightarrow> u64 \<Rightarrow> decode_stage \<Rightarrow> (action \<times> decode_stage) option" where
  "decode_inbound env raw fid arrival endpoint_id st =
     (case try_collect_fragment (de_now env) fid endpoint_id raw (ds_reassembly st) of
        (Inr None, table) \<Rightarrow> Some (ActDrop FragmentCollect, st\<lparr>ds_reassembly := table\<rparr>)
      | (Inr (Some reassembled), table) \<Rightarrow>
          decode_resolved env reassembled fid arrival endpoint_id (st\<lparr>ds_reassembly := table\<rparr>)
      | (Inl raw, table) \<Rightarrow> decode_resolved env raw fid arrival endpoint_id (st\<lparr>ds_reassembly := table\<rparr>))"

section \<open>The decode stage returns\<close>

definition rb_bytes :: "reassembly_buffer \<Rightarrow> nat" where
  "rb_bytes rb = table_sum (\<lambda>e. held_bytes (pd_fragments e)) (rb_pending rb)"

definition buffered :: "reassembly_table \<Rightarrow> nat" where
  "buffered t = table_sum rb_bytes t"

definition buffers_ok :: "reassembly_table \<Rightarrow> bool" where
  "buffers_ok t \<longleftrightarrow> (\<forall>rb \<in> snd ` set t. reassembly_ok rb)"

lemma group_bytes_lookup: "group_bytes e = case_option 0 (\<lambda>e. held_bytes (pd_fragments e)) e"
  by (simp add: group_bytes_def split: option.split)

lemma make_room_bytes: "rb_bytes (make_room now key rb) \<le> rb_bytes rb"
proof -
  have purge: "rb_bytes (purge_expired now rb) \<le> rb_bytes rb" for rb
    by (simp add: rb_bytes_def purge_expired_def Let_def table_sum_filter)
  have evict: "rb_bytes (evict_oldest rb) \<le> rb_bytes rb" for rb
  proof -
    have "table_sum (\<lambda>e. held_bytes (pd_fragments e)) (AList.delete k (rb_pending rb)) \<le>
        table_sum (\<lambda>e. held_bytes (pd_fragments e)) (rb_pending rb)" for k
      unfolding delete_filter by (rule table_sum_filter)
    then show ?thesis by (simp add: rb_bytes_def evict_oldest_def split: option.split)
  qed
  show ?thesis
    using purge [of rb] le_trans [OF evict purge, of rb] by (simp add: make_room_def Let_def)
qed

text \<open>Reassembly creates no bytes: what it returns and keeps was held before or has just arrived.\<close>

lemma process_bytes:
  assumes "reassembly_ok rb"
  shows "case_option 0 length (fst (process now ep seq idx cnt frag rb)) +
    rb_bytes (snd (process now ep seq idx cnt frag rb)) \<le> rb_bytes rb + length frag"
proof -
  let ?room = "make_room now (ep, seq) rb"
  let ?g = "\<lambda>e. held_bytes (pd_fragments e)"
  have room: "table_sum ?g (rb_pending ?room) \<le> rb_bytes rb" using make_room_bytes by (simp add: rb_bytes_def)
  from assms show ?thesis
  proof (cases rule: process_cases [where now = now and ep = ep and seq = seq and idx = idx and cnt = cnt and frag = frag])
    case rejected
    then show ?thesis by (simp add: rb_bytes_def)
  next
    case mismatch
    then show ?thesis using room by (simp add: rb_bytes_def)
  next
    case (stored e)
    then show ?thesis
      using room table_sum_update [of ?g "(ep, seq)" e "rb_pending ?room"]
      by (simp add: rb_bytes_def group_bytes_lookup)
  next
    case (completed chunks)
    then show ?thesis
      using room table_sum_delete [of ?g "(ep, seq)" "rb_pending ?room"]
      by (simp add: rb_bytes_def group_bytes_lookup)
  qed
qed

lemma length_elem_le: "(t, v) \<in> set es \<Longrightarrow> length v \<le> length (elems_enc es)"
proof (induction es)
  case (Cons e es)
  obtain t' v' where e: "e = (t', v')" by fastforce
  show ?case using Cons length_tlv_enc_value [of v' t'] by (auto simp: e)
qed simp

lemma lp_fragment_shorter:
  assumes "lp_decode raw = Inr lp" "lp_fragment lp = Some f" "length raw < 2 ^ 63"
  shows "length f < length raw"
proof -
  from lp_decode_elems_canonical [OF assms(1,3)] obtain es rest where
    raw: "raw = tlv_enc LP_PACKET (elems_enc es) @ rest" and fold: "flow_fold lp_body lp_finish lp_init es = Inr lp"
    by metis
  have "last_field LP_FRAGMENT es = Some f"
    using lp_fold_fields(5) [OF fold] assms(2)
    by (simp add: lp_init_def lp_packet_empty_def split: option.splits)
  then have "(LP_FRAGMENT, f) \<in> set es" unfolding last_field_def by (metis map_of_SomeD set_rev)
  then have "length f \<le> length (elems_enc es)" by (rule length_elem_le)
  then show ?thesis by (simp add: raw tlv_enc_def varu64_enc_def)
qed

lemma lp_tags_keeps [simp]:
  "ctx_raw_bytes (lp_tags st lp ctx) = ctx_raw_bytes ctx" "ctx_face_id (lp_tags st lp ctx) = ctx_face_id ctx"
  "ctx_endpoint_id (lp_tags st lp ctx) = ctx_endpoint_id ctx" "ctx_arrival (lp_tags st lp ctx) = ctx_arrival ctx"
  "ctx_name (lp_tags st lp ctx) = ctx_name ctx" "ctx_packet (lp_tags st lp ctx) = ctx_packet ctx"
  "ctx_name_hashes (lp_tags st lp ctx) = ctx_name_hashes ctx" "ctx_pit_token (lp_tags st lp ctx) = ctx_pit_token ctx"
  "ctx_out_faces (lp_tags st lp ctx) = ctx_out_faces ctx"
  by (simp_all add: lp_tags_def Let_def split: option.split)

lemma buffers_ok_lookup:
  "buffers_ok t \<Longrightarrow> reassembly_ok (case map_of t k of Some rb \<Rightarrow> rb | None \<Rightarrow> reassembly_new timeout)"
  using map_of_snd [of t k] by (auto simp: buffers_ok_def reassembly_ok_new simp del: ball_simps split: option.split)

lemma buffers_ok_update: "buffers_ok t \<Longrightarrow> reassembly_ok rb \<Longrightarrow> buffers_ok (AList.update k rb t)"
  unfolding buffers_ok_def using snd_set_update [of k rb t] by blast

lemma buffered_process:
  fixes t :: reassembly_table and k :: u64 and timeout :: nat
  assumes "buffers_ok t"
  defines "rb \<equiv> (case map_of t k of Some rb \<Rightarrow> rb | None \<Rightarrow> reassembly_new timeout)"
  assumes "process now ep seq idx cnt frag rb = (out, rb')"
  shows "case_option 0 length out + buffered (AList.update k rb' t) \<le> buffered t + length frag"
    and "buffers_ok (AList.update k rb' t)"
proof -
  have ok: "reassembly_ok rb" unfolding rb_def by (rule buffers_ok_lookup [OF assms(1)])
  have "case_option 0 rb_bytes (map_of t k) = rb_bytes rb"
    by (simp add: rb_def rb_bytes_def reassembly_new_def table_sum_def split: option.split)
  then show "case_option 0 length out + buffered (AList.update k rb' t) \<le> buffered t + length frag"
    using process_bytes [OF ok, of now ep seq idx cnt frag] table_sum_update [of rb_bytes k rb' t] assms(3)
    by (simp add: buffered_def)
  show "buffers_ok (AList.update k rb' t)"
    using reassembly_ok_process [OF ok, of now ep seq idx cnt frag] assms(1,3) by (simp add: buffers_ok_update)
qed

text \<open>What \<open>process_lp\<close> does, one case per way out.\<close>

lemma process_lp_cases:
  obtains (stop) a st' where "process_lp env ctx st = (Inl a, st')" "ds_reassembly st' = ds_reassembly st"
      "\<And>ctx'. a \<noteq> ActContinue ctx'"
  | (collect) a lp fragment seq idx cnt rb' where "process_lp env ctx st = (Inl a, st\<lparr>ds_reassembly := AList.update (ctx_face_id ctx) rb' (ds_reassembly st)\<rparr>)"
      "\<And>ctx'. a \<noteq> ActContinue ctx'" "lp_decode (ctx_raw_bytes ctx) = Inr lp" "lp_fragment lp = Some fragment"
      "rb' = (case map_of (ds_reassembly st) (ctx_face_id ctx) of Some rb \<Rightarrow> rb | None \<Rightarrow> reassembly_new DEFAULT_REASSEMBLY_TIMEOUT) \<or>
       process (de_now env) (ctx_endpoint_id ctx) seq idx cnt fragment
         (case map_of (ds_reassembly st) (ctx_face_id ctx) of Some rb \<Rightarrow> rb | None \<Rightarrow> reassembly_new DEFAULT_REASSEMBLY_TIMEOUT) = (None, rb')"
  | (nack) lp fragment header where "lp_decode (ctx_raw_bytes ctx) = Inr lp" "lp_fragment lp = Some fragment" "lp_nack lp = Some header"
      "process_lp env ctx st = (case decode_nack env header fragment (lp_tags st lp ctx) st of (a, st) \<Rightarrow> (Inl a, st))"
  | (reassembled) lp fragment seq idx cnt packet rb' where "lp_decode (ctx_raw_bytes ctx) = Inr lp" "lp_fragment lp = Some fragment"
      "process (de_now env) (ctx_endpoint_id ctx) seq idx cnt fragment
         (case map_of (ds_reassembly st) (ctx_face_id ctx) of Some rb \<Rightarrow> rb | None \<Rightarrow> reassembly_new DEFAULT_REASSEMBLY_TIMEOUT) = (Some packet, rb')"
      "process_lp env ctx st = (Inr ((lp_tags st lp ctx)\<lparr>ctx_raw_bytes := packet\<rparr>),
         st\<lparr>ds_reassembly := AList.update (ctx_face_id ctx) rb' (ds_reassembly st)\<rparr>)"
  | (single) lp fragment where "lp_decode (ctx_raw_bytes ctx) = Inr lp" "lp_fragment lp = Some fragment"
      "process_lp env ctx st = (Inr ((lp_tags st lp ctx)\<lparr>ctx_raw_bytes := fragment\<rparr>), st)"
proof (cases "lp_decode (ctx_raw_bytes ctx)")
  case (Inl e)
  then show thesis by (intro stop [where a = "ActDrop DropMalformedPacket"]) (simp_all add: process_lp_def)
next
  case (Inr lp)
  let ?rb = "case map_of (ds_reassembly st) (ctx_face_id ctx) of Some rb \<Rightarrow> rb | None \<Rightarrow> reassembly_new DEFAULT_REASSEMBLY_TIMEOUT"
  show thesis
  proof (cases "is_ack_only lp \<or> lp_fragment lp = None")
    case True
    then show thesis
      by (intro stop [where a = "ActDrop (if is_ack_only lp then FragmentCollect else DropMalformedPacket)"])
        (auto simp: process_lp_def Inr Let_def)
  next
    case False
    then obtain fragment where f: "lp_fragment lp = Some fragment" "\<not> is_ack_only lp" by auto
    show thesis
    proof (cases "is_fragmented lp")
      case True
      define seq where "seq = (case lp_sequence lp of Some s \<Rightarrow> s | None \<Rightarrow> 0)"
      define idx where "idx = (case lp_frag_index lp of Some i \<Rightarrow> i | None \<Rightarrow> 0)"
      define cnt where "cnt = (case lp_frag_count lp of Some c \<Rightarrow> c | None \<Rightarrow> 1)"
      note run = process_lp_def [of env ctx st, unfolded Inr sum.case Let_def lp_tags_keeps f option.case
          seq_def [symmetric] idx_def [symmetric] cnt_def [symmetric]]
      show thesis
      proof (cases "checked_sub seq idx")
        case None
        then show thesis
          using run True f(2) by (intro collect [where a = "ActDrop DropMalformedPacket", OF _ _ Inr f(1) disjI1 [OF refl]]) simp_all
      next
        case (Some base)
        obtain out rb' where p: "process (de_now env) (ctx_endpoint_id ctx) base idx cnt fragment ?rb = (out, rb')"
          by fastforce
        show thesis
        proof (cases out)
          case None
          then show thesis
            using run True f(2) Some p by (intro collect [where a = "ActDrop FragmentCollect", OF _ _ Inr f(1) disjI2 [OF p [unfolded None]]]) simp_all
        next
          case (Some packet)
          then show thesis
            using run True f(2) \<open>checked_sub seq idx = Some base\<close> p
            by (intro reassembled [OF Inr f(1) p [unfolded Some]]) simp
        qed
      qed
    next
      case False
      show thesis
      proof (cases "lp_nack lp")
        case None
        then show thesis using False f by (intro single [OF Inr f(1)]) (simp add: process_lp_def Inr Let_def)
      next
        case (Some header)
        then show thesis using False f by (intro nack [OF Inr f(1) Some]) (simp add: process_lp_def Inr Let_def)
      qed
    qed
  qed
qed

lemma decode_nack_reassembly [simp]: "ds_reassembly (snd (decode_nack env h f ctx st)) = ds_reassembly st"
  by (simp add: decode_nack_def Let_def split: sum.split option.split)

lemma process_lp_resumes:
  assumes "buffers_ok (ds_reassembly st)" "length (ctx_raw_bytes ctx) < 2 ^ 63"
    and step: "process_lp env ctx st = (Inr ctx', st')"
  shows "length (ctx_raw_bytes ctx') + buffered (ds_reassembly st') < length (ctx_raw_bytes ctx) + buffered (ds_reassembly st)"
    and "buffers_ok (ds_reassembly st')"
proof -
  have "length (ctx_raw_bytes ctx') + buffered (ds_reassembly st') < length (ctx_raw_bytes ctx) + buffered (ds_reassembly st) \<and>
    buffers_ok (ds_reassembly st')"
  proof (cases rule: process_lp_cases [of env ctx st])
    case (reassembled lp fragment seq idx cnt packet rb')
    note b = buffered_process [OF assms(1) reassembled(3)]
    show ?thesis
      using b lp_fragment_shorter [OF reassembled(1,2) assms(2)] step reassembled(4) by auto
  next
    case (single lp fragment)
    then show ?thesis using lp_fragment_shorter [OF single(1,2) assms(2)] step assms(1) by auto
  qed (use step in \<open>auto split: prod.splits\<close>)
  then show "length (ctx_raw_bytes ctx') + buffered (ds_reassembly st') < length (ctx_raw_bytes ctx) + buffered (ds_reassembly st)"
    "buffers_ok (ds_reassembly st')" by auto
qed

text \<open>
  The one way not to return: an Interest that carries a HopLimit, with bytes behind it in the buffer,
  as the innermost packet.
\<close>

inductive unwraps :: "decode_env \<Rightarrow> packet_context \<Rightarrow> decode_stage \<Rightarrow> packet_context \<Rightarrow> decode_stage \<Rightarrow> bool" for env where
  innermost: "unwraps env ctx st ctx st"
| link_packet: "is_lp_packet (ctx_raw_bytes ctx) \<Longrightarrow> process_lp env ctx st = (Inr ctx1, st1) \<Longrightarrow>
    unwraps env ctx1 st1 ctx' st' \<Longrightarrow> unwraps env ctx st ctx' st'"

definition trailing_interest :: "bytes \<Rightarrow> bool" where
  "trailing_interest raw \<longleftrightarrow> (\<exists>i. interest_decode raw = Inr i \<and> int_hop_limit i \<noteq> None) \<and>
     as_bytes (snd (read_tlv (reader_new raw))) \<noteq> []"

definition stuck_packet :: "decode_env \<Rightarrow> packet_context \<Rightarrow> decode_stage \<Rightarrow> bool" where
  "stuck_packet env ctx st \<longleftrightarrow> (\<exists>ctx' st'. unwraps env ctx st ctx' st' \<and> trailing_interest (ctx_raw_bytes ctx'))"

lemma decrement_returns:
  assumes "length (tlv_enc INTEREST (elems_enc es)) < 2 ^ 63"
  shows "decrement_hop_limit (tlv_enc INTEREST (elems_enc es)) \<noteq> None"
proof -
  let ?l = "word_of_nat (length (elems_enc es)) :: u64"
  let ?pre = "varu64_enc INTEREST @ varu64_enc ?l"
  have wire: "tlv_enc INTEREST (elems_enc es) = ?pre @ elems_enc es" by (simp add: tlv_enc_def)
  have len: "length (elems_enc es) < 2 ^ 63" using length_packet_value [of INTEREST _ "[]"] assms by simp
  have walk: "hop_limit_walk (elems_enc es) 0 \<noteq> None"
    using hop_limit_walk_elems [of "[]" es "[]"] len hop_limit_walk.simps [of "elems_enc es" "length (elems_enc es)"]
    by (simp split: option.splits)
  have rd: "fst (read_tlv (reader_new (?pre @ elems_enc es))) = Inr (INTEREST, elems_enc es)"
    using fst_read_tlv_enc [of INTEREST "elems_enc es" "[]"] assms by (simp add: wire)
  have "drop (length (?pre @ elems_enc es) - length (elems_enc es)) (?pre @ elems_enc es) = elems_enc es" by simp
  then show ?thesis
    using walk rd unfolding wire decrement_hop_limit_def by (auto simp del: append_assoc simp: Let_def)
qed

lemma decode_interest_None:
  assumes none: "decode_interest env st ctx = None" and len: "length (ctx_raw_bytes ctx) < 2 ^ 62"
  shows "trailing_interest (ctx_raw_bytes ctx)"
proof -
  let ?raw = "ctx_raw_bytes ctx"
  obtain i where i: "interest_decode ?raw = Inr i"
    using none by (cases "interest_decode (ctx_raw_bytes ctx)") (auto simp: decode_interest_def)
  have h: "int_hop_limit i \<noteq> None"
  proof
    assume "int_hop_limit i = None"
    then show False using none i by (simp add: decode_interest_def Let_def split: sum.splits)
  qed
  have d: "decrement_hop_limit (ensure_nonce (de_next_nonce env) ?raw) = None"
    using none i h
    by (cases "decrement_hop_limit (ensure_nonce (de_next_nonce env) (ctx_raw_bytes ctx))")
      (auto simp: decode_interest_def Let_def split: sum.splits if_splits)
  have len63: "length ?raw < 2 ^ 63" using len by simp
  from interest_decode_canonical [OF i len63] obtain body rest where
    raw: "?raw = interest_wire (int_name i) body @ rest" and ty: "types_ok body" by metis
  let ?es = "(NAME, elems_enc (name_elems (int_name i))) # body"
  have "rest \<noteq> []"
  proof
    assume r: "rest = []"
    have "length (elems_enc ((NONCE, to_be_bytes (de_next_nonce env)) # ?es)) \<le> length ?raw + 18"
      by (simp add: raw r length_tlv_enc tlv_size_def varu64_size_def)
    then have "length (tlv_enc INTEREST (elems_enc ((NAME, elems_enc (name_elems (int_name i))) # (NONCE, to_be_bytes (de_next_nonce env)) # body))) \<le> length ?raw + 36"
      by (simp add: length_tlv_enc [of INTEREST] tlv_size_def varu64_size_def)
    then have "length (tlv_enc INTEREST (elems_enc ((NAME, elems_enc (name_elems (int_name i))) # (NONCE, to_be_bytes (de_next_nonce env)) # body))) < 2 ^ 63"
      using len by simp
    from decrement_returns [OF this] decrement_returns [of ?es] d
      ensure_nonce_elems [of "int_name i" body "[]" "de_next_nonce env", OF _ ty] len63
    show False by (simp add: raw r split: if_splits)
  qed
  moreover have "as_bytes (snd (read_tlv (reader_new ?raw))) = rest"
    using read_tlv_enc [OF reader_wf_new [OF len63], of INTEREST _ rest]
      as_bytes_advance [of "reader_new ?raw" "interest_wire (int_name i) body" rest] by (simp add: raw)
  ultimately show ?thesis using i h by (auto simp: trailing_interest_def)
qed

lemma decode_process_returns:
  assumes "buffers_ok (ds_reassembly st)" "length (ctx_raw_bytes ctx) + buffered (ds_reassembly st) < 2 ^ 62"
    "decode_process env ctx st = None"
  shows "stuck_packet env ctx st"
  using assms
proof (induction "length (ctx_raw_bytes ctx) + buffered (ds_reassembly st)" arbitrary: ctx st rule: less_induct)
  case less
  note run = less.prems(3) [unfolded decode_process.simps [of env ctx st]]
  have len: "length (ctx_raw_bytes ctx) < 2 ^ 62" using less.prems(2) by linarith
  obtain b bs where raw: "ctx_raw_bytes ctx = b # bs"
    using run by (cases "ctx_raw_bytes ctx") auto
  show ?case
  proof (cases "is_lp_packet (ctx_raw_bytes ctx)")
    case True
    then obtain ctx' st' where step: "process_lp env ctx st = (Inr ctx', st')" "decode_process env ctx' st' = None"
      using run raw by (auto split: prod.splits sum.splits)
    have "length (ctx_raw_bytes ctx) < 2 ^ 63" using len by simp
    note r = process_lp_resumes [OF less.prems(1) this step(1)]
    have "stuck_packet env ctx' st'" using less.hyps [OF r(1) r(2) _ step(2)] r(1) less.prems(2) by linarith
    then show ?thesis unfolding stuck_packet_def using link_packet [OF True step(1)] by blast
  next
    case False
    then have "decode_interest env st ctx = None" using run raw by (auto split: if_splits)
    then have "trailing_interest (ctx_raw_bytes ctx)" using len by (rule decode_interest_None)
    then show ?thesis unfolding stuck_packet_def using innermost by blast
  qed
qed

lemma process_lp_buffers:
  assumes "buffers_ok (ds_reassembly st)" "process_lp env ctx st = (r, st')"
  shows "buffers_ok (ds_reassembly st')"
proof (cases rule: process_lp_cases [of env ctx st])
  case (stop a s)
  then show ?thesis using assms by simp
next
  case (collect a lp fragment seq idx cnt rb')
  then show ?thesis
    using assms buffered_process(2) [OF assms(1), of "de_now env" "ctx_endpoint_id ctx" seq idx cnt fragment DEFAULT_REASSEMBLY_TIMEOUT "ctx_face_id ctx" None rb']
      buffers_ok_update [OF assms(1) buffers_ok_lookup [OF assms(1)]] by auto
next
  case (nack lp fragment header)
  obtain a s where n: "decode_nack env header fragment (lp_tags st lp ctx) st = (a, s)" by fastforce
  then have "ds_reassembly s = ds_reassembly st" by (metis decode_nack_reassembly snd_conv)
  then show ?thesis using assms nack(4) n by simp
next
  case (reassembled lp fragment seq idx cnt packet rb')
  then show ?thesis using assms buffered_process(2) [OF assms(1) reassembled(3)] by auto
next
  case (single lp fragment)
  then show ?thesis using assms by simp
qed

lemma decode_process_buffers:
  assumes "decode_process env ctx st = Some (a, st')" "buffers_ok (ds_reassembly st)"
  shows "buffers_ok (ds_reassembly st')"
proof -
  define P where "P = (\<lambda>(st :: decode_stage) (y :: action \<times> decode_stage).
    buffers_ok (ds_reassembly st) \<longrightarrow> buffers_ok (ds_reassembly (snd y)))"
  have "P st y" if "decode_process env ctx st = Some y" for y
  proof (rule decode_process.raw_induct [OF _ that], goal_cases)
    case (1 rec env ctx st y)
    show ?case
    proof (cases "ctx_raw_bytes ctx \<noteq> [] \<and> is_lp_packet (ctx_raw_bytes ctx)")
      case True
      obtain r st1 where step: "process_lp env ctx st = (r, st1)" by fastforce
      note b = process_lp_buffers [OF _ step]
      show ?thesis
      proof (cases r)
        case (Inl a)
        then show ?thesis using 1(2) True step b by (auto simp: P_def split: list.splits)
      next
        case (Inr ctx1)
        then have "rec env ctx1 st1 = Some y" using 1(2) True step by (auto split: list.splits)
        from 1(1) [OF this] b show ?thesis by (simp add: P_def)
      qed
    next
      case False
      then show ?thesis using 1(2) by (auto simp: P_def split: list.splits if_splits)
    qed
  qed
  then show ?thesis using assms by (auto simp: P_def)
qed

section \<open>What is handed on\<close>

text \<open>
  What the later stages rely on in a context they are given: where the packet came from, that it is
  decoded, under which name, that the name is allowed on that face and that privileged fields were.
\<close>

definition packet_name_of :: "decoded_packet \<Rightarrow> name option" where
  "packet_name_of p = (case p of RawPacket \<Rightarrow> None | InterestPacket i \<Rightarrow> Some (int_name i)
     | DataPacket d \<Rightarrow> Some (data_name d) | NackPacket n \<Rightarrow> Some (int_name (nack_interest n)))"

definition nonlocal_face :: "decode_stage \<Rightarrow> u64 \<Rightarrow> bool" where
  "nonlocal_face st fid \<longleftrightarrow> (case map_of (ds_face_table st) fid of Some f \<Rightarrow> fc_scope f = NonLocal | None \<Rightarrow> False)"

definition undecoded :: "decode_stage \<Rightarrow> packet_context \<Rightarrow> bool" where
  "undecoded st ctx \<longleftrightarrow> ctx_name ctx = None \<and> ctx_name_hashes ctx = None \<and> ctx_pit_token ctx = None \<and>
     ctx_out_faces ctx = [] \<and>
     (tag_next_hop_face_id (ctx_tags ctx) \<noteq> None \<longrightarrow> ingress_local_fields st (ctx_face_id ctx))"

definition handed_on :: "decode_env \<Rightarrow> decode_stage \<Rightarrow> packet_context \<Rightarrow> bool" where
  "handed_on env st ctx \<longleftrightarrow> (\<exists>n. ctx_name ctx = Some n \<and> packet_name_of (ctx_packet ctx) = Some n \<and>
     ctx_name_hashes ctx = (if length n > 3 then Some (name_hashes_compute (de_hasher env) n) else None) \<and>
     (nonlocal_face st (ctx_face_id ctx) \<longrightarrow> \<not> is_localhost_name n)) \<and>
     (case ctx_packet ctx of
        RawPacket \<Rightarrow> False
      | InterestPacket i \<Rightarrow> interest_decode (ctx_raw_bytes ctx) = Inr i
      | DataPacket d \<Rightarrow> data_decode (ctx_raw_bytes ctx) = Inr (d\<lparr>data_content_sha256 := None\<rparr>)
      | NackPacket n \<Rightarrow> (\<exists>lp f h. lp_decode (ctx_raw_bytes ctx) = Inr lp \<and> lp_fragment lp = Some f \<and>
          lp_nack lp = Some h \<and> nack_reason_of n = nack_header.nack_reason h \<and> interest_decode f = Inr (nack_interest n))) \<and>
     ctx_pit_token ctx = None \<and> ctx_out_faces ctx = [] \<and>
     (tag_next_hop_face_id (ctx_tags ctx) \<noteq> None \<longrightarrow> ingress_local_fields st (ctx_face_id ctx))"

lemma set_name_simps [simp]:
  "ctx_raw_bytes (set_name H n ctx) = ctx_raw_bytes ctx" "ctx_face_id (set_name H n ctx) = ctx_face_id ctx"
  "ctx_name (set_name H n ctx) = Some n" "ctx_pit_token (set_name H n ctx) = ctx_pit_token ctx"
  "ctx_out_faces (set_name H n ctx) = ctx_out_faces ctx" "ctx_tags (set_name H n ctx) = ctx_tags ctx"
  "ctx_arrival (set_name H n ctx) = ctx_arrival ctx"
  "ctx_name_hashes (set_name H n ctx) = (if length n > 3 then Some (name_hashes_compute H n) else ctx_name_hashes ctx)"
  by (simp_all add: set_name_def Let_def)

lemma scoped_continue_iff:
  "scoped_continue st ctx = ActContinue ctx' \<longleftrightarrow> ctx' = ctx \<and>
     (\<forall>n. ctx_name ctx = Some n \<longrightarrow> nonlocal_face st (ctx_face_id ctx) \<longrightarrow> \<not> is_localhost_name n)"
  by (auto simp: scoped_continue_def check_scope_def nonlocal_face_def Let_def split: option.splits)

lemma decode_interest_handed_on:
  assumes "decode_interest env st ctx = Some (ActContinue ctx')" "undecoded st ctx"
  shows "handed_on env st ctx' \<and> ctx_face_id ctx' = ctx_face_id ctx \<and> ctx_arrival ctx' = ctx_arrival ctx"
proof -
  obtain i where i: "interest_decode (ctx_raw_bytes ctx) = Inr i" "int_hop_limit i \<noteq> Some 0"
    using assms(1) by (auto simp: decode_interest_def split: sum.splits if_splits)
  obtain raw' i' where r: "interest_decode raw' = Inr i'"
    "scoped_continue st ((set_name (de_hasher env) (int_name i') (ctx\<lparr>ctx_raw_bytes := raw'\<rparr>))\<lparr>ctx_packet := InterestPacket i'\<rparr>) = ActContinue ctx'"
  proof (cases "int_hop_limit i")
    case None
    then show thesis using assms(1) i that by (auto simp: decode_interest_def Let_def split: sum.splits)
  next
    case (Some h)
    then show thesis
      using assms(1) i that by (auto simp: decode_interest_def Let_def split: sum.splits option.splits prod.splits)
  qed
  show ?thesis using r assms(2) unfolding scoped_continue_iff
    by (auto simp: handed_on_def undecoded_def packet_name_of_def)
qed

text \<open>The content hash of the forwarder is a sidecar: nothing else of the packet changes.\<close>

lemma populate_changes_sidecar:
  "(populate_content_sha256_with sha t d)\<lparr>data_content_sha256 := None\<rparr> = d\<lparr>data_content_sha256 := None\<rparr>"
proof -
  have loop: "(flow_fold (\<lambda>_ t v. if t = ty then Return (d\<lparr>data_content_sha256 := Some (sha v)\<rparr>) else Continue ())
      (\<lambda>_. d) () es)\<lparr>data_content_sha256 := None\<rparr> = d\<lparr>data_content_sha256 := None\<rparr>" for ty es
    by (induction es) auto
  have "(tlv_loop (\<lambda>_ _ t v _. if t = ty then Return (d\<lparr>data_content_sha256 := Some (sha v)\<rparr>) else Continue ())
      (\<lambda>_. d) (\<lambda>_. d) () r)\<lparr>data_content_sha256 := None\<rparr> = d\<lparr>data_content_sha256 := None\<rparr>" for ty r
    by (simp add: loop tlv_loop_flow_fold [of "\<lambda>_ t v. if t = ty then Return (d\<lparr>data_content_sha256 := Some (sha v)\<rparr>) else Continue ()"]
        split: prod.split option.split)
  then show ?thesis
    by (simp add: populate_content_sha256_with_def split: option.split content_hash_target.split)
qed

lemma data_decode_sidecar: "data_decode raw = Inr d \<Longrightarrow> d\<lparr>data_content_sha256 := None\<rparr> = d"
  by (auto simp: data_decode_def Let_def split: sum.splits prod.splits if_splits)

lemma decode_data_handed_on:
  assumes "decode_data env st ctx = ActContinue ctx'" "undecoded st ctx"
  shows "handed_on env st ctx' \<and> ctx_face_id ctx' = ctx_face_id ctx \<and> ctx_arrival ctx' = ctx_arrival ctx"
proof -
  obtain d where d: "data_decode (ctx_raw_bytes ctx) = Inr d"
    using assms(1) by (cases "data_decode (ctx_raw_bytes ctx)") (auto simp: decode_data_def)
  define d' where "d' = (case content_hash_target_of st (ctx_face_id ctx) of
    Some target \<Rightarrow> populate_content_sha256_with (de_sha256 env) target d | None \<Rightarrow> d)"
  have side: "d'\<lparr>data_content_sha256 := None\<rparr> = d"
    using populate_changes_sidecar data_decode_sidecar [OF d] by (simp add: d'_def split: option.split)
  then have nm: "data_name d' = data_name d" by (metis data.ext_inject data.surjective data.update_convs(7))
  have "scoped_continue st ((set_name (de_hasher env) (data_name d) ctx)\<lparr>ctx_packet := DataPacket d'\<rparr>) = ActContinue ctx'"
    using assms(1) by (simp add: decode_data_def d Let_def d'_def [symmetric])
  then show ?thesis using assms(2) d side nm unfolding scoped_continue_iff
    by (auto simp: handed_on_def undecoded_def packet_name_of_def)
qed

lemma decode_nack_handed_on:
  assumes "decode_nack env h f ctx st = (ActContinue ctx', st')" "undecoded st ctx"
    "lp_decode (ctx_raw_bytes ctx) = Inr lp" "lp_fragment lp = Some f" "lp_nack lp = Some h"
  shows "handed_on env st ctx' \<and> ctx_face_id ctx' = ctx_face_id ctx \<and> ctx_arrival ctx' = ctx_arrival ctx"
proof -
  obtain i where i: "interest_decode f = Inr i"
    using assms(1) by (cases "interest_decode f") (auto simp: decode_nack_def)
  have tab: "ds_face_table st' = ds_face_table st"
    using assms(1) i by (auto simp: decode_nack_def Let_def split: option.splits)
  have sc: "scoped_continue st' ((set_name (de_hasher env) (int_name i) ctx)\<lparr>ctx_packet :=
      NackPacket \<lparr>nack_reason_of = nack_header.nack_reason h, nack_interest = i\<rparr>\<rparr>) = ActContinue ctx'"
    using assms(1) i by (auto simp: decode_nack_def Let_def)
  have "nonlocal_face st' fid = nonlocal_face st fid" for fid by (simp add: nonlocal_face_def tab)
  then show ?thesis using assms(2-5) i sc unfolding scoped_continue_iff
    by (auto simp: handed_on_def undecoded_def packet_name_of_def)
qed

lemma lp_tags_undecoded: "undecoded st ctx \<Longrightarrow> undecoded st (lp_tags st lp ctx)"
  by (auto simp: undecoded_def lp_tags_def Let_def split: option.splits)

lemma handed_on_cong:
  "ds_face_table st' = ds_face_table st \<Longrightarrow> ds_face_states st' = ds_face_states st \<Longrightarrow>
     handed_on env st' ctx = handed_on env st ctx \<and> undecoded st' ctx = undecoded st ctx"
  by (simp add: handed_on_def undecoded_def nonlocal_face_def ingress_local_fields_def)

lemma process_lp_handed_on:
  assumes "undecoded st ctx" "process_lp env ctx st = (r, st')"
  shows "r = Inl (ActContinue ctx') \<Longrightarrow>
      handed_on env st ctx' \<and> ctx_face_id ctx' = ctx_face_id ctx \<and> ctx_arrival ctx' = ctx_arrival ctx"
    and "r = Inr ctx' \<Longrightarrow> undecoded st ctx' \<and> ctx_face_id ctx' = ctx_face_id ctx \<and> ctx_arrival ctx' = ctx_arrival ctx \<and>
      ds_face_table st' = ds_face_table st \<and> ds_face_states st' = ds_face_states st"
proof -
  have "(r = Inl (ActContinue ctx') \<longrightarrow>
      handed_on env st ctx' \<and> ctx_face_id ctx' = ctx_face_id ctx \<and> ctx_arrival ctx' = ctx_arrival ctx) \<and>
    (r = Inr ctx' \<longrightarrow> undecoded st ctx' \<and> ctx_face_id ctx' = ctx_face_id ctx \<and> ctx_arrival ctx' = ctx_arrival ctx \<and>
      ds_face_table st' = ds_face_table st \<and> ds_face_states st' = ds_face_states st)"
  proof (cases rule: process_lp_cases [of env ctx st])
    case (nack lp fragment header)
    obtain a s where n: "decode_nack env header fragment (lp_tags st lp ctx) st = (a, s)" by fastforce
    have r: "r = Inl a" using nack(4) assms(2) n by simp
    show ?thesis
    proof (intro conjI impI)
      assume "r = Inl (ActContinue ctx')"
      then show "handed_on env st ctx'" "ctx_face_id ctx' = ctx_face_id ctx" "ctx_arrival ctx' = ctx_arrival ctx"
        using decode_nack_handed_on [of env header fragment "lp_tags st lp ctx" st ctx' s lp]
          lp_tags_undecoded [OF assms(1)] nack(1-3) n r by auto
    qed (use r in simp_all)
  next
    case (reassembled lp fragment seq idx cnt packet rb')
    then show ?thesis using assms lp_tags_undecoded [OF assms(1), of lp] by (auto simp: undecoded_def)
  next
    case (single lp fragment)
    then show ?thesis using assms lp_tags_undecoded [OF assms(1), of lp] by (auto simp: undecoded_def)
  qed (use assms(2) in auto)
  then show "r = Inl (ActContinue ctx') \<Longrightarrow>
      handed_on env st ctx' \<and> ctx_face_id ctx' = ctx_face_id ctx \<and> ctx_arrival ctx' = ctx_arrival ctx"
    "r = Inr ctx' \<Longrightarrow> undecoded st ctx' \<and> ctx_face_id ctx' = ctx_face_id ctx \<and> ctx_arrival ctx' = ctx_arrival ctx \<and>
      ds_face_table st' = ds_face_table st \<and> ds_face_states st' = ds_face_states st"
    by auto
qed

lemma decode_process_handed_on:
  assumes "decode_process env ctx st = Some (ActContinue ctx', st')" "undecoded st ctx"
  shows "handed_on env st ctx' \<and> ctx_face_id ctx' = ctx_face_id ctx \<and> ctx_arrival ctx' = ctx_arrival ctx"
proof -
  define P where "P = (\<lambda>env ctx st (y :: action \<times> decode_stage). \<forall>ctx' st'. y = (ActContinue ctx', st') \<longrightarrow> undecoded st ctx \<longrightarrow>
    handed_on env st ctx' \<and> ctx_face_id ctx' = ctx_face_id ctx \<and> ctx_arrival ctx' = ctx_arrival ctx)"
  have "P env ctx st y" if "decode_process env ctx st = Some y" for y
  proof (rule decode_process.raw_induct [OF _ that], goal_cases)
    case (1 rec env ctx st y)
    show ?case
    proof (cases "ctx_raw_bytes ctx")
      case Nil
      then show ?thesis using 1(2) by (auto simp: P_def)
    next
      case (Cons b bs)
      show ?thesis
      proof (cases "is_lp_packet (ctx_raw_bytes ctx)")
        case True
        obtain r st1 where step: "process_lp env ctx st = (r, st1)" by fastforce
        show ?thesis
        proof (cases r)
          case (Inl a)
          then show ?thesis using 1(2) Cons True step process_lp_handed_on(1) [OF _ step]
            by (auto simp: P_def)
        next
          case (Inr ctx1)
          then have "rec env ctx1 st1 = Some y" using 1(2) Cons True step by simp
          from 1(1) [OF this] show ?thesis
            unfolding P_def using process_lp_handed_on(2) [OF _ step, of ctx1] Inr
              handed_on_cong [of st1 st env] by (metis (no_types, lifting))
        qed
      next
        case False
        then show ?thesis
          using 1(2) Cons decode_interest_handed_on [of env st ctx] decode_data_handed_on [of env st ctx]
          by (auto simp: P_def split: if_splits)
      qed
    qed
  qed
  then show ?thesis using assms by (auto simp: P_def)
qed

section \<open>Bare Interests\<close>

lemma interest_first_byte:
  assumes "interest_decode raw = Inr i" "length raw < 2 ^ 63"
  obtains bs where "raw = 0x05 # bs"
proof -
  from interest_decode_canonical [OF assms] obtain body rest where
    "raw = interest_wire (int_name i) body @ rest" by metis
  then show thesis by (intro that) (simp add: tlv_enc_def varu64_enc_def)
qed

definition interest_context :: "decode_env \<Rightarrow> interest \<Rightarrow> bytes \<Rightarrow> u64 \<Rightarrow> u64 \<Rightarrow> u64 \<Rightarrow> packet_context" where
  "interest_context env i raw fid arrival endpoint_id =
     (set_name (de_hasher env) (int_name i)
       ((packet_context_new raw fid arrival)\<lparr>ctx_endpoint_id := endpoint_id\<rparr>))\<lparr>ctx_packet := InterestPacket i\<rparr>"

text \<open>An Interest that needs no rewriting goes through the stage unchanged.\<close>

lemma decode_inbound_interest:
  assumes "interest_decode raw = Inr i" "length raw < 2 ^ 63" "int_hop_limit i = None"
    "ensure_nonce (de_next_nonce env) raw = raw"
  shows "decode_inbound env raw fid arrival ep st = Some (scoped_continue st (interest_context env i raw fid arrival ep), st)"
proof -
  from interest_first_byte [OF assms(1,2)] obtain bs where raw: "raw = 0x05 # bs" .
  then have "extract_fragment raw = None" "\<not> is_lp_packet raw"
    by (simp_all add: extract_fragment_def is_lp_packet_def)
  moreover have "ctx_raw_bytes ((packet_context_new raw fid arrival)\<lparr>ctx_endpoint_id := ep\<rparr>) = raw"
    by (simp add: packet_context_new_def)
  moreover have "decode_interest env st ((packet_context_new raw fid arrival)\<lparr>ctx_endpoint_id := ep\<rparr>) =
      Some (scoped_continue st (interest_context env i raw fid arrival ep))"
    using assms by (simp add: decode_interest_def interest_context_def Let_def packet_context_new_def)
  ultimately show ?thesis
    by (simp add: decode_inbound_def try_collect_fragment_def decode_resolved_def decode_process.simps raw)
qed

definition nonce_wire :: "name \<Rightarrow> u32 \<Rightarrow> bytes" where
  "nonce_wire n nonce = interest_wire n [(NONCE, to_be_bytes nonce)]"

lemma nonce_wire_decodes:
  assumes "length (nonce_wire n nonce) < 2 ^ 63" "name_ok n" "n \<noteq> []" "list_all (\<lambda>c. comp_typ c \<noteq> PARAMETERS_SHA256) n"
  shows "interest_decode (nonce_wire n nonce) = Inr \<lparr>int_raw = nonce_wire n nonce, int_name = n\<rparr>"
    and "int_hop_limit \<lparr>int_raw = nonce_wire n nonce, int_name = n\<rparr> = None"
    and "int_nonce \<lparr>int_raw = nonce_wire n nonce, int_name = n\<rparr> = Some nonce"
    and "ensure_nonce other (nonce_wire n nonce) = nonce_wire n nonce"
    and "int_lifetime \<lparr>int_raw = nonce_wire n nonce, int_name = n\<rparr> = None"
    and "int_app_parameters \<lparr>int_raw = nonce_wire n nonce, int_name = n\<rparr> = None"
    and "int_sig_info \<lparr>int_raw = nonce_wire n nonce, int_name = n\<rparr> = None"
    and "int_forwarding_hint \<lparr>int_raw = nonce_wire n nonce, int_name = n\<rparr> = None"
    and "int_selectors \<lparr>int_raw = nonce_wire n nonce, int_name = n\<rparr> = selector_default"
proof -
  let ?es = "[(NAME, elems_enc (name_elems n)), (NONCE, to_be_bytes nonce)]"
  have raw: "nonce_wire n nonce = tlv_enc INTEREST (elems_enc ?es) @ []" by (simp add: nonce_wire_def)
  have no: "filter (\<lambda>c. comp_typ c = PARAMETERS_SHA256) n = []" using assms(4) by (simp add: filter_empty_conv list_all_iff)
  show "interest_decode (nonce_wire n nonce) = Inr \<lparr>int_raw = nonce_wire n nonce, int_name = n\<rparr>"
    using interest_decode_elems [of n "[(NONCE, to_be_bytes nonce)]" "[]"] assms no
    by (simp add: nonce_wire_def interest_body_step_def interest_elem_index_def validate_psdc_structure_def)
  have es: "types_ok ?es" by (simp add: types_ok_def)
  define i where "i = \<lparr>int_raw = nonce_wire n nonce, int_name = n\<rparr>"
  have "int_raw i = tlv_enc INTEREST (elems_enc ?es) @ []" "length (int_raw i) < 2 ^ 63"
    using raw assms(1) by (simp_all add: i_def)
  note f = interest_fields [OF this(1) es this(2)]
  have "int_hop_limit i = None" "int_nonce i = Some nonce" "int_lifetime i = None" "int_app_parameters i = None"
    "int_sig_info i = None" "int_forwarding_hint i = None" "int_selectors i = selector_default"
    by (simp_all add: f selector_default_def from_to_be_bytes)
  then show "int_hop_limit \<lparr>int_raw = nonce_wire n nonce, int_name = n\<rparr> = None"
    "int_nonce \<lparr>int_raw = nonce_wire n nonce, int_name = n\<rparr> = Some nonce"
    "int_lifetime \<lparr>int_raw = nonce_wire n nonce, int_name = n\<rparr> = None"
    "int_app_parameters \<lparr>int_raw = nonce_wire n nonce, int_name = n\<rparr> = None"
    "int_sig_info \<lparr>int_raw = nonce_wire n nonce, int_name = n\<rparr> = None"
    "int_forwarding_hint \<lparr>int_raw = nonce_wire n nonce, int_name = n\<rparr> = None"
    "int_selectors \<lparr>int_raw = nonce_wire n nonce, int_name = n\<rparr> = selector_default"
    by (simp_all add: i_def)
  show "ensure_nonce other (nonce_wire n nonce) = nonce_wire n nonce"
    using ensure_nonce_elems [of n "[(NONCE, to_be_bytes nonce)]" "[]" other] assms(1)
    by (simp add: nonce_wire_def types_ok_def)
qed

section \<open>The stage as a whole\<close>

definition start_context :: "bytes \<Rightarrow> u64 \<Rightarrow> u64 \<Rightarrow> u64 \<Rightarrow> packet_context" where
  "start_context raw fid arrival ep = (packet_context_new raw fid arrival)\<lparr>ctx_endpoint_id := ep\<rparr>"

definition collected :: "bytes + bytes option \<Rightarrow> bytes option" where
  "collected r = (case r of Inl raw \<Rightarrow> Some raw | Inr out \<Rightarrow> out)"

lemma decode_inbound_collected:
  "decode_inbound env raw fid arrival ep st = (case try_collect_fragment (de_now env) fid ep raw (ds_reassembly st) of
     (r, table) \<Rightarrow> (case collected r of
         None \<Rightarrow> Some (ActDrop FragmentCollect, st\<lparr>ds_reassembly := table\<rparr>)
       | Some packet \<Rightarrow> decode_process env (start_context packet fid arrival ep) (st\<lparr>ds_reassembly := table\<rparr>)))"
  by (simp add: decode_inbound_def decode_resolved_def start_context_def collected_def split: prod.split sum.split option.split)

lemma collect_buffers:
  assumes "buffers_ok table" "try_collect_fragment now fid ep raw table = (r, table')"
  shows "buffers_ok table'" "case_option 0 length (collected r) + buffered table' \<le> length raw + buffered table"
proof -
  have "buffers_ok table' \<and> case_option 0 length (collected r) + buffered table' \<le> length raw + buffered table"
  proof (cases "extract_fragment raw")
    case None
    then show ?thesis using assms by (auto simp: try_collect_fragment_def collected_def)
  next
    case (Some hdr)
    let ?frag = "take (fh_frag_end hdr - fh_frag_start hdr) (drop (fh_frag_start hdr) raw)"
    let ?rb = "case map_of table fid of Some rb \<Rightarrow> rb | None \<Rightarrow> reassembly_new DEFAULT_REASSEMBLY_TIMEOUT"
    show ?thesis
    proof (cases "checked_sub (fh_sequence hdr) (fh_frag_index hdr)")
      case None
      then show ?thesis using assms Some by (auto simp: try_collect_fragment_def collected_def)
    next
      case base: (Some b)
      obtain out rb' where p: "process now ep b (fh_frag_index hdr) (fh_frag_count hdr) ?frag ?rb = (out, rb')" by fastforce
      then have "r = Inr out" "table' = AList.update fid rb' table"
        using assms(2) Some base by (auto simp: try_collect_fragment_def Let_def)
      then show ?thesis using buffered_process [OF assms(1) p] by (auto simp: collected_def)
    qed
  qed
  then show "buffers_ok table'" "case_option 0 length (collected r) + buffered table' \<le> length raw + buffered table" by auto
qed

definition sample_env :: decode_env where
  "sample_env = \<lparr>de_hasher = \<lparr>hash_component = \<lambda>c. word_of_nat (length (comp_val c)), hash_token = \<lambda>h d. if d = Classical then h else h + 1\<rparr>,
     de_sha256 = \<lambda>_. replicate 32 7, de_next_nonce = 9, de_now = 0\<rparr>"

definition sample_stage :: decode_stage where
  "sample_stage = decode_stage_new [(1, \<lparr>fc_kind = Udp, fc_scope = NonLocal, fc_link_type = PointToPoint, fc_remote_uri = None\<rparr>)] []"

lemma sample_stage_ok: "buffers_ok (ds_reassembly sample_stage)" "buffered (ds_reassembly sample_stage) = 0"
  by (simp_all add: sample_stage_def decode_stage_new_def buffers_ok_def buffered_def table_sum_def)

text \<open>C9.
  The decode stage returns on every input, however link packets are nested and fragments interleaved,
  and keeps its reassembly buffers well-formed; the one exception is an innermost Interest with a
  HopLimit and further bytes behind it. Every turn of the mutual recursion of \<open>process\<close> and
  \<open>process_lp\<close> uses up bytes that arrived or were buffered.\<close>

theorem decode_inbound_returns:
  assumes "buffers_ok (ds_reassembly st)" "length raw + buffered (ds_reassembly st) < 2 ^ 62"
  shows "(\<exists>a st'. decode_inbound env raw fid arrival ep st = Some (a, st') \<and> buffers_ok (ds_reassembly st')) \<or>
    (\<exists>packet. collected (fst (try_collect_fragment (de_now env) fid ep raw (ds_reassembly st))) = Some packet \<and>
      stuck_packet env (start_context packet fid arrival ep)
        (st\<lparr>ds_reassembly := snd (try_collect_fragment (de_now env) fid ep raw (ds_reassembly st))\<rparr>))"
proof -
  obtain r table where c: "try_collect_fragment (de_now env) fid ep raw (ds_reassembly st) = (r, table)" by fastforce
  note b = collect_buffers [OF assms(1) c]
  let ?st = "st\<lparr>ds_reassembly := table\<rparr>"
  show ?thesis
  proof (cases "collected r")
    case None
    then show ?thesis using b(1) by (simp add: decode_inbound_collected c)
  next
    case (Some packet)
    let ?ctx = "start_context packet fid arrival ep"
    have raw: "ctx_raw_bytes ?ctx = packet" by (simp add: start_context_def packet_context_new_def)
    show ?thesis
    proof (cases "decode_process env ?ctx ?st")
      case None
      have "length (ctx_raw_bytes ?ctx) + buffered (ds_reassembly ?st) < 2 ^ 62"
        using b(2) Some assms(2) by (simp add: raw)
      then have "stuck_packet env ?ctx ?st" by (intro decode_process_returns [OF _ _ None]) (use b(1) in simp_all)
      then show ?thesis using Some by (auto simp: c)
    next
      case (Some y)
      then show ?thesis
        using \<open>collected r = Some packet\<close> decode_process_buffers [of env ?ctx ?st] b(1)
        by (cases y) (auto simp: decode_inbound_collected c)
    qed
  qed
qed

theorem decode_inbound_returns_witness:
  "\<exists>a st'. decode_inbound sample_env [] 1 0 0 sample_stage = Some (a, st') \<and> buffers_ok (ds_reassembly st')"
proof -
  have "\<not> stuck_packet sample_env ctx st" if "ctx_raw_bytes ctx = []" for ctx st
  proof
    assume "stuck_packet sample_env ctx st"
    then obtain ctx' st' where u: "unwraps sample_env ctx st ctx' st'" "trailing_interest (ctx_raw_bytes ctx')"
      by (auto simp: stuck_packet_def)
    from u(1) have "ctx' = ctx" using that by cases (auto simp: is_lp_packet_def)
    then show False using u(2) that by (auto simp: trailing_interest_def reader_new_def as_bytes_def dest: interest_first_byte)
  qed
  moreover have "try_collect_fragment 0 1 0 [] (ds_reassembly sample_stage) = (Inl [], ds_reassembly sample_stage)"
    by (simp add: try_collect_fragment_def extract_fragment_def is_lp_packet_def)
  ultimately show ?thesis
    using decode_inbound_returns [OF sample_stage_ok(1), of "[]" sample_env 1 0 0] sample_stage_ok(2)
    by (auto simp: sample_env_def collected_def start_context_def packet_context_new_def)
qed

text \<open>C7.
  What the decode stage hands on is decoded from the bytes it carries, under the packet's own name, on
  the face it came from; a name under /localhost never comes from a non-local face, and a next hop
  chosen by the sender is only accepted from a face that has local fields enabled.\<close>

theorem decode_inbound_handed_on:
  assumes "decode_inbound env raw fid arrival ep st = Some (ActContinue ctx, st')"
  shows "handed_on env st ctx \<and> ctx_face_id ctx = fid \<and> ctx_arrival ctx = arrival"
proof -
  obtain r table where c: "try_collect_fragment (de_now env) fid ep raw (ds_reassembly st) = (r, table)" by fastforce
  let ?st = "st\<lparr>ds_reassembly := table\<rparr>"
  obtain packet where "decode_process env (start_context packet fid arrival ep) ?st = Some (ActContinue ctx, st')"
    using assms by (auto simp: decode_inbound_collected c split: option.splits)
  moreover have "undecoded ?st (start_context packet fid arrival ep)"
    by (simp add: undecoded_def start_context_def packet_context_new_def tags_new_def)
  ultimately have "handed_on env ?st ctx \<and> ctx_face_id ctx = fid \<and> ctx_arrival ctx = arrival"
    using decode_process_handed_on by (fastforce simp: start_context_def packet_context_new_def)
  then show ?thesis using handed_on_cong [of ?st st env ctx] by simp
qed

definition sample_name :: name where
  "sample_name = [NameComponent 8 [0x61], NameComponent 8 [0x62]]"

lemma sample_wire:
  "length (nonce_wire sample_name 7) < 2 ^ 63" "name_ok sample_name" "sample_name \<noteq> []"
  "list_all (\<lambda>c. comp_typ c \<noteq> PARAMETERS_SHA256) sample_name"
  by (simp_all add: nonce_wire_def sample_name_def name_ok_def name_elems_def wire_length)

lemma sample_inbound:
  "decode_inbound sample_env (nonce_wire sample_name 7) 1 5 0 sample_stage =
     Some (ActContinue (interest_context sample_env \<lparr>int_raw = nonce_wire sample_name 7, int_name = sample_name\<rparr>
       (nonce_wire sample_name 7) 1 5 0), sample_stage)"
proof -
  note w = nonce_wire_decodes [OF sample_wire]
  have "\<not> is_localhost_name sample_name" by (simp add: is_localhost_name_def sample_name_def ascii_def)
  then have "scoped_continue sample_stage (interest_context sample_env \<lparr>int_raw = nonce_wire sample_name 7, int_name = sample_name\<rparr>
       (nonce_wire sample_name 7) 1 5 0) = ActContinue (interest_context sample_env \<lparr>int_raw = nonce_wire sample_name 7, int_name = sample_name\<rparr>
       (nonce_wire sample_name 7) 1 5 0)"
    unfolding scoped_continue_iff by (simp add: interest_context_def)
  then show ?thesis
    using decode_inbound_interest [OF w(1) sample_wire(1) w(2) w(4), where st = sample_stage and env = sample_env] by simp
qed

theorem decode_inbound_handed_on_witness:
  "handed_on sample_env sample_stage (interest_context sample_env \<lparr>int_raw = nonce_wire sample_name 7, int_name = sample_name\<rparr>
       (nonce_wire sample_name 7) 1 5 0)"
  using decode_inbound_handed_on [OF sample_inbound] by simp

text \<open>C15.
  The exception of the return theorem is real. These thirty bytes on any face, an accepted Interest
  with a HopLimit and fourteen bytes behind it, keep the decode stage busy for ever.\<close>

theorem decode_stage_hangs: "decode_inbound env trailing_wire fid arrival ep st = None"
proof -
  obtain i where i: "interest_decode trailing_wire = Inr i" "int_hop_limit i = Some 5" "decrement_hop_limit trailing_wire = None"
    using decrement_hop_limit_diverges by blast
  have len: "length trailing_wire = 30" by (simp add: trailing_wire_def trailing_body_def)
  obtain bs where raw: "trailing_wire = 0x05 # bs" by (simp add: trailing_wire_def)
  have "ensure_nonce x trailing_wire = trailing_wire" for x
    using ensure_nonce_elems [of "[NameComponent 8 [0x61]]" "[(NONCE, [0, 0, 0, 1]), (HOP_LIMIT, [5])]" trailing_body x] len
    unfolding trailing_wire_elems [symmetric] by (simp add: types_ok_def)
  then have "decode_interest env st (start_context trailing_wire fid arrival ep) = None" for st
    using i by (simp add: decode_interest_def start_context_def packet_context_new_def Let_def)
  moreover have "try_collect_fragment (de_now env) fid ep trailing_wire (ds_reassembly st) = (Inl trailing_wire, ds_reassembly st)"
    by (simp add: try_collect_fragment_def extract_fragment_def is_lp_packet_def raw)
  moreover have "ctx_raw_bytes (start_context trailing_wire fid arrival ep) = 0x05 # bs"
    by (simp add: start_context_def packet_context_new_def raw)
  ultimately show ?thesis
    by (simp add: decode_inbound_collected collected_def decode_process.simps is_lp_packet_def)
qed

end
