(* ===== verification/Ndn_Strategy.thy ===== *)
theory Ndn_Strategy
  imports Engine_Pipeline
begin

text \<open>
  The forwarding strategies (\<open>src/crates/forwarding/ndn-strategy/src/\<close>): the context a strategy reads,
  the actions it returns, and the strategies themselves. Best-route, multicast, broadcast and
  self-learning read only the FIB entry and the PIT entry's suppression state. The measured and the
  congestion-aware strategy rank next hops by a score over floating-point signals: the score is an
  argument. The locale \<open>split_horizon\<close> is the contract that the strategy stage relies on.
\<close>

section \<open>Contexts and actions\<close>

text \<open>\<open>sc_env\<close> stands for the measurements, the signals and the extension map.\<close>

record 'x strategy_context =
  sc_name :: name
  sc_in_face :: u64
  sc_fib_entry :: "fib_entry option"
  sc_pit_token :: "u64 option"
  sc_tried_faces :: "u64 list"
  sc_suppressed_faces :: "u64 list"
  sc_entry_retx_suppressed :: bool
  sc_env :: 'x

datatype forwarding_action = Forward "u64 list" | ForwardAfter "u64 list" u64 | FwdNack fwd_nack_reason
  | Suppress | Broadcast

definition nexthops_excluding_any :: "fib_entry \<Rightarrow> u64 \<Rightarrow> u64 list \<Rightarrow> fib_nexthop list" where
  "nexthops_excluding_any e exclude tried =
     filter (\<lambda>n. face_id n \<noteq> exclude \<and> face_id n \<notin> set tried) (nexthops e)"

text \<open>The trait, by the methods the engine calls. The default of \<open>decide\<close> is \<open>None\<close> and of \<open>on_nack\<close> \<open>Suppress\<close>.\<close>

record 'x strategy =
  str_name :: name
  str_decide :: "'x strategy_context \<Rightarrow> forwarding_action list option"
  str_after_receive_interest :: "'x strategy_context \<Rightarrow> forwarding_action list"
  str_on_nack :: "'x strategy_context \<Rightarrow> fwd_nack_reason \<Rightarrow> forwarding_action"

definition default_on_nack :: "'x strategy_context \<Rightarrow> fwd_nack_reason \<Rightarrow> forwarding_action" where
  "default_on_nack ctx reason = Suppress"

text \<open>How the stage asks a strategy: the fast path, then the full decision.\<close>

definition strategy_actions :: "'x strategy \<Rightarrow> 'x strategy_context \<Rightarrow> forwarding_action list" where
  "strategy_actions S ctx = (case str_decide S ctx of Some a \<Rightarrow> a | None \<Rightarrow> str_after_receive_interest S ctx)"

definition strategy_name :: "string \<Rightarrow> u64 \<Rightarrow> name" where
  "strategy_name short v = append_version
     [generic (ascii ''localhost''), generic (ascii ''nfd''), generic (ascii ''strategy''), generic (ascii short)] v"

section \<open>The strategies\<close>

definition best_route_decide :: "'x strategy_context \<Rightarrow> forwarding_action list option" where
  "best_route_decide ctx = (case sc_fib_entry ctx of
     None \<Rightarrow> Some [FwdNack FwdNoRoute]
   | Some fib \<Rightarrow>
       if sc_entry_retx_suppressed ctx then Some []
       else let
         untried = nexthops_excluding_any fib (sc_in_face ctx) (sc_tried_faces ctx);
         nexthops = (if untried = [] then nexthops_excluding fib (sc_in_face ctx) else untried)
       in case nexthops of
         nh # _ \<Rightarrow> Some [Forward [face_id nh]]
       | [] \<Rightarrow> Some [FwdNack FwdNoRoute])"

definition best_route_on_nack :: "'x strategy_context \<Rightarrow> fwd_nack_reason \<Rightarrow> forwarding_action" where
  "best_route_on_nack ctx reason = (case sc_fib_entry ctx of
     None \<Rightarrow> FwdNack reason
   | Some fib \<Rightarrow> (case nexthops_excluding_any fib (sc_in_face ctx) (sc_tried_faces ctx) of
       nh # _ \<Rightarrow> Forward [face_id nh]
     | [] \<Rightarrow> FwdNack reason))"

definition best_route :: "'x strategy" where
  "best_route = \<lparr>str_name = strategy_name ''best-route'' 5, str_decide = best_route_decide,
     str_after_receive_interest = \<lambda>ctx. the (best_route_decide ctx), str_on_nack = best_route_on_nack\<rparr>"

definition multicast_decide :: "'x strategy_context \<Rightarrow> forwarding_action list option" where
  "multicast_decide ctx = (case sc_fib_entry ctx of
     None \<Rightarrow> Some [FwdNack FwdNoRoute]
   | Some fib \<Rightarrow> (let candidates = map face_id (nexthops_excluding fib (sc_in_face ctx)) in
       if candidates = [] then Some [FwdNack FwdNoRoute]
       else let faces = filter (\<lambda>f. f \<notin> set (sc_suppressed_faces ctx)) candidates in
       if faces = [] then Some [] else Some [Forward faces]))"

definition multicast :: "'x strategy" where
  "multicast = \<lparr>str_name = strategy_name ''multicast'' 5, str_decide = multicast_decide,
     str_after_receive_interest = \<lambda>ctx. the (multicast_decide ctx), str_on_nack = default_on_nack\<rparr>"

definition broadcast_decide :: "'x strategy_context \<Rightarrow> forwarding_action list option" where
  "broadcast_decide ctx = (case sc_fib_entry ctx of
     None \<Rightarrow> Some [FwdNack FwdNoRoute]
   | Some fib \<Rightarrow> (let faces = map face_id (nexthops fib) in
       if faces = [] then Some [FwdNack FwdNoRoute] else Some [Forward faces]))"

definition broadcast :: "'x strategy" where
  "broadcast = \<lparr>str_name = strategy_name ''broadcast'' 1, str_decide = broadcast_decide,
     str_after_receive_interest = \<lambda>ctx. the (broadcast_decide ctx), str_on_nack = default_on_nack\<rparr>"

definition self_learning_decide :: "'x strategy_context \<Rightarrow> forwarding_action list option" where
  "self_learning_decide ctx = (let
     faces = (case sc_fib_entry ctx of
         Some fib \<Rightarrow> map face_id (nexthops_excluding fib (sc_in_face ctx)) | None \<Rightarrow> [])
   in if faces = [] then Some [Broadcast] else Some [Forward faces])"

definition self_learning :: "'x strategy" where
  "self_learning = \<lparr>str_name = strategy_name ''self-learning'' 1, str_decide = self_learning_decide,
     str_after_receive_interest = \<lambda>ctx. the (self_learning_decide ctx), str_on_nack = default_on_nack\<rparr>"

text \<open>The measured strategy, for a \<open>score\<close> (lower is better).\<close>

definition ranked :: "('x strategy_context \<Rightarrow> u64 \<Rightarrow> u32 \<Rightarrow> int) \<Rightarrow> 'x strategy_context \<Rightarrow> u64 list" where
  "ranked score ctx = (case sc_fib_entry ctx of
     None \<Rightarrow> []
   | Some fib \<Rightarrow> map snd (sort_key fst
       (map (\<lambda>nh. (score ctx (face_id nh) (cost nh), face_id nh)) (nexthops_excluding fib (sc_in_face ctx)))))"

definition measured_decide ::
  "('x strategy_context \<Rightarrow> u64 \<Rightarrow> u32 \<Rightarrow> int) \<Rightarrow> 'x strategy_context \<Rightarrow> forwarding_action list option" where
  "measured_decide score ctx = (if sc_fib_entry ctx = None then Some [FwdNack FwdNoRoute]
     else case ranked score ctx of
       fid # _ \<Rightarrow> Some [Forward [fid]]
     | [] \<Rightarrow> Some [FwdNack FwdNoRoute])"

definition measured_on_nack ::
  "('x strategy_context \<Rightarrow> u64 \<Rightarrow> u32 \<Rightarrow> int) \<Rightarrow> 'x strategy_context \<Rightarrow> fwd_nack_reason \<Rightarrow> forwarding_action" where
  "measured_on_nack score ctx reason = (case ranked score ctx of
     fid # _ \<Rightarrow> Forward [fid]
   | [] \<Rightarrow> FwdNack reason)"

definition measured :: "('x strategy_context \<Rightarrow> u64 \<Rightarrow> u32 \<Rightarrow> int) \<Rightarrow> 'x strategy" where
  "measured score = \<lparr>str_name = strategy_name ''measured'' 1, str_decide = measured_decide score,
     str_after_receive_interest = \<lambda>ctx. the (measured_decide score ctx), str_on_nack = measured_on_nack score\<rparr>"

text \<open>The congestion-aware strategy. Its round-robin cursor is an argument and a result of \<open>pick\<close>.\<close>

definition scatter :: "u64 \<Rightarrow> u64" where
  "scatter z = (let
     z = (z XOR drop_bit 30 z) * 0xbf58476d1ce4e5b9;
     z = (z XOR drop_bit 27 z) * 0x94d049bb133111eb
   in z XOR drop_bit 31 z)"

definition weighted :: "('x strategy_context \<Rightarrow> u64 \<Rightarrow> u32 \<Rightarrow> int) \<Rightarrow> 'x strategy_context \<Rightarrow> (u64 \<times> nat) list" where
  "weighted score ctx = (case sc_fib_entry ctx of
     None \<Rightarrow> []
   | Some fib \<Rightarrow> (let
       scored = map (\<lambda>nh. (face_id nh, score ctx (face_id nh) (cost nh)))
         (nexthops_excluding_any fib (sc_in_face ctx) (sc_tried_faces ctx))
     in if scored = [] then [] else let m = Min (set (map snd scored)) in
       map (\<lambda>(f, s). (f, max (1000 div (1 + nat (s - m))) 1)) scored))"

fun pick_at :: "nat \<Rightarrow> nat \<Rightarrow> (u64 \<times> nat) list \<Rightarrow> u64 option" where
  "pick_at pos acc [] = None"
| "pick_at pos acc ((f, w) # cands) = (if pos < acc + w then Some f else pick_at pos (acc + w) cands)"

definition pick :: "('x strategy_context \<Rightarrow> u64 \<Rightarrow> u32 \<Rightarrow> int) \<Rightarrow> 'x strategy_context \<Rightarrow> u64 \<Rightarrow> u64 option \<times> u64" where
  "pick score ctx cursor = (let cands = weighted score ctx in case cands of
     [] \<Rightarrow> (None, cursor)
   | [(f, _)] \<Rightarrow> (Some f, cursor)
   | _ \<Rightarrow> (let
       tot = sum_list (map snd cands);
       pos = unat (scatter cursor) mod tot
     in (case pick_at pos 0 cands of
           Some f \<Rightarrow> Some f
         | None \<Rightarrow> Some (fst (last cands)), cursor + 1)))"

definition best :: "('x strategy_context \<Rightarrow> u64 \<Rightarrow> u32 \<Rightarrow> int) \<Rightarrow> 'x strategy_context \<Rightarrow> u64 option" where
  "best score ctx = (case sort_key (\<lambda>(_, w). - int w) (weighted score ctx) of
     (f, _) # _ \<Rightarrow> Some f | [] \<Rightarrow> None)"

definition congestion_aware_decide ::
  "('x strategy_context \<Rightarrow> u64 \<Rightarrow> u32 \<Rightarrow> int) \<Rightarrow> 'x strategy_context \<Rightarrow> u64 \<Rightarrow> forwarding_action list option \<times> u64" where
  "congestion_aware_decide score ctx cursor = (if sc_fib_entry ctx = None then (Some [FwdNack FwdNoRoute], cursor)
     else case pick score ctx cursor of
       (Some fid, cursor) \<Rightarrow> (Some [Forward [fid]], cursor)
     | (None, cursor) \<Rightarrow> (Some [FwdNack FwdNoRoute], cursor))"

definition congestion_aware_on_nack ::
  "('x strategy_context \<Rightarrow> u64 \<Rightarrow> u32 \<Rightarrow> int) \<Rightarrow> 'x strategy_context \<Rightarrow> fwd_nack_reason \<Rightarrow> forwarding_action" where
  "congestion_aware_on_nack score ctx reason = (case best score ctx of
     Some fid \<Rightarrow> Forward [fid]
   | None \<Rightarrow> FwdNack reason)"

text \<open>The strategy installed with a given cursor value.\<close>

definition congestion_aware :: "('x strategy_context \<Rightarrow> u64 \<Rightarrow> u32 \<Rightarrow> int) \<Rightarrow> u64 \<Rightarrow> 'x strategy" where
  "congestion_aware score cursor = \<lparr>str_name = strategy_name ''congestion-aware'' 1,
     str_decide = \<lambda>ctx. fst (congestion_aware_decide score ctx cursor),
     str_after_receive_interest = \<lambda>ctx. case fst (congestion_aware_decide score ctx cursor) of Some a \<Rightarrow> a | None \<Rightarrow> [],
     str_on_nack = congestion_aware_on_nack score\<rparr>"

section \<open>The RSSI filter\<close>

text \<open>\<open>rssi\<close> reads the signal of a link.\<close>

definition rssi_filter_action :: "(u64 \<Rightarrow> int option) \<Rightarrow> int \<Rightarrow> forwarding_action \<Rightarrow> forwarding_action option" where
  "rssi_filter_action rssi min_rssi_dbm a = (case a of
     Forward faces \<Rightarrow> (let
       filtered = filter (\<lambda>f. case rssi f of Some r \<Rightarrow> r \<ge> min_rssi_dbm | None \<Rightarrow> True) faces
     in if filtered = [] then None else Some (Forward filtered))
   | other \<Rightarrow> Some other)"

definition rssi_filter :: "(u64 \<Rightarrow> int option) \<Rightarrow> int \<Rightarrow> forwarding_action list \<Rightarrow> forwarding_action list" where
  "rssi_filter rssi min_rssi_dbm actions = List.map_filter (rssi_filter_action rssi min_rssi_dbm) actions"

section \<open>Registry\<close>

record 'x strategy_entry =
  se_name :: bytes
  se_version :: u64
  se_build :: "'x strategy"

definition create_by_name :: "'x strategy_entry list \<Rightarrow> bytes \<Rightarrow> 'x strategy option" where
  "create_by_name registered short_name = map_option se_build (List.find (\<lambda>e. se_name e = short_name) registered)"

definition create_by_name_version :: "'x strategy_entry list \<Rightarrow> bytes \<Rightarrow> u64 \<Rightarrow> 'x strategy option" where
  "create_by_name_version registered short_name v =
     map_option se_build (List.find (\<lambda>e. se_name e = short_name \<and> se_version e = v) registered)"

section \<open>What the strategies promise\<close>

definition fib_faces :: "'x strategy_context \<Rightarrow> u64 set" where
  "fib_faces ctx = (case sc_fib_entry ctx of Some fib \<Rightarrow> face_id ` set (nexthops fib) | None \<Rightarrow> {})"

text \<open>Split horizon: a strategy forwards to next hops of the FIB entry other than the face the packet came in on.\<close>

locale split_horizon =
  fixes S :: "'x strategy"
  assumes decide_faces: "str_decide S ctx = Some acts \<Longrightarrow> Forward fs \<in> set acts \<Longrightarrow> f \<in> set fs \<Longrightarrow>
      f \<in> fib_faces ctx \<and> f \<noteq> sc_in_face ctx"
    and receive_faces: "Forward fs \<in> set (str_after_receive_interest S ctx) \<Longrightarrow> f \<in> set fs \<Longrightarrow>
      f \<in> fib_faces ctx \<and> f \<noteq> sc_in_face ctx"
    and nack_faces: "str_on_nack S ctx r = Forward fs \<Longrightarrow> f \<in> set fs \<Longrightarrow> f \<in> fib_faces ctx \<and> f \<noteq> sc_in_face ctx"
begin

lemma actions_faces: "Forward fs \<in> set (strategy_actions S ctx) \<Longrightarrow> f \<in> set fs \<Longrightarrow> f \<in> fib_faces ctx \<and> f \<noteq> sc_in_face ctx"
  unfolding strategy_actions_def using decide_faces receive_faces by (auto split: option.splits)

end

lemma nexthops_excluding_sets:
  "set (nexthops_excluding e x) = {n \<in> set (nexthops e). face_id n \<noteq> x}"
  "set (nexthops_excluding_any e x tried) = {n \<in> set (nexthops e). face_id n \<noteq> x \<and> face_id n \<notin> set tried}"
  by (auto simp: nexthops_excluding_def nexthops_excluding_any_def)

lemma first_nexthop:
  "nexthops_excluding e x = nh # ns \<Longrightarrow> nh \<in> set (nexthops e) \<and> face_id nh \<noteq> x"
  "nexthops_excluding_any e x tried = nh # ns \<Longrightarrow> nh \<in> set (nexthops e) \<and> face_id nh \<noteq> x \<and> face_id nh \<notin> set tried"
  using nexthops_excluding_sets by (metis (mono_tags, lifting) list.set_intros(1) mem_Collect_eq)+

lemma best_route_decide_faces:
  "best_route_decide ctx = Some acts \<Longrightarrow> Forward fs \<in> set acts \<Longrightarrow> f \<in> set fs \<Longrightarrow> f \<in> fib_faces ctx \<and> f \<noteq> sc_in_face ctx"
  by (auto simp: best_route_decide_def fib_faces_def Let_def dest!: first_nexthop split: option.splits if_splits list.splits)

interpretation best_route: split_horizon best_route
proof
  show "f \<in> fib_faces ctx \<and> f \<noteq> sc_in_face ctx" if "str_decide best_route ctx = Some acts" "Forward fs \<in> set acts" "f \<in> set fs"
    for ctx :: "'x strategy_context" and acts fs f
    using that best_route_decide_faces by (auto simp: best_route_def)
  show "f \<in> fib_faces ctx \<and> f \<noteq> sc_in_face ctx" if "Forward fs \<in> set (str_after_receive_interest best_route ctx)" "f \<in> set fs"
    for ctx :: "'x strategy_context" and fs f
  proof -
    have "best_route_decide ctx = Some (the (best_route_decide ctx))"
      by (auto simp: best_route_decide_def Let_def split: option.splits list.splits)
    then show ?thesis using that best_route_decide_faces by (simp add: best_route_def)
  qed
  show "f \<in> fib_faces ctx \<and> f \<noteq> sc_in_face ctx" if "str_on_nack best_route ctx r = Forward fs" "f \<in> set fs"
    for ctx :: "'x strategy_context" and r fs f
    using that by (auto simp: best_route_def best_route_on_nack_def fib_faces_def dest!: first_nexthop split: option.splits list.splits)
qed

interpretation multicast: split_horizon multicast
  by unfold_locales (auto simp: multicast_def multicast_decide_def default_on_nack_def fib_faces_def Let_def
    nexthops_excluding_sets split: option.splits if_splits)

interpretation self_learning: split_horizon self_learning
  by unfold_locales (auto simp: self_learning_def self_learning_decide_def default_on_nack_def fib_faces_def Let_def
    nexthops_excluding_sets split: option.splits if_splits)

lemma ranked_faces: "set (ranked score ctx) = fib_faces ctx - {sc_in_face ctx}"
  by (auto simp: ranked_def fib_faces_def nexthops_excluding_sets image_iff split: option.splits)

lemma ranked_hd: "ranked score ctx = f # fs \<Longrightarrow> f \<in> fib_faces ctx \<and> f \<noteq> sc_in_face ctx"
  using ranked_faces [of score ctx] by auto

interpretation measured: split_horizon "measured score" for score :: "'x strategy_context \<Rightarrow> u64 \<Rightarrow> u32 \<Rightarrow> int"
  by unfold_locales (auto simp: measured_def measured_decide_def measured_on_nack_def dest!: ranked_hd split: list.splits if_splits)

lemma weighted_map: "map fst (weighted score ctx) = (case sc_fib_entry ctx of
    None \<Rightarrow> [] | Some fib \<Rightarrow> map face_id (nexthops_excluding_any fib (sc_in_face ctx) (sc_tried_faces ctx)))"
  by (simp add: weighted_def Let_def case_prod_unfold o_def split: option.split)

lemma weighted_faces: "fst ` set (weighted score ctx) = fib_faces ctx - {sc_in_face ctx} - set (sc_tried_faces ctx)"
proof -
  have "fst ` set (weighted score ctx) = set (map fst (weighted score ctx))" by simp
  then show ?thesis
    unfolding weighted_map by (auto simp: fib_faces_def nexthops_excluding_sets split: option.split)
qed

lemma weighted_mem: "(f, w) \<in> set (weighted score ctx) \<Longrightarrow> f \<in> fib_faces ctx \<and> f \<noteq> sc_in_face ctx \<and> f \<notin> set (sc_tried_faces ctx)"
  using weighted_faces [of score ctx] by (metis DiffE fst_conv image_eqI singletonI)

lemma pick_at_mem: "pick_at pos acc cands = Some f \<Longrightarrow> \<exists>w. (f, w) \<in> set cands"
  by (induction pos acc cands rule: pick_at.induct) (auto split: if_splits)

lemma pick_mem:
  assumes "pick score ctx cursor = (Some f, c)"
  shows "\<exists>w. (f, w) \<in> set (weighted score ctx)"
proof (cases "weighted score ctx" rule: remdups_adj.cases)
  case (3 x y cs)
  have "last (x # y # cs) \<in> set (weighted score ctx)" unfolding 3 by (rule last_in_set) simp
  then have last: "\<exists>w. (fst (last (weighted score ctx)), w) \<in> set (weighted score ctx)" by (metis 3 prod.collapse)
  show ?thesis
  proof (cases "pick_at (unat (scatter cursor) mod sum_list (map snd (weighted score ctx))) 0 (weighted score ctx)")
    case None
    then have "f = fst (last (weighted score ctx))" using assms unfolding pick_def Let_def 3 by (cases x) simp
    then show ?thesis using last by simp
  next
    case (Some g)
    then have "f = g" using assms unfolding pick_def Let_def 3 by (cases x) simp
    then show ?thesis using pick_at_mem Some by blast
  qed
qed (use assms in \<open>auto simp: pick_def\<close>)

lemma best_mem: "best score ctx = Some f \<Longrightarrow> \<exists>w. (f, w) \<in> set (weighted score ctx)"
  by (auto simp: best_def split: list.splits) (metis list.set_intros(1) set_sort)

interpretation congestion_aware: split_horizon "congestion_aware score cursor"
  for score :: "'x strategy_context \<Rightarrow> u64 \<Rightarrow> u32 \<Rightarrow> int" and cursor
  by unfold_locales (auto simp: congestion_aware_def congestion_aware_decide_def congestion_aware_on_nack_def
    dest!: pick_mem best_mem dest: weighted_mem split: prod.splits option.splits if_splits)

section \<open>Choosing a next hop\<close>

lemma fib_lpm_sorted:
  assumes "fib_step\<^sup>*\<^sup>* fib_new fib" "fib_lpm fib n = Some e"
  shows "sorted (map cost (nexthops e))"
proof -
  obtain p where "fib_get fib p = Some e"
    using assms(2) fibtrie.lpm_longest [of "fib_trie fib" n e] by (auto simp: fib_lpm_def fib_get_def fibtrie_get_eq)
  then show ?thesis using fib_reachable_wf [OF assms(1)] by (auto simp: fib_wf_def)
qed

lemma first_is_cheapest:
  assumes "sorted (map cost hs)" "filter P hs = nh # ns"
  shows "\<forall>h \<in> set hs. P h \<longrightarrow> cost nh \<le> cost h"
proof -
  have "sorted (map cost (filter P hs))" using assms(1) by (rule sorted_filter)
  then have "\<forall>h \<in> set (filter P hs). cost nh \<le> cost h" by (simp add: assms(2))
  then show ?thesis by simp
qed

definition usable :: "'x strategy_context \<Rightarrow> fib_entry \<Rightarrow> fib_nexthop set" where
  "usable ctx e = {h \<in> set (nexthops e). face_id h \<noteq> sc_in_face ctx}"

definition untried :: "'x strategy_context \<Rightarrow> fib_entry \<Rightarrow> fib_nexthop set" where
  "untried ctx e = {h \<in> usable ctx e. face_id h \<notin> set (sc_tried_faces ctx)}"

lemma excluding_empty:
  "nexthops_excluding e (sc_in_face ctx) = [] \<longleftrightarrow> usable ctx e = {}"
  "nexthops_excluding_any e (sc_in_face ctx) (sc_tried_faces ctx) = [] \<longleftrightarrow> untried ctx e = {}"
  by (auto simp: nexthops_excluding_def nexthops_excluding_any_def usable_def untried_def filter_empty_conv)

lemma excluding_first:
  assumes "sorted (map cost (nexthops e))"
  shows "nexthops_excluding e (sc_in_face ctx) = nh # ns \<Longrightarrow> nh \<in> usable ctx e \<and> (\<forall>h \<in> usable ctx e. cost nh \<le> cost h)"
    "nexthops_excluding_any e (sc_in_face ctx) (sc_tried_faces ctx) = nh # ns \<Longrightarrow>
       nh \<in> untried ctx e \<and> (\<forall>h \<in> untried ctx e. cost nh \<le> cost h)"
proof -
  assume *: "nexthops_excluding e (sc_in_face ctx) = nh # ns"
  show "nh \<in> usable ctx e \<and> (\<forall>h \<in> usable ctx e. cost nh \<le> cost h)"
    using first_nexthop(1) [OF *] first_is_cheapest [OF assms * [unfolded nexthops_excluding_def]] by (simp add: usable_def)
next
  assume *: "nexthops_excluding_any e (sc_in_face ctx) (sc_tried_faces ctx) = nh # ns"
  show "nh \<in> untried ctx e \<and> (\<forall>h \<in> untried ctx e. cost nh \<le> cost h)"
    using first_nexthop(2) [OF *] first_is_cheapest [OF assms * [unfolded nexthops_excluding_any_def]]
    by (simp add: usable_def untried_def)
qed

section \<open>Properties\<close>

text \<open>C33. Best route over a FIB reached by any sequence of route updates: unless the PIT entry is inside
  its suppression window, the strategy forwards to exactly one next hop, never the face the Interest
  came in on, of lowest cost among the next hops not tried yet for this Interest, or of lowest cost
  among all usable ones once each has been tried; it answers with a NoRoute Nack exactly when there
  is no usable next hop.\<close>

theorem best_route_forwards_cheapest:
  assumes "fib_step\<^sup>*\<^sup>* fib_new fib" "sc_fib_entry ctx = fib_lpm fib n" "\<not> sc_entry_retx_suppressed ctx"
  shows "(case fib_lpm fib n of
      None \<Rightarrow> strategy_actions best_route ctx = [FwdNack FwdNoRoute]
    | Some e \<Rightarrow> (let choice = (if untried ctx e = {} then usable ctx e else untried ctx e) in
        if choice = {} then strategy_actions best_route ctx = [FwdNack FwdNoRoute]
        else \<exists>h \<in> choice. strategy_actions best_route ctx = [Forward [face_id h]] \<and> (\<forall>h' \<in> choice. cost h \<le> cost h')))"
proof (cases "fib_lpm fib n")
  case None
  then show ?thesis using assms by (simp add: strategy_actions_def best_route_def best_route_decide_def)
next
  case (Some e)
  note sorted = fib_lpm_sorted [OF assms(1) Some]
  show ?thesis
  proof (cases "nexthops_excluding_any e (sc_in_face ctx) (sc_tried_faces ctx)")
    case Nil
    then have none: "untried ctx e = {}" by (simp add: excluding_empty)
    show ?thesis
    proof (cases "nexthops_excluding e (sc_in_face ctx)")
      case (Cons nh ns)
      from excluding_first(1) [OF sorted Cons] show ?thesis
        using assms(2,3) by (auto simp: Some Nil none Cons Let_def strategy_actions_def best_route_def best_route_decide_def)
    qed (use assms(2,3) excluding_empty(1) [of e ctx] in
      \<open>simp add: Some Nil none strategy_actions_def best_route_def best_route_decide_def\<close>)
  next
    case (Cons nh ns)
    note first = excluding_first(2) [OF sorted Cons]
    then have some: "untried ctx e \<noteq> {}" by blast
    have "strategy_actions best_route ctx = [Forward [face_id nh]]"
      using assms(2,3) by (simp add: Some Cons strategy_actions_def best_route_def best_route_decide_def)
    then show ?thesis using first by (simp add: Some some Let_def) blast
  qed
qed

definition two_hop_fib :: fib where
  "two_hop_fib = add_nexthop (add_nexthop fib_new [generic [97]] 1 20) [generic [97]] 2 10"

definition two_hop_context :: "unit strategy_context" where
  "two_hop_context = \<lparr>sc_name = [generic [97]], sc_in_face = 9, sc_fib_entry = fib_lpm two_hop_fib [generic [97]],
     sc_pit_token = None, sc_tried_faces = [1, 2], sc_suppressed_faces = [], sc_entry_retx_suppressed = False, sc_env = ()\<rparr>"

lemma two_hop_reachable: "fib_step\<^sup>*\<^sup>* fib_new two_hop_fib"
  unfolding two_hop_fib_def by (meson rtranclp.rtrancl_into_rtrancl rtranclp.rtrancl_refl step_add_nexthop)

lemma two_hop_lpm: "fib_lpm two_hop_fib [generic [97]] =
    Some \<lparr>nexthops = [\<lparr>face_id = 2, cost = 10\<rparr>, \<lparr>face_id = 1, cost = 20\<rparr>]\<rparr>"
  by (simp add: two_hop_fib_def fib_lpm_def fibtrie_lpm_def fibtrie_lpm_with_depth_def add_nexthop_def fib_new_def)

theorem best_route_forwards_cheapest_witness:
  "strategy_actions best_route two_hop_context = [Forward [2]]"
proof -
  have c: "sc_fib_entry two_hop_context = fib_lpm two_hop_fib [generic [97]]" "\<not> sc_entry_retx_suppressed two_hop_context"
    by (simp_all add: two_hop_context_def)
  note * = best_route_forwards_cheapest [OF two_hop_reachable c]
  have "untried two_hop_context \<lparr>nexthops = [\<lparr>face_id = 2, cost = 10\<rparr>, \<lparr>face_id = 1, cost = 20\<rparr>]\<rparr> = {}"
    "usable two_hop_context \<lparr>nexthops = [\<lparr>face_id = 2, cost = 10\<rparr>, \<lparr>face_id = 1, cost = 20\<rparr>]\<rparr> = {\<lparr>face_id = 2, cost = 10\<rparr>, \<lparr>face_id = 1, cost = 20\<rparr>}"
    by (auto simp: untried_def usable_def two_hop_context_def)
  with * show ?thesis by (auto simp: two_hop_lpm)
qed

definition static_score :: "unit strategy_context \<Rightarrow> u64 \<Rightarrow> u32 \<Rightarrow> int" where
  "static_score ctx fid c = uint c"

end
