(* ===== verification/Replay_Guard.thy ===== *)
theory Replay_Guard
  imports Ndn_Meta Table_Laws
begin

text \<open>
  The signed-Interest replay guard of ndn-security
  (\<open>src/crates/security/ndn-security/src/replay_guard.rs\<close>): per signer key a bounded window of the
  SignatureInfo fields that were admitted, optional monotonic floors, and a bound on the number of
  keys with least-recently-used eviction. The map of keys is an association list and the tick
  counter a wrapping \<open>u64\<close>. The lemmas show that the window of a key is the last admitted records,
  when an admitted SignatureInfo is refused again, that memory is bounded, and two weaknesses of
  the scheme.
\<close>

section \<open>Definitions\<close>

definition from_locator :: "key_locator option \<Rightarrow> bytes" where
  "from_locator locator = (case locator of
     None \<Rightarrow> []
   | Some (KlName n) \<Rightarrow> foldl (\<lambda>buf c. buf @ to_be_bytes (comp_typ c) @ [0xFF] @ comp_val c @ [0xFF]) [] n
   | Some (KlKeyDigest b) \<Rightarrow> b)"

record nonce_record =
  nr_sig_nonce :: "bytes option"
  nr_sig_time :: "u64 option"
  nr_sig_seq_num :: "u64 option"

definition from_sig_info :: "signature_info \<Rightarrow> nonce_record option" where
  "from_sig_info si =
     (if si_sig_nonce si = None \<and> si_sig_time si = None \<and> si_sig_seq_num si = None then None
      else Some \<lparr>nr_sig_nonce = si_sig_nonce si, nr_sig_time = si_sig_time si, nr_sig_seq_num = si_sig_seq_num si\<rparr>)"

text \<open>One \<open>if let (Some(a), Some(b))\<close> block: a mismatch returns false, an agreement is remembered.\<close>

definition compare_field :: "'a option \<Rightarrow> 'a option \<Rightarrow> bool \<Rightarrow> bool option" where
  "compare_field x y compared_any = (case (x, y) of
     (Some a, Some b) \<Rightarrow> if a \<noteq> b then None else Some True
   | _ \<Rightarrow> Some compared_any)"

definition record_matches :: "nonce_record \<Rightarrow> signature_info \<Rightarrow> bool" where
  "record_matches r si = (case compare_field (nr_sig_nonce r) (si_sig_nonce si) False of
     None \<Rightarrow> False
   | Some c \<Rightarrow> (case compare_field (nr_sig_time r) (si_sig_time si) c of
       None \<Rightarrow> False
     | Some c \<Rightarrow> (case compare_field (nr_sig_seq_num r) (si_sig_seq_num si) c of
         None \<Rightarrow> False
       | Some c \<Rightarrow> c)))"

record key_state =
  ks_records :: "nonce_record list"
  ks_max_seq :: "u64 option"
  ks_max_time :: "u64 option"
  ks_last_seen :: u64

definition key_state_new :: key_state where
  "key_state_new = \<lparr>ks_records = [], ks_max_seq = None, ks_max_time = None, ks_last_seen = 0\<rparr>"

datatype replay_check = Fresh | Replay | NoAntiReplayFields

record replay_guard =
  rg_keys :: "(bytes \<times> key_state) list"
  rg_per_key_capacity :: nat
  rg_max_keys :: nat
  rg_tick :: u64
  rg_monotonic :: bool

definition guard_with_capacities :: "nat \<Rightarrow> nat \<Rightarrow> bool \<Rightarrow> replay_guard" where
  "guard_with_capacities per_key_capacity max_keys monotonic = \<lparr>rg_keys = [],
     rg_per_key_capacity = max per_key_capacity 1, rg_max_keys = max max_keys 1, rg_tick = 0,
     rg_monotonic = monotonic\<rparr>"

definition below_floor :: "u64 option \<Rightarrow> u64 option \<Rightarrow> bool" where
  "below_floor floor field = (case (floor, field) of (Some prev, Some now) \<Rightarrow> now \<le> prev | _ \<Rightarrow> False)"

definition raise_floor :: "u64 option \<Rightarrow> u64 option \<Rightarrow> u64 option" where
  "raise_floor floor field = (case field of
     Some t \<Rightarrow> Some (case floor of None \<Rightarrow> t | Some p \<Rightarrow> max p t)
   | None \<Rightarrow> floor)"

definition check_state :: "nat \<Rightarrow> bool \<Rightarrow> signature_info \<Rightarrow> nonce_record \<Rightarrow> key_state \<Rightarrow> key_state \<times> replay_check" where
  "check_state per_key_capacity monotonic si record st =
     (if monotonic \<and> below_floor (ks_max_seq st) (si_sig_seq_num si) then (st, Replay)
      else if monotonic \<and> below_floor (ks_max_time st) (si_sig_time si) then (st, Replay)
      else if list_ex (\<lambda>r. record_matches r si) (ks_records st) then (st, Replay)
      else (let
        st = (if length (ks_records st) \<ge> per_key_capacity then st\<lparr>ks_records := tl (ks_records st)\<rparr> else st);
        st = st\<lparr>ks_max_time := raise_floor (ks_max_time st) (nr_sig_time record)\<rparr>;
        st = st\<lparr>ks_max_seq := raise_floor (ks_max_seq st) (nr_sig_seq_num record)\<rparr>
      in (st\<lparr>ks_records := ks_records st @ [record]\<rparr>, Fresh)))"

definition enforce_key_cap :: "replay_guard \<Rightarrow> replay_guard" where
  "enforce_key_cap g = (let len = length (rg_keys g) in
     if len \<le> rg_max_keys g then g
     else (let
       target = rg_max_keys g - rg_max_keys g div 10;
       to_remove = len - target;
       by_age = sort_key fst (map (\<lambda>(fp, st). (ks_last_seen st, fp)) (rg_keys g))
     in g\<lparr>rg_keys := foldl (\<lambda>ks (_, fp). AList.delete fp ks) (rg_keys g) (take to_remove by_age)\<rparr>))"

definition guard_check :: "signature_info \<Rightarrow> replay_guard \<Rightarrow> replay_guard \<times> replay_check" where
  "guard_check si g = (case from_sig_info si of
     None \<Rightarrow> (g, NoAntiReplayFields)
   | Some record \<Rightarrow> (let
       fp = from_locator (si_key_locator si);
       now_tick = rg_tick g;
       g = g\<lparr>rg_tick := rg_tick g + 1\<rparr>;
       st = (case map_of (rg_keys g) fp of Some st \<Rightarrow> st | None \<Rightarrow> key_state_new);
       st = st\<lparr>ks_last_seen := now_tick\<rparr>;
       (st, result) = check_state (rg_per_key_capacity g) (rg_monotonic g) si record st;
       g = g\<lparr>rg_keys := AList.update fp st (rg_keys g)\<rparr>
     in (if length (rg_keys g) > rg_max_keys g then enforce_key_cap g else g, result)))"

definition forget_all :: "replay_guard \<Rightarrow> replay_guard" where
  "forget_all g = g\<lparr>rg_keys := []\<rparr>"

section \<open>Matching\<close>

lemma record_matches_self:
  "from_sig_info si = Some r \<Longrightarrow> record_matches r si"
  by (auto simp: from_sig_info_def record_matches_def compare_field_def split: if_splits option.splits)

text \<open>The replay rule of the module documentation: the fields present in both agree, and there is one.\<close>

lemma record_matches_iff:
  "record_matches r si \<longleftrightarrow>
     (\<forall>a b. nr_sig_nonce r = Some a \<longrightarrow> si_sig_nonce si = Some b \<longrightarrow> a = b) \<and>
     (\<forall>a b. nr_sig_time r = Some a \<longrightarrow> si_sig_time si = Some b \<longrightarrow> a = b) \<and>
     (\<forall>a b. nr_sig_seq_num r = Some a \<longrightarrow> si_sig_seq_num si = Some b \<longrightarrow> a = b) \<and>
     (nr_sig_nonce r \<noteq> None \<and> si_sig_nonce si \<noteq> None \<or> nr_sig_time r \<noteq> None \<and> si_sig_time si \<noteq> None \<or>
      nr_sig_seq_num r \<noteq> None \<and> si_sig_seq_num si \<noteq> None)"
  by (cases "nr_sig_nonce r"; cases "si_sig_nonce si"; cases "nr_sig_time r"; cases "si_sig_time si";
      cases "nr_sig_seq_num r"; cases "si_sig_seq_num si")
    (simp_all add: record_matches_def compare_field_def)

section \<open>Invariant\<close>

definition guard_ok :: "replay_guard \<Rightarrow> bool" where
  "guard_ok g \<longleftrightarrow> distinct (map fst (rg_keys g)) \<and> 1 \<le> rg_per_key_capacity g \<and> 1 \<le> rg_max_keys g \<and>
     length (rg_keys g) \<le> rg_max_keys g \<and>
     (\<forall>st \<in> snd ` set (rg_keys g). length (ks_records st) \<le> rg_per_key_capacity g)"

lemma guard_new_ok: "guard_ok (guard_with_capacities c m mn)"
  by (simp add: guard_ok_def guard_with_capacities_def)

lemma check_state_records:
  assumes "check_state cap mn si r st = (st', res)" "1 \<le> cap" "length (ks_records st) \<le> cap"
  shows "length (ks_records st') \<le> cap"
  using assms by (auto simp: check_state_def Let_def split: if_splits)

lemma enforce_key_cap_ok:
  assumes "distinct (map fst (rg_keys g))" "1 \<le> rg_max_keys g"
  shows "length (rg_keys (enforce_key_cap g)) \<le> rg_max_keys g" "set (rg_keys (enforce_key_cap g)) \<subseteq> set (rg_keys g)"
    "distinct (map fst (rg_keys (enforce_key_cap g)))" "rg_max_keys (enforce_key_cap g) = rg_max_keys g"
    "rg_per_key_capacity (enforce_key_cap g) = rg_per_key_capacity g" "rg_monotonic (enforce_key_cap g) = rg_monotonic g"
proof -
  show "length (rg_keys (enforce_key_cap g)) \<le> rg_max_keys g"
    using length_evicted [OF assms(1), of "length (rg_keys g) - (rg_max_keys g - rg_max_keys g div 10)" ks_last_seen]
    by (simp add: enforce_key_cap_def Let_def)
  show "set (rg_keys (enforce_key_cap g)) \<subseteq> set (rg_keys g)"
    by (auto simp: enforce_key_cap_def Let_def foldl_delete_keys)
  show "distinct (map fst (rg_keys (enforce_key_cap g)))"
    using assms(1) by (auto simp: enforce_key_cap_def Let_def foldl_delete_keys intro: distinct_map_filter)
qed (simp_all add: enforce_key_cap_def Let_def)

lemma guard_check_ok:
  assumes "guard_ok g"
  shows "guard_ok (fst (guard_check si g))"
    and "rg_per_key_capacity (fst (guard_check si g)) = rg_per_key_capacity g"
    and "rg_max_keys (fst (guard_check si g)) = rg_max_keys g"
    and "rg_monotonic (fst (guard_check si g)) = rg_monotonic g"
proof -
  have "guard_ok (fst (guard_check si g)) \<and> rg_per_key_capacity (fst (guard_check si g)) = rg_per_key_capacity g \<and>
     rg_max_keys (fst (guard_check si g)) = rg_max_keys g \<and> rg_monotonic (fst (guard_check si g)) = rg_monotonic g"
  proof (cases "from_sig_info si")
    case None
    then show ?thesis using assms by (simp add: guard_check_def)
  next
    case (Some r)
    let ?fp = "from_locator (si_key_locator si)"
    let ?st = "(case map_of (rg_keys g) ?fp of Some st \<Rightarrow> st | None \<Rightarrow> key_state_new)\<lparr>ks_last_seen := rg_tick g\<rparr>"
    obtain st res where cs: "check_state (rg_per_key_capacity g) (rg_monotonic g) si r ?st = (st, res)" by fastforce
    let ?g = "g\<lparr>rg_tick := rg_tick g + 1, rg_keys := AList.update ?fp st (rg_keys g)\<rparr>"
    have g': "fst (guard_check si g) = (if length (rg_keys ?g) > rg_max_keys ?g then enforce_key_cap ?g else ?g)"
      using cs by (simp add: guard_check_def Some Let_def)
    have inv: "distinct (map fst (rg_keys g))" "1 \<le> rg_per_key_capacity g" "1 \<le> rg_max_keys g"
        "\<forall>st \<in> snd ` set (rg_keys g). length (ks_records st) \<le> rg_per_key_capacity g"
      using assms by (simp_all add: guard_ok_def)
    have "length (ks_records ?st) \<le> rg_per_key_capacity g"
      using inv(4) map_of_snd [of "rg_keys g" ?fp] by (cases "map_of (rg_keys g) ?fp") (auto simp: key_state_new_def)
    from check_state_records [OF cs inv(2) this] have st: "length (ks_records st) \<le> rg_per_key_capacity g" .
    have d: "distinct (map fst (rg_keys ?g))" using inv(1) by (simp add: distinct_update)
    have recs: "\<forall>st \<in> snd ` set (rg_keys ?g). length (ks_records st) \<le> rg_per_key_capacity g"
    proof
      fix x assume "x \<in> snd ` set (rg_keys ?g)"
      then have "x \<in> snd ` set (AList.update ?fp st (rg_keys g))" by simp
      then have "x \<in> insert st (snd ` set (rg_keys g))" by (rule subsetD [OF snd_set_update])
      then show "length (ks_records x) \<le> rg_per_key_capacity g" using inv(4) st by auto
    qed
    note cap = enforce_key_cap_ok [OF d]
    show ?thesis
    proof (cases "length (rg_keys ?g) > rg_max_keys ?g")
      case True
      have sub: "snd ` set (rg_keys (enforce_key_cap ?g)) \<subseteq> snd ` set (rg_keys ?g)"
        using cap(2) inv(3) by (intro image_mono) simp
      then have "\<forall>st \<in> snd ` set (rg_keys (enforce_key_cap ?g)). length (ks_records st) \<le> rg_per_key_capacity g"
        using recs by blast
      then show ?thesis using True cap inv(2,3) unfolding g' by (simp add: guard_ok_def)
    next
      case False
      then show ?thesis using d recs inv(2,3) unfolding g' by (simp add: guard_ok_def)
    qed
  qed
  then show "guard_ok (fst (guard_check si g))" "rg_per_key_capacity (fst (guard_check si g)) = rg_per_key_capacity g"
     "rg_max_keys (fst (guard_check si g)) = rg_max_keys g" "rg_monotonic (fst (guard_check si g)) = rg_monotonic g"
    by simp_all
qed

section \<open>Admission\<close>

definition fp_of :: "signature_info \<Rightarrow> bytes" where
  "fp_of si = from_locator (si_key_locator si)"

definition key_of :: "replay_guard \<Rightarrow> bytes \<Rightarrow> key_state" where
  "key_of g fp = (case map_of (rg_keys g) fp of Some st \<Rightarrow> st | None \<Rightarrow> key_state_new)"

text \<open>What a check does to the state of its own key and of the others, when no key is evicted.\<close>

lemma guard_check_key:
  assumes "from_sig_info si = Some r" "length (AList.update (fp_of si) undefined (rg_keys g)) \<le> rg_max_keys g"
    and "check_state (rg_per_key_capacity g) (rg_monotonic g) si r ((key_of g (fp_of si))\<lparr>ks_last_seen := rg_tick g\<rparr>) = (st, res)"
  shows "snd (guard_check si g) = res"
    and "rg_keys (fst (guard_check si g)) = AList.update (fp_of si) st (rg_keys g)"
proof -
  have "length (AList.update (fp_of si) st (rg_keys g)) = length (AList.update (fp_of si) undefined (rg_keys g))"
    by (metis length_map update_keys)
  then show "snd (guard_check si g) = res" "rg_keys (fst (guard_check si g)) = AList.update (fp_of si) st (rg_keys g)"
    using assms by (simp_all add: guard_check_def Let_def fp_of_def key_of_def)
qed

text \<open>A record stays in the window while fewer than the capacity minus its distance are admitted.\<close>

definition within :: "nat \<Rightarrow> signature_info \<Rightarrow> key_state \<Rightarrow> bool" where
  "within n si st \<longleftrightarrow> (\<exists>pre r post. ks_records st = pre @ r # post \<and> record_matches r si \<and> length post \<le> n)"

lemma check_state_within:
  assumes "within n si st" "check_state cap mn si' r st = (st', res)" "n + 1 < cap"
  shows "within (n + 1) si st'"
proof -
  obtain pre q post where w: "ks_records st = pre @ q # post" "record_matches q si" "length post \<le> n"
    using assms(1) by (auto simp: within_def)
  show ?thesis
  proof (cases "ks_records st' = ks_records st")
    case True
    then show ?thesis using w unfolding within_def by (metis le_add1 le_trans)
  next
    case False
    then have st': "ks_records st' = (if length (ks_records st) \<ge> cap then tl (ks_records st) else ks_records st) @ [r]"
      using assms(2) by (auto simp: check_state_def Let_def split: if_splits)
    have "\<exists>pre'. ks_records st' = pre' @ q # (post @ [r])"
    proof (cases "length (ks_records st) \<ge> cap")
      case True
      then have "pre \<noteq> []" using w(1,3) assms(3) by auto
      then show ?thesis using True st' w(1) by (intro exI [of _ "tl pre"]) (cases pre, auto)
    next
      case False
      then show ?thesis using st' w(1) by auto
    qed
    then show ?thesis using w(2,3) unfolding within_def by fastforce
  qed
qed

lemma within_replay:
  assumes "within n si st"
  shows "snd (check_state cap mn si r (st\<lparr>ks_last_seen := t\<rparr>)) = Replay"
proof -
  have "list_ex (\<lambda>r. record_matches r si) (ks_records st)"
    using assms by (auto simp: within_def list_ex_iff)
  then show ?thesis by (simp add: check_state_def)
qed

lemma check_state_fresh_within:
  assumes "check_state cap mn si r st = (st', Fresh)" "from_sig_info si = Some r"
  shows "within 0 si st'"
proof -
  have "\<exists>pre. ks_records st' = pre @ [r]"
    using assms(1) by (auto simp: check_state_def Let_def split: if_splits)
  then show ?thesis using record_matches_self [OF assms(2)] by (auto simp: within_def)
qed

lemma within_last_seen [simp]: "within n si (st\<lparr>ks_last_seen := t\<rparr>) = within n si st"
  by (simp add: within_def)

definition guard_run :: "signature_info list \<Rightarrow> replay_guard \<Rightarrow> replay_guard" where
  "guard_run sis g = foldl (\<lambda>g si. fst (guard_check si g)) g sis"

lemma length_update_card:
  assumes "distinct (map fst al)"
  shows "length (AList.update k v al) = card (insert k (fst ` set al))"
proof -
  have "distinct (map fst (AList.update k v al))" using assms by (rule distinct_update)
  then have "length (AList.update k v al) = card (fst ` set (AList.update k v al))"
    by (metis distinct_card length_map list.set_map)
  then show ?thesis by (simp add: dom_update)
qed

text \<open>The window of a key along a run in which the number of keys stays within its bound.\<close>

lemma guard_run_within:
  assumes "guard_ok g" "within n si (key_of g (fp_of si))"
    and "n + length (filter (\<lambda>s. fp_of s = fp_of si) sis) < rg_per_key_capacity g"
    and "card (fst ` set (rg_keys g) \<union> fp_of ` set sis) \<le> rg_max_keys g" "map_of (rg_keys g) (fp_of si) \<noteq> None"
  shows "within (n + length (filter (\<lambda>s. fp_of s = fp_of si) sis)) si (key_of (guard_run sis g) (fp_of si)) \<and>
    map_of (rg_keys (guard_run sis g)) (fp_of si) \<noteq> None \<and>
    fst ` set (rg_keys (guard_run sis g)) \<subseteq> fst ` set (rg_keys g) \<union> fp_of ` set sis \<and> guard_ok (guard_run sis g) \<and>
    rg_max_keys (guard_run sis g) = rg_max_keys g"
  using assms
proof (induction sis arbitrary: g n)
  case Nil
  then show ?case by (simp add: guard_run_def)
next
  case (Cons s sis)
  let ?g = "fst (guard_check s g)"
  note ok = guard_check_ok [OF Cons.prems(1), of s]
  have run: "guard_run (s # sis) g = guard_run sis ?g" by (simp add: guard_run_def)
  have fin: "finite (fst ` set (rg_keys g) \<union> fp_of ` set (s # sis))" by simp
  show ?case
  proof (cases "from_sig_info s")
    case None
    then have g: "?g = g" by (simp add: guard_check_def)
    have "card (fst ` set (rg_keys g) \<union> fp_of ` set sis) \<le> rg_max_keys g"
      by (rule le_trans [OF card_mono [OF fin] Cons.prems(4)]) auto
    from Cons.IH [OF Cons.prems(1,2) _ this Cons.prems(5)] Cons.prems(3)
    have ih: "within (n + length (filter (\<lambda>s. fp_of s = fp_of si) sis)) si (key_of (guard_run sis g) (fp_of si)) \<and>
      map_of (rg_keys (guard_run sis g)) (fp_of si) \<noteq> None \<and>
      fst ` set (rg_keys (guard_run sis g)) \<subseteq> fst ` set (rg_keys g) \<union> fp_of ` set sis \<and> guard_ok (guard_run sis g) \<and>
      rg_max_keys (guard_run sis g) = rg_max_keys g" by (auto split: if_splits)
    then show ?thesis unfolding run g by (auto simp: within_def) (metis le_SucI)+
  next
    case (Some r)
    let ?st = "(key_of g (fp_of s))\<lparr>ks_last_seen := rg_tick g\<rparr>"
    obtain st res where cs: "check_state (rg_per_key_capacity g) (rg_monotonic g) s r ?st = (st, res)" by fastforce
    have d: "distinct (map fst (rg_keys g))" using Cons.prems(1) by (simp add: guard_ok_def)
    have "length (AList.update (fp_of s) undefined (rg_keys g)) \<le> rg_max_keys g"
      unfolding length_update_card [OF d] by (rule le_trans [OF card_mono [OF fin] Cons.prems(4)]) auto
    note k = guard_check_key(2) [OF Some this cs]
    let ?n = "if fp_of s = fp_of si then n + 1 else n"
    have cap: "?n + length (filter (\<lambda>s. fp_of s = fp_of si) sis) < rg_per_key_capacity ?g"
      using Cons.prems(3) ok(2) by (auto split: if_splits)
    have win: "within ?n si (key_of ?g (fp_of si))"
    proof (cases "fp_of s = fp_of si")
      case True
      have "within (n + 1) si st"
        using check_state_within [OF _ cs, of n si] Cons.prems(2,3) True by simp
      then show ?thesis using True k by (simp add: key_of_def update_conv)
    next
      case False
      then show ?thesis using Cons.prems(2) k by (simp add: key_of_def update_conv)
    qed
    have keys: "fst ` set (rg_keys ?g) = insert (fp_of s) (fst ` set (rg_keys g))" using k by (simp add: dom_update)
    have "card (fst ` set (rg_keys ?g) \<union> fp_of ` set sis) \<le> rg_max_keys ?g"
      using Cons.prems(4) ok(3) keys by simp
    moreover have "map_of (rg_keys ?g) (fp_of si) \<noteq> None" using Cons.prems(5) k by (simp add: update_conv)
    ultimately show ?thesis
      using Cons.IH [OF ok(1) win cap] keys ok(3) unfolding run by (auto split: if_splits)
  qed
qed

text \<open>C22. An admitted SignatureInfo is not admitted again: after it was found fresh, the same
  SignatureInfo is refused as a replay as long as fewer checks than the window size went to its key
  and the number of keys seen stays within its bound, whatever else was checked in between.\<close>

theorem replay_refused:
  assumes "guard_ok g" "guard_check si g = (g1, Fresh)"
    and "length (filter (\<lambda>s. fp_of s = fp_of si) sis) < rg_per_key_capacity g"
    and "card (insert (fp_of si) (fst ` set (rg_keys g)) \<union> fp_of ` set sis) \<le> rg_max_keys g"
  shows "snd (guard_check si (guard_run sis g1)) = Replay"
proof -
  obtain r where r: "from_sig_info si = Some r"
    using assms(2) by (auto simp: guard_check_def split: option.splits)
  let ?st = "(key_of g (fp_of si))\<lparr>ks_last_seen := rg_tick g\<rparr>"
  obtain st res where cs: "check_state (rg_per_key_capacity g) (rg_monotonic g) si r ?st = (st, res)" by fastforce
  have fin: "finite (insert (fp_of si) (fst ` set (rg_keys g)) \<union> fp_of ` set sis)" by simp
  have d: "distinct (map fst (rg_keys g))" using assms(1) by (simp add: guard_ok_def)
  have "length (AList.update (fp_of si) undefined (rg_keys g)) \<le> rg_max_keys g"
    unfolding length_update_card [OF d] by (rule le_trans [OF card_mono [OF fin] assms(4)]) auto
  note k = guard_check_key [OF r this cs]
  have res: "res = Fresh" and keys: "rg_keys g1 = AList.update (fp_of si) st (rg_keys g)" using k assms(2) by simp_all
  have ok: "guard_ok g1" "rg_per_key_capacity g1 = rg_per_key_capacity g" "rg_max_keys g1 = rg_max_keys g"
    using guard_check_ok [OF assms(1), of si] assms(2) by simp_all
  have win: "within 0 si (key_of g1 (fp_of si))"
    using check_state_fresh_within [OF _ r] cs res keys by (simp add: key_of_def update_conv)
  have "card (fst ` set (rg_keys g1) \<union> fp_of ` set sis) \<le> rg_max_keys g1"
    using assms(4) ok(3) keys by (simp add: dom_update)
  from guard_run_within [OF ok(1) win _ this] assms(3) ok(2) keys
  have run: "within (length (filter (\<lambda>s. fp_of s = fp_of si) sis)) si (key_of (guard_run sis g1) (fp_of si))"
      "map_of (rg_keys (guard_run sis g1)) (fp_of si) \<noteq> None" "guard_ok (guard_run sis g1)"
    by (simp_all add: update_conv)
  let ?g = "guard_run sis g1"
  have "fp_of si \<in> fst ` set (rg_keys ?g)" using run(2) by (metis map_of_eq_None_iff)
  then have "length (AList.update (fp_of si) undefined (rg_keys ?g)) \<le> rg_max_keys ?g"
    using run(3) length_update_card [of "rg_keys ?g" "fp_of si" undefined]
    by (simp add: guard_ok_def insert_absorb) (metis distinct_card length_map list.set_map)
  moreover obtain st' res' where cs': "check_state (rg_per_key_capacity ?g) (rg_monotonic ?g) si r
      ((key_of ?g (fp_of si))\<lparr>ks_last_seen := rg_tick ?g\<rparr>) = (st', res')" by fastforce
  ultimately have "snd (guard_check si ?g) = res'" using guard_check_key(1) [OF r] by blast
  then show ?thesis using within_replay [OF run(1)] cs' by (metis snd_conv)
qed

definition sample_sig :: "bytes \<Rightarrow> bytes \<Rightarrow> signature_info" where
  "sample_sig key nonce = \<lparr>si_sig_type = SignatureEd25519, si_key_locator = Some (KlKeyDigest key),
     si_sig_nonce = Some nonce, si_sig_time = None, si_sig_seq_num = None\<rparr>"

theorem replay_refused_witness:
  "snd (guard_check (sample_sig [1] [7]) (guard_run [sample_sig [1] [8], sample_sig [2] [7]]
     (fst (guard_check (sample_sig [1] [7]) (guard_with_capacities 2 10 False))))) = Replay"
proof -
  let ?g = "guard_with_capacities 2 10 False"
  let ?si = "sample_sig [1] [7]"
  have "snd (guard_check ?si ?g) = Fresh"
    by (simp add: guard_check_def guard_with_capacities_def sample_sig_def from_sig_info_def check_state_def
        key_state_new_def Let_def)
  then have fresh: "guard_check ?si ?g = (fst (guard_check ?si ?g), Fresh)" by (metis prod.collapse)
  have fp: "fp_of (sample_sig k n) = k" for k n by (simp add: fp_of_def sample_sig_def from_locator_def)
  have "card ({[1], [2]} :: bytes set) \<le> 10" by simp
  then have "card (insert (fp_of ?si) (fst ` set (rg_keys ?g)) \<union> fp_of ` set [sample_sig [1] [8], sample_sig [2] [7]]) \<le> rg_max_keys ?g"
    by (simp add: fp guard_with_capacities_def insert_commute)
  moreover have "length (filter (\<lambda>s. fp_of s = fp_of ?si) [sample_sig [1] [8], sample_sig [2] [7]]) < rg_per_key_capacity ?g"
    by (simp add: fp guard_with_capacities_def)
  ultimately show ?thesis by (rule replay_refused [OF guard_new_ok fresh, rotated])
qed

section \<open>Weaknesses\<close>

text \<open>With monotonic floors one admitted record with the greatest time shuts the key out: every later
  record of the key that carries a time is refused. The guard runs before the signature is verified.\<close>

lemma floor_poisoned:
  assumes "check_state cap True evil r st = (st1, Fresh)" "from_sig_info evil = Some r" "si_sig_time evil = Some (- 1)"
    and "si_sig_time si = Some t"
  shows "snd (check_state cap True si r' (st1\<lparr>ks_last_seen := x\<rparr>)) = Replay"
proof -
  have "nr_sig_time r = Some (- 1)" using assms(2,3) by (auto simp: from_sig_info_def split: if_splits)
  then have "ks_max_time st1 = Some (- 1)"
    using assms(1) by (auto simp: check_state_def raise_floor_def Let_def max_def split: if_splits option.splits)
  then show ?thesis using assms(4) by (simp add: check_state_def below_floor_def)
qed

text \<open>A record that carries only a time makes a later record with another, fresh nonce and the same
  time a replay.\<close>

lemma time_alone_matches:
  "record_matches \<lparr>nr_sig_nonce = None, nr_sig_time = Some t, nr_sig_seq_num = None\<rparr>
     \<lparr>si_sig_type = st, si_key_locator = kl, si_sig_nonce = Some n, si_sig_time = Some t, si_sig_seq_num = s\<rparr>"
  by (simp add: record_matches_iff)

text \<open>A key name whose component contains the delimiter shares its state with another key name.\<close>

lemma fingerprint_collision:
  "from_locator (Some (KlName [NameComponent 8 [0x61], NameComponent 8 [0x62]])) =
   from_locator (Some (KlName [NameComponent 8 ([0x61, 0xFF, 0, 0, 0, 0, 0, 0, 0, 8, 0xFF, 0x62])]))"
  by (simp add: from_locator_def to_be_bytes_def)

end
