(* ===== verification/Pit_Stages.thy ===== *)
theory Pit_Stages
  imports Engine_Pipeline Replay_Guard
begin

text \<open>
  The PIT stages of the forwarding pipeline (\<open>src/crates/forwarding/ndn-engine/src/stages/pit.rs\<close>):
  \<open>PitCheckStage\<close>, which an Interest passes on its way up, and \<open>PitMatchStage\<close>, which finds the
  downstream faces of a Data packet. The verdict of the Interest validator is an argument. Trace spans
  and the fan-out instrumentation they feed are left out, except for the list that is collected for it.
\<close>

section \<open>Interest path\<close>

datatype interest_validation_outcome = Valid | Invalid | Pending

definition strip_digest_components :: "name \<Rightarrow> name" where
  "strip_digest_components n =
     (if n \<noteq> [] \<and> (comp_typ (last n) = PARAMETERS_SHA256 \<or> comp_typ (last n) = IMPLICIT_SHA256)
      then take (length n - 1) n else n)"

definition RETX_SUPPRESS_NS :: u64 where "RETX_SUPPRESS_NS = 10000000"

definition should_retx_reforward :: "pit_entry \<Rightarrow> u64 \<Rightarrow> bool" where
  "should_retx_reforward e now_ns = (case last_out e of
     Some sent_at \<Rightarrow> now_ns \<ge> saturating_add sent_at RETX_SUPPRESS_NS
   | None \<Rightarrow> False)"

definition check_persistent ::
  "(interest \<Rightarrow> interest_validation_outcome) option \<Rightarrow> packet_context \<Rightarrow> pit \<Rightarrow> (action + persistent_state option) \<times> pit" where
  "check_persistent validator ctx p = (case ctx_packet ctx of
     InterestPacket i \<Rightarrow> (case int_app_parameters i of
         None \<Rightarrow> (Inr None, p)
       | Some ap \<Rightarrow> (case find_in ap of
           None \<Rightarrow> (Inr None, p)
         | Some sub_req \<Rightarrow>
             if sr_version sub_req \<noteq> 1 \<or> sr_max_data_count sub_req = 0 \<or> sr_max_lifetime_secs sub_req = 0 \<or>
                sr_max_lifetime_secs sub_req > MAX_PERSISTENT_LIFETIME_SECS
             then (Inl (ActDrop InvalidPersistentRequest), p)
             else (case validator of
                 None \<Rightarrow> (Inr None, p)
               | Some v \<Rightarrow> (case v i of
                   Valid \<Rightarrow> (let
                     now = ctx_arrival ctx;
                     reap_at = now + ucast (sr_max_lifetime_secs sub_req) * 1000000000;
                     (p, data_count_remaining) = (case sr_subscription_id sub_req of
                         None \<Rightarrow> (p, sr_max_data_count sub_req)
                       | Some sid \<Rightarrow> (case take_orphan sid now p of
                           (p, Some orphan) \<Rightarrow> (p, os_data_count_remaining orphan)
                         | (p, None) \<Rightarrow> (p, sr_max_data_count sub_req)))
                   in (Inr (Some \<lparr>ps_data_count_remaining = data_count_remaining, ps_reap_at = reap_at,
                        ps_subscription_id = sr_subscription_id sub_req\<rparr>), p))
                 | _ \<Rightarrow> (Inr None, p)))))
   | _ \<Rightarrow> (Inr None, p))"

datatype check_result = Loop | Aggregated | Inserted | ReForward

text \<open>The closure for an existing entry.\<close>

definition on_existing_entry ::
  "bool \<Rightarrow> u64 \<Rightarrow> u32 \<Rightarrow> u64 \<Rightarrow> u64 \<Rightarrow> bytes option \<Rightarrow> selector \<Rightarrow> persistent_state option \<Rightarrow> pit_entry \<Rightarrow> pit_entry \<times> check_result" where
  "on_existing_entry is_p2p fid nonce now_ns lifetime_ms lp_token sel persistent e = (let
     same_face_retx = (is_p2p \<and> list_ex (\<lambda>r. ir_face_id r = fid \<and> ir_nonce r = nonce) (pe_in_records e))
   in if nonce \<in> set (pe_nonces_seen e) \<and> \<not> same_face_retx then (e\<lparr>pe_forward_cancelled := True\<rparr>, Loop)
   else let
     expires_at = now_ns + lifetime_ms * 1000000;
     e = (if persistent \<noteq> None then e\<lparr>pe_in_records := filter (\<lambda>r. ir_face_id r \<noteq> fid) (pe_in_records e)\<rparr> else e);
     e = add_in_record_with_persistent fid nonce expires_at lp_token sel persistent e;
     e = (case persistent of
         Some ps \<Rightarrow> if ps_reap_at ps > pe_expires_at e then e\<lparr>pe_expires_at := ps_reap_at ps\<rparr> else e
       | None \<Rightarrow> e)
   in if persistent \<noteq> None then (e\<lparr>pe_upstream_lost := False\<rparr>, ReForward)
      else if should_retx_reforward e now_ns then (e, ReForward)
      else (e, Aggregated))"

text \<open>The closure for a new entry.\<close>

definition new_entry ::
  "name \<Rightarrow> u64 \<Rightarrow> u32 \<Rightarrow> u64 \<Rightarrow> u64 \<Rightarrow> bytes option \<Rightarrow> selector \<Rightarrow> persistent_state option \<Rightarrow> pit_entry \<times> check_result" where
  "new_entry n fid nonce now_ns lifetime_ms lp_token sel persistent = (let
     e = pit_entry_new n now_ns lifetime_ms;
     e = (case persistent of
         Some ps \<Rightarrow> e\<lparr>pe_expires_at := ps_reap_at ps, pe_persistent := Some ps\<rparr>
       | None \<Rightarrow> e)
   in (add_in_record_with_persistent fid nonce (now_ns + lifetime_ms * 1000000) lp_token sel persistent e, Inserted))"

record pit_check_stage =
  pc_pit :: pit
  pc_face_table :: "(u64 \<times> face) list"
  pc_dnl :: "dead_nonce_list option"
  pc_guard :: "replay_guard option"

definition replay_rejected :: "interest \<Rightarrow> pit_check_stage \<Rightarrow> pit_check_stage \<times> bool" where
  "replay_rejected i st = (case pc_guard st of
     None \<Rightarrow> (st, False)
   | Some guard \<Rightarrow> (case int_sig_info i of
       None \<Rightarrow> (st, False)
     | Some si \<Rightarrow> (case guard_check si guard of
         (guard, r) \<Rightarrow> (st\<lparr>pc_guard := Some guard\<rparr>, r = Replay))))"

definition pit_key_name :: "interest \<Rightarrow> name" where
  "pit_key_name i = (let
     subscription_flavored = (case int_app_parameters i of Some ap \<Rightarrow> find_in ap \<noteq> None | None \<Rightarrow> False)
   in if subscription_flavored then strip_digest_components (int_name i) else int_name i)"

definition face_is_p2p :: "pit_check_stage \<Rightarrow> u64 \<Rightarrow> bool" where
  "face_is_p2p st fid = (case map_of (pc_face_table st) fid of
     Some f \<Rightarrow> fc_link_type f = PointToPoint | None \<Rightarrow> False)"

definition pit_check_process ::
  "hasher \<Rightarrow> (interest \<Rightarrow> interest_validation_outcome) option \<Rightarrow> packet_context \<Rightarrow> pit_check_stage \<Rightarrow> action \<times> pit_check_stage" where
  "pit_check_process H validator ctx st = (case ctx_packet ctx of
     InterestPacket i \<Rightarrow> (case replay_rejected i st of
         (st, True) \<Rightarrow> (ActDrop LoopDetected, st)
       | (st, False) \<Rightarrow> (case check_persistent validator ctx (pc_pit st) of
           (Inl a, p) \<Rightarrow> (a, st\<lparr>pc_pit := p\<rparr>)
         | (Inr persistent, p) \<Rightarrow> (let
             st = st\<lparr>pc_pit := p\<rparr>;
             now_ns = ctx_arrival ctx;
             lifetime_ms = (case int_lifetime i of Some ms \<Rightarrow> ms | None \<Rightarrow> 4000);
             nonce = (case int_nonce i of Some n \<Rightarrow> n | None \<Rightarrow> 0);
             name_hash = full_name_hash H (pit_key_name i);
             discriminator = (if persistent \<noteq> None then PersistentAttach else Classical);
             token = from_name_hash_keyed H name_hash (int_forwarding_hint i) discriminator;
             ctx = ctx\<lparr>ctx_pit_token := Some token\<rparr>;
             dead = (case pc_dnl st of
                 Some dnl \<Rightarrow> dnl_contains \<lparr>nf_name_hash = name_hash, nf_nonce = nonce\<rparr> now_ns dnl | None \<Rightarrow> False)
           in if dead then (ActDrop LoopDetected, st)
           else (case with_entry_or_insert token
                 (on_existing_entry (face_is_p2p st (ctx_face_id ctx)) (ctx_face_id ctx) nonce now_ns lifetime_ms
                    (ctx_lp_pit_token ctx) (int_selectors i) persistent)
                 (new_entry (int_name i) (ctx_face_id ctx) nonce now_ns lifetime_ms (ctx_lp_pit_token ctx)
                    (int_selectors i) persistent) (pc_pit st) of
               (p, r) \<Rightarrow> (case r of
                   Loop \<Rightarrow> ActDrop LoopDetected
                 | Aggregated \<Rightarrow> ActDrop Suppressed
                 | Inserted \<Rightarrow> ActContinue ctx
                 | ReForward \<Rightarrow> ActContinue ctx, st\<lparr>pc_pit := p\<rparr>)))))
   | _ \<Rightarrow> (ActContinue ctx, st))"

section \<open>Data path\<close>

definition insert_dead_nonces :: "hasher \<Rightarrow> pit_entry \<Rightarrow> u64 \<Rightarrow> dead_nonce_list option \<Rightarrow> dead_nonce_list option" where
  "insert_dead_nonces H e now dnl = (case dnl of
     None \<Rightarrow> None
   | Some d \<Rightarrow> (let
       key_name = (if pe_persistent e \<noteq> None then strip_digest_components (pe_name e) else pe_name e);
       name_hash = full_name_hash H key_name
     in Some (foldl (\<lambda>d nonce. dnl_insert \<lparr>nf_name_hash = name_hash, nf_nonce = nonce\<rparr> now d) d (pe_nonces_seen e))))"

text \<open>\<open>Vec::swap_remove\<close>: the last element takes the place of the removed one.\<close>

definition swap_remove :: "nat \<Rightarrow> 'a list \<Rightarrow> 'a list" where
  "swap_remove i xs = (butlast xs)[i := last xs]"

record match_acc =
  ma_faces :: "u64 list"
  ma_tokens :: "bytes option list"
  ma_seen :: "u64 list"
  ma_fan_out :: "(u64 \<times> bytes list) list"

definition add_face :: "u64 \<Rightarrow> bytes option \<Rightarrow> match_acc \<Rightarrow> match_acc" where
  "add_face fid tok acc =
     (if fid \<in> set (ma_seen acc) then acc
      else acc\<lparr>ma_seen := ma_seen acc @ [fid], ma_faces := ma_faces acc @ [fid], ma_tokens := ma_tokens acc @ [tok]\<rparr>)"

definition add_record_face :: "in_record \<Rightarrow> match_acc \<Rightarrow> match_acc" where
  "add_record_face r acc =
     (if ir_face_id r \<in> set (ma_seen acc) then acc
      else (add_face (ir_face_id r) (ir_lp_pit_token r) acc)\<lparr>
        ma_fan_out := ma_fan_out acc @ [(ir_face_id r, ir_trace_ids r)]\<rparr>)"

datatype persistent_match_result =
  Matched "u64 list" "bytes option list" bool | ClassicalMatch

text \<open>One turn of the loop over the in-records of a persistent entry: the record, the face it is delivered to,
  whether its credit is used up.\<close>

definition charge_record :: "bool \<Rightarrow> bool \<Rightarrow> in_record \<Rightarrow> in_record \<times> (u64 \<times> bytes option) option \<times> bool" where
  "charge_record cbp_only entry_persistent r =
     (if cbp_only \<and> \<not> can_be_prefix (ir_selector r) then (r, None, False)
      else case ir_persistent r of
        Some ps \<Rightarrow>
          if ps_data_count_remaining ps > 0 then (let
            ps = ps\<lparr>ps_data_count_remaining := ps_data_count_remaining ps - 1\<rparr>
          in (r\<lparr>ir_persistent := Some ps\<rparr>, Some (ir_face_id r, ir_lp_pit_token r), ps_data_count_remaining ps = 0))
          else (r, None, False)
      | None \<Rightarrow> if entry_persistent then (r, Some (ir_face_id r, ir_lp_pit_token r), False) else (r, None, False))"

definition persistent_match :: "bool \<Rightarrow> pit_entry \<Rightarrow> pit_entry \<times> persistent_match_result" where
  "persistent_match cbp_only e = (let
     any_per_record = list_ex (\<lambda>r. ir_persistent r \<noteq> None \<and> (\<not> cbp_only \<or> can_be_prefix (ir_selector r))) (pe_in_records e)
   in if \<not> any_per_record \<and> pe_persistent e = None then (e, ClassicalMatch)
   else let
     charged = map (charge_record cbp_only (pe_persistent e \<noteq> None)) (pe_in_records e);
     out = List.map_filter (\<lambda>(_, x, _). x) charged;
     exhausted = filter (\<lambda>i. snd (snd (charged ! i))) [0..<length charged];
     e = e\<lparr>pe_in_records := map fst charged\<rparr>;
     e = (case pe_persistent e of
         Some ps \<Rightarrow> e\<lparr>pe_persistent := Some (ps\<lparr>ps_data_count_remaining := saturating_sub (ps_data_count_remaining ps) 1\<rparr>)\<rparr>
       | None \<Rightarrow> e);
     e = e\<lparr>pe_in_records := foldl (\<lambda>rs i. swap_remove i rs) (pe_in_records e) (rev exhausted)\<rparr>;
     no_persistent_left = (\<not> list_ex (\<lambda>r. ir_persistent r \<noteq> None) (pe_in_records e));
     entry_level_exhausted = (case pe_persistent e of Some ps \<Rightarrow> ps_data_count_remaining ps = 0 | None \<Rightarrow> False);
     should_reap = (if any_per_record then no_persistent_left else entry_level_exhausted)
   in (e, Matched (map fst out) (map snd out) should_reap))"

function drain_cbp :: "in_record list \<Rightarrow> nat \<Rightarrow> in_record list \<Rightarrow> in_record list \<times> in_record list" where
  "drain_cbp rs i taken =
     (if i < length rs then
        if can_be_prefix (ir_selector (rs ! i)) then drain_cbp (swap_remove i rs) i (taken @ [rs ! i])
        else drain_cbp rs (i + 1) taken
      else (rs, taken))"
  by pat_completeness auto
termination
  by (relation "measure (\<lambda>(rs, i, _). length rs - i)") (auto simp: swap_remove_def)

record pit_match_stage =
  pm_pit :: pit
  pm_dnl :: "dead_nonce_list option"

definition remove_and_remember :: "hasher \<Rightarrow> u64 \<Rightarrow> u64 \<Rightarrow> pit_match_stage \<Rightarrow> pit_match_stage \<times> pit_entry option" where
  "remove_and_remember H token now_ns st = (case pit_remove token (pm_pit st) of
     (p, None) \<Rightarrow> (st\<lparr>pm_pit := p\<rparr>, None)
   | (p, Some e) \<Rightarrow> (st\<lparr>pm_pit := p, pm_dnl := insert_dead_nonces H e now_ns (pm_dnl st)\<rparr>, Some e))"

definition consume_entry ::
  "hasher \<Rightarrow> u64 \<Rightarrow> bool \<Rightarrow> u64 \<Rightarrow> match_acc \<times> pit_match_stage \<Rightarrow> match_acc \<times> pit_match_stage" where
  "consume_entry H token cbp_only now_ns acc_st = (case acc_st of (acc, st) \<Rightarrow>
     (case with_entry_mut token (persistent_match cbp_only) (pm_pit st) of
        (p, Some (Matched fs ts should_reap)) \<Rightarrow> (let
            st = st\<lparr>pm_pit := p\<rparr>;
            st = (if should_reap then fst (remove_and_remember H token now_ns st) else st)
          in (foldl (\<lambda>acc (fid, tok). add_face fid tok acc) acc (zip fs ts), st))
      | (p, _) \<Rightarrow> (let st = st\<lparr>pm_pit := p\<rparr> in
          if cbp_only then
            (case with_entry_mut token (\<lambda>e. case drain_cbp (pe_in_records e) 0 [] of
                 (rs, taken) \<Rightarrow> (e\<lparr>pe_in_records := rs\<rparr>, (taken, rs = []))) (pm_pit st) of
               (p, None) \<Rightarrow> (acc, st\<lparr>pm_pit := p\<rparr>)
             | (p, Some (taken, now_empty)) \<Rightarrow> (let
                 st = st\<lparr>pm_pit := p\<rparr>;
                 acc = foldl (\<lambda>acc r. add_record_face r acc) acc taken
               in (acc, if now_empty then fst (remove_and_remember H token now_ns st) else st)))
          else (case remove_and_remember H token now_ns st of
              (st, None) \<Rightarrow> (acc, st)
            | (st, Some e) \<Rightarrow> (foldl (\<lambda>acc r. add_record_face r acc) acc (pe_in_records e), st)))))"

definition stripped_token_of :: "hasher \<Rightarrow> name \<Rightarrow> u64 option" where
  "stripped_token_of H n =
     (if n \<noteq> [] \<and> (comp_typ (last n) = PARAMETERS_SHA256 \<or> comp_typ (last n) = IMPLICIT_SHA256) \<and> length n > 1
      then Some (from_name_hash H (full_name_hash H (take (length n - 1) n)) None) else None)"

definition match_acc_new :: match_acc where
  "match_acc_new = \<lparr>ma_faces = [], ma_tokens = [], ma_seen = [], ma_fan_out = []\<rparr>"

definition pit_match_process :: "hasher \<Rightarrow> packet_context \<Rightarrow> pit_match_stage \<Rightarrow> action \<times> pit_match_stage" where
  "pit_match_process H ctx st = (case ctx_packet ctx of
     DataPacket d \<Rightarrow> (let
       dn = data_name d;
       hashes = (case ctx_name_hashes ctx of Some hs \<Rightarrow> hs | None \<Rightarrow> name_hashes_compute H dn);
       ctx = ctx\<lparr>ctx_name_hashes := Some hashes\<rparr>;
       prefix_hashes = map (prefix_hash hashes) (rev [1..<length hashes]);
       fh = full_hash hashes;
       token = from_name_hash_keyed H fh None PersistentAttach;
       token_classical = from_name_hash_keyed H fh None Classical;
       arrival = ctx_arrival ctx;
       acc = consume_entry H token False arrival (match_acc_new, st);
       acc = consume_entry H token_classical False arrival acc;
       acc = (case stripped_token_of H dn of Some alt \<Rightarrow> consume_entry H alt False arrival acc | None \<Rightarrow> acc);
       acc = foldl (\<lambda>acc ph. foldl (\<lambda>acc disc. consume_entry H (from_name_hash_keyed H ph None disc) True arrival acc)
               acc [PersistentAttach, Classical]) acc prefix_hashes
     in if ma_faces (fst acc) \<noteq> []
        then (ActContinue (ctx\<lparr>ctx_out_faces := ma_faces (fst acc), ctx_out_pit_tokens := ma_tokens (fst acc)\<rparr>), snd acc)
        else (ActContinue (ctx\<lparr>ctx_unsolicited := True\<rparr>), snd acc))
   | _ \<Rightarrow> (ActContinue ctx, st))"

section \<open>Collecting faces\<close>

lemma mset_swap_remove: "i < length xs \<Longrightarrow> mset (swap_remove i xs) = mset xs - {#xs ! i#}"
proof -
  assume i: "i < length xs"
  then have ne: "xs \<noteq> []" by auto
  define ys where "ys = butlast xs"
  have xs: "xs = ys @ [last xs]" using ne by (simp add: ys_def)
  show ?thesis
  proof (cases "i < length ys")
    case True
    then have "xs ! i = ys ! i" by (subst xs) (simp add: nth_append)
    then show ?thesis
      unfolding swap_remove_def ys_def [symmetric] using True
      by (subst (2) xs) (simp add: mset_update add_mset_add_single [symmetric])
  next
    case False
    then have "i = length ys" using i xs by (metis Suc_eq_plus1 length_append_singleton less_antisym)
    then have "xs ! i = last xs" by (subst xs) simp
    then show ?thesis
      unfolding swap_remove_def ys_def [symmetric] using False by (subst (2) xs) (simp add: list_update_beyond)
  qed
qed

lemma drain_cbp_spec:
  assumes "drain_cbp rs i taken = (rs', taken')" "i \<le> length rs" "\<forall>r \<in> set (take i rs). \<not> can_be_prefix (ir_selector r)"
  shows "mset rs' = filter_mset (\<lambda>r. \<not> can_be_prefix (ir_selector r)) (mset rs) \<and>
    mset taken' = mset taken + filter_mset (\<lambda>r. can_be_prefix (ir_selector r)) (mset rs)"
  using assms
proof (induction rs i taken rule: drain_cbp.induct)
  case (1 rs i taken)
  show ?case
  proof (cases "i < length rs")
    case False
    then have "rs' = rs" "taken' = taken" "\<forall>r \<in> set rs. \<not> can_be_prefix (ir_selector r)"
      using "1.prems" by auto
    then show ?thesis by (simp flip: mset_filter)
  next
    case lt: True
    show ?thesis
    proof (cases "can_be_prefix (ir_selector (rs ! i))")
      case True
      obtain M where M: "mset rs = add_mset (rs ! i) M" using lt by (metis nth_mem_mset insert_DiffM)
      have m: "mset (swap_remove i rs) = M" using mset_swap_remove [OF lt] by (simp add: M)
      have "drain_cbp (swap_remove i rs) i (taken @ [rs ! i]) = (rs', taken')"
        using "1.prems"(1) lt True by simp
      moreover have "i \<le> length (swap_remove i rs)" using lt by (simp add: swap_remove_def)
      moreover have "take i (swap_remove i rs) = take i rs"
        using lt by (simp add: swap_remove_def take_butlast)
      ultimately have "mset rs' = filter_mset (\<lambda>r. \<not> can_be_prefix (ir_selector r)) M \<and>
          mset taken' = mset (taken @ [rs ! i]) + filter_mset (\<lambda>r. can_be_prefix (ir_selector r)) M"
        using "1.IH"(1) [OF lt True] "1.prems"(3) m by simp
      then show ?thesis using True by (simp add: M)
    next
      case False
      have "\<forall>r \<in> set (take (i + 1) rs). \<not> can_be_prefix (ir_selector r)"
        using "1.prems"(3) False lt by (auto simp: take_Suc_conv_app_nth)
      then show ?thesis using "1.IH"(2) [OF lt False] "1.prems"(1) lt False by simp
    qed
  qed
qed

lemmas [simp del] = drain_cbp.simps

lemma drain_cbp_sets:
  assumes "drain_cbp rs 0 [] = (rs', taken)"
  shows "set rs' = {r \<in> set rs. \<not> can_be_prefix (ir_selector r)}" "set taken = {r \<in> set rs. can_be_prefix (ir_selector r)}"
proof -
  note d = drain_cbp_spec [OF assms]
  have "set_mset (mset rs') = set_mset (filter_mset (\<lambda>r. \<not> can_be_prefix (ir_selector r)) (mset rs))"
    "set_mset (mset taken) = set_mset (filter_mset (\<lambda>r. can_be_prefix (ir_selector r)) (mset rs))" using d by simp_all
  then show "set rs' = {r \<in> set rs. \<not> can_be_prefix (ir_selector r)}" "set taken = {r \<in> set rs. can_be_prefix (ir_selector r)}"
    by auto
qed

definition acc_ok :: "match_acc \<Rightarrow> bool" where
  "acc_ok acc \<longleftrightarrow> ma_seen acc = ma_faces acc \<and> distinct (ma_faces acc) \<and> length (ma_tokens acc) = length (ma_faces acc)"

lemma add_face_ok: "acc_ok acc \<Longrightarrow> acc_ok (add_face f t acc)" "acc_ok acc \<Longrightarrow> acc_ok (add_record_face r acc)"
  by (auto simp: acc_ok_def add_face_def add_record_face_def)

lemma add_face_set:
  "acc_ok acc \<Longrightarrow> set (ma_faces (add_face f t acc)) = insert f (set (ma_faces acc))"
  "acc_ok acc \<Longrightarrow> set (ma_faces (add_record_face r acc)) = insert (ir_face_id r) (set (ma_faces acc))"
  by (auto simp: acc_ok_def add_face_def add_record_face_def)

lemma add_records:
  "acc_ok acc \<Longrightarrow> acc_ok (foldl (\<lambda>acc r. add_record_face r acc) acc rs) \<and>
     set (ma_faces (foldl (\<lambda>acc r. add_record_face r acc) acc rs)) = set (ma_faces acc) \<union> ir_face_id ` set rs"
  by (induction rs arbitrary: acc) (auto simp: add_face_ok add_face_set)

lemma add_faces:
  "acc_ok acc \<Longrightarrow> acc_ok (foldl (\<lambda>acc (f, t). add_face f t acc) acc xs) \<and>
     set (ma_faces (foldl (\<lambda>acc (f, t). add_face f t acc) acc xs)) = set (ma_faces acc) \<union> fst ` set xs"
proof (induction xs arbitrary: acc)
  case (Cons x xs)
  then show ?case using Cons.IH [of "add_face (fst x) (snd x) acc"] by (cases x) (auto simp: add_face_ok add_face_set)
qed simp

section \<open>Data follows the pending Interests\<close>

definition classical_entry :: "pit_entry \<Rightarrow> bool" where
  "classical_entry e \<longleftrightarrow> pe_persistent e = None \<and> list_all (\<lambda>r. ir_persistent r = None) (pe_in_records e)"

definition classical_pit :: "pit \<Rightarrow> bool" where
  "classical_pit p \<longleftrightarrow> (\<forall>k e. map_of (pit_entries p) k = Some e \<longrightarrow> classical_entry e)"

definition pending_at :: "pit \<Rightarrow> u64 \<Rightarrow> in_record \<Rightarrow> bool" where
  "pending_at p k r \<longleftrightarrow> (case map_of (pit_entries p) k of Some e \<Rightarrow> r \<in> set (pe_in_records e) | None \<Rightarrow> False)"

text \<open>Which in-records a look-up under a token satisfies: all, or in the prefix walk those with CanBePrefix.\<close>

definition satisfies :: "(u64 \<times> bool) list \<Rightarrow> u64 \<Rightarrow> in_record \<Rightarrow> bool" where
  "satisfies plan k r \<longleftrightarrow> (\<exists>cbp_only. (k, cbp_only) \<in> set plan \<and> (cbp_only \<longrightarrow> can_be_prefix (ir_selector r)))"

lemma persistent_match_classical: "classical_entry e \<Longrightarrow> persistent_match c e = (e, ClassicalMatch)"
  by (auto simp: classical_entry_def persistent_match_def list_ex_iff list_all_iff Let_def)

lemma remove_and_remember_pit:
  "map_of (pit_entries (pm_pit (fst (remove_and_remember H t now st)))) = (map_of (pit_entries (pm_pit st)))(t := None)"
  "snd (remove_and_remember H t now st) = map_of (pit_entries (pm_pit st)) t"
  using look_remove [of t "pm_pit st"] snd_remove [of t "pm_pit st"]
  by (auto simp: remove_and_remember_def split: prod.splits option.splits)

lemma consume_classical:
  assumes ok: "acc_ok acc" and cl: "classical_pit (pm_pit st)"
    and run: "consume_entry H t c now (acc, st) = (acc', st')"
  shows "acc_ok acc'"
    and "set (ma_faces acc') = set (ma_faces acc) \<union> ir_face_id ` {r. pending_at (pm_pit st) t r \<and> (c \<longrightarrow> can_be_prefix (ir_selector r))}"
    and "pending_at (pm_pit st') k r \<longleftrightarrow> pending_at (pm_pit st) k r \<and> \<not> (k = t \<and> (c \<longrightarrow> can_be_prefix (ir_selector r)))"
    and "k \<noteq> t \<Longrightarrow> map_of (pit_entries (pm_pit st')) k = map_of (pit_entries (pm_pit st)) k"
    and "classical_pit (pm_pit st')"
proof -
  let ?p = "pm_pit st"
  have "acc_ok acc' \<and> set (ma_faces acc') = set (ma_faces acc) \<union> ir_face_id ` {r. pending_at ?p t r \<and> (c \<longrightarrow> can_be_prefix (ir_selector r))} \<and>
    (\<forall>k r. pending_at (pm_pit st') k r \<longleftrightarrow> pending_at ?p k r \<and> \<not> (k = t \<and> (c \<longrightarrow> can_be_prefix (ir_selector r)))) \<and>
    (\<forall>k. k \<noteq> t \<longrightarrow> map_of (pit_entries (pm_pit st')) k = map_of (pit_entries ?p) k) \<and> classical_pit (pm_pit st')"
  proof (cases "map_of (pit_entries ?p) t")
    case None
    then have "st' = st" "acc' = acc"
      using run by (auto simp: consume_entry_def with_entry_mut_def remove_and_remember_def pit_remove_def split: if_splits)
    then show ?thesis using None ok cl by (auto simp: pending_at_def)
  next
    case (Some e)
    have e: "classical_entry e" using cl Some by (simp add: classical_pit_def)
    define p1 where "p1 = ?p\<lparr>pit_entries := AList.update t e (pit_entries ?p)\<rparr>"
    define st1 where "st1 = st\<lparr>pm_pit := p1\<rparr>"
    have probe: "with_entry_mut t (persistent_match c) ?p = (p1, Some ClassicalMatch)"
      by (simp add: with_entry_mut_def Some persistent_match_classical [OF e] p1_def)
    have look1: "map_of (pit_entries (pm_pit st1)) = map_of (pit_entries ?p)"
      using Some by (auto simp: st1_def p1_def update_conv')
    show ?thesis
    proof (cases c)
      case False
      have step: "consume_entry H t c now (acc, st) = (foldl (\<lambda>acc r. add_record_face r acc) acc (pe_in_records e), fst (remove_and_remember H t now st1))"
      proof -
        obtain st2 where "remove_and_remember H t now st1 = (st2, Some e)"
          using remove_and_remember_pit(2) [of H t now st1] by (metis Some look1 prod.collapse)
        then show ?thesis using probe False by (simp add: consume_entry_def st1_def)
      qed
      then have st': "map_of (pit_entries (pm_pit st')) = (map_of (pit_entries ?p))(t := None)" and
        acc': "acc' = foldl (\<lambda>acc r. add_record_face r acc) acc (pe_in_records e)"
        using run remove_and_remember_pit(1) [of H t now st1] look1 by auto
      show ?thesis
        using add_records [OF ok, of "pe_in_records e"] cl False Some unfolding acc'
        by (auto simp: pending_at_def st' classical_pit_def split: option.splits)
    next
      case True
      obtain rs taken where d: "drain_cbp (pe_in_records e) 0 [] = (rs, taken)" by fastforce
      note ds = drain_cbp_sets [OF d]
      define st2 where "st2 = st\<lparr>pm_pit := p1\<lparr>pit_entries := AList.update t (e\<lparr>pe_in_records := rs\<rparr>) (pit_entries p1)\<rparr>\<rparr>"
      have m1: "map_of (pit_entries p1) t = Some e" using look1 Some by (simp add: st1_def)
      have step: "consume_entry H t c now (acc, st) =
          (foldl (\<lambda>acc r. add_record_face r acc) acc taken, if rs = [] then fst (remove_and_remember H t now st2) else st2)"
        unfolding consume_entry_def prod.case probe using True by (simp add: with_entry_mut_def m1 d st2_def)
      have look2: "map_of (pit_entries (pm_pit st2)) = (map_of (pit_entries ?p))(t \<mapsto> e\<lparr>pe_in_records := rs\<rparr>)"
        using look1 by (simp add: st2_def st1_def update_conv')
      have st': "map_of (pit_entries (pm_pit st')) = (map_of (pit_entries ?p))(t := if rs = [] then None else Some (e\<lparr>pe_in_records := rs\<rparr>))"
        using run remove_and_remember_pit(1) [of H t now st2] look2 unfolding step by auto
      have acc': "acc' = foldl (\<lambda>acc r. add_record_face r acc) acc taken" using run unfolding step by auto
      have "classical_entry (e\<lparr>pe_in_records := rs\<rparr>)" using e ds(1) by (auto simp: classical_entry_def list_all_iff)
      moreover have "rs = [] \<longleftrightarrow> (\<forall>r \<in> set (pe_in_records e). can_be_prefix (ir_selector r))" using ds(1) by (auto simp: set_empty [symmetric] simp del: set_empty)
      ultimately show ?thesis
        using add_records [OF ok, of taken] cl True Some ds unfolding acc'
        by (auto simp: pending_at_def st' classical_pit_def split: option.splits if_splits)
    qed
  qed
  then show "acc_ok acc'" "set (ma_faces acc') = set (ma_faces acc) \<union> ir_face_id ` {r. pending_at (pm_pit st) t r \<and> (c \<longrightarrow> can_be_prefix (ir_selector r))}"
    "pending_at (pm_pit st') k r \<longleftrightarrow> pending_at (pm_pit st) k r \<and> \<not> (k = t \<and> (c \<longrightarrow> can_be_prefix (ir_selector r)))"
    "k \<noteq> t \<Longrightarrow> map_of (pit_entries (pm_pit st')) k = map_of (pit_entries (pm_pit st)) k"
    "classical_pit (pm_pit st')"
    by auto
qed

text \<open>The look-ups of a Data packet, in their order, in terms of names.\<close>

definition data_plan :: "hasher \<Rightarrow> name \<Rightarrow> (u64 \<times> bool) list" where
  "data_plan H n =
     [(from_name_hash_keyed H (full_name_hash H n) None PersistentAttach, False),
      (from_name_hash_keyed H (full_name_hash H n) None Classical, False)] @
     (case stripped_token_of H n of Some alt \<Rightarrow> [(alt, False)] | None \<Rightarrow> []) @
     concat (map (\<lambda>k. map (\<lambda>disc. (from_name_hash_keyed H (full_name_hash H (take k n)) None disc, True))
       [PersistentAttach, Classical]) (rev [1..<length n]))"

definition consume_all :: "hasher \<Rightarrow> u64 \<Rightarrow> match_acc \<times> pit_match_stage \<Rightarrow> (u64 \<times> bool) list \<Rightarrow> match_acc \<times> pit_match_stage" where
  "consume_all H now = foldl (\<lambda>a (t, c). consume_entry H t c now a)"

lemma consume_all_simps [simp]:
  "consume_all H now a [] = a"
  "consume_all H now a ((t, c) # plan) = consume_all H now (consume_entry H t c now a) plan"
  "consume_all H now a (plan @ plan') = consume_all H now (consume_all H now a plan) plan'"
  by (simp_all add: consume_all_def)

lemma consume_all_classical:
  assumes "acc_ok acc" "classical_pit (pm_pit st)" "consume_all H now (acc, st) plan = (acc', st')"
  shows "acc_ok acc' \<and>
    set (ma_faces acc') = set (ma_faces acc) \<union> ir_face_id ` {r. \<exists>k. pending_at (pm_pit st) k r \<and> satisfies plan k r} \<and>
    (\<forall>k r. pending_at (pm_pit st') k r \<longleftrightarrow> pending_at (pm_pit st) k r \<and> \<not> satisfies plan k r) \<and>
    classical_pit (pm_pit st')"
  using assms
proof (induction plan arbitrary: acc st)
  case Nil
  then show ?case by (simp add: satisfies_def)
next
  case (Cons x plan)
  obtain t c where x: "x = (t, c)" by fastforce
  obtain acc1 st1 where step: "consume_entry H t c now (acc, st) = (acc1, st1)" by fastforce
  note one = consume_classical [OF Cons.prems(1,2) step]
  have sat: "satisfies ((t, c) # plan) k r \<longleftrightarrow> k = t \<and> (c \<longrightarrow> can_be_prefix (ir_selector r)) \<or> satisfies plan k r" for k r
    by (auto simp: satisfies_def)
  have rest: "consume_all H now (acc1, st1) plan = (acc', st')" using Cons.prems(3) step by (simp add: x)
  have "{r. \<exists>k. pending_at (pm_pit st) k r \<and> satisfies ((t, c) # plan) k r} =
      {r. pending_at (pm_pit st) t r \<and> (c \<longrightarrow> can_be_prefix (ir_selector r))} \<union> {r. \<exists>k. pending_at (pm_pit st1) k r \<and> satisfies plan k r}"
    unfolding sat one(3) by auto
  then show ?case
    using Cons.IH [OF one(1) one(5) rest] one(2,3) by (auto simp: x sat image_Un)
qed

lemma prefix_walk_plan:
  "foldl (\<lambda>acc ph. foldl (\<lambda>acc disc. consume_entry H (from_name_hash_keyed H ph None disc) True now acc)
       acc [PersistentAttach, Classical]) a phs =
   consume_all H now a (concat (map (\<lambda>ph. map (\<lambda>disc. (from_name_hash_keyed H ph None disc, True)) [PersistentAttach, Classical]) phs))"
  by (induction phs arbitrary: a) simp_all

lemma pit_match_process_plan:
  assumes "ctx_packet ctx = DataPacket d"
    "ctx_name_hashes ctx = None \<or> ctx_name_hashes ctx = Some (name_hashes_compute H (data_name d))"
    "consume_all H (ctx_arrival ctx) (match_acc_new, st) (data_plan H (data_name d)) = (acc, st')"
  shows "pit_match_process H ctx st = (ActContinue
    (if ma_faces acc \<noteq> [] then ctx\<lparr>ctx_name_hashes := Some (name_hashes_compute H (data_name d)), ctx_out_faces := ma_faces acc, ctx_out_pit_tokens := ma_tokens acc\<rparr>
     else ctx\<lparr>ctx_name_hashes := Some (name_hashes_compute H (data_name d)), ctx_unsolicited := True\<rparr>), st')"
proof -
  let ?hs = "name_hashes_compute H (data_name d)"
  have hs: "(case ctx_name_hashes ctx of Some hs \<Rightarrow> hs | None \<Rightarrow> ?hs) = ?hs" using assms(2) by auto
  have phs: "map (prefix_hash ?hs) (rev [1..<length ?hs]) = map (\<lambda>k. full_name_hash H (take k (data_name d))) (rev [1..<length (data_name d)])"
    by (auto simp: prefix_hash_compute)
  have plan: "data_plan H (data_name d) =
     [(from_name_hash_keyed H (full_hash ?hs) None PersistentAttach, False), (from_name_hash_keyed H (full_hash ?hs) None Classical, False)] @
     (case stripped_token_of H (data_name d) of Some alt \<Rightarrow> [(alt, False)] | None \<Rightarrow> []) @
     concat (map (\<lambda>ph. map (\<lambda>disc. (from_name_hash_keyed H ph None disc, True)) [PersistentAttach, Classical])
       (map (prefix_hash ?hs) (rev [1..<length ?hs])))"
    unfolding data_plan_def full_hash_compute phs by (simp add: comp_def)
  show ?thesis
    using assms(3) unfolding plan
    by (simp add: pit_match_process_def assms(1) hs Let_def prefix_walk_plan [simplified] split: option.splits)
qed

lemma pit_match_classical:
  assumes "ctx_packet ctx = DataPacket d"
    "ctx_name_hashes ctx = None \<or> ctx_name_hashes ctx = Some (name_hashes_compute H (data_name d))"
    "ctx_out_faces ctx = []" "ctx_out_pit_tokens ctx = []" "\<not> ctx_unsolicited ctx" "classical_pit (pm_pit st)"
  shows "\<exists>ctx' st'. pit_match_process H ctx st = (ActContinue ctx', st') \<and>
    set (ctx_out_faces ctx') = ir_face_id ` {r. \<exists>k. pending_at (pm_pit st) k r \<and> satisfies (data_plan H (data_name d)) k r} \<and>
    distinct (ctx_out_faces ctx') \<and> length (ctx_out_pit_tokens ctx') = length (ctx_out_faces ctx') \<and>
    (ctx_unsolicited ctx' \<longleftrightarrow> ctx_out_faces ctx' = []) \<and>
    (\<forall>k r. pending_at (pm_pit st') k r \<longleftrightarrow> pending_at (pm_pit st) k r \<and> \<not> satisfies (data_plan H (data_name d)) k r)"
proof -
  obtain acc st' where run: "consume_all H (ctx_arrival ctx) (match_acc_new, st) (data_plan H (data_name d)) = (acc, st')"
    by fastforce
  have ok: "acc_ok match_acc_new" "ma_faces match_acc_new = []" by (simp_all add: acc_ok_def match_acc_new_def)
  note r = consume_all_classical [OF ok(1) assms(6) run]
  show ?thesis
    using r assms(3-5) ok(2) unfolding pit_match_process_plan [OF assms(1,2) run]
    by (auto simp: acc_ok_def)
qed

text \<open>Which Interests a Data packet answers, by their names alone: those for its own name; those for its name
  without a digest component at the end; and those for a proper prefix that allow a longer name.\<close>

definition answers :: "name \<Rightarrow> bool \<Rightarrow> name \<Rightarrow> bool" where
  "answers m cbp n \<longleftrightarrow> m = n \<or> m \<noteq> [] \<and> strict_prefix m n \<and>
     (cbp \<or> (\<exists>c. n = m @ [c] \<and> (comp_typ c = PARAMETERS_SHA256 \<or> comp_typ c = IMPLICIT_SHA256)))"

text \<open>PIT entries are filed under a 64-bit hash of their name. The design relies on different names having
  different keys (\<open>docs/nfd-divergence-findings.md\<close>, Round 2, on the hash-keyed PIT); the names that matter
  for a Data packet are the pending ones, its own and its prefixes.\<close>

definition pit_key :: "hasher \<Rightarrow> name \<Rightarrow> pit_key_discriminator \<Rightarrow> u64" where
  "pit_key H m disc = from_name_hash_keyed H (full_name_hash H m) None disc"

definition collision_free :: "hasher \<Rightarrow> name set \<Rightarrow> bool" where
  "collision_free H N \<longleftrightarrow> inj_on (\<lambda>(m, disc). pit_key H m disc) (N \<times> UNIV)"

definition own_names :: "name \<Rightarrow> name set" where
  "own_names n = insert n {m. m \<noteq> [] \<and> prefix m n}"

lemma collision_freeD:
  "collision_free H N \<Longrightarrow> m \<in> N \<Longrightarrow> m' \<in> N \<Longrightarrow> pit_key H m disc = pit_key H m' disc' \<longleftrightarrow> m = m' \<and> disc = disc'"
  by (auto simp: collision_free_def inj_on_def)

lemma collision_free_subset: "collision_free H N \<Longrightarrow> M \<subseteq> N \<Longrightarrow> collision_free H M"
  unfolding collision_free_def by (erule inj_on_subset) blast

lemma data_plan_keys:
  "(k, c) \<in> set (data_plan H n) \<longleftrightarrow> \<not> c \<and> (k = pit_key H n PersistentAttach \<or> k = pit_key H n Classical) \<or>
     \<not> c \<and> length n > 1 \<and> (comp_typ (last n) = PARAMETERS_SHA256 \<or> comp_typ (last n) = IMPLICIT_SHA256) \<and> k = pit_key H (butlast n) Classical \<or>
     c \<and> (\<exists>j disc. 0 < j \<and> j < length n \<and> k = pit_key H (take j n) disc)"
proof -
  have d: "(\<exists>disc. P disc) \<longleftrightarrow> P PersistentAttach \<or> P Classical" for P by (metis pit_key_discriminator.exhaust)
  have s: "(case stripped_token_of H n of Some alt \<Rightarrow> [(alt, False)] | None \<Rightarrow> []) =
      (if length n > 1 \<and> (comp_typ (last n) = PARAMETERS_SHA256 \<or> comp_typ (last n) = IMPLICIT_SHA256)
       then [(pit_key H (butlast n) Classical, False)] else [])"
    by (auto simp: stripped_token_of_def from_name_hash_def pit_key_def butlast_conv_take)
  show ?thesis unfolding data_plan_def s by (auto simp: pit_key_def d Suc_le_eq)
qed

lemma satisfies_answers:
  assumes "collision_free H (insert m (own_names n))"
  shows "satisfies (data_plan H n) (pit_key H m Classical) r \<longleftrightarrow> answers m (can_be_prefix (ir_selector r)) n"
proof -
  have own: "n \<in> own_names n" "take j n \<in> own_names n" "length n > 1 \<Longrightarrow> butlast n \<in> own_names n" if "0 < j" for j
    using that by (auto simp: own_names_def take_is_prefix prefixeq_butlast) (auto simp: neq_Nil_conv butlast_conv_take)
  have key: "pit_key H m Classical = pit_key H m' disc \<longleftrightarrow> m = m' \<and> disc = Classical" if "m' \<in> own_names n" for m' disc
    using collision_freeD [OF assms, of m m' Classical disc] that by auto
  have 1: "pit_key H m Classical = pit_key H n PersistentAttach \<longleftrightarrow> False" "pit_key H m Classical = pit_key H n Classical \<longleftrightarrow> m = n"
    using key own(1) by auto
  have 2: "length n > 1 \<and> D \<and> pit_key H m Classical = pit_key H (butlast n) Classical \<longleftrightarrow> length n > 1 \<and> D \<and> m = butlast n" for D
    using key own(3) by auto
  have 3: "(\<exists>j disc. 0 < j \<and> j < length n \<and> pit_key H m Classical = pit_key H (take j n) disc) \<longleftrightarrow> m \<noteq> [] \<and> strict_prefix m n"
  proof
    assume "\<exists>j disc. 0 < j \<and> j < length n \<and> pit_key H m Classical = pit_key H (take j n) disc"
    then obtain j where "0 < j" "j < length n" "m = take j n" using key own(2) by auto
    then show "m \<noteq> [] \<and> strict_prefix m n" by (auto simp: strict_prefix_def take_is_prefix dest: arg_cong [where f = length])
  next
    assume m: "m \<noteq> [] \<and> strict_prefix m n"
    then have "m = take (length m) n" "0 < length m" "length m < length n"
      by (auto simp: strict_prefix_def prefix_def)
    then show "\<exists>j disc. 0 < j \<and> j < length n \<and> pit_key H m Classical = pit_key H (take j n) disc" by metis
  qed
  have 4: "length n > 1 \<and> D (last n) \<and> m = butlast n \<longleftrightarrow> m \<noteq> [] \<and> strict_prefix m n \<and> (\<exists>c. n = m @ [c] \<and> D c)" for D
    by (cases n rule: rev_cases) (auto simp: strict_prefix_def)
  have "satisfies (data_plan H n) (pit_key H m Classical) r \<longleftrightarrow> m = n \<or>
      length n > 1 \<and> (comp_typ (last n) = PARAMETERS_SHA256 \<or> comp_typ (last n) = IMPLICIT_SHA256) \<and> m = butlast n \<or>
      can_be_prefix (ir_selector r) \<and> m \<noteq> [] \<and> strict_prefix m n"
    unfolding satisfies_def data_plan_keys ex_bool_eq 1 2 3 by blast
  then show ?thesis
    using 4 [of "\<lambda>c. comp_typ c = PARAMETERS_SHA256 \<or> comp_typ c = IMPLICIT_SHA256"] unfolding answers_def by blast
qed

text \<open>C1.
  Data goes back along the Interests. With one-shot Interests pending (no subscription in the PIT) under names
  whose keys do not collide, a Data packet leaves on exactly the faces of the Interests it answers, each face
  once; exactly those Interests are no longer pending afterwards; and the packet is unsolicited iff there was
  none. It answers the Interests for its name, for its name without a digest at the end, and, if they allow a
  prefix, for a proper prefix of its name.\<close>

theorem data_follows_interests:
  assumes "ctx_packet ctx = DataPacket d"
    "ctx_name_hashes ctx = None \<or> ctx_name_hashes ctx = Some (name_hashes_compute H (data_name d))"
    "ctx_out_faces ctx = []" "ctx_out_pit_tokens ctx = []" "\<not> ctx_unsolicited ctx" "classical_pit (pm_pit st)"
    "fst ` set (pit_entries (pm_pit st)) \<subseteq> (\<lambda>m. pit_key H m Classical) ` N" "collision_free H (N \<union> own_names (data_name d))"
  shows "\<exists>ctx' st'. pit_match_process H ctx st = (ActContinue ctx', st') \<and>
    set (ctx_out_faces ctx') =
      ir_face_id ` {r. \<exists>m \<in> N. pending_at (pm_pit st) (pit_key H m Classical) r \<and> answers m (can_be_prefix (ir_selector r)) (data_name d)} \<and>
    distinct (ctx_out_faces ctx') \<and> length (ctx_out_pit_tokens ctx') = length (ctx_out_faces ctx') \<and>
    (ctx_unsolicited ctx' \<longleftrightarrow> ctx_out_faces ctx' = []) \<and>
    (\<forall>m \<in> N. \<forall>r. pending_at (pm_pit st') (pit_key H m Classical) r \<longleftrightarrow>
      pending_at (pm_pit st) (pit_key H m Classical) r \<and> \<not> answers m (can_be_prefix (ir_selector r)) (data_name d))"
proof -
  have sat: "satisfies (data_plan H (data_name d)) (pit_key H m Classical) r \<longleftrightarrow> answers m (can_be_prefix (ir_selector r)) (data_name d)"
    if "m \<in> N" for m r
    by (rule satisfies_answers [OF collision_free_subset [OF assms(8)]]) (use that in auto)
  have key: "\<exists>m \<in> N. k = pit_key H m Classical" if "pending_at (pm_pit st) k r" for k r
    using that assms(7) by (force simp: pending_at_def dest: map_of_SomeD split: option.splits)
  have "{r. \<exists>k. pending_at (pm_pit st) k r \<and> satisfies (data_plan H (data_name d)) k r} =
      {r. \<exists>m \<in> N. pending_at (pm_pit st) (pit_key H m Classical) r \<and> answers m (can_be_prefix (ir_selector r)) (data_name d)}"
    using key sat by blast
  then show ?thesis using pit_match_classical [OF assms(1-6)] sat by auto
qed


section \<open>Interests leave a trace\<close>

definition nonce_of :: "interest \<Rightarrow> u32" where
  "nonce_of i = (case int_nonce i of Some n \<Rightarrow> n | None \<Rightarrow> 0)"

definition lifetime_of :: "interest \<Rightarrow> u64" where
  "lifetime_of i = (case int_lifetime i of Some ms \<Rightarrow> ms | None \<Rightarrow> 4000)"

definition check_token :: "hasher \<Rightarrow> interest \<Rightarrow> persistent_state option \<Rightarrow> u64" where
  "check_token H i ps = from_name_hash_keyed H (full_name_hash H (pit_key_name i)) (int_forwarding_hint i)
     (if ps \<noteq> None then PersistentAttach else Classical)"

definition dead_nonce :: "hasher \<Rightarrow> interest \<Rightarrow> u64 \<Rightarrow> dead_nonce_list option \<Rightarrow> bool" where
  "dead_nonce H i now dnl = (case dnl of
     Some d \<Rightarrow> dnl_contains \<lparr>nf_name_hash = full_name_hash H (pit_key_name i), nf_nonce = nonce_of i\<rparr> now d
   | None \<Rightarrow> False)"

definition result_action :: "check_result \<Rightarrow> packet_context \<Rightarrow> action" where
  "result_action r ctx = (case r of Loop \<Rightarrow> ActDrop LoopDetected | Aggregated \<Rightarrow> ActDrop Suppressed
     | Inserted \<Rightarrow> ActContinue ctx | ReForward \<Rightarrow> ActContinue ctx)"

lemma pit_check_admitted:
  assumes "ctx_packet ctx = InterestPacket i" "replay_rejected i st = (st1, False)"
    "check_persistent V ctx (pc_pit st1) = (Inr ps, p)" "\<not> dead_nonce H i (ctx_arrival ctx) (pc_dnl st1)"
    "with_entry_or_insert (check_token H i ps)
       (on_existing_entry (face_is_p2p st1 (ctx_face_id ctx)) (ctx_face_id ctx) (nonce_of i) (ctx_arrival ctx) (lifetime_of i)
          (ctx_lp_pit_token ctx) (int_selectors i) ps)
       (new_entry (int_name i) (ctx_face_id ctx) (nonce_of i) (ctx_arrival ctx) (lifetime_of i) (ctx_lp_pit_token ctx)
          (int_selectors i) ps) p = (p', r)"
  shows "pit_check_process H V ctx st =
    (result_action r (ctx\<lparr>ctx_pit_token := Some (check_token H i ps)\<rparr>), st1\<lparr>pc_pit := p'\<rparr>)"
proof -
  have f: "face_is_p2p (st1\<lparr>pc_pit := p\<rparr>) x = face_is_p2p st1 x" for x by (simp add: face_is_p2p_def)
  show ?thesis
    using assms(4,5) unfolding dead_nonce_def check_token_def nonce_of_def lifetime_of_def
    by (simp add: pit_check_process_def assms(1-3) Let_def result_action_def f split: option.splits check_result.split)
qed

lemma pit_check_refused:
  assumes "ctx_packet ctx = InterestPacket i"
  shows "replay_rejected i st = (st1, True) \<Longrightarrow> pit_check_process H V ctx st = (ActDrop LoopDetected, st1)"
    and "replay_rejected i st = (st1, False) \<Longrightarrow> check_persistent V ctx (pc_pit st1) = (Inl a, p) \<Longrightarrow>
      pit_check_process H V ctx st = (a, st1\<lparr>pc_pit := p\<rparr>)"
    and "replay_rejected i st = (st1, False) \<Longrightarrow> check_persistent V ctx (pc_pit st1) = (Inr ps, p) \<Longrightarrow>
      dead_nonce H i (ctx_arrival ctx) (pc_dnl st1) \<Longrightarrow> pit_check_process H V ctx st = (ActDrop LoopDetected, st1\<lparr>pc_pit := p\<rparr>)"
  unfolding dead_nonce_def nonce_of_def
  by (simp_all add: pit_check_process_def assms Let_def split: option.splits)

lemma check_persistent_refusal: "check_persistent V ctx p = (Inl a, p') \<Longrightarrow> a = ActDrop InvalidPersistentRequest"
  by (auto simp: check_persistent_def Let_def split: decoded_packet.splits option.splits if_splits interest_validation_outcome.splits prod.splits)

lemma check_persistent_entries:
  "pit_entries (snd (check_persistent V ctx p)) = pit_entries p"
  by (auto simp: check_persistent_def Let_def take_orphan_def split: decoded_packet.splits option.splits interest_validation_outcome.splits)

lemma replay_rejected_pit:
  "pc_pit (fst (replay_rejected i st)) = pc_pit st" "pc_dnl (fst (replay_rejected i st)) = pc_dnl st"
  "pc_face_table (fst (replay_rejected i st)) = pc_face_table st"
  by (simp_all add: replay_rejected_def split: option.split prod.split)

text \<open>The in-record an Interest leaves.\<close>

definition record_of :: "packet_context \<Rightarrow> interest \<Rightarrow> persistent_state option \<Rightarrow> in_record" where
  "record_of ctx i ps = \<lparr>ir_face_id = ctx_face_id ctx, ir_nonce = nonce_of i,
     ir_expires_at = ctx_arrival ctx + lifetime_of i * 1000000, ir_lp_pit_token = ctx_lp_pit_token ctx,
     ir_selector = int_selectors i, ir_persistent = ps, ir_trace_ids = []\<rparr>"

lemma add_in_record_simps:
  "pe_in_records (add_in_record_with_persistent f nc x lt sel ps e) = pe_in_records e @
     [\<lparr>ir_face_id = f, ir_nonce = nc, ir_expires_at = x, ir_lp_pit_token = lt, ir_selector = sel, ir_persistent = ps, ir_trace_ids = []\<rparr>]"
  "set (pe_nonces_seen (add_in_record_with_persistent f nc x lt sel ps e)) = insert nc (set (pe_nonces_seen e))"
  "pe_name (add_in_record_with_persistent f nc x lt sel ps e) = pe_name e"
  "pe_expires_at (add_in_record_with_persistent f nc x lt sel ps e) = pe_expires_at e"
  "pe_out_records (add_in_record_with_persistent f nc x lt sel ps e) = pe_out_records e"
  "pe_persistent (add_in_record_with_persistent f nc x lt sel ps e) = pe_persistent e"
  by (auto simp: add_in_record_with_persistent_def add_in_record_inner_def Let_def)

lemma on_existing_entry_result:
  assumes "on_existing_entry p2p f nc now ms lt sel ps e = (e', r)"
  shows "r = Loop \<Longrightarrow> pe_in_records e' = pe_in_records e"
    and "r = Loop \<longleftrightarrow> nc \<in> set (pe_nonces_seen e) \<and> \<not> (p2p \<and> list_ex (\<lambda>r. ir_face_id r = f \<and> ir_nonce r = nc) (pe_in_records e))"
    and "r \<noteq> Loop \<Longrightarrow> pe_in_records e' = (if ps \<noteq> None then filter (\<lambda>r. ir_face_id r \<noteq> f) (pe_in_records e) else pe_in_records e) @
      [\<lparr>ir_face_id = f, ir_nonce = nc, ir_expires_at = now + ms * 1000000, ir_lp_pit_token = lt, ir_selector = sel,
        ir_persistent = ps, ir_trace_ids = []\<rparr>]"
    and "r \<noteq> Loop \<Longrightarrow> nc \<in> set (pe_nonces_seen e')" and "r \<noteq> Inserted"
  using assms
  by (auto simp: on_existing_entry_def Let_def add_in_record_simps split: if_splits option.splits)

lemma new_entry_result:
  "pe_in_records (fst (new_entry n f nc now ms lt sel ps)) =
     [\<lparr>ir_face_id = f, ir_nonce = nc, ir_expires_at = now + ms * 1000000, ir_lp_pit_token = lt, ir_selector = sel,
       ir_persistent = ps, ir_trace_ids = []\<rparr>]"
  "set (pe_nonces_seen (fst (new_entry n f nc now ms lt sel ps))) = {nc}"
  "snd (new_entry n f nc now ms lt sel ps) = Inserted" "pe_name (fst (new_entry n f nc now ms lt sel ps)) = n"
  "pe_persistent (fst (new_entry n f nc now ms lt sel ps)) = ps"
  by (auto simp: new_entry_def Let_def add_in_record_simps pit_entry_new_def split: option.split)

text \<open>The check-and-insert step, either closure: unless it is a loop, the Interest is pending afterwards.\<close>

lemma or_insert_pending:
  assumes w: "with_entry_or_insert t
      (on_existing_entry p2p (ctx_face_id ctx) (nonce_of i) (ctx_arrival ctx) (lifetime_of i) (ctx_lp_pit_token ctx) (int_selectors i) ps)
      (new_entry n (ctx_face_id ctx) (nonce_of i) (ctx_arrival ctx) (lifetime_of i) (ctx_lp_pit_token ctx) (int_selectors i) ps) p = (p', r)"
  shows "if r = Loop then \<forall>k x. pending_at p' k x = pending_at p k x
    else pending_at p' t (record_of ctx i ps) \<and> (\<forall>k. k \<noteq> t \<longrightarrow> map_of (pit_entries p') k = map_of (pit_entries p) k)"
proof -
  let ?f = "on_existing_entry p2p (ctx_face_id ctx) (nonce_of i) (ctx_arrival ctx) (lifetime_of i) (ctx_lp_pit_token ctx) (int_selectors i) ps"
  let ?n = "new_entry n (ctx_face_id ctx) (nonce_of i) (ctx_arrival ctx) (lifetime_of i) (ctx_lp_pit_token ctx) (int_selectors i) ps"
  have look: "map_of (pit_entries p') = (map_of (pit_entries p))(t \<mapsto>
      (case map_of (pit_entries p) t of Some e \<Rightarrow> fst (?f e) | None \<Rightarrow> fst ?n))"
    and r: "r = (case map_of (pit_entries p) t of Some e \<Rightarrow> snd (?f e) | None \<Rightarrow> snd ?n)"
    using look_or_insert [of t ?f ?n p] snd_or_insert [of t ?f ?n p] w by auto
  show ?thesis
  proof (cases "map_of (pit_entries p) t")
    case None
    then show ?thesis using look r by (auto simp: pending_at_def new_entry_result record_of_def)
  next
    case (Some e)
    obtain e' where e': "?f e = (e', r)" using r Some by (metis option.case(2) prod.collapse)
    note o = on_existing_entry_result [OF e']
    show ?thesis
      using look o(1,3) e' Some by (auto simp: pending_at_def record_of_def split: option.splits)
  qed
qed

text \<open>C6.
  Every Interest that is forwarded or aggregated is pending afterwards: the PIT holds an in-record with its face,
  nonce, selectors and link-layer token under the key the stage reports, and no other entry has changed. An Interest
  that is refused leaves all pending in-records as they were.\<close>

theorem pit_check_pending:
  assumes ctx: "ctx_packet ctx = InterestPacket i" and run: "pit_check_process H V ctx st = (a, st')"
  shows "(\<exists>ps. (a = ActContinue (ctx\<lparr>ctx_pit_token := Some (check_token H i ps)\<rparr>) \<or> a = ActDrop Suppressed) \<and>
      pending_at (pc_pit st') (check_token H i ps) (record_of ctx i ps) \<and>
      (\<forall>k. k \<noteq> check_token H i ps \<longrightarrow> map_of (pit_entries (pc_pit st')) k = map_of (pit_entries (pc_pit st)) k)) \<or>
    (a = ActDrop LoopDetected \<or> a = ActDrop InvalidPersistentRequest) \<and>
      (\<forall>k r. pending_at (pc_pit st') k r = pending_at (pc_pit st) k r)"
proof -
  obtain st1 b where g: "replay_rejected i st = (st1, b)" by fastforce
  have p1: "pc_pit st1 = pc_pit st" using replay_rejected_pit(1) [of i st] g by simp
  obtain res p where c: "check_persistent V ctx (pc_pit st1) = (res, p)" by fastforce
  have pe: "pit_entries p = pit_entries (pc_pit st)" using check_persistent_entries [of V ctx "pc_pit st1"] c p1 by simp
  show ?thesis
  proof (cases b)
    case True
    then show ?thesis using run pit_check_refused(1) [OF ctx] g p1 by (auto simp: pending_at_def)
  next
    case False
    note g' = g [unfolded False [THEN Eq_FalseI]]
    show ?thesis
    proof (cases res)
      case (Inl x)
      then show ?thesis
        using run pit_check_refused(2) [OF ctx] g' c check_persistent_refusal [of V ctx "pc_pit st1" x p] pe False
        by (auto simp: pending_at_def)
    next
      case (Inr ps)
      show ?thesis
      proof (cases "dead_nonce H i (ctx_arrival ctx) (pc_dnl st1)")
        case True
        then show ?thesis using run pit_check_refused(3) [OF ctx] g c Inr pe False by (auto simp: pending_at_def)
      next
        case alive: False
        obtain p' r where w: "with_entry_or_insert (check_token H i ps)
            (on_existing_entry (face_is_p2p st1 (ctx_face_id ctx)) (ctx_face_id ctx) (nonce_of i) (ctx_arrival ctx)
               (lifetime_of i) (ctx_lp_pit_token ctx) (int_selectors i) ps)
            (new_entry (int_name i) (ctx_face_id ctx) (nonce_of i) (ctx_arrival ctx) (lifetime_of i)
               (ctx_lp_pit_token ctx) (int_selectors i) ps) p = (p', r)" by fastforce
        have st': "a = result_action r (ctx\<lparr>ctx_pit_token := Some (check_token H i ps)\<rparr>)" "pc_pit st' = p'"
          using run pit_check_admitted [OF ctx _ _ alive w] g c Inr False by auto
        show ?thesis
          using or_insert_pending [OF w] st' pe by (cases r) (auto simp: result_action_def pending_at_def)
      qed
    qed
  qed
qed

section \<open>Dead nonces\<close>

definition nonces_held :: "pit \<Rightarrow> nat" where
  "nonces_held p = table_sum (\<lambda>e. length (pe_nonces_seen e)) (pit_entries p)"

text \<open>The Dead Nonce List can take every nonce that is pending without an eviction.\<close>

definition dnl_room :: "pit_match_stage \<Rightarrow> bool" where
  "dnl_room st \<longleftrightarrow> (case pm_dnl st of
     Some d \<Rightarrow> length (dnl_entries d) + nonces_held (pm_pit st) \<le> dnl_capacity d | None \<Rightarrow> True)"

definition remembered :: "nonce_fingerprint \<Rightarrow> u64 \<Rightarrow> dead_nonce_list option \<Rightarrow> bool" where
  "remembered fp now dnl \<longleftrightarrow> (case dnl of
     Some d \<Rightarrow> map_of (dnl_entries d) fp = Some (saturating_add now (dnl_lifetime_ns d)) | None \<Rightarrow> True)"

lemma dnl_inserts_room:
  fixes h now :: u64
  assumes "length (dnl_entries d) + length ns \<le> dnl_capacity d"
  defines "d' \<equiv> foldl (\<lambda>d nonce. dnl_insert \<lparr>nf_name_hash = h, nf_nonce = nonce\<rparr> now d) d ns"
  shows "length (dnl_entries d') \<le> length (dnl_entries d) + length ns \<and>
    dnl_capacity d' = dnl_capacity d \<and> dnl_lifetime_ns d' = dnl_lifetime_ns d \<and>
    map_of (dnl_entries d') fp = (if nf_name_hash fp = h \<and> nf_nonce fp \<in> set ns
      then Some (saturating_add now (dnl_lifetime_ns d)) else map_of (dnl_entries d) fp)"
  using assms(1) unfolding d'_def
proof (induction ns arbitrary: d)
  case (Cons n ns)
  let ?fp = "\<lparr>nf_name_hash = h, nf_nonce = n\<rparr>"
  let ?d = "d\<lparr>dnl_entries := AList.update ?fp (saturating_add now (dnl_lifetime_ns d)) (dnl_entries d)\<rparr>"
  have len: "length (dnl_entries ?d) \<le> Suc (length (dnl_entries d))" using length_update_le by simp
  then have ins: "dnl_insert ?fp now d = ?d" using Cons.prems by (simp add: dnl_insert_def Let_def)
  have room: "length (dnl_entries ?d) + length ns \<le> dnl_capacity ?d" using Cons.prems len by simp
  have fp: "fp = ?fp \<longleftrightarrow> nf_name_hash fp = h \<and> nf_nonce fp = n" by (cases fp) auto
  show ?case
    using Cons.IH [OF room] len fp by (auto simp: ins update_conv')
qed simp

lemma with_entry_mut_nonces:
  assumes "\<And>e. pe_nonces_seen (fst (f e)) = pe_nonces_seen e"
  shows "nonces_held (fst (with_entry_mut t f p)) = nonces_held p"
proof (cases "map_of (pit_entries p) t")
  case (Some e)
  obtain e' r where f: "f e = (e', r)" by fastforce
  have "length (pe_nonces_seen e') = length (pe_nonces_seen e)" using assms [of e] f by simp
  then show ?thesis
    using table_sum_update [of "\<lambda>e. length (pe_nonces_seen e)" t e' "pit_entries p"] Some
    by (simp add: with_entry_mut_def nonces_held_def f)
qed (simp add: with_entry_mut_def)

lemma persistent_match_keeps:
  "pe_nonces_seen (fst (persistent_match c e)) = pe_nonces_seen e" "pe_name (fst (persistent_match c e)) = pe_name e"
  by (simp_all add: persistent_match_def Let_def split: option.split)

text \<open>Whatever \<open>consume_entry\<close> does, it edits one entry and may then remove it, remembering its nonces.\<close>

lemma consume_effect:
  assumes "consume_entry H t c now (acc, st) = (acc', st')"
  obtains p where "nonces_held p = nonces_held (pm_pit st)" "\<And>k. k \<noteq> t \<Longrightarrow> map_of (pit_entries p) k = map_of (pit_entries (pm_pit st)) k"
    "st' = st\<lparr>pm_pit := p\<rparr> \<or> st' = fst (remove_and_remember H t now (st\<lparr>pm_pit := p\<rparr>))"
proof -
  let ?m = "with_entry_mut t (persistent_match c) (pm_pit st)"
  let ?f = "\<lambda>e. case drain_cbp (pe_in_records e) 0 [] of (rs, taken) \<Rightarrow> (e\<lparr>pe_in_records := rs\<rparr>, (taken, rs = []))"
  let ?d = "with_entry_mut t ?f (fst ?m)"
  have n1: "nonces_held (fst ?m) = nonces_held (pm_pit st)" by (rule with_entry_mut_nonces) (rule persistent_match_keeps)
  have n2: "nonces_held (fst ?d) = nonces_held (pm_pit st)"
    unfolding n1 [symmetric] by (rule with_entry_mut_nonces) (simp split: prod.split)
  have k1: "map_of (pit_entries (fst ?m)) k = map_of (pit_entries (pm_pit st)) k" if "k \<noteq> t" for k
    using that by (simp add: look_entry_mut split: option.split)
  have k2: "map_of (pit_entries (fst ?d)) k = map_of (pit_entries (pm_pit st)) k" if "k \<noteq> t" for k
    using that k1 [OF that] by (simp add: look_entry_mut [of t ?f] split: option.split)
  obtain p1 x where m: "?m = (p1, x)" by fastforce
  obtain p2 y where d: "?d = (p2, y)" by fastforce
  have d': "with_entry_mut t ?f p1 = (p2, y)" using d m by simp
  have "st' = st\<lparr>pm_pit := p1\<rparr> \<or> st' = st\<lparr>pm_pit := p2\<rparr> \<or> st' = fst (remove_and_remember H t now (st\<lparr>pm_pit := p1\<rparr>)) \<or>
      st' = fst (remove_and_remember H t now (st\<lparr>pm_pit := p2\<rparr>))"
    using assms m d'
    by (auto simp: consume_entry_def Let_def split: option.splits persistent_match_result.splits if_splits prod.splits)
  then show thesis using that [of p1] that [of p2] n1 n2 k1 k2 m d by auto
qed

lemma remember_room:
  assumes "dnl_room st" "map_of (pit_entries (pm_pit st)) t = Some e"
  shows "dnl_room (fst (remove_and_remember H t now st))"
    and "remembered fp now (pm_dnl st) \<or> nf_name_hash fp = full_name_hash H (if pe_persistent e \<noteq> None then strip_digest_components (pe_name e) else pe_name e) \<and>
        nf_nonce fp \<in> set (pe_nonces_seen e) \<Longrightarrow> remembered fp now (pm_dnl (fst (remove_and_remember H t now st)))"
proof -
  let ?g = "\<lambda>e. length (pe_nonces_seen e)"
  have rr: "fst (remove_and_remember H t now st) =
      st\<lparr>pm_pit := notify_remove e ((pm_pit st)\<lparr>pit_entries := AList.delete t (pit_entries (pm_pit st))\<rparr>),
         pm_dnl := insert_dead_nonces H e now (pm_dnl st)\<rparr>"
    by (simp add: remove_and_remember_def pit_remove_def assms(2))
  have held: "nonces_held (pm_pit (fst (remove_and_remember H t now st))) + ?g e \<le> nonces_held (pm_pit st)"
    using table_sum_delete [of ?g t "pit_entries (pm_pit st)"] assms(2) by (simp add: rr nonces_held_def)
  have "dnl_room (fst (remove_and_remember H t now st)) \<and>
    (remembered fp now (pm_dnl st) \<or> nf_name_hash fp = full_name_hash H (if pe_persistent e \<noteq> None then strip_digest_components (pe_name e) else pe_name e) \<and>
        nf_nonce fp \<in> set (pe_nonces_seen e) \<longrightarrow> remembered fp now (pm_dnl (fst (remove_and_remember H t now st))))"
  proof (cases "pm_dnl st")
    case None
    then show ?thesis by (simp add: rr dnl_room_def remembered_def insert_dead_nonces_def)
  next
    case (Some d)
    let ?h = "full_name_hash H (if pe_persistent e \<noteq> None then strip_digest_components (pe_name e) else pe_name e)"
    have "length (dnl_entries d) + ?g e \<le> dnl_capacity d" using assms(1) held Some by (simp add: dnl_room_def)
    note ins = dnl_inserts_room [OF this, of ?h now fp]
    show ?thesis
      using ins assms(1) held Some unfolding rr
      by (auto simp: dnl_room_def remembered_def insert_dead_nonces_def Let_def)
  qed
  then show "dnl_room (fst (remove_and_remember H t now st))"
    "remembered fp now (pm_dnl st) \<or> nf_name_hash fp = full_name_hash H (if pe_persistent e \<noteq> None then strip_digest_components (pe_name e) else pe_name e) \<and>
        nf_nonce fp \<in> set (pe_nonces_seen e) \<Longrightarrow> remembered fp now (pm_dnl (fst (remove_and_remember H t now st)))"
    by auto
qed

lemma consume_keeps_dead:
  assumes "dnl_room st" "consume_entry H t c now (acc, st) = (acc', st')"
  shows "dnl_room st'" and "remembered fp now (pm_dnl st) \<Longrightarrow> remembered fp now (pm_dnl st')"
proof -
  from assms(2) obtain p where p: "nonces_held p = nonces_held (pm_pit st)"
    "st' = st\<lparr>pm_pit := p\<rparr> \<or> st' = fst (remove_and_remember H t now (st\<lparr>pm_pit := p\<rparr>))"
    by (rule consume_effect) blast
  have room: "dnl_room (st\<lparr>pm_pit := p\<rparr>)" using assms(1) p(1) by (simp add: dnl_room_def split: option.splits)
  have none: "map_of (pit_entries p) t = None \<Longrightarrow> fst (remove_and_remember H t now (st\<lparr>pm_pit := p\<rparr>)) = st\<lparr>pm_pit := p\<rparr>"
    by (simp add: remove_and_remember_def pit_remove_def)
  show "dnl_room st'"
    using p(2) room none remember_room(1) [OF room, of t _ H now] by (cases "map_of (pit_entries p) t") auto
  show "remembered fp now (pm_dnl st')" if "remembered fp now (pm_dnl st)"
    using that p(2) room none remember_room(2) [OF room, of t _ fp now H] by (cases "map_of (pit_entries p) t") auto
qed

lemma consume_all_keeps_dead:
  assumes "dnl_room st" "remembered fp now (pm_dnl st)" "consume_all H now (acc, st) plan = (acc', st')"
  shows "remembered fp now (pm_dnl st')"
  using assms
proof (induction plan arbitrary: acc st)
  case (Cons x plan)
  obtain t c where x: "x = (t, c)" by fastforce
  obtain acc1 st1 where step: "consume_entry H t c now (acc, st) = (acc1, st1)" by fastforce
  show ?case
    using Cons.IH [OF consume_keeps_dead(1) [OF Cons.prems(1) step] consume_keeps_dead(2) [OF Cons.prems(1) step Cons.prems(2)]]
      Cons.prems(3) step by (simp add: x)
qed simp

lemma consume_exact_remembers:
  assumes "dnl_room st" "map_of (pit_entries (pm_pit st)) t = Some e" "classical_entry e" "n \<in> set (pe_nonces_seen e)"
    "consume_entry H t False now (acc, st) = (acc', st')"
  shows "remembered \<lparr>nf_name_hash = full_name_hash H (pe_name e), nf_nonce = n\<rparr> now (pm_dnl st')"
proof -
  let ?p = "(pm_pit st)\<lparr>pit_entries := AList.update t e (pit_entries (pm_pit st))\<rparr>"
  have look: "map_of (pit_entries ?p) t = Some e" by (simp add: update_conv')
  have "nonces_held ?p = nonces_held (pm_pit st)"
    using table_sum_update [of "\<lambda>e. length (pe_nonces_seen e)" t e "pit_entries (pm_pit st)"] assms(2) by (simp add: nonces_held_def)
  then have room: "dnl_room (st\<lparr>pm_pit := ?p\<rparr>)" using assms(1) by (simp add: dnl_room_def split: option.splits)
  have "with_entry_mut t (persistent_match False) (pm_pit st) = (?p, Some ClassicalMatch)"
    by (simp add: with_entry_mut_def assms(2) persistent_match_classical [OF assms(3)])
  moreover have "snd (remove_and_remember H t now (st\<lparr>pm_pit := ?p\<rparr>)) = Some e"
    using remove_and_remember_pit(2) [of H t now "st\<lparr>pm_pit := ?p\<rparr>"] look by simp
  ultimately have "st' = fst (remove_and_remember H t now (st\<lparr>pm_pit := ?p\<rparr>))"
    using assms(5) by (auto simp: consume_entry_def Let_def split: prod.splits option.splits)
  moreover have "pe_persistent e = None" using assms(3) by (simp add: classical_entry_def)
  ultimately show ?thesis
    using remember_room(2) [OF room, of t e "\<lparr>nf_name_hash = full_name_hash H (pe_name e), nf_nonce = n\<rparr>" now H] look assms(4) by simp
qed

text \<open>Satisfying an entry makes the nonces it has seen dead.\<close>

lemma satisfied_nonces_dead:
  assumes data: "ctx_packet ctx = DataPacket d" "ctx_name_hashes ctx = None \<or> ctx_name_hashes ctx = Some (name_hashes_compute H (data_name d))"
    and e: "map_of (pit_entries (pm_pit st)) (from_name_hash_keyed H (full_name_hash H (data_name d)) None Classical) = Some e"
      "classical_entry e" "pe_name e = data_name d" "n \<in> set (pe_nonces_seen e)"
    and room: "dnl_room st" and run: "pit_match_process H ctx st = (a, st')"
  shows "remembered \<lparr>nf_name_hash = full_name_hash H (data_name d), nf_nonce = n\<rparr> (ctx_arrival ctx) (pm_dnl st')"
proof -
  let ?now = "ctx_arrival ctx"
  let ?fp = "\<lparr>nf_name_hash = full_name_hash H (data_name d), nf_nonce = n\<rparr>"
  let ?tp = "from_name_hash_keyed H (full_name_hash H (data_name d)) None PersistentAttach"
  let ?tc = "from_name_hash_keyed H (full_name_hash H (data_name d)) None Classical"
  obtain rest where plan: "data_plan H (data_name d) = (?tp, False) # (?tc, False) # rest" by (simp add: data_plan_def)
  obtain acc1 st1 where s1: "consume_entry H ?tp False ?now (match_acc_new, st) = (acc1, st1)" by fastforce
  obtain acc2 st2 where s2: "consume_entry H ?tc False ?now (acc1, st1) = (acc2, st2)" by fastforce
  obtain acc' st'' where s3: "consume_all H ?now (acc2, st2) rest = (acc', st'')" by fastforce
  have all: "consume_all H ?now (match_acc_new, st) (data_plan H (data_name d)) = (acc', st'')"
    by (simp add: plan s1 s2 s3)
  then have st': "st' = st''" using run pit_match_process_plan [OF data] by simp
  note r1 = consume_keeps_dead [OF room s1]
  note r2 = consume_keeps_dead [OF r1(1) s2]
  have "remembered ?fp ?now (pm_dnl st2)"
  proof (cases "?tp = ?tc")
    case True
    then have "remembered ?fp ?now (pm_dnl st1)" using consume_exact_remembers [OF room _ e(2,4), of ?tp] e(1,3) s1 by metis
    then show ?thesis by (rule r2(2))
  next
    case False
    from s1 obtain p where p: "\<And>k. k \<noteq> ?tp \<Longrightarrow> map_of (pit_entries p) k = map_of (pit_entries (pm_pit st)) k"
      "st1 = st\<lparr>pm_pit := p\<rparr> \<or> st1 = fst (remove_and_remember H ?tp ?now (st\<lparr>pm_pit := p\<rparr>))"
      by (rule consume_effect) blast
    have "map_of (pit_entries (pm_pit st1)) ?tc = Some e"
      using p(2) p(1) [of ?tc] False e(1) remove_and_remember_pit(1) [of H ?tp ?now "st\<lparr>pm_pit := p\<rparr>"] by auto
    then show ?thesis using consume_exact_remembers [OF r1(1) _ e(2,4) s2] e(3) by simp
  qed
  then show ?thesis unfolding st' by (rule consume_all_keeps_dead [OF r2(1) _ s3])
qed

lemma insert_dead_lifetime: "map_option dnl_lifetime_ns (insert_dead_nonces H e now dnl) = map_option dnl_lifetime_ns dnl"
proof -
  have one: "dnl_lifetime_ns (dnl_insert fp now d) = dnl_lifetime_ns d" for fp d
    by (simp add: dnl_insert_def dnl_enforce_capacity_def dnl_purge_expired_def Let_def)
  have "dnl_lifetime_ns (foldl (\<lambda>d nonce. dnl_insert \<lparr>nf_name_hash = h, nf_nonce = nonce\<rparr> now d) d ns) = dnl_lifetime_ns d" for h d ns
    by (induction ns arbitrary: d) (simp_all add: one)
  then show ?thesis by (simp add: insert_dead_nonces_def Let_def split: option.split)
qed

lemma consume_lifetime:
  "consume_entry H t c now (acc, st) = (acc', st') \<Longrightarrow> map_option dnl_lifetime_ns (pm_dnl st') = map_option dnl_lifetime_ns (pm_dnl st)"
  by (erule consume_effect)
    (auto simp: remove_and_remember_def insert_dead_lifetime split: prod.splits option.splits)

lemma consume_all_lifetime:
  "consume_all H now (acc, st) plan = (acc', st') \<Longrightarrow> map_option dnl_lifetime_ns (pm_dnl st') = map_option dnl_lifetime_ns (pm_dnl st)"
proof (induction plan arbitrary: acc st)
  case (Cons x plan)
  obtain t c where x: "x = (t, c)" by fastforce
  obtain acc1 st1 where step: "consume_entry H t c now (acc, st) = (acc1, st1)" by fastforce
  show ?case using Cons.IH [of acc1 st1] Cons.prems step consume_lifetime [OF step] by (simp add: x)
qed simp

lemma pit_match_lifetime:
  assumes "ctx_packet ctx = DataPacket d" "ctx_name_hashes ctx = None \<or> ctx_name_hashes ctx = Some (name_hashes_compute H (data_name d))"
    "pit_match_process H ctx st = (a, st')"
  shows "map_option dnl_lifetime_ns (pm_dnl st') = map_option dnl_lifetime_ns (pm_dnl st)"
proof -
  obtain acc st'' where run: "consume_all H (ctx_arrival ctx) (match_acc_new, st) (data_plan H (data_name d)) = (acc, st'')"
    by fastforce
  then show ?thesis using consume_all_lifetime [OF run] pit_match_process_plan [OF assms(1,2) run] assms(3) by simp
qed


section \<open>Subscriptions pay for what they get\<close>

lemma swap_remove_below: "j < i \<Longrightarrow> i < length xs \<Longrightarrow> swap_remove i xs ! j = xs ! j"
  by (simp add: swap_remove_def nth_butlast)

lemma swap_removes:
  assumes "sorted_wrt (<) is" "\<forall>i \<in> set is. i < length xs"
  shows "mset (foldl (\<lambda>rs i. swap_remove i rs) xs (rev is)) = mset xs - mset (map ((!) xs) is)"
  using assms
proof (induction "is" arbitrary: xs rule: rev_induct)
  case (snoc i js)
  have js: "\<forall>j \<in> set js. j < i" and i: "i < length xs" using snoc.prems by (auto simp: sorted_wrt_append)
  have "mset (foldl (\<lambda>rs i. swap_remove i rs) (swap_remove i xs) (rev js)) =
      mset (swap_remove i xs) - mset (map ((!) (swap_remove i xs)) js)"
    using snoc.prems js i by (intro snoc.IH) (auto simp: sorted_wrt_append swap_remove_def)
  moreover have "map ((!) (swap_remove i xs)) js = map ((!) xs) js" using js i by (auto simp: swap_remove_below)
  ultimately show ?case using i by (simp add: mset_swap_remove)
qed simp

lemma swap_removes_filter:
  "mset (foldl (\<lambda>rs i. swap_remove i rs) xs (rev (filter (\<lambda>i. P (xs ! i)) [0..<length xs]))) = filter_mset (\<lambda>x. \<not> P x) (mset xs)"
proof -
  let ?is = "filter (\<lambda>i. P (xs ! i)) [0..<length xs]"
  have sel: "map ((!) xs) ?is = filter P xs"
    using filter_map [of P "(!) xs" "[0..<length xs]"] by (simp add: map_nth comp_def)
  have part: "mset xs - filter_mset P (mset xs) = filter_mset (\<lambda>x. \<not> P x) (mset xs)"
    by (simp add: multiset_eq_iff)
  have srt: "sorted_wrt (<) ?is" by (simp add: sorted_wrt_filter)
  have bnd: "\<forall>i \<in> set ?is. i < length xs" by simp
  show ?thesis unfolding swap_removes [OF srt bnd] sel mset_filter by (rule part)
qed

definition credit :: "in_record \<Rightarrow> u32" where
  "credit r = (case ir_persistent r of Some ps \<Rightarrow> ps_data_count_remaining ps | None \<Rightarrow> 0)"

definition charge :: "in_record \<Rightarrow> in_record" where
  "charge r = r\<lparr>ir_persistent := map_option (\<lambda>ps. ps\<lparr>ps_data_count_remaining := ps_data_count_remaining ps - 1\<rparr>) (ir_persistent r)\<rparr>"

definition subscribed :: "pit_entry \<Rightarrow> bool" where
  "subscribed e \<longleftrightarrow> pe_in_records e \<noteq> [] \<and> list_all (\<lambda>r. credit r \<noteq> 0) (pe_in_records e)"

lemma charge_record_subscribed:
  "credit r \<noteq> 0 \<Longrightarrow> charge_record False b r = (charge r, Some (ir_face_id r, ir_lp_pit_token r), credit r = 1)"
  by (cases "ir_persistent r")
    (auto simp: charge_record_def charge_def credit_def Let_def word_neq_0_conv)

lemma persistent_match_subscribed:
  assumes "subscribed e"
  shows "\<exists>e'. persistent_match False e = (e', Matched (map ir_face_id (pe_in_records e)) (map ir_lp_pit_token (pe_in_records e))
      (\<forall>r \<in> set (pe_in_records e). credit r = 1)) \<and>
    mset (pe_in_records e') = image_mset charge (filter_mset (\<lambda>r. credit r \<noteq> 1) (mset (pe_in_records e)))"
proof -
  let ?rs = "pe_in_records e"
  have cr: "\<And>r. r \<in> set ?rs \<Longrightarrow> credit r \<noteq> 0" using assms by (auto simp: subscribed_def list_all_iff)
  have per: "ir_persistent r \<noteq> None" if "r \<in> set ?rs" for r
    using cr [OF that] by (cases "ir_persistent r") (simp_all add: credit_def)
  have any: "list_ex (\<lambda>r. ir_persistent r \<noteq> None \<and> (\<not> False \<or> can_be_prefix (ir_selector r))) ?rs"
    using assms per by (cases ?rs) (auto simp: subscribed_def)
  have ch: "map (charge_record False b) ?rs = map (\<lambda>r. (charge r, Some (ir_face_id r, ir_lp_pit_token r), credit r = 1)) ?rs" for b
    using cr by (simp add: charge_record_subscribed)
  have out: "List.map_filter (\<lambda>(_, x, _). x) (map (\<lambda>r. (charge r, Some (ir_face_id r, ir_lp_pit_token r), credit r = 1)) ?rs) =
      map (\<lambda>r. (ir_face_id r, ir_lp_pit_token r)) ?rs"
    by (simp add: List.map_filter_def comp_def)
  define xs where "xs = map charge ?rs"
  define ex where "ex = filter (\<lambda>i. credit (?rs ! i) = 1) [0..<length ?rs]"
  have exh: "filter (\<lambda>i. snd (snd (map (\<lambda>r. (charge r, Some (ir_face_id r, ir_lp_pit_token r), credit r = 1)) ?rs ! i)))
      [0..<length (map (\<lambda>r. (charge r, Some (ir_face_id r, ir_lp_pit_token r), credit r = 1)) ?rs)] = ex"
    by (auto simp: ex_def intro: filter_cong)
  define left where "left = foldl (\<lambda>rs i. swap_remove i rs) xs (rev ex)"
  have cc: "credit (charge r) = credit r - 1" if "r \<in> set ?rs" for r
    using per [OF that] by (auto simp: credit_def charge_def)
  have ex': "ex = filter (\<lambda>i. credit (xs ! i) = 0) [0..<length xs]"
    unfolding ex_def xs_def by (rule filter_cong) (auto simp: cc)
  have left: "mset left = image_mset charge (filter_mset (\<lambda>r. credit r \<noteq> 1) (mset ?rs))"
  proof -
    have "mset left = filter_mset (\<lambda>x. credit x \<noteq> 0) (mset xs)"
      unfolding left_def ex' by (rule swap_removes_filter)
    also have "\<dots> = mset (filter (\<lambda>x. credit x \<noteq> 0) (map charge ?rs))" by (simp add: xs_def flip: mset_filter mset_map)
    also have "filter (\<lambda>x. credit x \<noteq> 0) (map charge ?rs) = map charge (filter (\<lambda>r. credit r \<noteq> 1) ?rs)"
      unfolding filter_map by (rule arg_cong [where f = "map charge"], rule filter_cong) (auto simp: cc)
    finally show ?thesis by simp
  qed
  have "set left = charge ` {r \<in> set ?rs. credit r \<noteq> 1}" using arg_cong [OF left, of set_mset] by auto
  then have none: "\<not> list_ex (\<lambda>r. ir_persistent r \<noteq> None) left \<longleftrightarrow> (\<forall>r \<in> set ?rs. credit r = 1)"
    using per by (auto simp: list_ex_iff charge_def)
  show ?thesis
    unfolding persistent_match_def Let_def ch out exh
    using any none left by (simp add: left_def xs_def comp_def split: option.split)
qed

text \<open>C16.
  A Data packet charges each subscription once. Every subscriber of a persistent entry receives it, its credit
  drops by one, the subscriptions that have used up their credit are dropped, and the entry is removed exactly
  when none is left.\<close>

theorem subscription_charged:
  assumes look: "map_of (pit_entries (pm_pit st)) t = Some e" and sub: "subscribed e" and ok: "acc_ok acc"
    and run: "consume_entry H t False now (acc, st) = (acc', st')"
  shows "set (ma_faces acc') = set (ma_faces acc) \<union> ir_face_id ` set (pe_in_records e) \<and>
    (if \<forall>r \<in> set (pe_in_records e). credit r = 1 then map_of (pit_entries (pm_pit st')) t = None
     else \<exists>e'. map_of (pit_entries (pm_pit st')) t = Some e' \<and>
       mset (pe_in_records e') = image_mset charge (filter_mset (\<lambda>r. credit r \<noteq> 1) (mset (pe_in_records e))))"
proof -
  let ?all = "\<forall>r \<in> set (pe_in_records e). credit r = 1"
  from persistent_match_subscribed [OF sub] obtain e' where
    m: "persistent_match False e = (e', Matched (map ir_face_id (pe_in_records e)) (map ir_lp_pit_token (pe_in_records e)) ?all)"
    and e': "mset (pe_in_records e') = image_mset charge (filter_mset (\<lambda>r. credit r \<noteq> 1) (mset (pe_in_records e)))" by blast
  let ?p = "(pm_pit st)\<lparr>pit_entries := AList.update t e' (pit_entries (pm_pit st))\<rparr>"
  have w: "with_entry_mut t (persistent_match False) (pm_pit st) =
      (?p, Some (Matched (map ir_face_id (pe_in_records e)) (map ir_lp_pit_token (pe_in_records e)) ?all))"
    by (simp add: with_entry_mut_def look m)
  have acc': "acc' = foldl (\<lambda>acc (f, t). add_face f t acc) acc (zip (map ir_face_id (pe_in_records e)) (map ir_lp_pit_token (pe_in_records e)))"
    and st': "st' = (if ?all then fst (remove_and_remember H t now (st\<lparr>pm_pit := ?p\<rparr>)) else st\<lparr>pm_pit := ?p\<rparr>)"
    using run by (simp_all add: consume_entry_def w Let_def)
  have "fst ` set (zip (map ir_face_id (pe_in_records e)) (map ir_lp_pit_token (pe_in_records e))) = ir_face_id ` set (pe_in_records e)"
    by (metis length_map list.set_map map_fst_zip)
  then have "set (ma_faces acc') = set (ma_faces acc) \<union> ir_face_id ` set (pe_in_records e)"
    using add_faces [OF ok, of "zip (map ir_face_id (pe_in_records e)) (map ir_lp_pit_token (pe_in_records e))"]
    unfolding acc' by simp
  moreover have "map_of (pit_entries (pm_pit st')) t = (if ?all then None else Some e')"
    using remove_and_remember_pit(1) [of H t now "st\<lparr>pm_pit := ?p\<rparr>"] unfolding st' by (simp add: update_conv')
  ultimately show ?thesis using e' by simp
qed

section \<open>Names with an implicit digest\<close>

text \<open>C23.
  An Interest that names a Data packet by its implicit digest is not satisfied by that packet. It is filed under
  its full name, while the packet looks up its own name and prefixes; as long as different names have different
  keys, it stays pending, and if nothing else is pending the packet is taken for unsolicited.\<close>

theorem implicit_digest_interest_starves:
  assumes data: "ctx_packet ctx = DataPacket d" "ctx_name_hashes ctx = None \<or> ctx_name_hashes ctx = Some (name_hashes_compute H (data_name d))"
      "ctx_out_faces ctx = []" "ctx_out_pit_tokens ctx = []" "\<not> ctx_unsolicited ctx"
    and st: "classical_pit (pm_pit st)" "pit_match_process H ctx st = (a, st')"
    and i: "int_name i = append_implicit_digest (data_name d) (implicit_digest sha256 d)" "int_app_parameters i = None"
    and keys: "collision_free H (insert (int_name i) (own_names (data_name d)))"
    and r: "pending_at (pm_pit st) (check_token H i None) r"
  shows "pending_at (pm_pit st') (check_token H i None) r \<and>
    ((\<forall>k r'. pending_at (pm_pit st) k r' \<longrightarrow> k = check_token H i None) \<longrightarrow>
      (\<exists>ctx'. a = ActContinue ctx' \<and> ctx_out_faces ctx' = [] \<and> ctx_unsolicited ctx'))"
proof -
  have token: "check_token H i None = pit_key H (int_name i) Classical"
    using i(2) by (simp add: check_token_def pit_key_def pit_key_name_def from_name_hash_keyed_def)
  have "\<not> answers (int_name i) c (data_name d)" for c
    by (auto simp: answers_def i(1) append_implicit_digest_def dest: prefix_length_less)
  then have "\<not> satisfies (data_plan H (data_name d)) (check_token H i None) r" for r
    using satisfies_answers [OF keys] by (simp add: token)
  moreover from this have none: "ir_face_id ` {r'. \<exists>k. pending_at (pm_pit st) k r' \<and> satisfies (data_plan H (data_name d)) k r'} = {}"
    if "\<forall>k r'. pending_at (pm_pit st) k r' \<longrightarrow> k = check_token H i None" using that by blast
  moreover obtain ctx' where c: "a = ActContinue ctx'" "set (ctx_out_faces ctx') =
      ir_face_id ` {r'. \<exists>k. pending_at (pm_pit st) k r' \<and> satisfies (data_plan H (data_name d)) k r'}"
      "\<forall>k r'. pending_at (pm_pit st') k r' \<longleftrightarrow> pending_at (pm_pit st) k r' \<and> \<not> satisfies (data_plan H (data_name d)) k r'"
      "ctx_unsolicited ctx' \<longleftrightarrow> ctx_out_faces ctx' = []"
    using pit_match_classical [OF data st(1)] st(2) by auto
  moreover have "ctx_out_faces ctx' = []" if "\<forall>k r'. pending_at (pm_pit st) k r' \<longrightarrow> k = check_token H i None"
    using none [OF that] unfolding c(2) [symmetric] by simp
  ultimately show ?thesis using r by simp
qed

section \<open>Concrete exchanges\<close>

definition sample_interest :: interest where
  "sample_interest = \<lparr>int_raw = nonce_wire sample_name 7, int_name = sample_name\<rparr>"

definition sample_ctx :: packet_context where
  "sample_ctx = interest_context sample_env sample_interest (nonce_wire sample_name 7) 1 5 0"

definition sample_check :: pit_check_stage where
  "sample_check = \<lparr>pc_pit = pit_new, pc_face_table = [], pc_dnl = Some (dnl_with_lifetime_and_capacity 6000000000 100), pc_guard = None\<rparr>"

lemmas sample_fields = nonce_wire_decodes [OF sample_wire, folded sample_interest_def]

lemma sample_ctx_fields:
  "ctx_packet sample_ctx = InterestPacket sample_interest" "ctx_face_id sample_ctx = 1" "ctx_arrival sample_ctx = 5"
  "ctx_lp_pit_token sample_ctx = None"
  by (simp_all add: sample_ctx_def interest_context_def packet_context_new_def set_name_def sample_interest_def)

lemma sample_interest_name: "int_name sample_interest = sample_name"
  by (simp add: sample_interest_def)

lemma sample_nonce: "nonce_of sample_interest = 7"
  by (simp add: nonce_of_def sample_fields)

definition sample_token :: u64 where
  "sample_token = check_token (de_hasher sample_env) sample_interest None"

lemma sample_token_key:
  "sample_token = from_name_hash_keyed (de_hasher sample_env) (full_name_hash (de_hasher sample_env) sample_name) None Classical"
  by (simp add: sample_token_def check_token_def pit_key_name_def sample_fields(6,8)) (simp add: sample_interest_def)

definition sample_entry :: pit_entry where
  "sample_entry = fst (new_entry sample_name 1 7 5 4000 None selector_default None)"

lemma sample_check_run:
  "pit_check_process (de_hasher sample_env) None sample_ctx sample_check =
     (ActContinue (sample_ctx\<lparr>ctx_pit_token := Some sample_token\<rparr>),
      sample_check\<lparr>pc_pit := pit_new\<lparr>pit_entries := [(sample_token, sample_entry)]\<rparr>\<rparr>)"
proof -
  have "replay_rejected sample_interest sample_check = (sample_check, False)" by (simp add: replay_rejected_def sample_check_def)
  moreover have "check_persistent None sample_ctx (pc_pit sample_check) = (Inr None, pc_pit sample_check)"
    by (simp add: check_persistent_def sample_ctx_fields sample_fields)
  moreover have "\<not> dead_nonce (de_hasher sample_env) sample_interest (ctx_arrival sample_ctx) (pc_dnl sample_check)"
    by (simp add: dead_nonce_def sample_check_def dnl_with_lifetime_and_capacity_def dnl_contains_def)
  moreover have "with_entry_or_insert (check_token (de_hasher sample_env) sample_interest None) f
      (new_entry (int_name sample_interest) (ctx_face_id sample_ctx) (nonce_of sample_interest) (ctx_arrival sample_ctx)
         (lifetime_of sample_interest) (ctx_lp_pit_token sample_ctx) (int_selectors sample_interest) None) (pc_pit sample_check) =
      (pit_new\<lparr>pit_entries := [(sample_token, sample_entry)]\<rparr>, Inserted)" for f
    unfolding sample_nonce sample_ctx_fields lifetime_of_def sample_fields
    by (simp add: with_entry_or_insert_def sample_check_def pit_new_def sample_token_def sample_entry_def sample_interest_def
        new_entry_result split: prod.split) (metis fst_conv new_entry_result(3) snd_conv)
  ultimately show ?thesis
    using pit_check_admitted [OF sample_ctx_fields(1)] by (simp add: result_action_def sample_token_def)
qed

theorem pit_check_pending_witness:
  "\<exists>ps. check_token (de_hasher sample_env) sample_interest ps = sample_token \<and>
     pending_at (pit_new\<lparr>pit_entries := [(sample_token, sample_entry)]\<rparr>) sample_token (record_of sample_ctx sample_interest ps)"
proof -
  have neq: "sample_ctx\<lparr>ctx_pit_token := Some x\<rparr> = sample_ctx\<lparr>ctx_pit_token := Some y\<rparr> \<Longrightarrow> x = y" for x y
    by (metis option.inject packet_context.select_convs(6) packet_context.surjective packet_context.update_convs(6))
  show ?thesis
    using pit_check_pending [OF sample_ctx_fields(1) sample_check_run] neq by (auto simp: sample_check_def) metis+
qed

definition sample_data_packet :: data where
  "sample_data_packet = \<lparr>data_raw = [], signed_start = 0, signed_end = 0, sig_value_start = 0, sig_value_end = 0,
     data_name = sample_name, data_content_sha256 = None\<rparr>"

definition sample_data_ctx :: packet_context where
  "sample_data_ctx = (packet_context_new [] 2 6)\<lparr>ctx_packet := DataPacket sample_data_packet\<rparr>"

definition sample_match :: pit_match_stage where
  "sample_match = \<lparr>pm_pit = pit_new\<lparr>pit_entries := [(sample_token, sample_entry)]\<rparr>, pm_dnl = pc_dnl sample_check\<rparr>"

lemma sample_data_fields:
  "ctx_packet sample_data_ctx = DataPacket sample_data_packet" "ctx_name_hashes sample_data_ctx = None"
  "ctx_out_faces sample_data_ctx = []" "ctx_out_pit_tokens sample_data_ctx = []" "\<not> ctx_unsolicited sample_data_ctx"
  "ctx_arrival sample_data_ctx = 6" "data_name sample_data_packet = sample_name"
  by (simp_all add: sample_data_ctx_def packet_context_new_def sample_data_packet_def)

lemma sample_entry_fields:
  "classical_entry sample_entry" "pe_name sample_entry = sample_name" "set (pe_nonces_seen sample_entry) = {7}"
  "length (pe_nonces_seen sample_entry) = 1" "ir_face_id ` set (pe_in_records sample_entry) = {1}"
  by (simp_all add: sample_entry_def classical_entry_def new_entry_result)
    (simp add: new_entry_def pit_entry_new_def add_in_record_with_persistent_def add_in_record_inner_def Let_def)

lemma sample_match_classical: "classical_pit (pm_pit sample_match)"
  by (simp add: classical_pit_def sample_match_def pit_new_def sample_entry_fields(1))

lemma sample_plan: "(sample_token, False) \<in> set (data_plan (de_hasher sample_env) sample_name)"
  by (simp add: data_plan_def sample_token_key)

lemma sample_disc: "(UNIV :: pit_key_discriminator set) = {Classical, PersistentAttach}"
  using pit_key_discriminator.exhaust by auto

lemma sample_keys:
  "own_names sample_name = {take 1 sample_name, sample_name}" "sample_token = pit_key (de_hasher sample_env) sample_name Classical"
  "collision_free (de_hasher sample_env) (own_names sample_name)"
proof -
  show own: "own_names sample_name = {take 1 sample_name, sample_name}"
    by (auto simp: own_names_def sample_name_def prefix_Cons)
  show "sample_token = pit_key (de_hasher sample_env) sample_name Classical" by (simp add: sample_token_key pit_key_def)
  show "collision_free (de_hasher sample_env) (own_names sample_name)"
    unfolding collision_free_def own inj_on_def sample_disc
    by (simp add: pit_key_def from_name_hash_keyed_def full_name_hash_def sample_env_def hash_accumulate_def HASH_MIX_def sample_name_def)
qed

theorem data_follows_interests_witness:
  "\<exists>ctx' st'. pit_match_process (de_hasher sample_env) sample_data_ctx sample_match = (ActContinue ctx', st') \<and>
     set (ctx_out_faces ctx') = {1} \<and> \<not> ctx_unsolicited ctx'"
proof -
  let ?H = "de_hasher sample_env"
  have "pending_at (pm_pit sample_match) (pit_key ?H sample_name Classical) r \<longleftrightarrow> r \<in> set (pe_in_records sample_entry)" for r
    by (simp add: pending_at_def sample_match_def pit_new_def sample_keys(2))
  then have "ir_face_id ` {r. \<exists>m \<in> {sample_name}. pending_at (pm_pit sample_match) (pit_key ?H m Classical) r \<and>
      answers m (can_be_prefix (ir_selector r)) sample_name} = {1}"
    using sample_entry_fields(5) by (simp add: answers_def)
  moreover have "fst ` set (pit_entries (pm_pit sample_match)) \<subseteq> (\<lambda>m. pit_key ?H m Classical) ` {sample_name}"
    by (simp add: sample_match_def sample_keys(2))
  moreover have "{sample_name} \<union> own_names sample_name = own_names sample_name" by (auto simp: own_names_def)
  ultimately show ?thesis
    using data_follows_interests [OF sample_data_fields(1) _ sample_data_fields(3-5) sample_match_classical, where H = ?H and N = "{sample_name}"]
      sample_keys(3) by (auto simp: sample_data_fields)
qed

lemma sample_match_room: "dnl_room sample_match"
  by (simp add: dnl_room_def sample_match_def sample_check_def dnl_with_lifetime_and_capacity_def nonces_held_def
      table_sum_def pit_new_def sample_entry_fields(4))


definition sample_subscription :: pit_entry where
  "sample_subscription = fst (new_entry sample_name 3 8 5 4000 None selector_default
     (Some \<lparr>ps_data_count_remaining = 2, ps_reap_at = 1000, ps_subscription_id = None\<rparr>))"

theorem subscription_charged_witness:
  "\<exists>acc' st' e'. consume_entry (de_hasher sample_env) 9 False 6 (match_acc_new, \<lparr>pm_pit = pit_new\<lparr>pit_entries := [(9, sample_subscription)]\<rparr>, pm_dnl = None\<rparr>) = (acc', st') \<and>
     set (ma_faces acc') = {3} \<and> map_of (pit_entries (pm_pit st')) 9 = Some e' \<and>
     image_mset credit (mset (pe_in_records e')) = {#1#}"
proof -
  let ?st = "\<lparr>pm_pit = pit_new\<lparr>pit_entries := [(9, sample_subscription)]\<rparr>, pm_dnl = None\<rparr>"
  obtain acc' st' where run: "consume_entry (de_hasher sample_env) 9 False 6 (match_acc_new, ?st) = (acc', st')" by fastforce
  have look: "map_of (pit_entries (pm_pit ?st)) 9 = Some sample_subscription" by (simp add: pit_new_def)
  have rs: "pe_in_records sample_subscription = [\<lparr>ir_face_id = 3, ir_nonce = 8, ir_expires_at = 5 + 4000 * 1000000,
      ir_lp_pit_token = None, ir_selector = selector_default,
      ir_persistent = Some \<lparr>ps_data_count_remaining = 2, ps_reap_at = 1000, ps_subscription_id = None\<rparr>, ir_trace_ids = []\<rparr>]"
    by (simp add: sample_subscription_def new_entry_result)
  have "subscribed sample_subscription" by (simp add: subscribed_def rs credit_def)
  moreover have "acc_ok match_acc_new" "ma_faces match_acc_new = []" by (simp_all add: acc_ok_def match_acc_new_def)
  ultimately show ?thesis
    using subscription_charged [OF look _ _ run] run by (auto simp: rs credit_def charge_def)
qed

definition sample_digest_interest :: interest where
  "sample_digest_interest = \<lparr>int_raw = [], int_name = append_implicit_digest sample_name [0x63, 0x64]\<rparr>"

lemma sample_digest_fields:
  "int_app_parameters sample_digest_interest = None" "int_forwarding_hint sample_digest_interest = None"
  by (simp_all add: sample_digest_interest_def int_app_parameters_def decode_app_params_def int_forwarding_hint_def
      decode_forwarding_hint_def scan_first_def scan_packet_def ok_flatten_def)

lemma sample_digest_keys: "collision_free (de_hasher sample_env) (insert (int_name sample_digest_interest) (own_names sample_name))"
  unfolding collision_free_def sample_keys(1) inj_on_def sample_disc
  by (simp add: pit_key_def from_name_hash_keyed_def full_name_hash_def sample_env_def hash_accumulate_def HASH_MIX_def sample_name_def
      sample_digest_interest_def append_implicit_digest_def)

theorem implicit_digest_interest_starves_witness:
  "\<exists>a st'. pit_match_process (de_hasher sample_env) sample_data_ctx
     \<lparr>pm_pit = pit_new\<lparr>pit_entries := [(check_token (de_hasher sample_env) sample_digest_interest None, sample_entry)]\<rparr>, pm_dnl = None\<rparr> = (a, st') \<and>
     pending_at (pm_pit st') (check_token (de_hasher sample_env) sample_digest_interest None) (hd (pe_in_records sample_entry)) \<and>
     (\<exists>ctx'. a = ActContinue ctx' \<and> ctx_unsolicited ctx')"
proof -
  let ?token = "check_token (de_hasher sample_env) sample_digest_interest None"
  let ?st = "\<lparr>pm_pit = pit_new\<lparr>pit_entries := [(?token, sample_entry)]\<rparr>, pm_dnl = None\<rparr>"
  obtain a st' where run: "pit_match_process (de_hasher sample_env) sample_data_ctx ?st = (a, st')" by fastforce
  have cl: "classical_pit (pm_pit ?st)" by (simp add: classical_pit_def pit_new_def sample_entry_fields(1))
  have pending: "pending_at (pm_pit ?st) ?token (hd (pe_in_records sample_entry))"
    by (simp add: pending_at_def pit_new_def sample_entry_def new_entry_result)
  have only: "\<forall>k r. pending_at (pm_pit ?st) k r \<longrightarrow> k = ?token" by (simp add: pending_at_def pit_new_def)
  have nm: "int_name sample_digest_interest =
      append_implicit_digest (data_name sample_data_packet) (implicit_digest (\<lambda>_. [0x63, 0x64]) sample_data_packet)"
    by (simp add: sample_digest_interest_def sample_data_fields implicit_digest_def)
  have keys: "collision_free (de_hasher sample_env) (insert (int_name sample_digest_interest) (own_names (data_name sample_data_packet)))"
    using sample_digest_keys by (simp add: sample_data_fields(7))
  show ?thesis
    using implicit_digest_interest_starves [OF sample_data_fields(1) disjI1 [OF sample_data_fields(2)] sample_data_fields(3-5) cl run nm
        sample_digest_fields(1) keys pending] only run by blast
qed

end
