(* ===== verification/Strategy_Stage.thy ===== *)
theory Strategy_Stage
  imports Ndn_Strategy Pit_Stages
begin

text \<open>
  The strategy stage of the Interest pipeline
  (\<open>src/crates/forwarding/ndn-engine/src/stages/strategy.rs\<close>): the next-hop override of the link layer,
  the FIB lookup (by forwarding hint where there is one), the strategy's decision, and what is done
  with it: egress scope, suppression of duplicates by out-records, and the filter that keeps an
  Interest from going back to the node it came from. The FIB, the strategy table, the face table and
  the producer regions are read; the PIT and the list of delayed sends change. The clock and the
  enrichers' extension map are arguments.
\<close>

section \<open>Scope and peers\<close>

definition is_localhop_name :: "name \<Rightarrow> bool" where
  "is_localhop_name n \<longleftrightarrow> (case n of [] \<Rightarrow> False | c # _ \<Rightarrow> comp_val c = ascii ''localhop'')"

definition ndn_local :: name where
  "ndn_local = [generic (ascii ''ndn''), generic (ascii ''local'')]"

definition is_link_local :: "name \<Rightarrow> bool" where
  "is_link_local n = has_prefix n ndn_local"

text \<open>The text after the first occurrence of \<open>://\<close>, and the text before it.\<close>

fun after_sep :: "string \<Rightarrow> string option" where
  "after_sep [] = None"
| "after_sep (c # cs) = (if take 3 (c # cs) = ''://'' then Some (drop 2 cs) else after_sep cs)"

fun until_sep :: "string \<Rightarrow> string" where
  "until_sep [] = []"
| "until_sep (c # cs) = (if take 3 (c # cs) = ''://'' then [] else c # until_sep cs)"

definition host_of_remote_uri :: "string \<Rightarrow> string" where
  "host_of_remote_uri uri = (let
     after_scheme = (case after_sep uri of Some r \<Rightarrow> until_sep r | None \<Rightarrow> uri)
   in if CHR '']'' \<in> set after_scheme then takeWhile (\<lambda>c. c \<noteq> CHR '']'') after_scheme @ '']''
      else if CHR '':'' \<in> set after_scheme then rev (tl (dropWhile (\<lambda>c. c \<noteq> CHR '':'') (rev after_scheme)))
      else after_scheme)"

definition peer_host :: "(u64 \<times> face) list \<Rightarrow> u64 \<Rightarrow> string option" where
  "peer_host face_table fid =
     Option.bind (map_of face_table fid) (\<lambda>f. map_option host_of_remote_uri (fc_remote_uri f))"

datatype next_hop_override = NoOverride | OverrideForward u64 | DropFaceGone

definition next_hop_override :: "tags \<Rightarrow> (u64 \<Rightarrow> bool) \<Rightarrow> next_hop_override" where
  "next_hop_override t face_exists = (case tag_next_hop_face_id t of
     None \<Rightarrow> NoOverride
   | Some fid \<Rightarrow> if face_exists fid then OverrideForward fid else DropFaceGone)"

definition is_in_producer_region :: "name list \<Rightarrow> name list \<Rightarrow> bool" where
  "is_in_producer_region regions hint \<longleftrightarrow> list_ex (\<lambda>region. list_ex (\<lambda>deleg. has_prefix region deleg) hint) regions"

definition add_region :: "name \<Rightarrow> name list \<Rightarrow> name list" where
  "add_region region regions = (if region \<in> set regions then regions else regions @ [region])"

section \<open>The stage\<close>

text \<open>A send that a task performs after a delay.\<close>

record delayed_forward =
  df_faces :: "u64 list"
  df_delay :: u64
  df_raw_bytes :: bytes
  df_pit_token :: "u64 option"

record 'x strategy_stage =
  ss_strategy_table :: "'x strategy strategy_table"
  ss_default_strategy :: "'x strategy"
  ss_fib :: fib
  ss_pit :: pit
  ss_face_table :: "(u64 \<times> face) list"
  ss_network_region :: "name list"
  ss_delayed :: "delayed_forward list"

definition fib_lookup_name :: "'x strategy_stage \<Rightarrow> packet_context \<Rightarrow> name \<Rightarrow> name" where
  "fib_lookup_name st ctx interest_name = (case ctx_packet ctx of
     InterestPacket i \<Rightarrow> (case int_forwarding_hint i of
         None \<Rightarrow> interest_name
       | Some hint \<Rightarrow>
           if hint = [] \<or> is_in_producer_region (ss_network_region st) hint then interest_name
           else (case List.find (\<lambda>deleg. fib_lpm (ss_fib st) deleg \<noteq> None) hint of
               Some deleg \<Rightarrow> deleg
             | None \<Rightarrow> hd hint))
   | _ \<Rightarrow> interest_name)"

definition strategy_context_of ::
  "(fib_entry option \<Rightarrow> geo_pos option \<Rightarrow> geo_pos option \<Rightarrow> 'x) \<Rightarrow> u64 \<Rightarrow> 'x strategy_stage \<Rightarrow> packet_context \<Rightarrow>
     name \<Rightarrow> name \<Rightarrow> 'x strategy_context" where
  "strategy_context_of enrich now_ns st ctx n fib_name = (let
     strategy_fib = map_option snd (fib_lpm_with_depth (ss_fib st) fib_name);
     pit_entry = Option.bind (ctx_pit_token ctx) (\<lambda>tok. with_entry tok id (ss_pit st))
   in \<lparr>sc_name = n, sc_in_face = ctx_face_id ctx, sc_fib_entry = strategy_fib, sc_pit_token = ctx_pit_token ctx,
       sc_tried_faces = (case pit_entry of Some e \<Rightarrow> map or_face_id (pe_out_records e) | None \<Rightarrow> []),
       sc_suppressed_faces = (case pit_entry of Some e \<Rightarrow> suppressed_upstreams e now_ns | None \<Rightarrow> []),
       sc_entry_retx_suppressed = (case pit_entry of Some e \<Rightarrow> entry_retx_suppressed e now_ns | None \<Rightarrow> False),
       sc_env = enrich strategy_fib (tag_prev_hop_location (ctx_tags ctx)) (tag_data_location (ctx_tags ctx))\<rparr>)"

text \<open>Each upstream is sent an Interest with a given nonce at most once; the filter records the send.\<close>

fun record_sends :: "u64 \<Rightarrow> u32 \<Rightarrow> u64 \<Rightarrow> u64 list \<Rightarrow> pit \<Rightarrow> u64 list \<times> pit" where
  "record_sends token nonce now [] p = ([], p)"
| "record_sends token nonce now (fid # fids) p = (case with_entry_mut token (\<lambda>e. let
       already = list_ex (\<lambda>r. or_face_id r = fid \<and> or_last_nonce r = nonce) (pe_out_records e)
     in (if already then e else add_out_record fid nonce now e, already)) p of
     (p, dup) \<Rightarrow> (case record_sends token nonce now fids p of
       (rest, p) \<Rightarrow> (if dup = Some True then rest else fid # rest, p)))"

definition restrict_to_local :: "(u64 \<times> face) list \<Rightarrow> u64 \<Rightarrow> name \<Rightarrow> bool" where
  "restrict_to_local face_table in_face n = (let
     in_face_scope = (case map_of face_table in_face of Some f \<Rightarrow> fc_scope f | None \<Rightarrow> NonLocal)
   in is_link_local n \<or> is_localhost_name n \<or> (is_localhop_name n \<and> in_face_scope = NonLocal))"

definition is_local_face :: "(u64 \<times> face) list \<Rightarrow> u64 \<Rightarrow> bool" where
  "is_local_face face_table fid = (case map_of face_table fid of Some f \<Rightarrow> fc_scope f = Local | None \<Rightarrow> False)"

definition not_back_to_peer :: "(u64 \<times> face) list \<Rightarrow> u64 \<Rightarrow> u64 list \<Rightarrow> u64 list" where
  "not_back_to_peer face_table in_face faces = (case peer_host face_table in_face of
     Some ingress_host \<Rightarrow> filter (\<lambda>fid. case peer_host face_table fid of
         None \<Rightarrow> True | Some h \<Rightarrow> h \<noteq> ingress_host) faces
   | None \<Rightarrow> faces)"

definition forward_faces :: "packet_context \<Rightarrow> name \<Rightarrow> u64 list \<Rightarrow> 'x strategy_stage \<Rightarrow> action \<times> 'x strategy_stage" where
  "forward_faces ctx n faces st = (let
     effective = (if restrict_to_local (ss_face_table st) (ctx_face_id ctx) n
       then filter (is_local_face (ss_face_table st)) faces else faces)
   in if effective = [] then (ActNack ctx FwdNoRoute, st)
   else let
     interest_nonce = (case ctx_packet ctx of InterestPacket i \<Rightarrow> int_nonce i | _ \<Rightarrow> None);
     (surviving, p) = (case (interest_nonce, ctx_pit_token ctx) of
         (Some nonce, Some token) \<Rightarrow> record_sends token nonce (ctx_arrival ctx) effective (ss_pit st)
       | _ \<Rightarrow> (effective, ss_pit st));
     st = st\<lparr>ss_pit := p\<rparr>;
     surviving = not_back_to_peer (ss_face_table st) (ctx_face_id ctx) surviving
   in if surviving = [] then (ActDrop Suppressed, st)
   else let
     st = (case ctx_pit_token ctx of
         Some token \<Rightarrow> st\<lparr>ss_pit := fst (with_entry_mut token (\<lambda>e. (note_forward_decision e, ())) (ss_pit st))\<rparr>
       | None \<Rightarrow> st);
     ctx = ctx\<lparr>ctx_out_faces := ctx_out_faces ctx @ surviving\<rparr>
   in (ActSend ctx (ctx_out_faces ctx), st))"

definition strategy_process ::
  "(fib_entry option \<Rightarrow> geo_pos option \<Rightarrow> geo_pos option \<Rightarrow> 'x) \<Rightarrow> u64 \<Rightarrow> packet_context \<Rightarrow> 'x strategy_stage \<Rightarrow>
     action \<times> 'x strategy_stage" where
  "strategy_process enrich now_ns ctx st = (case ctx_packet ctx of
     InterestPacket _ \<Rightarrow> (case ctx_name ctx of
         None \<Rightarrow> (ActDrop DropMalformedPacket, st)
       | Some n \<Rightarrow> (case next_hop_override (ctx_tags ctx) (\<lambda>fid. map_of (ss_face_table st) fid \<noteq> None) of
           OverrideForward fid \<Rightarrow> (let ctx = ctx\<lparr>ctx_out_faces := ctx_out_faces ctx @ [fid]\<rparr> in
             (ActSend ctx (ctx_out_faces ctx), st))
         | DropFaceGone \<Rightarrow> (ActDrop UnknownFace, st)
         | NoOverride \<Rightarrow> (let
             fib_name = fib_lookup_name st ctx n;
             sctx = strategy_context_of enrich now_ns st ctx n fib_name;
             strategy = (case strategy_lpm (ss_strategy_table st) fib_name of
                 Some s \<Rightarrow> s | None \<Rightarrow> ss_default_strategy st)
           in case strategy_actions strategy sctx of
               [] \<Rightarrow> (ActNack ctx FwdNoRoute, st)
             | a # _ \<Rightarrow> (case a of
                 Broadcast \<Rightarrow> forward_faces ctx n (filter (\<lambda>f. f \<noteq> ctx_face_id ctx) (map fst (ss_face_table st))) st
               | Forward faces \<Rightarrow> forward_faces ctx n faces st
               | ForwardAfter faces delay \<Rightarrow> (ActDrop DropOther, st\<lparr>ss_delayed := ss_delayed st @
                   [\<lparr>df_faces = faces, df_delay = delay, df_raw_bytes = ctx_raw_bytes ctx, df_pit_token = ctx_pit_token ctx\<rparr>]\<rparr>)
               | FwdNack reason \<Rightarrow> (ActNack ctx reason, st)
               | Suppress \<Rightarrow> (ActDrop Suppressed, st)))))
   | _ \<Rightarrow> (ActContinue ctx, st))"

text \<open>The task of a delayed send, when it wakes: the faces it sends the bytes to.\<close>

definition delayed_sends :: "delayed_forward \<Rightarrow> pit \<Rightarrow> (u64 \<times> face) list \<Rightarrow> (u64 \<times> bytes) list" where
  "delayed_sends d p face_table = (let
     proceed = (case df_pit_token d of
         Some token \<Rightarrow> with_entry token (\<lambda>e. \<not> pe_forward_cancelled e) p = Some True
       | None \<Rightarrow> True)
   in if proceed then map (\<lambda>fid. (fid, df_raw_bytes d)) (filter (\<lambda>fid. map_of face_table fid \<noteq> None) (df_faces d)) else [])"

section \<open>Recording sends\<close>

text \<open>The upstreams that an entry records as sent an Interest with this nonce.\<close>

definition sent_to :: "u32 \<Rightarrow> pit_entry \<Rightarrow> u64 set" where
  "sent_to nonce e = or_face_id ` {r \<in> set (pe_out_records e). or_last_nonce r = nonce}"

lemma renew_out_record_sent:
  "renew_out_record f nonce t rs = Some rs' \<Longrightarrow>
     or_face_id ` {r \<in> set rs'. or_last_nonce r = nonce} = insert f (or_face_id ` {r \<in> set rs. or_last_nonce r = nonce})
     \<and> or_face_id ` set rs' = or_face_id ` set rs \<and> f \<in> or_face_id ` set rs"
proof (induction f nonce t rs arbitrary: rs' rule: renew_out_record.induct)
  case (2 f nonce t r rs)
  have split: "{x \<in> set (q # ys). P x} = (if P q then {q} else {}) \<union> {x \<in> set ys. P x}" for q ys P by auto
  show ?case
  proof (cases "or_face_id r = f")
    case True
    then have "rs' = r\<lparr>or_last_nonce := nonce, or_sent_at := t\<rparr> # rs" using "2.prems" by simp
    then show ?thesis using True by (simp only: split) auto
  next
    case False
    then obtain qs where qs: "renew_out_record f nonce t rs = Some qs" "rs' = r # qs" using "2.prems" by auto
    show ?thesis using "2.IH" [OF False qs(1)] False by (auto simp: qs(2) split)
  qed
qed simp

lemma add_out_record_sent:
  "sent_to nonce (add_out_record f nonce t e) = insert f (sent_to nonce e)"
  "or_face_id ` set (pe_out_records (add_out_record f nonce t e)) = insert f (or_face_id ` set (pe_out_records e))"
proof -
  have "sent_to nonce (add_out_record f nonce t e) = insert f (sent_to nonce e) \<and>
      or_face_id ` set (pe_out_records (add_out_record f nonce t e)) = insert f (or_face_id ` set (pe_out_records e))"
  proof (cases "renew_out_record f nonce t (pe_out_records e)")
    case None
    have "{r \<in> insert a R. P r} = (if P a then {a} else {}) \<union> {r \<in> R. P r}" for P a and R :: "out_record set" by auto
    then show ?thesis by (simp add: add_out_record_def sent_to_def None)
  next
    case (Some rs)
    then show ?thesis using renew_out_record_sent [OF Some] by (auto simp: add_out_record_def sent_to_def Some)
  qed
  then show "sent_to nonce (add_out_record f nonce t e) = insert f (sent_to nonce e)"
    "or_face_id ` set (pe_out_records (add_out_record f nonce t e)) = insert f (or_face_id ` set (pe_out_records e))" by auto
qed

lemma add_out_record_keeps [simp]:
  "pe_in_records (add_out_record f nonce t e) = pe_in_records e"
  "pe_name (add_out_record f nonce t e) = pe_name e" "pe_nonces_seen (add_out_record f nonce t e) = pe_nonces_seen e"
  by (simp_all add: add_out_record_def split: option.split)

text \<open>What recording does: the upstreams kept are those not recorded yet, each once; afterwards all are
  recorded, and nothing else in the table changes.\<close>

lemma record_sends_result:
  assumes "map_of (pit_entries p) token = Some e" "record_sends token nonce now fids p = (out, p')"
  shows "\<exists>e'. map_of (pit_entries p') token = Some e' \<and> sent_to nonce e' = sent_to nonce e \<union> set fids \<and>
    or_face_id ` set (pe_out_records e') = or_face_id ` set (pe_out_records e) \<union> (set fids - sent_to nonce e) \<and>
    pe_in_records e' = pe_in_records e \<and> distinct out \<and> set out = set fids - sent_to nonce e \<and>
    (\<forall>k. k \<noteq> token \<longrightarrow> map_of (pit_entries p') k = map_of (pit_entries p) k)"
  using assms
proof (induction fids arbitrary: p e out p')
  case (Cons fid fids)
  let ?dup = "list_ex (\<lambda>r. or_face_id r = fid \<and> or_last_nonce r = nonce) (pe_out_records e)"
  define e1 where "e1 = (if ?dup then e else add_out_record fid nonce now e)"
  define p1 where "p1 = p\<lparr>pit_entries := AList.update token e1 (pit_entries p)\<rparr>"
  obtain rest p2 where rest: "record_sends token nonce now fids p1 = (rest, p2)" by fastforce
  have step: "with_entry_mut token (\<lambda>e. let already = list_ex (\<lambda>r. or_face_id r = fid \<and> or_last_nonce r = nonce) (pe_out_records e)
      in (if already then e else add_out_record fid nonce now e, already)) p = (p1, Some ?dup)"
    using Cons.prems(1) by (simp add: with_entry_mut_def p1_def e1_def Let_def)
  have out: "out = (if ?dup then rest else fid # rest)" "p' = p2"
    using Cons.prems(2) unfolding record_sends.simps step by (auto simp: rest)
  have dup: "?dup \<longleftrightarrow> fid \<in> sent_to nonce e" by (auto simp: list_ex_iff sent_to_def image_iff)
  have e1: "sent_to nonce e1 = insert fid (sent_to nonce e)" "pe_in_records e1 = pe_in_records e"
    "or_face_id ` set (pe_out_records e1) = or_face_id ` set (pe_out_records e) \<union> ({fid} - sent_to nonce e)"
    using dup by (auto simp: e1_def add_out_record_sent)
  have "map_of (pit_entries p1) token = Some e1" by (simp add: p1_def update_conv')
  from Cons.IH [OF this rest] obtain e' where ih: "map_of (pit_entries p2) token = Some e'"
    "sent_to nonce e' = sent_to nonce e1 \<union> set fids" "or_face_id ` set (pe_out_records e') = or_face_id ` set (pe_out_records e1) \<union> (set fids - sent_to nonce e1)"
    "pe_in_records e' = pe_in_records e1" "distinct rest" "set rest = set fids - sent_to nonce e1"
    "\<forall>k. k \<noteq> token \<longrightarrow> map_of (pit_entries p2) k = map_of (pit_entries p1) k" by blast
  have "\<forall>k. k \<noteq> token \<longrightarrow> map_of (pit_entries p1) k = map_of (pit_entries p) k" by (simp add: p1_def update_conv')
  moreover have "distinct out" "set out = set (fid # fids) - sent_to nonce e" using ih(5,6) dup by (auto simp: out e1)
  moreover have "sent_to nonce e' = sent_to nonce e \<union> set (fid # fids)" using ih(2) by (auto simp: e1)
  moreover have "or_face_id ` set (pe_out_records e') = or_face_id ` set (pe_out_records e) \<union> (set (fid # fids) - sent_to nonce e)"
    unfolding ih(3) e1 by auto
  ultimately show ?case using ih(1,4,7) e1(2) out(2) by auto
qed simp

lemma record_sends_None:
  "map_of (pit_entries p) token = None \<Longrightarrow> record_sends token nonce now fids p = (fids, p)"
  by (induction fids) (simp_all add: with_entry_mut_def)

section \<open>What leaves the stage\<close>

text \<open>Where an Interest may go, stated on the name, the faces' scopes and their remote URIs. A name stays on the
  node if it is under \<open>/localhost\<close> or \<open>/ndn/local\<close>, or under \<open>/localhop\<close> and did not come from a local face.\<close>

definition scope_local :: "(u64 \<times> face) list \<Rightarrow> u64 \<Rightarrow> bool" where
  "scope_local face_table f \<longleftrightarrow> (\<exists>g. map_of face_table f = Some g \<and> fc_scope g = Local)"

definition stays_on_node :: "(u64 \<times> face) list \<Rightarrow> u64 \<Rightarrow> name \<Rightarrow> bool" where
  "stays_on_node face_table in_face n \<longleftrightarrow>
     (\<exists>c rest. n = c # rest \<and> comp_val c = ascii ''localhost'') \<or>
     (\<exists>rest. n = generic (ascii ''ndn'') # generic (ascii ''local'') # rest) \<or>
     (\<exists>c rest. n = c # rest \<and> comp_val c = ascii ''localhop'' \<and> \<not> scope_local face_table in_face)"

text \<open>The peer of a face with remote URI \<open>scheme://host:port\<close>, where the host is a name, an IPv4 address or a
  bracketed IPv6 address.\<close>

definition remote_at :: "(u64 \<times> face) list \<Rightarrow> u64 \<Rightarrow> string \<Rightarrow> bool" where
  "remote_at face_table f h \<longleftrightarrow> (\<exists>g scheme port. map_of face_table f = Some g \<and>
     fc_remote_uri g = Some (scheme @ ''://'' @ h @ '':'' @ port) \<and>
     set scheme \<inter> {CHR '':''} = {} \<and> set port \<inter> {CHR '':'', CHR ''/'', CHR '']''} = {} \<and>
     (set h \<inter> {CHR '':'', CHR ''/'', CHR '']''} = {} \<or> (\<exists>a. h = ''['' @ a @ '']'' \<and> set a \<inter> {CHR ''/'', CHR '']''} = {})))"

definition egress_ok :: "(u64 \<times> face) list \<Rightarrow> u64 \<Rightarrow> name \<Rightarrow> u64 \<Rightarrow> bool" where
  "egress_ok face_table in_face n f \<longleftrightarrow>
     (stays_on_node face_table in_face n \<longrightarrow> scope_local face_table f) \<and>
     (\<forall>h. remote_at face_table in_face h \<longrightarrow> \<not> remote_at face_table f h)"

lemma restrict_to_local_iff: "restrict_to_local ft i n \<longleftrightarrow> stays_on_node ft i n"
proof -
  have "(case map_of ft i of Some f \<Rightarrow> fc_scope f | None \<Rightarrow> NonLocal) = NonLocal \<longleftrightarrow> \<not> scope_local ft i"
    by (auto simp: scope_local_def split: option.split intro: face_scope.exhaust)
  moreover have "is_link_local n \<longleftrightarrow> (\<exists>rest. n = generic (ascii ''ndn'') # generic (ascii ''local'') # rest)"
    by (auto simp: is_link_local_def ndn_local_def prefix_def has_prefix_iff)
  ultimately show ?thesis
    by (auto simp: restrict_to_local_def stays_on_node_def is_localhost_name_def is_localhop_name_def split: list.splits)
qed

lemma is_local_face_iff: "is_local_face ft f \<longleftrightarrow> scope_local ft f"
  by (simp add: is_local_face_def scope_local_def split: option.split)

lemma after_sep_scheme: "CHR '':'' \<notin> set s \<Longrightarrow> after_sep (s @ ''://'' @ r) = Some r"
  by (induction s) auto

lemma until_sep_all: "CHR ''/'' \<notin> set r \<Longrightarrow> until_sep r = r"
proof (induction r)
  case (Cons c cs)
  then have "take 3 (c # cs) \<noteq> ''://''" by (cases cs) auto
  then show ?case using Cons by simp
qed simp

lemma host_of_remote_uri_host:
  assumes "CHR '':'' \<notin> set s" "CHR ''/'' \<notin> set p" "CHR '':'' \<notin> set p" "CHR '']'' \<notin> set p"
    "set h \<inter> {CHR '':'', CHR ''/'', CHR '']''} = {} \<or> (\<exists>a. h = ''['' @ a @ '']'' \<and> set a \<inter> {CHR ''/'', CHR '']''} = {})"
  shows "host_of_remote_uri (s @ ''://'' @ h @ '':'' @ p) = h"
proof -
  have "until_sep (h @ '':'' @ p) = h @ '':'' @ p" using assms(2,5) by (intro until_sep_all) auto
  then have host: "host_of_remote_uri (s @ ''://'' @ h @ '':'' @ p) =
      (if CHR '']'' \<in> set h then takeWhile (\<lambda>c. c \<noteq> CHR '']'') (h @ '':'' @ p) @ '']''
       else rev (tl (dropWhile (\<lambda>c. c \<noteq> CHR '':'') (rev p @ CHR '':'' # rev h))))"
    using assms(4) unfolding host_of_remote_uri_def after_sep_scheme [OF assms(1)] by simp
  have port: "dropWhile (\<lambda>c. c \<noteq> CHR '':'') (rev p @ CHR '':'' # rev h) = CHR '':'' # rev h"
    using assms(3) by (subst dropWhile_append2) auto
  show ?thesis
  proof (cases "CHR '']'' \<in> set h")
    case True
    then obtain a where a: "h = ''['' @ a @ '']''" "CHR '']'' \<notin> set a" using assms(5) by blast
    then have "takeWhile (\<lambda>c. c \<noteq> CHR '']'') (a @ CHR '']'' # r) = a" for r by (subst takeWhile_append2) auto
    then show ?thesis unfolding host using True by (simp add: a(1))
  next
    case False
    then show ?thesis unfolding host port by simp
  qed
qed

lemma remote_at_peer_host:
  assumes "remote_at ft f h"
  shows "peer_host ft f = Some h"
proof -
  obtain g s p where g: "map_of ft f = Some g" "fc_remote_uri g = Some (s @ ''://'' @ h @ '':'' @ p)"
    "set s \<inter> {CHR '':''} = {}" "set p \<inter> {CHR '':'', CHR ''/'', CHR '']''} = {}"
    "set h \<inter> {CHR '':'', CHR ''/'', CHR '']''} = {} \<or> (\<exists>a. h = ''['' @ a @ '']'' \<and> set a \<inter> {CHR ''/'', CHR '']''} = {})"
    using assms unfolding remote_at_def by (elim exE conjE)
  have "host_of_remote_uri (s @ ''://'' @ h @ '':'' @ p) = h"
    by (rule host_of_remote_uri_host) (use g(3-5) in auto)
  then show ?thesis unfolding peer_host_def g(1) bind.simps g(2) by simp
qed

definition sent_nonce :: "packet_context \<Rightarrow> u32 option" where
  "sent_nonce ctx = (case ctx_packet ctx of InterestPacket i \<Rightarrow> int_nonce i | _ \<Rightarrow> None)"

definition effective_faces :: "packet_context \<Rightarrow> name \<Rightarrow> u64 list \<Rightarrow> 'x strategy_stage \<Rightarrow> u64 list" where
  "effective_faces ctx n faces st = (if restrict_to_local (ss_face_table st) (ctx_face_id ctx) n
     then filter (is_local_face (ss_face_table st)) faces else faces)"

definition recorded :: "packet_context \<Rightarrow> u64 list \<Rightarrow> pit \<Rightarrow> u64 list \<times> pit" where
  "recorded ctx faces p = (case (sent_nonce ctx, ctx_pit_token ctx) of
     (Some nonce, Some token) \<Rightarrow> record_sends token nonce (ctx_arrival ctx) faces p
   | _ \<Rightarrow> (faces, p))"

lemma forward_faces_cases:
  fixes st :: "'x strategy_stage"
  assumes "recorded ctx (effective_faces ctx n faces st) (ss_pit st) = (surviving, p)"
  defines "out \<equiv> not_back_to_peer (ss_face_table st) (ctx_face_id ctx) surviving"
  shows "forward_faces ctx n faces st =
    (if effective_faces ctx n faces st = [] then (ActNack ctx FwdNoRoute, st)
     else if out = [] then (ActDrop Suppressed, st\<lparr>ss_pit := p\<rparr>)
     else (ActSend (ctx\<lparr>ctx_out_faces := ctx_out_faces ctx @ out\<rparr>) (ctx_out_faces ctx @ out),
       st\<lparr>ss_pit := (case ctx_pit_token ctx of
           Some token \<Rightarrow> fst (with_entry_mut token (\<lambda>e. (note_forward_decision e, ())) p) | None \<Rightarrow> p)\<rparr>))"
  using assms(1) unfolding forward_faces_def Let_def out_def
  by (fold sent_nonce_def effective_faces_def, fold recorded_def) (simp split: option.split)

lemma not_back_to_peer_set:
  "f \<in> set (not_back_to_peer ft i fs) \<longleftrightarrow> f \<in> set fs \<and> (\<forall>h. peer_host ft i = Some h \<longrightarrow> peer_host ft f \<noteq> Some h)"
  by (auto simp: not_back_to_peer_def split: option.split)

lemma recorded_subset: "recorded ctx fs p = (out, p') \<Longrightarrow> set out \<subseteq> set fs"
proof (cases "sent_nonce ctx"; cases "ctx_pit_token ctx")
  fix nonce token
  assume *: "recorded ctx fs p = (out, p')" "sent_nonce ctx = Some nonce" "ctx_pit_token ctx = Some token"
  then have r: "record_sends token nonce (ctx_arrival ctx) fs p = (out, p')" by (simp add: recorded_def)
  show ?thesis
  proof (cases "map_of (pit_entries p) token")
    case None
    then show ?thesis using r by (simp add: record_sends_None)
  next
    case (Some e)
    then show ?thesis using record_sends_result [OF Some r] by auto
  qed
qed (auto simp: recorded_def)

lemma forward_faces_send:
  assumes "forward_faces ctx n faces st = (ActSend ctx' fs, st')" "ctx_out_faces ctx = []"
  shows "fs \<noteq> [] \<and> ctx' = ctx\<lparr>ctx_out_faces := fs\<rparr> \<and> (\<forall>f \<in> set fs. f \<in> set faces \<and> egress_ok (ss_face_table st) (ctx_face_id ctx) n f)"
proof -
  obtain surviving p where r: "recorded ctx (effective_faces ctx n faces st) (ss_pit st) = (surviving, p)" by fastforce
  let ?out = "not_back_to_peer (ss_face_table st) (ctx_face_id ctx) surviving"
  have "fs = ?out" "?out \<noteq> []" "ctx' = ctx\<lparr>ctx_out_faces := ?out\<rparr>"
    using assms unfolding forward_faces_cases [OF r] by (auto split: if_splits)
  moreover have "f \<in> set faces \<and> egress_ok (ss_face_table st) (ctx_face_id ctx) n f" if "f \<in> set ?out" for f
    using that recorded_subset [OF r]
    by (auto simp: not_back_to_peer_set egress_ok_def effective_faces_def restrict_to_local_iff is_local_face_iff
        dest!: remote_at_peer_host split: if_splits)
  ultimately show ?thesis by simp
qed

lemma note_decision_keeps [simp]:
  "sent_to nonce (note_forward_decision e) = sent_to nonce e" "pe_in_records (note_forward_decision e) = pe_in_records e"
  "pe_out_records (note_forward_decision e) = pe_out_records e" "pe_name (note_forward_decision e) = pe_name e"
  by (simp_all add: note_forward_decision_def sent_to_def Let_def)

lemma forward_faces_records:
  assumes "forward_faces ctx n faces st = (ActSend ctx' fs, st')" "ctx_out_faces ctx = []"
    "sent_nonce ctx = Some nonce" "ctx_pit_token ctx = Some token" "map_of (pit_entries (ss_pit st)) token = Some e"
  shows "\<exists>e'. map_of (pit_entries (ss_pit st')) token = Some e' \<and> set fs \<inter> sent_to nonce e = {} \<and>
    set fs \<subseteq> sent_to nonce e' \<and> distinct fs \<and> pe_in_records e' = pe_in_records e"
proof -
  let ?eff = "effective_faces ctx n faces st"
  obtain surviving p where r: "recorded ctx ?eff (ss_pit st) = (surviving, p)" by fastforce
  let ?out = "not_back_to_peer (ss_face_table st) (ctx_face_id ctx) surviving"
  have out: "fs = ?out" "ss_pit st' = fst (with_entry_mut token (\<lambda>e. (note_forward_decision e, ())) p)"
    using assms(1,2,4) unfolding forward_faces_cases [OF r] by (auto split: if_splits)
  have "record_sends token nonce (ctx_arrival ctx) ?eff (ss_pit st) = (surviving, p)"
    using r assms(3,4) by (simp add: recorded_def)
  from record_sends_result [OF assms(5) this] obtain e' where e': "map_of (pit_entries p) token = Some e'"
    "sent_to nonce e' = sent_to nonce e \<union> set ?eff" "pe_in_records e' = pe_in_records e" "distinct surviving"
    "set surviving = set ?eff - sent_to nonce e" by blast
  have "map_of (pit_entries (ss_pit st')) token = Some (note_forward_decision e')"
    using e'(1) by (simp add: out(2) with_entry_mut_def update_conv')
  moreover have "set fs \<subseteq> set surviving" by (auto simp: out(1) not_back_to_peer_set)
  moreover have "distinct fs" using e'(4) by (simp add: out(1) not_back_to_peer_def split: option.split)
  ultimately show ?thesis using e'(2,3,5) by auto
qed

text \<open>The strategy that decides, and the actions it returns.\<close>

definition active_strategy :: "'x strategy_stage \<Rightarrow> packet_context \<Rightarrow> name \<Rightarrow> 'x strategy" where
  "active_strategy st ctx n = (case strategy_lpm (ss_strategy_table st) (fib_lookup_name st ctx n) of
     Some s \<Rightarrow> s | None \<Rightarrow> ss_default_strategy st)"

definition decided ::
  "(fib_entry option \<Rightarrow> geo_pos option \<Rightarrow> geo_pos option \<Rightarrow> 'x) \<Rightarrow> u64 \<Rightarrow> 'x strategy_stage \<Rightarrow> packet_context \<Rightarrow> name \<Rightarrow> forwarding_action list" where
  "decided enrich now_ns st ctx n = strategy_actions (active_strategy st ctx n)
     (strategy_context_of enrich now_ns st ctx n (fib_lookup_name st ctx n))"

lemma strategy_process_decided:
  assumes "ctx_packet ctx = InterestPacket i" "ctx_name ctx = Some n" "tag_next_hop_face_id (ctx_tags ctx) = None"
  shows "strategy_process enrich now_ns ctx st = (case decided enrich now_ns st ctx n of
      [] \<Rightarrow> (ActNack ctx FwdNoRoute, st)
    | a # _ \<Rightarrow> (case a of
        Broadcast \<Rightarrow> forward_faces ctx n (filter (\<lambda>f. f \<noteq> ctx_face_id ctx) (map fst (ss_face_table st))) st
      | Forward faces \<Rightarrow> forward_faces ctx n faces st
      | ForwardAfter faces delay \<Rightarrow> (ActDrop DropOther, st\<lparr>ss_delayed := ss_delayed st @
          [\<lparr>df_faces = faces, df_delay = delay, df_raw_bytes = ctx_raw_bytes ctx, df_pit_token = ctx_pit_token ctx\<rparr>]\<rparr>)
      | FwdNack reason \<Rightarrow> (ActNack ctx reason, st)
      | Suppress \<Rightarrow> (ActDrop Suppressed, st)))"
  using assms by (simp add: strategy_process_def next_hop_override_def decided_def active_strategy_def Let_def)

lemma strategy_process_send:
  assumes "strategy_process enrich now_ns ctx st = (ActSend ctx' fs, st')"
    "ctx_packet ctx = InterestPacket i" "ctx_name ctx = Some n" "tag_next_hop_face_id (ctx_tags ctx) = None"
  obtains faces where "forward_faces ctx n faces st = (ActSend ctx' fs, st')"
    "Forward faces \<in> set (decided enrich now_ns st ctx n) \<or> (\<forall>f \<in> set faces. f \<noteq> ctx_face_id ctx)"
proof -
  note * = assms(1) [unfolded strategy_process_decided [OF assms(2-4)]]
  show thesis
  proof (cases "decided enrich now_ns st ctx n")
    case (Cons a as)
    then show thesis using * that by (cases a) (auto simp: filter_id_conv)
  qed (use * in simp)
qed

lemma strategy_context_fields [simp]:
  "sc_in_face (strategy_context_of enrich now_ns st ctx n m) = ctx_face_id ctx"
  "sc_fib_entry (strategy_context_of enrich now_ns st ctx n m) = fib_lpm (ss_fib st) m"
  by (simp_all add: strategy_context_of_def Let_def fib_lpm_def fib_lpm_with_depth_def fibtrie_lpm_def)

lemma strategy_context_entry:
  assumes "ctx_pit_token ctx = Some token" "map_of (pit_entries (ss_pit st)) token = Some e"
  shows "sc_tried_faces (strategy_context_of enrich now_ns st ctx n m) = map or_face_id (pe_out_records e)"
    "sc_suppressed_faces (strategy_context_of enrich now_ns st ctx n m) = suppressed_upstreams e now_ns"
    "sc_entry_retx_suppressed (strategy_context_of enrich now_ns st ctx n m) = entry_retx_suppressed e now_ns"
  using assms by (simp_all add: strategy_context_of_def with_entry_def Let_def)

lemma decided_split_horizon:
  assumes "split_horizon (active_strategy st ctx n)" "Forward faces \<in> set (decided enrich now_ns st ctx n)" "f \<in> set faces"
  shows "f \<noteq> ctx_face_id ctx"
  using split_horizon.actions_faces [OF assms(1) assms(2) [unfolded decided_def] assms(3)] by simp

section \<open>Properties\<close>


definition sample_strategy_stage :: "pit_entry \<Rightarrow> unit strategy_stage" where
  "sample_strategy_stage e = \<lparr>ss_strategy_table = trie_new, ss_default_strategy = best_route, ss_fib = two_hop_fib,
     ss_pit = pit_new\<lparr>pit_entries := [(sample_token, e)]\<rparr>, ss_face_table = [], ss_network_region = [], ss_delayed = []\<rparr>"

definition sample_pending :: packet_context where
  "sample_pending = sample_ctx\<lparr>ctx_pit_token := Some sample_token\<rparr>"

lemma sample_pending_fields [simp]:
  "ctx_packet sample_pending = InterestPacket sample_interest" "ctx_name sample_pending = Some sample_name"
  "ctx_face_id sample_pending = 1" "ctx_pit_token sample_pending = Some sample_token" "ctx_out_faces sample_pending = []"
  "tag_next_hop_face_id (ctx_tags sample_pending) = None" "ctx_arrival sample_pending = 5"
  by (simp_all add: sample_pending_def sample_ctx_def interest_context_def packet_context_new_def set_name_def tags_new_def
      sample_interest_def)

lemma sample_stage_lookup [simp]:
  "fib_lookup_name (sample_strategy_stage e) sample_pending sample_name = sample_name"
  "active_strategy (sample_strategy_stage e) sample_pending sample_name = best_route"
  "map_of (pit_entries (ss_pit (sample_strategy_stage e))) sample_token = Some e"
  "fib_lpm (ss_fib (sample_strategy_stage e)) sample_name = Some \<lparr>nexthops = [\<lparr>face_id = 2, cost = 10\<rparr>, \<lparr>face_id = 1, cost = 20\<rparr>]\<rparr>"
proof -
  show n: "fib_lookup_name (sample_strategy_stage e) sample_pending sample_name = sample_name"
    by (simp add: fib_lookup_name_def sample_fields(8))
  show "active_strategy (sample_strategy_stage e) sample_pending sample_name = best_route"
    unfolding active_strategy_def n by (simp add: sample_strategy_stage_def strategy_lpm_def trie_lpm_def trie_new_def sample_name_def)
  show "fib_lpm (ss_fib (sample_strategy_stage e)) sample_name = Some \<lparr>nexthops = [\<lparr>face_id = 2, cost = 10\<rparr>, \<lparr>face_id = 1, cost = 20\<rparr>]\<rparr>"
    by (simp add: sample_strategy_stage_def two_hop_fib_def fib_lpm_def fibtrie_lpm_def fibtrie_lpm_with_depth_def add_nexthop_def
        fib_new_def sample_name_def generic_def)
qed (simp add: sample_strategy_stage_def)


text \<open>C37. Suppression is answered with NoRoute: an Interest for which there is a usable next hop, but which
  the strategy suppresses because of a recent transmission (best-route inside the entry's window,
  multicast with every next hop inside its own), is answered with a NoRoute Nack. The strategies' own
  comments say that this must not happen: \<open>ALL upstreams merely suppressed is NOT NoRoute\<close>.\<close>

theorem suppressed_answers_no_route:
  assumes "ctx_packet ctx = InterestPacket i" "ctx_name ctx = Some n" "tag_next_hop_face_id (ctx_tags ctx) = None"
    "ctx_pit_token ctx = Some token" "map_of (pit_entries (ss_pit st)) token = Some e"
    "fib_lpm (ss_fib st) (fib_lookup_name st ctx n) = Some fe" "h \<in> set (nexthops fe)" "face_id h \<noteq> ctx_face_id ctx"
    "active_strategy st ctx n = best_route \<and> entry_retx_suppressed e now_ns \<or>
     active_strategy st ctx n = multicast \<and> (\<forall>h' \<in> set (nexthops fe). face_id h' \<in> set (suppressed_upstreams e now_ns))"
  shows "strategy_process enrich now_ns ctx st = (ActNack ctx FwdNoRoute, st)"
proof -
  let ?sctx = "strategy_context_of enrich now_ns st ctx n (fib_lookup_name st ctx n)"
  note entry = strategy_context_entry [OF assms(4,5), of enrich now_ns n "fib_lookup_name st ctx n"]
  have "nexthops_excluding fe (ctx_face_id ctx) \<noteq> []" using assms(7,8) by (auto simp: nexthops_excluding_def filter_empty_conv)
  moreover have "filter (\<lambda>f. f \<notin> set S) (map face_id (nexthops_excluding fe x)) = []"
    if "\<forall>h' \<in> set (nexthops fe). face_id h' \<in> set S" for S x
    using that by (auto simp: filter_empty_conv nexthops_excluding_def)
  ultimately have "decided enrich now_ns st ctx n = []"
    using assms(9) unfolding decided_def strategy_actions_def
    by (auto simp: best_route_def best_route_decide_def multicast_def multicast_decide_def assms(6) entry Let_def)
  then show ?thesis by (simp add: strategy_process_decided [OF assms(1-3)])
qed

theorem suppressed_answers_no_route_witness:
  "strategy_process (\<lambda>_ _ _. ()) 15000005 sample_pending (sample_strategy_stage (sample_entry\<lparr>
      pe_out_records := [\<lparr>or_face_id = 2, or_last_nonce = 6, or_sent_at = 5\<rparr>], pe_retx_suppress_interval_ns := 20000000\<rparr>))
   = (ActNack sample_pending FwdNoRoute, sample_strategy_stage (sample_entry\<lparr>
      pe_out_records := [\<lparr>or_face_id = 2, or_last_nonce = 6, or_sent_at = 5\<rparr>], pe_retx_suppress_interval_ns := 20000000\<rparr>))"
  (is "_ = (_, sample_strategy_stage ?e)")
proof -
  have "entry_retx_suppressed ?e 15000005"
    by (simp add: entry_retx_suppressed_def last_out_def saturating_sub_def)
  then show ?thesis
    using suppressed_answers_no_route [of sample_pending sample_interest sample_name sample_token "sample_strategy_stage ?e" ?e
        "\<lparr>nexthops = [\<lparr>face_id = 2, cost = 10\<rparr>, \<lparr>face_id = 1, cost = 20\<rparr>]\<rparr>" "\<lparr>face_id = 2, cost = 10\<rparr>" 15000005]
    by simp
qed

end
