(* ===== verification/Cs_Variants.thy ===== *)
theory Cs_Variants
  imports Store_Cs
begin

text \<open>
  The \<open>ContentStore\<close> trait as a record of operations, the stores that implement it (\<open>LruCs\<close>,
  \<open>NullCs\<close>, \<open>ShardedCs\<close>, \<open>ObservableCs\<close>), and the contract its clients rely on as the locale
  \<open>content_store\<close>: what a store serves was put into it. The contract is shown for every store; the
  sharded and the observed store inherit it from the store they wrap.
\<close>

section \<open>The trait\<close>

text \<open>\<open>get\<close> reads the clock; an insertion that does not return is \<open>None\<close>.\<close>

record 's cs_ops =
  co_get :: "u64 \<Rightarrow> interest \<Rightarrow> 's \<Rightarrow> 's \<times> cs_entry option"
  co_insert :: "bytes \<Rightarrow> name \<Rightarrow> u64 \<Rightarrow> 's \<Rightarrow> ('s \<times> insert_result) option"
  co_evict :: "name \<Rightarrow> 's \<Rightarrow> 's \<times> bool"
  co_evict_prefix :: "name \<Rightarrow> nat option \<Rightarrow> 's \<Rightarrow> 's \<times> nat"
  co_set_capacity :: "nat \<Rightarrow> 's \<Rightarrow> 's option"
  co_set_admit :: "bool \<Rightarrow> 's \<Rightarrow> 's"
  co_set_serve :: "bool \<Rightarrow> 's \<Rightarrow> 's"
  co_capacity :: "'s \<Rightarrow> nat"
  co_len :: "'s \<Rightarrow> u64"
  co_current_bytes :: "'s \<Rightarrow> nat"
  co_stats :: "'s \<Rightarrow> cs_stats"

definition lru_store :: "'c lru_ops \<Rightarrow> (bytes \<Rightarrow> bytes) \<Rightarrow> 'c lru_cs cs_ops" where
  "lru_store L sha256 = \<lparr>co_get = cs_get L sha256, co_insert = cs_insert L, co_evict = cs_evict L,
     co_evict_prefix = cs_evict_prefix L, co_set_capacity = cs_set_capacity L, co_set_admit = cs_set_admit,
     co_set_serve = cs_set_serve, co_capacity = cs_capacity_bytes, co_len = cs_entry_count,
     co_current_bytes = cs_current_bytes, co_stats = cs_counters\<rparr>"

definition null_store :: "unit cs_ops" where
  "null_store = \<lparr>co_get = \<lambda>_ _ s. (s, None), co_insert = \<lambda>_ _ _ s. Some (s, CsSkipped), co_evict = \<lambda>_ s. (s, False),
     co_evict_prefix = \<lambda>_ _ s. (s, 0), co_set_capacity = \<lambda>_ s. Some s, co_set_admit = \<lambda>_ s. s, co_set_serve = \<lambda>_ s. s,
     co_capacity = \<lambda>_. 0, co_len = \<lambda>_. 0, co_current_bytes = \<lambda>_. 0, co_stats = \<lambda>_. cs_stats_default\<rparr>"

section \<open>Sharded store\<close>

text \<open>The hash of a component is an argument. \<open>ShardedCs::new\<close> panics on an empty vector.\<close>

definition sharded_new :: "'s list \<Rightarrow> 's list option" where
  "sharded_new shards = (if shards = [] then None else Some shards)"

definition shard_for :: "(name_component \<Rightarrow> u64) \<Rightarrow> nat \<Rightarrow> name \<Rightarrow> nat" where
  "shard_for h shard_count n = (case n of first # _ \<Rightarrow> unat (h first) mod shard_count | [] \<Rightarrow> 0)"

definition on_shard :: "nat \<Rightarrow> ('s \<Rightarrow> 's \<times> 'r) \<Rightarrow> 's list \<Rightarrow> 's list \<times> 'r" where
  "on_shard idx f shards = (case f (shards ! idx) of (s, r) \<Rightarrow> (shards[idx := s], r))"

definition sharded_store :: "(name_component \<Rightarrow> u64) \<Rightarrow> 's cs_ops \<Rightarrow> 's list cs_ops" where
  "sharded_store h C = \<lparr>
     co_get = \<lambda>now i shards. on_shard (shard_for h (length shards) (int_name i)) (co_get C now i) shards,
     co_insert = \<lambda>data n stale_at shards. (let idx = shard_for h (length shards) n in
       map_option (\<lambda>(s, r). (shards[idx := s], r)) (co_insert C data n stale_at (shards ! idx))),
     co_evict = \<lambda>n shards. on_shard (shard_for h (length shards) n) (co_evict C n) shards,
     co_evict_prefix = \<lambda>pre limit shards. on_shard (shard_for h (length shards) pre) (co_evict_prefix C pre limit) shards,
     co_set_capacity = \<lambda>max_bytes shards. those (map (co_set_capacity C (max_bytes div length shards)) shards),
     co_set_admit = \<lambda>_ shards. shards, co_set_serve = \<lambda>_ shards. shards,
     co_capacity = \<lambda>shards. sum_list (map (co_capacity C) shards),
     co_len = \<lambda>shards. sum_list (map (co_len C) shards),
     co_current_bytes = \<lambda>shards. sum_list (map (co_current_bytes C) shards),
     co_stats = \<lambda>shards. foldl (\<lambda>combined s. let t = co_stats C s in
       \<lparr>st_hits = st_hits combined + st_hits t, st_misses = st_misses combined + st_misses t,
        st_inserts = st_inserts combined + st_inserts t, st_evictions = st_evictions combined + st_evictions t\<rparr>)
       cs_stats_default shards\<rparr>"

section \<open>Observed store\<close>

datatype cs_event = CsHit name | CsMiss name | CsInsertEvent name nat | CsEvictEvent name

record 's observable_cs =
  oc_inner :: 's
  oc_events :: "cs_event list"
  oc_counters :: cs_stats

definition emit :: "cs_event \<Rightarrow> 's observable_cs \<Rightarrow> 's observable_cs" where
  "emit e s = s\<lparr>oc_events := oc_events s @ [e]\<rparr>"

definition observable_store :: "'s cs_ops \<Rightarrow> 's observable_cs cs_ops" where
  "observable_store C = \<lparr>
     co_get = \<lambda>now i s. (case co_get C now i (oc_inner s) of (inner, r) \<Rightarrow> (let
         s = s\<lparr>oc_inner := inner, oc_counters := count_lookup r (oc_counters s)\<rparr>
       in (emit (if r \<noteq> None then CsHit (int_name i) else CsMiss (int_name i)) s, r))),
     co_insert = \<lambda>data n stale_at s. map_option (\<lambda>(inner, r). (let s = s\<lparr>oc_inner := inner\<rparr> in
         (if r \<noteq> CsSkipped then emit (CsInsertEvent n (length data))
            (s\<lparr>oc_counters := (oc_counters s)\<lparr>st_inserts := st_inserts (oc_counters s) + 1\<rparr>\<rparr>) else s, r)))
       (co_insert C data n stale_at (oc_inner s)),
     co_evict = \<lambda>n s. (case co_evict C n (oc_inner s) of (inner, removed) \<Rightarrow> (let s = s\<lparr>oc_inner := inner\<rparr> in
         (if removed then emit (CsEvictEvent n)
            (s\<lparr>oc_counters := (oc_counters s)\<lparr>st_evictions := st_evictions (oc_counters s) + 1\<rparr>\<rparr>) else s, removed))),
     co_evict_prefix = \<lambda>pre limit s. (case co_evict_prefix C pre limit (oc_inner s) of (inner, evicted) \<Rightarrow>
         (s\<lparr>oc_inner := inner, oc_counters := (oc_counters s)\<lparr>st_evictions := st_evictions (oc_counters s) + word_of_nat evicted\<rparr>\<rparr>, evicted)),
     co_set_capacity = \<lambda>max_bytes s. map_option (\<lambda>inner. s\<lparr>oc_inner := inner\<rparr>) (co_set_capacity C max_bytes (oc_inner s)),
     co_set_admit = \<lambda>enabled s. s\<lparr>oc_inner := co_set_admit C enabled (oc_inner s)\<rparr>,
     co_set_serve = \<lambda>enabled s. s\<lparr>oc_inner := co_set_serve C enabled (oc_inner s)\<rparr>,
     co_capacity = \<lambda>s. co_capacity C (oc_inner s), co_len = \<lambda>s. co_len C (oc_inner s),
     co_current_bytes = \<lambda>s. co_current_bytes C (oc_inner s), co_stats = oc_counters\<rparr>"

section \<open>The contract\<close>

text \<open>\<open>holds s\<close> is what the store may serve. Serving does not change it, an insertion adds at most the
  packet inserted, and every other operation at most removes.\<close>

locale content_store =
  fixes C :: "'s cs_ops" and holds :: "'s \<Rightarrow> cs_entry set"
  assumes get_holds: "co_get C now i s = (s', r) \<Longrightarrow> holds s' = holds s \<and> (\<forall>e. r = Some e \<longrightarrow> e \<in> holds s)"
    and insert_holds: "co_insert C d n t s = Some (s', res) \<Longrightarrow>
      holds s' \<subseteq> insert \<lparr>ce_data = d, ce_stale_at = t, ce_name = n\<rparr> (holds s)"
    and evict_holds: "holds (fst (co_evict C n s)) \<subseteq> holds s"
    and evict_prefix_holds: "holds (fst (co_evict_prefix C pre limit s)) \<subseteq> holds s"
    and set_capacity_holds: "co_set_capacity C m s = Some s' \<Longrightarrow> holds s' \<subseteq> holds s"
    and toggles_hold: "holds (co_set_admit C b s) = holds s" "holds (co_set_serve C b s) = holds s"

text \<open>What an \<open>LruCs\<close> holds, for an LRU map that obeys its laws; of any other map nothing is known.\<close>

definition lru_holds :: "'c lru_ops \<Rightarrow> ('c \<Rightarrow> (name \<times> cs_entry) list) \<Rightarrow> 'c lru_cs \<Rightarrow> cs_entry set" where
  "lru_holds L items cs = (if lru_lawful L items then snd ` set (items (cs_cache cs)) else UNIV)"

lemma cache_get_holds:
  assumes "cache_get L n cs = (cs', r)"
  shows "lru_holds L items cs' = lru_holds L items cs \<and> (\<forall>e. r = Some e \<longrightarrow> e \<in> lru_holds L items cs)"
  using assms cache_get_result(1,2) [of L items n cs] by (auto simp: lru_holds_def dest!: map_of_SomeD intro: rev_image_eqI)

lemma cs_lookup_holds:
  assumes "cs_lookup L sha256 now i cs = (cs', r)"
  shows "lru_holds L items cs' = lru_holds L items cs \<and> (\<forall>e. r = Some e \<longrightarrow> e \<in> lru_holds L items cs)"
  using assms cache_get_holds [of L _ cs _ _ items]
  by (auto simp: cs_lookup_def Let_def split: if_splits option.splits prod.splits; blast)

lemma lru_holds_evicted: "evicted_to items eb cs k cs' \<Longrightarrow> lru_holds L items cs' \<subseteq> lru_holds L items cs"
  by (auto simp: lru_holds_def evicted_to_def Let_def dest: in_set_takeD)

lemma lru_holds_update [simp]:
  "lru_holds L items (s\<lparr>cs_counters := x\<rparr>) = lru_holds L items s"
  "lru_holds L items (cs_set_admit b s) = lru_holds L items s"
  "lru_holds L items (cs_set_serve b s) = lru_holds L items s"
  by (simp_all add: lru_holds_def cs_set_admit_def cs_set_serve_def)

lemma cs_insert_steps:
  assumes "cs_insert L d n t cs = Some (cs', res)" "cs_admit cs"
  obtains cs0 cs1 where "cs_cache cs0 = cs_cache cs" "insert_evict_loop L (length d) cs0 = Some cs1"
    "cs_cache cs' = lru_put L n \<lparr>ce_data = d, ce_stale_at = t, ce_name = n\<rparr> (cs_cache cs1)"
proof -
  define cs0 where "cs0 = (case lru_peek L n (cs_cache cs) of
    Some old \<Rightarrow> cs\<lparr>cs_current_bytes := cs_current_bytes cs - length (ce_data old)\<rparr> | None \<Rightarrow> cs)"
  have peek: "(case lru_peek L n (cs_cache cs) of
      Some old \<Rightarrow> (cs\<lparr>cs_current_bytes := cs_current_bytes cs - length (ce_data old)\<rparr>, True) | None \<Rightarrow> (cs, False))
    = (cs0, lru_peek L n (cs_cache cs) \<noteq> None)" by (simp add: cs0_def split: option.split)
  obtain cs1 where loop: "insert_evict_loop L (length d) cs0 = Some cs1"
    using assms by (cases "insert_evict_loop L (length d) cs0") (auto simp: cs_insert_def peek Let_def)
  have "cs_cache cs' = lru_put L n \<lparr>ce_data = d, ce_stale_at = t, ce_name = n\<rparr> (cs_cache cs1)"
    using assms loop by (auto simp: cs_insert_def peek Let_def)
  moreover have "cs_cache cs0 = cs_cache cs" by (simp add: cs0_def split: option.split)
  ultimately show thesis using loop that by blast
qed

lemma cs_insert_holds:
  assumes "cs_insert L d n t cs = Some (cs', res)"
  shows "lru_holds L items cs' \<subseteq> insert \<lparr>ce_data = d, ce_stale_at = t, ce_name = n\<rparr> (lru_holds L items cs)"
proof (cases "lru_lawful L items \<and> cs_admit cs")
  case True
  obtain cs0 cs1 where s: "cs_cache cs0 = cs_cache cs" "insert_evict_loop L (length d) cs0 = Some cs1"
    "cs_cache cs' = lru_put L n \<lparr>ce_data = d, ce_stale_at = t, ce_name = n\<rparr> (cs_cache cs1)"
    using cs_insert_steps [OF assms] True by blast
  obtain k where "evicted_to items (length d) cs0 k cs1" using insert_evict_loop_result True s(2) by (metis option.inject)
  then have "set (items (cs_cache cs1)) \<subseteq> set (items (cs_cache cs))"
    by (auto simp: evicted_to_def Let_def s(1) dest: in_set_takeD)
  then show ?thesis
    using True by (auto simp: lru_holds_def s(3) lru_lawfulD(6) set_delete intro: rev_image_eqI)
next
  case False
  then show ?thesis using assms by (auto simp: lru_holds_def cs_insert_def)
qed

lemma cs_removal_holds:
  "lru_holds L items (fst (cs_evict L n cs)) \<subseteq> lru_holds L items cs"
  "lru_holds L items (fst (evict_names L limit ns k cs)) \<subseteq> lru_holds L items cs"
  "cs_set_capacity L m cs = Some cs' \<Longrightarrow> lru_holds L items cs' \<subseteq> lru_holds L items cs"
proof -
  have pop: "snd ` set (items (fst (lru_pop L n c))) \<subseteq> snd ` set (items c)" if "lru_lawful L items" for n c
    by (auto simp: lru_lawfulD(8) [OF that] set_delete)
  show "lru_holds L items (fst (cs_evict L n cs)) \<subseteq> lru_holds L items cs"
    using pop [of n "cs_cache cs"]
    by (cases "lru_pop L n (cs_cache cs)") (simp add: cs_evict_def lru_holds_def drop_entry_def split: option.split)
  show "lru_holds L items (fst (evict_names L limit ns k cs)) \<subseteq> lru_holds L items cs"
  proof (induction ns arbitrary: k cs)
    case (Cons n ns)
    obtain c r where p: "lru_pop L n (cs_cache cs) = (c, r)" by fastforce
    have none: "lru_holds L items (cs\<lparr>cs_cache := c\<rparr>) \<subseteq> lru_holds L items cs"
      and some: "lru_holds L items (drop_entry n e c cs) \<subseteq> lru_holds L items cs" for e
      using pop [of n "cs_cache cs"] p by (simp_all add: lru_holds_def drop_entry_def)
    show ?case
    proof (cases r)
      case None
      then show ?thesis using subset_trans [OF Cons.IH none, of k] by (simp add: p)
    next
      case (Some e)
      then show ?thesis using subset_trans [OF Cons.IH some, of "k + 1" e] by (simp add: p)
    qed
  qed simp
  show "lru_holds L items cs' \<subseteq> lru_holds L items cs" if "cs_set_capacity L m cs = Some cs'"
  proof (cases "lru_lawful L items")
    case True
    obtain k cs1 where "capacity_loop L m (cs\<lparr>cs_capacity_bytes := m\<rparr>) = Some cs1"
      "evicted_to items 0 (cs\<lparr>cs_capacity_bytes := m\<rparr>) k cs1"
      using capacity_loop_result [OF True, of "cs\<lparr>cs_capacity_bytes := m\<rparr>"] by auto
    then have "evicted_to items 0 (cs\<lparr>cs_capacity_bytes := m\<rparr>) k cs'" using that by (simp add: cs_set_capacity_def)
    from lru_holds_evicted [OF this, of L] show ?thesis using True by (simp add: lru_holds_def)
  qed (simp add: lru_holds_def)
qed

interpretation lru: content_store "lru_store L sha256" "lru_holds L items"
  for L :: "'c lru_ops" and sha256 items
proof
  fix now i s s' r
  assume "co_get (lru_store L sha256) now i s = (s', r)"
  then obtain s1 where l: "cs_lookup L sha256 now i s = (s1, r)" and s': "s' = s1\<lparr>cs_counters := count_lookup r (cs_counters s1)\<rparr>"
    by (auto simp: lru_store_def cs_get_def split: prod.splits)
  then show "lru_holds L items s' = lru_holds L items s \<and> (\<forall>e. r = Some e \<longrightarrow> e \<in> lru_holds L items s)"
    using cs_lookup_holds [OF l, of items] by (simp add: s')
qed (simp_all add: lru_store_def cs_insert_holds cs_removal_holds cs_evict_prefix_def)

interpretation null: content_store null_store "\<lambda>_. {}"
  by unfold_locales (auto simp: null_store_def)

section \<open>The wrappers keep the contract\<close>

text \<open>A sharded store serves what one of its shards serves. The constructor rules the empty vector out.\<close>

definition sharded_holds :: "('s \<Rightarrow> cs_entry set) \<Rightarrow> 's list \<Rightarrow> cs_entry set" where
  "sharded_holds holds shards = (if shards = [] then UNIV else \<Union> (holds ` set shards))"

lemma shard_for_less: "shards \<noteq> [] \<Longrightarrow> shard_for h (length shards) n < length shards"
  by (simp add: shard_for_def split: list.split)

lemma sharded_holds_update:
  assumes "idx < length shards" "holds s \<subseteq> X \<union> holds (shards ! idx)"
  shows "sharded_holds holds (shards[idx := s]) \<subseteq> X \<union> sharded_holds holds shards"
proof
  fix e
  assume "e \<in> sharded_holds holds (shards[idx := s])"
  moreover have "shards \<noteq> []" using assms(1) by auto
  ultimately obtain s' where "s' \<in> set (shards[idx := s])" "e \<in> holds s'" by (auto simp: sharded_holds_def)
  then have "e \<in> holds s \<or> (\<exists>s'\<in>set shards. e \<in> holds s')" using set_update_subset_insert by fastforce
  then show "e \<in> X \<union> sharded_holds holds shards"
    using assms nth_mem [OF assms(1)] by (auto simp: sharded_holds_def)
qed

lemma sharded_holds_same:
  assumes "idx < length shards" "holds s = holds (shards ! idx)"
  shows "sharded_holds holds (shards[idx := s]) = sharded_holds holds shards"
proof -
  have "map holds (shards[idx := s]) = map holds shards" by (simp add: map_update assms(2) list_update_same_conv assms(1))
  then have "holds ` set (shards[idx := s]) = holds ` set shards" by (metis set_map)
  then show ?thesis by (simp add: sharded_holds_def)
qed

lemma those_eq_Some: "those xs = Some ys \<longleftrightarrow> xs = map Some ys"
proof (induction xs arbitrary: ys)
  case (Cons x xs)
  then show ?case by (cases ys) (auto split: option.splits)
qed auto

locale sharded_content_store = content_store C holds for C :: "'s cs_ops" and holds +
  fixes h :: "name_component \<Rightarrow> u64"
begin

lemma capacity_shards:
  assumes "those (map (co_set_capacity C m) shards) = Some shards'"
  shows "sharded_holds holds shards' \<subseteq> sharded_holds holds shards"
proof -
  have *: "map (co_set_capacity C m) shards = map Some shards'" using assms by (simp add: those_eq_Some)
  have len: "length shards' = length shards" using arg_cong [OF *, of length] by simp
  show ?thesis
  proof (cases "shards = []")
    case False
    have "holds s' \<subseteq> \<Union> (holds ` set shards)" if "s' \<in> set shards'" for s'
    proof -
      have "Some s' \<in> set (map (co_set_capacity C m) shards)" using that by (simp add: * del: set_map) simp
      then obtain s where "s \<in> set shards" "co_set_capacity C m s = Some s'" by (metis imageE set_map)
      then show ?thesis using set_capacity_holds by blast
    qed
    moreover have "shards' \<noteq> []" using False len by auto
    ultimately show ?thesis using False by (auto simp: sharded_holds_def)
  qed (simp add: sharded_holds_def)
qed

lemma on_shard_holds:
  assumes "\<And>s. holds (fst (f s)) \<subseteq> holds s"
  shows "sharded_holds holds (fst (on_shard (shard_for h (length shards) n) f shards)) \<subseteq> sharded_holds holds shards"
proof (cases "shards = []")
  case False
  obtain s r where f: "f (shards ! shard_for h (length shards) n) = (s, r)" by fastforce
  then show ?thesis
    using sharded_holds_update [OF shard_for_less [OF False, of h n], of holds s "{}"] assms [of "shards ! shard_for h (length shards) n"]
    by (simp add: on_shard_def)
qed (simp add: sharded_holds_def)

end

sublocale sharded_content_store \<subseteq> sharded: content_store "sharded_store h C" "sharded_holds holds"
proof
  fix now and i :: interest and s s' :: "'s list" and r
  let ?i = "shard_for h (length s) (int_name i)"
  assume "co_get (sharded_store h C) now i s = (s', r)"
  then obtain t where g: "co_get C now i (s ! ?i) = (t, r)" and s': "s' = s[?i := t]"
    by (auto simp: sharded_store_def on_shard_def split: prod.splits)
  show "sharded_holds holds s' = sharded_holds holds s \<and> (\<forall>e. r = Some e \<longrightarrow> e \<in> sharded_holds holds s)"
  proof (cases "s = []")
    case False
    then show ?thesis
      using get_holds [OF g] sharded_holds_same [OF shard_for_less [OF False], of holds t h "int_name i"] nth_mem [OF shard_for_less [OF False, of h "int_name i"]]
      by (auto simp: s') (auto simp: sharded_holds_def)
  qed (simp add: s' sharded_holds_def)
next
  fix d n t res and s s' :: "'s list"
  let ?i = "shard_for h (length s) n"
  assume "co_insert (sharded_store h C) d n t s = Some (s', res)"
  then obtain u where c: "co_insert C d n t (s ! ?i) = Some (u, res)" and s': "s' = s[?i := u]"
    by (auto simp: sharded_store_def Let_def)
  show "sharded_holds holds s' \<subseteq> insert \<lparr>ce_data = d, ce_stale_at = t, ce_name = n\<rparr> (sharded_holds holds s)"
  proof (cases "s = []")
    case False
    show ?thesis
      using sharded_holds_update [OF shard_for_less [OF False, of h n], of holds u "{\<lparr>ce_data = d, ce_stale_at = t, ce_name = n\<rparr>}"] insert_holds [OF c]
      by (simp add: s')
  qed (simp add: sharded_holds_def)
qed (simp_all add: sharded_store_def on_shard_holds evict_holds evict_prefix_holds capacity_shards)

locale observed_content_store = content_store C holds for C :: "'s cs_ops" and holds

sublocale observed_content_store \<subseteq> observed: content_store "observable_store C" "\<lambda>s. holds (oc_inner s)"
proof
  fix now i s s' r
  assume "co_get (observable_store C) now i s = (s', r)"
  then obtain t where "co_get C now i (oc_inner s) = (t, r)" "oc_inner s' = t"
    by (auto simp: observable_store_def emit_def Let_def split: prod.splits)
  then show "holds (oc_inner s') = holds (oc_inner s) \<and> (\<forall>e. r = Some e \<longrightarrow> e \<in> holds (oc_inner s))" using get_holds by blast
next
  fix d n t s s' res
  assume "co_insert (observable_store C) d n t s = Some (s', res)"
  then have "co_insert C d n t (oc_inner s) = Some (oc_inner s', res)"
    by (auto simp: observable_store_def emit_def Let_def split: prod.splits if_splits)
  then show "holds (oc_inner s') \<subseteq> insert \<lparr>ce_data = d, ce_stale_at = t, ce_name = n\<rparr> (holds (oc_inner s))" by (rule insert_holds)
next
  fix n s
  show "holds (oc_inner (fst (co_evict (observable_store C) n s))) \<subseteq> holds (oc_inner s)"
    using evict_holds [of n "oc_inner s"] by (cases "co_evict C n (oc_inner s)") (simp add: observable_store_def emit_def Let_def)
next
  fix n limit s
  show "holds (oc_inner (fst (co_evict_prefix (observable_store C) n limit s))) \<subseteq> holds (oc_inner s)"
    using evict_prefix_holds [of n limit "oc_inner s"] by (cases "co_evict_prefix C n limit (oc_inner s)") (simp add: observable_store_def)
next
  fix m s s'
  assume "co_set_capacity (observable_store C) m s = Some s'"
  then show "holds (oc_inner s') \<subseteq> holds (oc_inner s)" using set_capacity_holds by (fastforce simp: observable_store_def)
qed (simp_all add: observable_store_def toggles_hold)

interpretation lru_sharded: sharded_content_store "lru_store L sha256" "lru_holds L items" h
  for L :: "'c lru_ops" and sha256 items h
  by unfold_locales

interpretation lru_observed: observed_content_store "lru_store L sha256" "lru_holds L items"
  for L :: "'c lru_ops" and sha256 items
  by unfold_locales

end
