(* ===== verification/Data_Stages.thy ===== *)
theory Data_Stages
  imports Pit_Stages Cs_Variants
begin

text \<open>
  The stages of the Data pipeline after the PIT (\<open>src/crates/forwarding/ndn-engine/src/\<close>
  \<open>stages/validation.rs\<close>, \<open>stages/cs.rs\<close>, \<open>unsolicited.rs\<close>): signature validation with its queue of
  packets that wait for a certificate, and the lookup in and the insertion into the Content Store. The
  validator is an argument: the verdict on a packet, without and with its certificate chain, and the certificates in its cache. The store is any
  store of the trait, by its record of operations. A queue configured for no entries makes \<open>push\<close> loop
  forever: its result is then \<open>None\<close>.
\<close>

section \<open>The pending queue\<close>

datatype validation_result = VValid | VInvalid | VPending

record validator =
  vl_validate :: "data \<Rightarrow> validation_result"
  vl_validate_chain :: "data \<Rightarrow> validation_result"
  vl_cert_cached :: "name \<Rightarrow> bool"

record pending_entry =
  pn_ctx :: packet_context
  pn_needed_cert :: name
  pn_deadline :: nat
  pn_byte_size :: nat

datatype drain_result = Ready packet_context | Timeout

record pending_queue =
  pq_entries :: "pending_entry list"
  pq_total_bytes :: nat
  pq_max_entries :: nat
  pq_max_bytes :: nat
  pq_default_timeout :: nat

definition pending_queue_new :: "nat \<Rightarrow> nat \<Rightarrow> nat \<Rightarrow> pending_queue" where
  "pending_queue_new max_entries max_bytes timeout = \<lparr>pq_entries = [], pq_total_bytes = 0,
     pq_max_entries = max_entries, pq_max_bytes = max_bytes, pq_default_timeout = timeout\<rparr>"

definition pending_queue_default :: pending_queue where
  "pending_queue_default = pending_queue_new 256 (4 * 1024 * 1024) 4000000000"

partial_function (option) push_evict :: "nat \<Rightarrow> pending_queue \<Rightarrow> pending_queue option" where
  "push_evict byte_size q =
     (if length (pq_entries q) \<ge> pq_max_entries q \<or> (pq_total_bytes q + byte_size > pq_max_bytes q \<and> pq_entries q \<noteq> [])
      then (case pq_entries q of
          evicted # es \<Rightarrow> push_evict byte_size (q\<lparr>pq_entries := es, pq_total_bytes := pq_total_bytes q - pn_byte_size evicted\<rparr>)
        | [] \<Rightarrow> push_evict byte_size q)
      else Some q)"

definition push :: "packet_context \<Rightarrow> name \<Rightarrow> nat \<Rightarrow> pending_queue \<Rightarrow> pending_queue option" where
  "push ctx needed_cert now q = (let byte_size = length (ctx_raw_bytes ctx) in
     map_option (\<lambda>q. q\<lparr>pq_total_bytes := pq_total_bytes q + byte_size, pq_entries := pq_entries q @
       [\<lparr>pn_ctx = ctx, pn_needed_cert = needed_cert, pn_deadline = now + pq_default_timeout q, pn_byte_size = byte_size\<rparr>]\<rparr>)
       (push_evict byte_size q))"

definition remove_at :: "nat \<Rightarrow> 'a list \<Rightarrow> 'a list" where
  "remove_at i xs = take i xs @ drop (Suc i) xs"

function drain_loop :: "(name \<Rightarrow> bool) \<Rightarrow> nat \<Rightarrow> nat \<Rightarrow> pending_entry list \<Rightarrow> nat \<Rightarrow> drain_result list \<Rightarrow>
    pending_entry list \<times> nat \<times> drain_result list" where
  "drain_loop cached now i es tot results =
     (if i < length es then (let e = es ! i in
        if now \<ge> pn_deadline e then drain_loop cached now i (remove_at i es) (tot - pn_byte_size e) (results @ [Timeout])
        else if cached (pn_needed_cert e)
        then drain_loop cached now i (remove_at i es) (tot - pn_byte_size e) (results @ [Ready (pn_ctx e)])
        else drain_loop cached now (i + 1) es tot results)
      else (es, tot, results))"
  by pat_completeness auto
termination
  by (relation "measure (\<lambda>(_, _, i, es, _, _). length es - i)") (auto simp: remove_at_def)

lemmas [simp del] = drain_loop.simps

definition drain_ready :: "(name \<Rightarrow> bool) \<Rightarrow> nat \<Rightarrow> pending_queue \<Rightarrow> pending_queue \<times> drain_result list" where
  "drain_ready cached now q = (case drain_loop cached now 0 (pq_entries q) (pq_total_bytes q) [] of
     (es, tot, results) \<Rightarrow> (q\<lparr>pq_entries := es, pq_total_bytes := tot\<rparr>, results))"

section \<open>The validation stage\<close>

record validation_stats =
  vst_valid :: u64
  vst_invalid :: u64
  vst_pending :: u64
  vst_dropped_no_key :: u64
  vst_dropped_timeout :: u64

text \<open>\<open>vs_fetches\<close> lists the certificates asked of the fetcher, when one is configured.\<close>

record validation_stage =
  vs_validator :: "validator option"
  vs_cert_fetcher :: bool
  vs_pending :: pending_queue
  vs_stats :: validation_stats
  vs_fetches :: "name list"

definition validation_disabled :: validation_stage where
  "validation_disabled = \<lparr>vs_validator = None, vs_cert_fetcher = False, vs_pending = pending_queue_default,
     vs_stats = \<lparr>vst_valid = 0, vst_invalid = 0, vst_pending = 0, vst_dropped_no_key = 0, vst_dropped_timeout = 0\<rparr>, vs_fetches = []\<rparr>"

definition validation_process :: "nat \<Rightarrow> packet_context \<Rightarrow> validation_stage \<Rightarrow> (action \<times> validation_stage) option" where
  "validation_process now ctx st = (let stats = vs_stats st in case vs_validator st of
     None \<Rightarrow> Some (ActSatisfy (ctx\<lparr>ctx_validation_not_configured := True\<rparr>), st)
   | Some v \<Rightarrow> (case ctx_packet ctx of
       DataPacket d \<Rightarrow> (let key = Option.bind (data_sig_info d) key_locator_name in
         case vl_validate_chain v d of
           VValid \<Rightarrow> Some (ActSatisfy (ctx\<lparr>ctx_verified := True\<rparr>), st\<lparr>vs_stats := stats\<lparr>vst_valid := vst_valid stats + 1\<rparr>\<rparr>)
         | VPending \<Rightarrow> (case key of
             Some cert_name \<Rightarrow> (let
                 st = st\<lparr>vs_stats := stats\<lparr>vst_pending := vst_pending stats + 1\<rparr>\<rparr>;
                 st = (if vs_cert_fetcher st then st\<lparr>vs_fetches := vs_fetches st @ [cert_name]\<rparr> else st)
               in map_option (\<lambda>q. (ActDrop ValidationFailed, st\<lparr>vs_pending := q\<rparr>)) (push ctx cert_name now (vs_pending st)))
           | None \<Rightarrow> Some (ActDrop ValidationFailed, st\<lparr>vs_stats := stats\<lparr>vst_dropped_no_key := vst_dropped_no_key stats + 1\<rparr>\<rparr>))
         | VInvalid \<Rightarrow> Some (ActDrop ValidationFailed, st\<lparr>vs_stats := stats\<lparr>vst_invalid := vst_invalid stats + 1\<rparr>\<rparr>))
     | _ \<Rightarrow> Some (ActSatisfy ctx, st)))"

definition drain_result_action :: "validator \<Rightarrow> drain_result \<Rightarrow> validation_stats \<Rightarrow> action \<times> validation_stats" where
  "drain_result_action v r stats = (case r of
     Timeout \<Rightarrow> (ActDrop ValidationTimeout, stats\<lparr>vst_dropped_timeout := vst_dropped_timeout stats + 1\<rparr>)
   | Ready ctx \<Rightarrow> (case ctx_packet ctx of
       DataPacket d \<Rightarrow> (case vl_validate_chain v d of
           VValid \<Rightarrow> (ActSatisfy (ctx\<lparr>ctx_verified := True\<rparr>), stats\<lparr>vst_valid := vst_valid stats + 1\<rparr>)
         | VPending \<Rightarrow> (ActDrop ValidationFailed, stats\<lparr>vst_dropped_timeout := vst_dropped_timeout stats + 1\<rparr>)
         | VInvalid \<Rightarrow> (ActDrop ValidationFailed, stats\<lparr>vst_invalid := vst_invalid stats + 1\<rparr>))
     | _ \<Rightarrow> (ActSatisfy ctx, stats)))"

definition drain_pending :: "nat \<Rightarrow> validation_stage \<Rightarrow> action list \<times> validation_stage" where
  "drain_pending now st = (case vs_validator st of
     None \<Rightarrow> ([], st)
   | Some v \<Rightarrow> (case drain_ready (vl_cert_cached v) now (vs_pending st) of
       (q, results) \<Rightarrow> (let
         (actions, stats) = foldl (\<lambda>(actions, stats) r. case drain_result_action v r stats of
             (a, stats) \<Rightarrow> (actions @ [a], stats)) ([], vs_stats st) results
       in (actions, st\<lparr>vs_pending := q, vs_stats := stats\<rparr>))))"

section \<open>Content Store stages\<close>

definition cs_lookup_process :: "'s cs_ops \<Rightarrow> u64 \<Rightarrow> packet_context \<Rightarrow> 's \<Rightarrow> action \<times> 's" where
  "cs_lookup_process C now ctx cs = (case ctx_packet ctx of
     InterestPacket i \<Rightarrow> (case co_get C now i cs of
         (cs, Some hit) \<Rightarrow> (ActSatisfy (ctx\<lparr>ctx_cs_hit := True, ctx_out_faces := ctx_out_faces ctx @ [ctx_face_id ctx],
           ctx_tags := (ctx_tags ctx)\<lparr>tag_cs_entry := Some hit\<rparr>\<rparr>), cs)
       | (cs, None) \<Rightarrow> (ActContinue ctx, cs))
   | _ \<Rightarrow> (ActContinue ctx, cs))"

record cs_insert_config =
  ci_admission :: "data \<Rightarrow> bool"
  ci_admit_unverified :: bool

definition cs_insert_process ::
  "'s cs_ops \<Rightarrow> cs_insert_config \<Rightarrow> packet_context \<Rightarrow> 's \<Rightarrow> (action \<times> 's) option" where
  "cs_insert_process C cfg ctx cs = (case ctx_packet ctx of
     DataPacket d \<Rightarrow> (let unvalidated_ok = (ctx_validation_not_configured ctx \<and> ci_admit_unverified cfg) in
       if \<not> ctx_verified ctx \<and> \<not> unvalidated_ok then Some (ActSatisfy ctx, cs)
       else if tag_cache_policy (ctx_tags ctx) = Some NoCache then Some (ActSatisfy ctx, cs)
       else if \<not> ci_admission cfg d then Some (ActSatisfy ctx, cs)
       else let
         freshness_ms = (case Option.bind (data_meta_info d) mi_freshness_period of Some ms \<Rightarrow> ms | None \<Rightarrow> 0);
         stale_at = ctx_arrival ctx + freshness_ms * 1000000
       in map_option (\<lambda>(cs, _). (ActSatisfy ctx, cs)) (co_insert C (ctx_raw_bytes ctx) (data_name d) stale_at cs))
   | _ \<Rightarrow> Some (ActSatisfy ctx, cs))"

section \<open>Unsolicited Data\<close>

datatype unsolicited_data_policy = DropAll | AdmitLocal | AdmitNetwork | AdmitAll

definition admits :: "unsolicited_data_policy \<Rightarrow> face_scope \<Rightarrow> bool" where
  "admits pol scope = (case pol of
     DropAll \<Rightarrow> False | AdmitLocal \<Rightarrow> scope = Local | AdmitNetwork \<Rightarrow> scope = NonLocal | AdmitAll \<Rightarrow> True)"

definition policy_from_token :: "string \<Rightarrow> unsolicited_data_policy option" where
  "policy_from_token s = (if s = ''drop-all'' then Some DropAll else if s = ''admit-local'' then Some AdmitLocal
     else if s = ''admit-network'' then Some AdmitNetwork else if s = ''admit-all'' then Some AdmitAll else None)"

section \<open>The queue\<close>

definition queue_ok :: "pending_queue \<Rightarrow> bool" where
  "queue_ok q \<longleftrightarrow> pq_total_bytes q = sum_list (map pn_byte_size (pq_entries q)) \<and> length (pq_entries q) \<le> pq_max_entries q \<and>
     (pq_total_bytes q \<le> pq_max_bytes q \<or> length (pq_entries q) = 1)"

lemma push_evict_returns:
  assumes "0 < pq_max_entries q" "pq_total_bytes q = sum_list (map pn_byte_size (pq_entries q))"
  shows "\<exists>k q'. push_evict b q = Some q' \<and> q' = q\<lparr>pq_entries := drop k (pq_entries q), pq_total_bytes := sum_list (map pn_byte_size (drop k (pq_entries q)))\<rparr> \<and>
    length (pq_entries q') < pq_max_entries q \<and> (pq_total_bytes q' + b \<le> pq_max_bytes q \<or> pq_entries q' = [])"
  using assms
proof (induction "pq_entries q" arbitrary: q)
  case Nil
  then have "push_evict b q = Some q" by (subst push_evict.simps) auto
  moreover have "q = q\<lparr>pq_entries := drop 0 (pq_entries q), pq_total_bytes := sum_list (map pn_byte_size (drop 0 (pq_entries q)))\<rparr>"
    using Nil.prems(2) by simp
  ultimately show ?case using Nil by (intro exI [of _ 0] exI [of _ q]) simp
next
  case (Cons e es)
  let ?q = "q\<lparr>pq_entries := es, pq_total_bytes := pq_total_bytes q - pn_byte_size e\<rparr>"
  show ?case
  proof (cases "length (pq_entries q) \<ge> pq_max_entries q \<or> pq_total_bytes q + b > pq_max_bytes q")
    case True
    then have "push_evict b q = push_evict b ?q" using Cons.hyps(2) by (subst push_evict.simps) (auto split: list.split)
    moreover obtain k q' where "push_evict b ?q = Some q'"
      "q' = ?q\<lparr>pq_entries := drop k es, pq_total_bytes := sum_list (map pn_byte_size (drop k es))\<rparr>"
      "length (pq_entries q') < pq_max_entries q" "pq_total_bytes q' + b \<le> pq_max_bytes q \<or> pq_entries q' = []"
      using Cons.hyps(1) [of ?q] Cons.prems Cons.hyps(2) [symmetric] by auto
    moreover have "drop k es = drop (Suc k) (pq_entries q)" using Cons.hyps(2) [symmetric] by simp
    ultimately show ?thesis by (intro exI [of _ "Suc k"] exI [of _ q']) simp
  next
    case False
    then have "push_evict b q = Some q" by (subst push_evict.simps) auto
    then show ?thesis using False Cons.prems(2) by (intro exI [of _ 0] exI [of _ q]) simp
  qed
qed

lemma push_evict_hangs:
  assumes "push_evict b q = Some q'"
  shows "pq_max_entries q \<noteq> 0"
  by (rule push_evict.raw_induct [OF _ assms, where P = "\<lambda>b q q'. pq_max_entries q \<noteq> 0"])
    (fastforce split: if_splits list.splits)

lemma push_returns:
  assumes "0 < pq_max_entries q" "queue_ok q"
  shows "\<exists>k q'. push ctx cert now q = Some q' \<and> queue_ok q' \<and> pq_entries q' = drop k (pq_entries q) @
    [\<lparr>pn_ctx = ctx, pn_needed_cert = cert, pn_deadline = now + pq_default_timeout q, pn_byte_size = length (ctx_raw_bytes ctx)\<rparr>] \<and>
    pq_max_entries q' = pq_max_entries q"
proof -
  obtain k q1 where q1: "push_evict (length (ctx_raw_bytes ctx)) q = Some q1"
    "q1 = q\<lparr>pq_entries := drop k (pq_entries q), pq_total_bytes := sum_list (map pn_byte_size (drop k (pq_entries q)))\<rparr>"
    "length (pq_entries q1) < pq_max_entries q" "pq_total_bytes q1 + length (ctx_raw_bytes ctx) \<le> pq_max_bytes q \<or> pq_entries q1 = []"
    using push_evict_returns [OF assms(1), of "length (ctx_raw_bytes ctx)"] assms(2) by (auto simp: queue_ok_def)
  let ?e = "\<lparr>pn_ctx = ctx, pn_needed_cert = cert, pn_deadline = now + pq_default_timeout q, pn_byte_size = length (ctx_raw_bytes ctx)\<rparr>"
  have run: "push ctx cert now q = Some (q1\<lparr>pq_total_bytes := pq_total_bytes q1 + length (ctx_raw_bytes ctx), pq_entries := pq_entries q1 @ [?e]\<rparr>)"
    using q1(1,2) by (simp add: push_def Let_def)
  show ?thesis
    by (intro exI conjI, rule run) (use q1(3,4) in \<open>auto simp: q1(2) queue_ok_def\<close>)
qed

definition keeps :: "(name \<Rightarrow> bool) \<Rightarrow> nat \<Rightarrow> pending_entry \<Rightarrow> bool" where
  "keeps cached now e \<longleftrightarrow> now < pn_deadline e \<and> \<not> cached (pn_needed_cert e)"

definition outcome :: "nat \<Rightarrow> pending_entry \<Rightarrow> drain_result" where
  "outcome now e = (if pn_deadline e \<le> now then Timeout else Ready (pn_ctx e))"

lemma drain_loop_result:
  "i \<le> length es \<Longrightarrow> drain_loop cached now i es tot results =
    (take i es @ filter (keeps cached now) (drop i es),
     tot - sum_list (map pn_byte_size (filter (\<lambda>e. \<not> keeps cached now e) (drop i es))),
     results @ map (outcome now) (filter (\<lambda>e. \<not> keeps cached now e) (drop i es)))"
proof (induction cached now i es tot results rule: drain_loop.induct)
  case (1 cached now i es tot results)
  show ?case
  proof (cases "i < length es")
    case True
    let ?e = "es ! i"
    have d: "drop i es = ?e # drop (Suc i) es" using True by (rule Cons_nth_drop_Suc [symmetric])
    have r: "take i (remove_at i es) = take i es" "drop i (remove_at i es) = drop (Suc i) es" "i \<le> length (remove_at i es)"
      using True by (simp_all add: remove_at_def)
    consider "pn_deadline ?e \<le> now" | "\<not> pn_deadline ?e \<le> now" "cached (pn_needed_cert ?e)"
      | "\<not> pn_deadline ?e \<le> now" "\<not> cached (pn_needed_cert ?e)" by blast
    then show ?thesis
    proof cases
      case 1
      then have k: "\<not> keeps cached now ?e" "outcome now ?e = Timeout" by (simp_all add: keeps_def outcome_def)
      show ?thesis using "1.IH"(1) [OF True refl _ r(3)] True 1
        by (subst drain_loop.simps) (simp add: r d k Let_def diff_diff_left)
    next
      case 2
      then have k: "\<not> keeps cached now ?e" "outcome now ?e = Ready (pn_ctx ?e)" by (simp_all add: keeps_def outcome_def)
      show ?thesis using "1.IH"(2) [OF True refl _ _ r(3)] True 2
        by (subst drain_loop.simps) (simp add: r d k Let_def diff_diff_left)
    next
      case 3
      then have k: "keeps cached now ?e" by (simp add: keeps_def)
      show ?thesis using "1.IH"(3) [OF True refl] True 3
        by (subst drain_loop.simps) (simp add: d k Let_def take_Suc_conv_app_nth)
    qed
  qed (use "1.prems" in \<open>subst drain_loop.simps, simp\<close>)
qed

lemma drain_ready_result:
  "drain_ready cached now q = (q\<lparr>pq_entries := filter (keeps cached now) (pq_entries q),
      pq_total_bytes := pq_total_bytes q - sum_list (map pn_byte_size (filter (\<lambda>e. \<not> keeps cached now e) (pq_entries q)))\<rparr>,
    map (outcome now) (filter (\<lambda>e. \<not> keeps cached now e) (pq_entries q)))"
  by (simp add: drain_ready_def drain_loop_result)

lemma sum_list_split: "sum_list (map f xs) = sum_list (map f (filter P xs)) + sum_list (map f (filter (\<lambda>x. \<not> P x) xs) :: nat list)"
  by (induction xs) auto

lemma drain_ready_ok: "queue_ok q \<Longrightarrow> queue_ok (fst (drain_ready cached now q))"
proof -
  assume ok: "queue_ok q"
  let ?P = "keeps cached now"
  have t: "pq_total_bytes q = sum_list (map pn_byte_size (filter ?P (pq_entries q))) + sum_list (map pn_byte_size (filter (\<lambda>e. \<not> ?P e) (pq_entries q)))"
    using ok sum_list_split [of pn_byte_size "pq_entries q" ?P] by (simp add: queue_ok_def)
  have len: "length (filter ?P (pq_entries q)) \<le> length (pq_entries q)" by simp
  show ?thesis
  proof (cases "length (pq_entries q) = 1")
    case True
    then obtain e where "pq_entries q = [e]" by (cases "pq_entries q") auto
    then show ?thesis using ok t by (auto simp: drain_ready_result queue_ok_def)
  next
    case False
    then show ?thesis using ok t le_trans [OF len] by (auto simp: drain_ready_result queue_ok_def)
  qed
qed

section \<open>Verdicts\<close>

lemma validation_satisfied:
  assumes "validation_process now ctx st = Some (ActSatisfy ctx', st')" "ctx_packet ctx = DataPacket d"
  shows "vs_validator st = None \<and> ctx' = ctx\<lparr>ctx_validation_not_configured := True\<rparr> \<or>
    (\<exists>v. vs_validator st = Some v \<and> vl_validate_chain v d = VValid \<and> ctx' = ctx\<lparr>ctx_verified := True\<rparr>)"
  using assms by (auto simp: validation_process_def Let_def split: option.splits validation_result.splits)

definition verdict :: "validator \<Rightarrow> drain_result \<Rightarrow> action" where
  "verdict v r = fst (drain_result_action v r
     \<lparr>vst_valid = 0, vst_invalid = 0, vst_pending = 0, vst_dropped_no_key = 0, vst_dropped_timeout = 0\<rparr>)"

lemma drain_result_verdict: "fst (drain_result_action v r stats) = verdict v r"
  by (simp add: verdict_def drain_result_action_def split: drain_result.split decoded_packet.split validation_result.split)

lemma drain_actions:
  "fst (foldl (\<lambda>(actions, stats) r. case drain_result_action v r stats of (a, stats) \<Rightarrow> (actions @ [a], stats)) (acts, stats) rs)
    = acts @ map (verdict v) rs"
proof (induction rs arbitrary: acts stats)
  case (Cons r rs)
  obtain a s where "drain_result_action v r stats = (a, s)" by (rule prod.exhaust)
  moreover have "a = verdict v r" using drain_result_verdict [of v r stats] calculation by simp
  ultimately show ?case by (simp add: Cons)
qed simp

text \<open>Every entry that leaves the queue is answered once, in order, and the others stay.\<close>

lemma drain_pending_result:
  assumes "vs_validator st = Some v"
  shows "fst (drain_pending now st) = map (verdict v \<circ> outcome now) (filter (\<lambda>e. \<not> keeps (vl_cert_cached v) now e) (pq_entries (vs_pending st)))"
    "pq_entries (vs_pending (snd (drain_pending now st))) = filter (keeps (vl_cert_cached v) now) (pq_entries (vs_pending st))"
  using drain_actions [of v "[]" "vs_stats st"] by (simp_all add: drain_pending_def assms drain_ready_result case_prod_beta)

lemma verdict_satisfied:
  assumes "verdict v r = ActSatisfy ctx'" "r = Ready ctx" "ctx_packet ctx = DataPacket d"
  shows "vl_validate_chain v d = VValid \<and> ctx' = ctx\<lparr>ctx_verified := True\<rparr>"
  using assms by (auto simp: verdict_def drain_result_action_def split: validation_result.splits)

section \<open>The cache\<close>

text \<open>What the insertion stage may put into the store for a packet.\<close>

definition cacheable :: "cs_insert_config \<Rightarrow> packet_context \<Rightarrow> cs_entry \<Rightarrow> bool" where
  "cacheable cfg ctx e \<longleftrightarrow> (\<exists>d. ctx_packet ctx = DataPacket d \<and>
     (ctx_verified ctx \<or> ctx_validation_not_configured ctx \<and> ci_admit_unverified cfg) \<and>
     tag_cache_policy (ctx_tags ctx) \<noteq> Some NoCache \<and> ci_admission cfg d \<and>
     ce_data e = ctx_raw_bytes ctx \<and> ce_name e = data_name d)"

context content_store
begin

lemma cs_insert_stage:
  assumes "cs_insert_process C cfg ctx cs = Some (a, cs')"
  shows "a = ActSatisfy ctx \<and> holds cs' \<subseteq> holds cs \<union> {e. cacheable cfg ctx e}"
proof (cases "\<exists>d. ctx_packet ctx = DataPacket d \<and> (ctx_verified ctx \<or> ctx_validation_not_configured ctx \<and> ci_admit_unverified cfg) \<and>
    tag_cache_policy (ctx_tags ctx) \<noteq> Some NoCache \<and> ci_admission cfg d")
  case True
  then obtain d where d: "ctx_packet ctx = DataPacket d" "ctx_verified ctx \<or> ctx_validation_not_configured ctx \<and> ci_admit_unverified cfg"
    "tag_cache_policy (ctx_tags ctx) \<noteq> Some NoCache" "ci_admission cfg d" by blast
  obtain t res where "co_insert C (ctx_raw_bytes ctx) (data_name d) t cs = Some (cs', res)" "a = ActSatisfy ctx"
    using assms d by (auto simp: cs_insert_process_def Let_def)
  then show ?thesis using insert_holds d by (fastforce simp: cacheable_def)
next
  case False
  then show ?thesis using assms
    by (auto simp: cs_insert_process_def Let_def split: decoded_packet.splits if_splits)
qed

lemma cs_lookup_stage:
  assumes "cs_lookup_process C now ctx cs = (a, cs')"
  shows "holds cs' = holds cs \<and> (a = ActContinue ctx \<or> (\<exists>e \<in> holds cs. a = ActSatisfy (ctx\<lparr>ctx_cs_hit := True,
      ctx_out_faces := ctx_out_faces ctx @ [ctx_face_id ctx], ctx_tags := (ctx_tags ctx)\<lparr>tag_cs_entry := Some e\<rparr>\<rparr>)))"
proof (cases "ctx_packet ctx")
  case (InterestPacket i)
  obtain s r where g: "co_get C now i cs = (s, r)" by (rule prod.exhaust)
  then show ?thesis using assms get_holds [OF g] by (cases r) (auto simp: cs_lookup_process_def InterestPacket)
qed (use assms in \<open>auto simp: cs_lookup_process_def\<close>)

end

section \<open>Properties\<close>

text \<open>C38. The queue of packets that wait for a certificate: adding a packet returns exactly when the queue is
  configured for at least one entry (with none, the eviction loop never ends); it then evicts only from
  the front, appends the packet with its deadline, and the queue stays within its bounds, on the number
  of entries and, unless it holds a single packet, on the bytes, with its byte count exact.\<close>

theorem pending_push_returns_iff:
  assumes "queue_ok q"
  shows "(case push ctx cert now q of
      None \<Rightarrow> pq_max_entries q = 0
    | Some q' \<Rightarrow> pq_max_entries q \<noteq> 0 \<and> queue_ok q' \<and> (\<exists>k. pq_entries q' = drop k (pq_entries q) @
        [\<lparr>pn_ctx = ctx, pn_needed_cert = cert, pn_deadline = now + pq_default_timeout q, pn_byte_size = length (ctx_raw_bytes ctx)\<rparr>]))"
proof (cases "pq_max_entries q = 0")
  case True
  then have "push_evict (length (ctx_raw_bytes ctx)) q = None" using push_evict_hangs by (cases "push_evict (length (ctx_raw_bytes ctx)) q") auto
  then show ?thesis using True by (simp add: push_def Let_def)
next
  case False
  then show ?thesis using push_returns [OF _ assms, of ctx cert now] by auto
qed

theorem pending_push_returns_iff_witness:
  "push (packet_context_new [] 0 0) [] 0 (pending_queue_new 0 100 5) = None \<and>
   push (packet_context_new [] 0 0) [] 0 pending_queue_default \<noteq> None"
proof -
  have ok: "queue_ok (pending_queue_new 0 100 5)" "queue_ok pending_queue_default"
    by (simp_all add: queue_ok_def pending_queue_new_def pending_queue_default_def)
  show ?thesis
    using pending_push_returns_iff [OF ok(1), of "packet_context_new [] 0 0" "[]" 0]
      pending_push_returns_iff [OF ok(2), of "packet_context_new [] 0 0" "[]" 0]
    by (auto simp: pending_queue_default_def split: option.splits) (simp_all add: pending_queue_new_def)
qed

end
