(* ===== verification/Engine_Reflexive.thy ===== *)
theory Engine_Reflexive
  imports Name_Trie
begin

text \<open>
  The reverse routes of reflexive forwarding (\<open>src/crates/forwarding/ndn-engine/src/reflexive.rs\<close>):
  temporary routes from a reflexive name to the face its Interest came in on, with a cap per face and a
  ceiling on their lifetime. The routes are a name trie; durations are nanoseconds. The counters are
  shown to agree with the routes after any sequence of operations.
\<close>

section \<open>The table\<close>

record reflexive_route =
  rx_face_id :: u64
  rx_expiry_ns :: u64

record reflexive_table =
  rt_routes :: "reflexive_route trie"
  rt_per_face :: "(u64 \<times> nat) list"
  rt_live :: u64
  rt_enabled :: bool
  rt_max_per_face :: nat
  rt_max_lifetime_ns :: u64
  rt_installs :: u64
  rt_refused :: u64
  rt_expired :: u64
  rt_lookup_hits :: u64

definition reflexive_new :: "bool \<Rightarrow> nat \<Rightarrow> nat \<Rightarrow> reflexive_table" where
  "reflexive_new enabled max_per_face max_lifetime = \<lparr>rt_routes = trie_new, rt_per_face = [], rt_live = 0,
     rt_enabled = enabled, rt_max_per_face = max_per_face, rt_max_lifetime_ns = word_of_nat max_lifetime,
     rt_installs = 0, rt_refused = 0, rt_expired = 0, rt_lookup_hits = 0\<rparr>"

lemma reflexive_new_fields [simp]:
  "rt_enabled (reflexive_new e m l) = e" "rt_max_per_face (reflexive_new e m l) = m"
  "rt_max_lifetime_ns (reflexive_new e m l) = word_of_nat l"
  by (simp_all add: reflexive_new_def)

definition reflexive_default :: reflexive_table where
  "reflexive_default = reflexive_new True 256 8000000000"

definition reflexive_is_empty :: "reflexive_table \<Rightarrow> bool" where
  "reflexive_is_empty t \<longleftrightarrow> rt_live t = 0"

definition set_enabled :: "bool \<Rightarrow> reflexive_table \<Rightarrow> reflexive_table" where
  "set_enabled b t = t\<lparr>rt_enabled := b\<rparr>"

definition set_max_per_face :: "nat \<Rightarrow> reflexive_table \<Rightarrow> reflexive_table" where
  "set_max_per_face m t = t\<lparr>rt_max_per_face := m\<rparr>"

definition set_max_lifetime :: "nat \<Rightarrow> reflexive_table \<Rightarrow> reflexive_table" where
  "set_max_lifetime m t = t\<lparr>rt_max_lifetime_ns := word_of_nat m\<rparr>"

definition route_count :: "u64 \<Rightarrow> reflexive_table \<Rightarrow> nat" where
  "route_count f t = (case map_of (rt_per_face t) f of Some c \<Rightarrow> c | None \<Rightarrow> 0)"

definition install :: "name \<Rightarrow> u64 \<Rightarrow> nat \<Rightarrow> u64 \<Rightarrow> reflexive_table \<Rightarrow> reflexive_table \<times> bool" where
  "install n f lifetime now_ns t =
     (if \<not> rt_enabled t then (t\<lparr>rt_refused := rt_refused t + 1\<rparr>, False)
      else let
        ttl = min lifetime (unat (rt_max_lifetime_ns t));
        expiry_ns = saturating_add now_ns (word_of_nat ttl)
      in case trie_get (rt_routes t) n of
        Some existing \<Rightarrow>
          if rx_face_id existing \<noteq> f then (t\<lparr>rt_refused := rt_refused t + 1\<rparr>, False)
          else (t\<lparr>rt_routes := trie_insert (rt_routes t) n \<lparr>rx_face_id = f, rx_expiry_ns = expiry_ns\<rparr>\<rparr>, True)
      | None \<Rightarrow> (let
          count = route_count f t;
          t = t\<lparr>rt_per_face := AList.update f count (rt_per_face t)\<rparr>
        in if count \<ge> rt_max_per_face t then (t\<lparr>rt_refused := rt_refused t + 1\<rparr>, False)
        else (t\<lparr>rt_per_face := AList.update f (count + 1) (rt_per_face t),
           rt_routes := trie_insert (rt_routes t) n \<lparr>rx_face_id = f, rx_expiry_ns = expiry_ns\<rparr>,
           rt_live := rt_live t + 1, rt_installs := rt_installs t + 1\<rparr>, True)))"

definition reflexive_lookup :: "name \<Rightarrow> u64 \<Rightarrow> reflexive_table \<Rightarrow> reflexive_table \<times> u64 option" where
  "reflexive_lookup n now_ns t = (case trie_lpm (rt_routes t) n of
     None \<Rightarrow> (t, None)
   | Some route \<Rightarrow>
       if rx_expiry_ns route \<le> now_ns then (t, None)
       else (t\<lparr>rt_lookup_hits := rt_lookup_hits t + 1\<rparr>, Some (rx_face_id route)))"

definition decrement :: "u64 \<Rightarrow> reflexive_table \<Rightarrow> reflexive_table" where
  "decrement f t = (case map_of (rt_per_face t) f of
     Some c \<Rightarrow> t\<lparr>rt_per_face := AList.update f (c - 1) (rt_per_face t)\<rparr>
   | None \<Rightarrow> t)"

definition reflexive_remove :: "name \<Rightarrow> reflexive_table \<Rightarrow> reflexive_table" where
  "reflexive_remove n t = (case trie_get (rt_routes t) n of
     Some route \<Rightarrow> (let t = decrement (rx_face_id route) (t\<lparr>rt_routes := trie_remove (rt_routes t) n\<rparr>) in
       t\<lparr>rt_live := rt_live t - 1\<rparr>)
   | None \<Rightarrow> t)"

definition reflexive_remove_face :: "u64 \<Rightarrow> reflexive_table \<Rightarrow> reflexive_table" where
  "reflexive_remove_face f t = (let
     (routes, removed) = foldl (\<lambda>(routes, removed) (n, route).
         if rx_face_id route = f then (trie_remove routes n, removed + 1) else (routes, removed))
       (rt_routes t, 0) (trie_dump (rt_routes t))
   in t\<lparr>rt_routes := routes, rt_per_face := AList.delete f (rt_per_face t), rt_live := rt_live t - removed\<rparr>)"

definition sweep :: "u64 \<Rightarrow> reflexive_table \<Rightarrow> reflexive_table \<times> u64" where
  "sweep now t = (let
     (t', removed) = foldl (\<lambda>(t, removed) (n, route).
         if rx_expiry_ns route \<le> now
         then (decrement (rx_face_id route) (t\<lparr>rt_routes := trie_remove (rt_routes t) n\<rparr>), removed + 1) else (t, removed))
       (t, 0) (trie_dump (rt_routes t))
   in (t'\<lparr>rt_live := rt_live t' - removed, rt_expired := rt_expired t' + removed\<rparr>, removed))"

definition flush :: "reflexive_table \<Rightarrow> reflexive_table \<times> nat" where
  "flush t = (let names = map fst (trie_dump (rt_routes t)) in
     (t\<lparr>rt_routes := foldl trie_remove (rt_routes t) names, rt_per_face := [], rt_live := 0\<rparr>, length names))"

record reflexive_status =
  rs_enabled :: bool
  rs_max_per_face :: nat
  rs_max_lifetime_ms :: u64
  rs_live_routes :: u64
  rs_installs :: u64
  rs_refused :: u64
  rs_expired :: u64
  rs_lookup_hits :: u64

definition reflexive_status :: "reflexive_table \<Rightarrow> reflexive_status" where
  "reflexive_status t = \<lparr>rs_enabled = rt_enabled t, rs_max_per_face = rt_max_per_face t,
     rs_max_lifetime_ms = rt_max_lifetime_ns t div 1000000, rs_live_routes = rt_live t, rs_installs = rt_installs t,
     rs_refused = rt_refused t, rs_expired = rt_expired t, rs_lookup_hits = rt_lookup_hits t\<rparr>"

section \<open>Routes and counters\<close>

definition route_at :: "reflexive_table \<Rightarrow> name \<Rightarrow> reflexive_route option" where
  "route_at t n = trie_get (rt_routes t) n"

definition routes_on :: "u64 \<Rightarrow> reflexive_table \<Rightarrow> name set" where
  "routes_on f t = {n. \<exists>r. route_at t n = Some r \<and> rx_face_id r = f}"

text \<open>The counters agree with the routes.\<close>

definition reflexive_ok :: "reflexive_table \<Rightarrow> bool" where
  "reflexive_ok t \<longleftrightarrow> trie_ok (rt_routes t) \<and> rt_live t = word_of_nat (card (dom (route_at t))) \<and>
     (\<forall>f. route_count f t = card (routes_on f t))"

lemma finite_routes:
  assumes "trie_ok (rt_routes t)"
  shows "finite (dom (route_at t))" "finite (routes_on f t)"
proof -
  have "dom (route_at t) = fst ` set (trie_dump (rt_routes t))"
    using trie_dump_set [OF assms] by (force simp: route_at_def)
  then show fin: "finite (dom (route_at t))" by simp
  show "finite (routes_on f t)" by (rule finite_subset [OF _ fin]) (auto simp: routes_on_def)
qed

lemma distinct_children:
  assumes "distinct (map fst ch)" "\<And>c t. (c, t) \<in> set ch \<Longrightarrow> distinct (d c t) \<and> (\<forall>n \<in> set (d c t). prefix (path @ [c]) n)"
  shows "distinct (concat (map (\<lambda>(c, t). d c t) ch))"
  using assms
proof (induction ch)
  case (Cons x ch)
  obtain c t where x: "x = (c, t)" by (rule prod.exhaust)
  have tail: "distinct (concat (map (\<lambda>(c, t). d c t) ch))" by (rule Cons.IH) (use Cons.prems in \<open>auto\<close>)
  have "n \<notin> set (concat (map (\<lambda>(c, t). d c t) ch))" if n: "n \<in> set (d c t)" for n
  proof
    assume "n \<in> set (concat (map (\<lambda>(c, t). d c t) ch))"
    then obtain y where y: "y \<in> set ch" "n \<in> set (d (fst y) (snd y))" by (auto simp: case_prod_beta)
    then have "prefix (path @ [fst y]) n" using Cons.prems(2) [of "fst y" "snd y"] by simp
    moreover have "prefix (path @ [c]) n" using Cons.prems(2) [of c t] n by (simp add: x)
    ultimately have "c = fst y" by (auto simp: prefix_def)
    then show False using Cons.prems(1) y(1) by (simp add: x)
  qed
  then show ?case using tail Cons.prems(2) [of c t] by (auto simp: x)
qed simp

lemma dump_subtree_distinct:
  "trie_ok t \<Longrightarrow> distinct (map fst (dump_subtree t path)) \<and> (\<forall>n \<in> set (map fst (dump_subtree t path)). prefix path n)"
proof (induction t path rule: dump_subtree.induct)
  case (1 e ch path)
  let ?d = "\<lambda>c t. map fst (dump_subtree t (path @ [c]))"
  have IH: "distinct (?d c t) \<and> (\<forall>n \<in> set (?d c t). prefix (path @ [c]) n)" if "(c, t) \<in> set ch" for c t
  proof -
    have "trie_ok t" using "1.prems" that by (simp add: Ball_def)
    from "1.IH" [OF that refl this] show ?thesis .
  qed
  have ch: "distinct (map fst ch)" using "1.prems" by simp
  have children: "distinct (concat (map (\<lambda>(c, t). ?d c t) ch))" by (rule distinct_children [OF ch IH])
  have ext: "strict_prefix path n" if n: "n \<in> set (concat (map (\<lambda>(c, t). ?d c t) ch))" for n
  proof -
    obtain y where y: "y \<in> set ch" "n \<in> set (?d (fst y) (snd y))" using n by (auto simp: case_prod_beta)
    then have "prefix (path @ [fst y]) n" using IH [of "fst y" "snd y"] by auto
    then show ?thesis by (auto simp: prefix_def strict_prefix_def)
  qed
  have shape: "map fst (dump_subtree (TrieNode e ch) path) =
      (case e of Some v \<Rightarrow> [path] | None \<Rightarrow> []) @ concat (map (\<lambda>(c, t). ?d c t) ch)"
    by (auto simp: map_concat o_def split: option.split intro!: arg_cong [where f = concat] map_cong)
  have "path \<notin> set (concat (map (\<lambda>(c, t). ?d c t) ch))" using ext [of path] by blast
  moreover have "prefix path n" if "n \<in> set (concat (map (\<lambda>(c, t). ?d c t) ch))" for n using ext [OF that] by (rule strict_prefixE) simp
  ultimately show ?case unfolding shape using children by (simp only: distinct_append set_append split: option.split) force
qed

lemma trie_dump_distinct: "trie_ok t \<Longrightarrow> distinct (map fst (trie_dump t))"
  using dump_subtree_distinct [of t "[]"] by (simp add: trie_dump_def)

lemma foldl_trie_remove:
  "trie_ok t \<Longrightarrow> trie_ok (foldl trie_remove t ns) \<and> (\<forall>m. trie_get (foldl trie_remove t ns) m = (if m \<in> set ns then None else trie_get t m))"
  by (induction ns arbitrary: t) (auto simp: trie_get_remove wf_intros)

definition counts_ok :: "reflexive_table \<Rightarrow> bool" where
  "counts_ok t \<longleftrightarrow> trie_ok (rt_routes t) \<and> (\<forall>f. route_count f t = card (routes_on f t))"

lemma drop_route:
  assumes "counts_ok t" "route_at t n = Some r"
  defines "t' \<equiv> decrement (rx_face_id r) (t\<lparr>rt_routes := trie_remove (rt_routes t) n\<rparr>)"
  shows "counts_ok t' \<and> route_at t' = (route_at t)(n := None) \<and> rt_live t' = rt_live t"
proof -
  let ?f = "rx_face_id r"
  have ok: "trie_ok (rt_routes t)" and count: "route_count f t = card (routes_on f t)" for f
    using assms(1) by (simp_all add: counts_ok_def)
  have n: "n \<in> routes_on ?f t" using assms(2) by (simp add: routes_on_def)
  have fields: "rt_routes t' = trie_remove (rt_routes t) n" "rt_live t' = rt_live t"
    by (simp_all add: t'_def decrement_def split: option.split)
  have at: "route_at t' = (route_at t)(n := None)" by (rule ext) (simp add: route_at_def fields trie_get_remove)
  have on: "routes_on f t' = routes_on f t - (if f = ?f then {n} else {})" for f
    using assms(2) by (auto simp: routes_on_def at)
  have "card (routes_on ?f t) \<noteq> 0" using n finite_routes(2) [OF ok, of ?f] by auto
  then obtain c where "map_of (rt_per_face t) ?f = Some c"
    using count [of ?f] by (auto simp: route_count_def split: option.splits)
  then have "route_count f t' = route_count f t - (if f = ?f then 1 else 0)" for f
    by (simp add: t'_def decrement_def route_count_def update_conv')
  then have "route_count f t' = card (routes_on f t')" for f
    using count n finite_routes(2) [OF ok] by (simp add: on)
  then show ?thesis using at fields ok by (simp add: counts_ok_def wf_intros)
qed

lemma drop_routes:
  fixes k :: u64
  assumes "counts_ok t" "distinct (map fst xs)" "\<forall>(n, r) \<in> set xs. route_at t n = Some r"
    "foldl (\<lambda>(t, removed) (n, route). if P route
       then (decrement (rx_face_id route) (t\<lparr>rt_routes := trie_remove (rt_routes t) n\<rparr>), removed + 1) else (t, removed)) (t, k) xs = (t', k')"
  shows "counts_ok t' \<and> rt_live t' = rt_live t \<and> k' = k + word_of_nat (length (filter (\<lambda>x. P (snd x)) xs)) \<and>
    (\<forall>n. route_at t' n = (if n \<in> fst ` set (filter (\<lambda>x. P (snd x)) xs) then None else route_at t n))"
  using assms
proof (induction xs arbitrary: t k)
  case (Cons x xs)
  obtain n r where x: "x = (n, r)" by (rule prod.exhaust)
  have at: "route_at t n = Some r" using Cons.prems(3) by (simp add: x)
  have later: "\<forall>(m, s) \<in> set xs. m \<noteq> n \<and> route_at t m = Some s" using Cons.prems(2,3) by (force simp: x)
  show ?case
  proof (cases "P r")
    case True
    define t1 where "t1 = decrement (rx_face_id r) (t\<lparr>rt_routes := trie_remove (rt_routes t) n\<rparr>)"
    have t1: "counts_ok t1" "route_at t1 = (route_at t)(n := None)" "rt_live t1 = rt_live t"
      using drop_route [OF Cons.prems(1) at] by (simp_all add: t1_def)
    have t1_routes: "\<forall>(m, s) \<in> set xs. route_at t1 m = Some s" using later by (auto simp: t1(2))
    have "counts_ok t' \<and> rt_live t' = rt_live t1 \<and> k' = k + 1 + word_of_nat (length (filter (\<lambda>x. P (snd x)) xs)) \<and>
        (\<forall>m. route_at t' m = (if m \<in> fst ` set (filter (\<lambda>x. P (snd x)) xs) then None else route_at t1 m))"
      by (rule Cons.IH [OF t1(1) _ t1_routes]) (use Cons.prems(2,4) True in \<open>simp_all add: x t1_def\<close>)
    then show ?thesis using True by (auto simp: x t1)
  next
    case False
    have "counts_ok t' \<and> rt_live t' = rt_live t \<and> k' = k + word_of_nat (length (filter (\<lambda>x. P (snd x)) xs)) \<and>
        (\<forall>m. route_at t' m = (if m \<in> fst ` set (filter (\<lambda>x. P (snd x)) xs) then None else route_at t m))"
      by (rule Cons.IH [OF Cons.prems(1)]) (use Cons.prems(2,3,4) False in \<open>simp_all add: x\<close>)
    then show ?thesis using False by (simp add: x)
  qed
qed simp

lemma live_after_drop:
  assumes ok: "trie_ok (rt_routes t)" and at: "\<forall>n. route_at t' n = (if n \<in> fst ` set (filter (\<lambda>x. P (snd x)) (trie_dump (rt_routes t))) then None else route_at t n)"
  shows "(word_of_nat (card (dom (route_at t'))) :: u64) =
    word_of_nat (card (dom (route_at t))) - word_of_nat (length (filter (\<lambda>x. P (snd x)) (trie_dump (rt_routes t))))"
proof -
  let ?d = "trie_dump (rt_routes t)" and ?x = "filter (\<lambda>x. P (snd x)) (trie_dump (rt_routes t))"
  have sub: "fst ` set ?x \<subseteq> dom (route_at t)" using trie_dump_set [OF ok] by (auto simp: route_at_def)
  have "n \<in> dom (route_at t') \<longleftrightarrow> n \<in> dom (route_at t) - fst ` set ?x" for n using at [rule_format, of n] by (simp add: domIff)
  then have "dom (route_at t') = dom (route_at t) - fst ` set ?x" by blast
  moreover have "distinct (map fst ?x)" using trie_dump_distinct [OF ok] distinct_map_filter by blast
  then have "card (fst ` set ?x) = length ?x" by (metis distinct_card length_map set_map)
  moreover have "card (dom (route_at t)) = card (dom (route_at t) - fst ` set ?x) + card (fst ` set ?x)"
    using sub finite_routes(1) [OF ok] by (metis card_Diff_subset card_mono finite_subset le_add_diff_inverse2)
  ultimately show ?thesis by simp
qed

lemma reflexive_ok_iff: "reflexive_ok t \<longleftrightarrow> counts_ok t \<and> rt_live t = word_of_nat (card (dom (route_at t)))"
  by (auto simp: reflexive_ok_def counts_ok_def)

lemma dump_routes: "counts_ok t \<Longrightarrow> \<forall>(n, r) \<in> set (trie_dump (rt_routes t)). route_at t n = Some r"
  by (auto simp: counts_ok_def trie_dump_set route_at_def)

lemma reflexive_ok_sweep: "reflexive_ok t \<Longrightarrow> reflexive_ok (fst (sweep now t))"
proof -
  assume ok: "reflexive_ok t"
  then have c: "counts_ok t" and tr: "trie_ok (rt_routes t)" by (simp_all add: reflexive_ok_iff counts_ok_def)
  obtain t' k' where run: "foldl (\<lambda>(t, removed) (n, route). if rx_expiry_ns route \<le> now
       then (decrement (rx_face_id route) (t\<lparr>rt_routes := trie_remove (rt_routes t) n\<rparr>), removed + 1) else (t, removed))
       (t, 0 :: u64) (trie_dump (rt_routes t)) = (t', k')" by fastforce
  note d = drop_routes [OF c trie_dump_distinct [OF tr] dump_routes [OF c] run]
  have res: "fst (sweep now t) = t'\<lparr>rt_live := rt_live t' - k', rt_expired := rt_expired t' + k'\<rparr>" by (simp add: sweep_def run)
  have "counts_ok (fst (sweep now t))" using d by (simp add: res counts_ok_def routes_on_def route_at_def route_count_def)
  moreover have "route_at (fst (sweep now t)) = route_at t'" by (rule ext) (simp add: res route_at_def)
  moreover have "rt_live t' - k' = word_of_nat (card (dom (route_at t')))"
    using d live_after_drop [OF tr d [THEN conjunct2, THEN conjunct2, THEN conjunct2]] ok by (simp only: reflexive_ok_iff) simp
  ultimately show ?thesis by (simp add: reflexive_ok_iff) (simp add: res)
qed

lemma foldl_removals:
  fixes k :: u64
  shows "foldl (\<lambda>(routes, removed) (n, route). if P route then (trie_remove routes n, removed + 1) else (routes, removed)) (t, k) xs =
    (foldl trie_remove t (map fst (filter (\<lambda>x. P (snd x)) xs)), k + word_of_nat (length (filter (\<lambda>x. P (snd x)) xs)))"
  by (induction xs arbitrary: t k) (auto simp: add.assoc)

lemma reflexive_ok_remove_face: "reflexive_ok t \<Longrightarrow> reflexive_ok (reflexive_remove_face f t)"
proof -
  assume ok: "reflexive_ok t"
  then have tr: "trie_ok (rt_routes t)" by (simp add: reflexive_ok_def)
  let ?x = "filter (\<lambda>x. rx_face_id (snd x) = f) (trie_dump (rt_routes t))"
  define t' where "t' = reflexive_remove_face f t"
  have res: "t' = t\<lparr>rt_routes := foldl trie_remove (rt_routes t) (map fst ?x), rt_per_face := AList.delete f (rt_per_face t),
      rt_live := rt_live t - word_of_nat (length ?x)\<rparr>"
    by (simp add: t'_def reflexive_remove_face_def foldl_removals)
  have tr': "trie_ok (rt_routes t')" and at: "\<forall>n. route_at t' n = (if n \<in> fst ` set ?x then None else route_at t n)"
    using foldl_trie_remove [OF tr, of "map fst ?x"] by (auto simp: res route_at_def)
  have gone: "n \<in> fst ` set ?x \<longleftrightarrow> n \<in> routes_on f t" for n
    using trie_dump_set [OF tr] by (force simp: routes_on_def route_at_def)
  have "routes_on g t' = (if g = f then {} else routes_on g t)" for g
    using at unfolding gone by (auto simp: routes_on_def)
  moreover have "route_count g t' = (if g = f then 0 else route_count g t)" for g
    by (simp add: route_count_def res delete_conv')
  ultimately show ?thesis
    using ok tr' live_after_drop [OF tr at] by (simp add: reflexive_ok_def t'_def [symmetric]) (simp add: res)
qed

lemma reflexive_ok_remove: "reflexive_ok t \<Longrightarrow> reflexive_ok (reflexive_remove n t)"
proof -
  assume ok: "reflexive_ok t"
  then have c: "counts_ok t" and tr: "trie_ok (rt_routes t)" by (simp_all add: reflexive_ok_iff counts_ok_def)
  show ?thesis
  proof (cases "route_at t n")
    case (Some r)
    define t' where "t' = decrement (rx_face_id r) (t\<lparr>rt_routes := trie_remove (rt_routes t) n\<rparr>)"
    have d: "counts_ok t'" "route_at t' = (route_at t)(n := None)" "rt_live t' = rt_live t"
      using drop_route [OF c Some] by (simp_all add: t'_def)
    have res: "reflexive_remove n t = t'\<lparr>rt_live := rt_live t' - 1\<rparr>" using Some by (simp add: reflexive_remove_def route_at_def t'_def Let_def)
    have "card (dom (route_at t)) = Suc (card (dom (route_at t) - {n}))"
      using Some finite_routes(1) [OF tr] by (intro card.remove) auto
    then have "rt_live t' - 1 = word_of_nat (card (dom (route_at t')))" using ok by (simp add: d reflexive_ok_def)
    moreover have "route_at (t'\<lparr>rt_live := l\<rparr>) = route_at t'" for l by (rule ext) (simp add: route_at_def)
    ultimately show ?thesis using d(1) by (simp add: reflexive_ok_iff res) (simp add: counts_ok_def routes_on_def route_count_def)
  qed (use ok in \<open>simp add: reflexive_remove_def route_at_def\<close>)
qed

lemma reflexive_ok_flush: "reflexive_ok t \<Longrightarrow> reflexive_ok (fst (flush t))"
proof -
  assume "reflexive_ok t"
  then have tr: "trie_ok (rt_routes t)" by (simp add: reflexive_ok_def)
  have "route_at (fst (flush t)) = Map.empty"
    using foldl_trie_remove [OF tr, of "map fst (trie_dump (rt_routes t))"] trie_dump_set [OF tr]
    by (intro ext) (force simp: route_at_def flush_def Let_def)
  then show ?thesis
    using foldl_trie_remove [OF tr, of "map fst (trie_dump (rt_routes t))"]
    by (simp add: reflexive_ok_def routes_on_def) (simp add: flush_def Let_def route_count_def)
qed


lemma install_result:
  assumes "install n f lifetime now t = (t', ok)"
  shows "(ok \<longleftrightarrow> rt_enabled t \<and> (case route_at t n of Some r \<Rightarrow> rx_face_id r = f | None \<Rightarrow> route_count f t < rt_max_per_face t)) \<and>
    route_at t' = (if ok then (route_at t)(n \<mapsto> \<lparr>rx_face_id = f,
        rx_expiry_ns = saturating_add now (word_of_nat (min lifetime (unat (rt_max_lifetime_ns t))))\<rparr>) else route_at t) \<and>
    rt_max_per_face t' = rt_max_per_face t \<and> rt_enabled t' = rt_enabled t \<and> rt_max_lifetime_ns t' = rt_max_lifetime_ns t"
  using assms by (auto simp: install_def route_at_def [abs_def] Let_def trie_get_insert fun_eq_iff split: if_splits option.splits)

lemma reflexive_ok_install:
  assumes ok: "reflexive_ok t"
  shows "reflexive_ok (fst (install n f lifetime now t))"
proof -
  have tr: "trie_ok (rt_routes t)" and count: "\<And>g. route_count g t = card (routes_on g t)" using ok by (simp_all add: reflexive_ok_def)
  obtain t' b where run: "install n f lifetime now t = (t', b)" by (rule prod.exhaust)
  note at = install_result [OF run]
  consider "\<not> b" | r where "b" "route_at t n = Some r" "rx_face_id r = f" | "b" "route_at t n = None"
    using at by (auto split: option.splits)
  then show ?thesis
  proof cases
    case 1
    then have "rt_routes t' = rt_routes t" "rt_live t' = rt_live t" "route_count g t' = route_count g t" for g
      using run by (auto simp: install_def Let_def route_count_def update_conv' split: if_splits option.splits)
    then show ?thesis using ok by (simp add: run reflexive_ok_def route_at_def [abs_def] routes_on_def)
  next
    case 2
    then have "trie_ok (rt_routes t')" "rt_live t' = rt_live t" "route_count g t' = route_count g t" for g
      using run tr by (auto simp: install_def Let_def route_at_def route_count_def wf_intros split: if_splits option.splits)
    moreover have "routes_on g t' = routes_on g t" for g using 2 at by (auto simp: routes_on_def)
    moreover have "dom (route_at t') = dom (route_at t)" using 2 at by auto
    ultimately show ?thesis using ok by (simp add: run reflexive_ok_def)
  next
    case 3
    then have new: "trie_ok (rt_routes t')" "rt_live t' = rt_live t + 1" "route_count g t' = (if g = f then route_count g t + 1 else route_count g t)" for g
      using run tr by (auto simp: install_def Let_def route_at_def route_count_def update_conv' wf_intros split: if_splits option.splits)
    have "routes_on g t' = (if g = f then insert n (routes_on g t) else routes_on g t)" for g using 3 at by (auto simp: routes_on_def)
    moreover have "n \<notin> routes_on f t" using 3 by (simp add: routes_on_def)
    moreover have "dom (route_at t') = insert n (dom (route_at t))" "n \<notin> dom (route_at t)" using 3 at by auto
    ultimately show ?thesis using ok new finite_routes [OF tr] count by (simp add: run reflexive_ok_def)
  qed
qed

section \<open>Reachable tables\<close>

text \<open>The operations of the data plane, the sweeper and the management module, where the cap is never
  set above \<open>M\<close>.\<close>

inductive reflexive_step :: "nat \<Rightarrow> reflexive_table \<Rightarrow> reflexive_table \<Rightarrow> bool" for M where
  step_install: "reflexive_step M t (fst (install n f lifetime now t))"
| step_lookup: "reflexive_step M t (fst (reflexive_lookup n now t))"
| step_remove: "reflexive_step M t (reflexive_remove n t)"
| step_remove_face: "reflexive_step M t (reflexive_remove_face f t)"
| step_sweep: "reflexive_step M t (fst (sweep now t))"
| step_flush: "reflexive_step M t (fst (flush t))"
| step_enable: "reflexive_step M t (set_enabled b t)"
| step_cap: "m \<le> M \<Longrightarrow> reflexive_step M t (set_max_per_face m t)"
| step_lifetime: "reflexive_step M t (set_max_lifetime l t)"

lemma route_at_cong: "rt_routes t = rt_routes t' \<Longrightarrow> route_at t = route_at t'"
  by (rule ext) (simp add: route_at_def)

lemma decrement_fields [simp]:
  "rt_routes (decrement f t) = rt_routes t" "rt_max_per_face (decrement f t) = rt_max_per_face t"
  by (simp_all add: decrement_def split: option.split)

lemma sweep_shrinks:
  "reflexive_ok t \<Longrightarrow> routes_on f (fst (sweep now t)) \<subseteq> routes_on f t \<and> rt_max_per_face (fst (sweep now t)) = rt_max_per_face t"
proof -
  assume ok: "reflexive_ok t"
  then have c: "counts_ok t" and tr: "trie_ok (rt_routes t)" by (simp_all add: reflexive_ok_iff counts_ok_def)
  let ?F = "\<lambda>(t, removed) (n, route). if rx_expiry_ns route \<le> now
       then (decrement (rx_face_id route) (t\<lparr>rt_routes := trie_remove (rt_routes t) n\<rparr>), removed + 1) else (t, removed)"
  obtain t' k' where run: "foldl ?F (t, 0 :: u64) (trie_dump (rt_routes t)) = (t', k')" by fastforce
  have cap: "rt_max_per_face (fst (foldl ?F (s, k) xs)) = rt_max_per_face s" for s and k :: u64 and xs
    by (induction xs arbitrary: s k) auto
  have "routes_on f t' \<subseteq> routes_on f t"
    using drop_routes [OF c trie_dump_distinct [OF tr] dump_routes [OF c] run] by (auto simp: routes_on_def split: if_splits)
  moreover have "routes_on f (fst (sweep now t)) = routes_on f t'" by (simp add: sweep_def run routes_on_def route_at_def)
  ultimately show ?thesis using cap [of t 0 "trie_dump (rt_routes t)"] run by (simp add: sweep_def)
qed

definition capped :: "nat \<Rightarrow> reflexive_table \<Rightarrow> bool" where
  "capped M t \<longleftrightarrow> reflexive_ok t \<and> rt_max_per_face t \<le> M \<and> (\<forall>f. card (routes_on f t) \<le> M)"

lemma capped_shrink:
  assumes "capped M t" "reflexive_ok t'" "\<And>f. routes_on f t' \<subseteq> routes_on f t" "rt_max_per_face t' \<le> M"
  shows "capped M t'"
proof -
  have "card (routes_on f t') \<le> card (routes_on f t)" for f
    by (rule card_mono [OF finite_routes(2) assms(3)]) (use assms(1) in \<open>simp add: capped_def reflexive_ok_def\<close>)
  then show ?thesis using assms unfolding capped_def by (meson order_trans)
qed

lemma capped_install:
  assumes "capped M t"
  shows "capped M (fst (install n f lifetime now t))"
proof -
  obtain t' b where run: "install n f lifetime now t = (t', b)" by (rule prod.exhaust)
  note at = install_result [OF run]
  have ok: "reflexive_ok t'" using reflexive_ok_install [of t n f lifetime now] assms by (simp add: run capped_def)
  have "card (routes_on g t') \<le> M" for g
  proof (cases "b \<and> route_at t n = None \<and> g = f")
    case True
    then have "routes_on g t' = insert n (routes_on g t)" "route_count f t < rt_max_per_face t" using at by (auto simp: routes_on_def)
    moreover have "card (insert n (routes_on g t)) \<le> Suc (card (routes_on g t))" by (rule card_insert_le_m1) auto
    ultimately show ?thesis using assms True by (auto simp: capped_def reflexive_ok_def)
  next
    case False
    then have "routes_on g t' = routes_on g t" using at by (auto simp: routes_on_def split: if_splits option.splits)
    then show ?thesis using assms by (simp add: capped_def)
  qed
  then show ?thesis using ok at assms by (simp add: run capped_def)
qed

lemma removal_shrinks:
  assumes "reflexive_ok t"
  shows "routes_on f (reflexive_remove n t) \<subseteq> routes_on f t" "rt_max_per_face (reflexive_remove n t) = rt_max_per_face t"
    "routes_on f (reflexive_remove_face g t) \<subseteq> routes_on f t" "rt_max_per_face (reflexive_remove_face g t) = rt_max_per_face t"
    "routes_on f (fst (flush t)) \<subseteq> routes_on f t" "rt_max_per_face (fst (flush t)) = rt_max_per_face t"
proof -
  have tr: "trie_ok (rt_routes t)" using assms by (simp add: reflexive_ok_def)
  show "routes_on f (reflexive_remove n t) \<subseteq> routes_on f t" "rt_max_per_face (reflexive_remove n t) = rt_max_per_face t"
    by (auto simp: reflexive_remove_def routes_on_def route_at_def Let_def trie_get_remove split: option.splits if_splits)
  show "routes_on f (reflexive_remove_face g t) \<subseteq> routes_on f t" "rt_max_per_face (reflexive_remove_face g t) = rt_max_per_face t"
    using foldl_trie_remove [OF tr] by (auto simp: reflexive_remove_face_def foldl_removals routes_on_def route_at_def split: if_splits)
  show "routes_on f (fst (flush t)) \<subseteq> routes_on f t" "rt_max_per_face (fst (flush t)) = rt_max_per_face t"
    using foldl_trie_remove [OF tr] by (auto simp: flush_def Let_def routes_on_def route_at_def split: if_splits)
qed

lemma capped_same:
  assumes "capped M t" "rt_routes t' = rt_routes t" "rt_per_face t' = rt_per_face t" "rt_live t' = rt_live t" "rt_max_per_face t' \<le> M"
  shows "capped M t'"
proof -
  have "route_at t' = route_at t" by (rule route_at_cong) (simp add: assms(2))
  then show ?thesis using assms by (simp add: capped_def reflexive_ok_def routes_on_def route_count_def)
qed

lemma capped_step:
  assumes "reflexive_step M t t'" "capped M t"
  shows "capped M t'"
proof -
  have ok: "reflexive_ok t" "rt_max_per_face t \<le> M" using assms(2) by (simp_all add: capped_def)
  show ?thesis
    using assms
  proof cases
    case (step_install n f lifetime now)
    then show ?thesis using capped_install assms(2) by simp
  next
    case (step_lookup n now)
    show ?thesis by (rule capped_same [OF assms(2)])
      (use assms(2) step_lookup in \<open>auto simp: reflexive_lookup_def capped_def split: option.split\<close>)
  next
    case (step_sweep now)
    show ?thesis unfolding step_sweep by (rule capped_shrink [OF assms(2) reflexive_ok_sweep [OF ok(1)]])
      (use ok sweep_shrinks [OF ok(1)] in simp_all)
  next
    case (step_remove n)
    show ?thesis unfolding step_remove by (rule capped_shrink [OF assms(2) reflexive_ok_remove [OF ok(1)]]) (use ok in \<open>simp_all add: removal_shrinks\<close>)
  next
    case (step_remove_face f)
    show ?thesis unfolding step_remove_face by (rule capped_shrink [OF assms(2) reflexive_ok_remove_face [OF ok(1)]]) (use ok in \<open>simp_all add: removal_shrinks\<close>)
  next
    case step_flush
    show ?thesis unfolding step_flush by (rule capped_shrink [OF assms(2) reflexive_ok_flush [OF ok(1)]]) (use ok in \<open>simp_all add: removal_shrinks\<close>)
  qed (rule capped_same [OF assms(2)]; use ok in \<open>simp add: set_enabled_def set_max_per_face_def set_max_lifetime_def\<close>)+
qed

lemma capped_reachable:
  assumes "(reflexive_step M)\<^sup>*\<^sup>* (reflexive_new e m l) t" "m \<le> M"
  shows "capped M t"
  using assms(1)
proof (induction rule: rtranclp_induct)
  case base
  have "route_at (reflexive_new e m l) = Map.empty" by (rule ext) (simp add: route_at_def reflexive_new_def)
  then show ?case using assms(2) by (simp add: capped_def reflexive_ok_def routes_on_def) (simp add: reflexive_new_def route_count_def)
qed (rule capped_step)

section \<open>Properties\<close>

text \<open>C39. Reverse routes are accounted for: after any sequence of installs, lookups, removals, face
  teardowns, sweeps, flushes and reconfigurations, the live counter is the number of routes (so an empty
  counter means that there is none to match), each face's counter is the number of its routes, and no
  face has more than the largest cap that was configured.\<close>

theorem reflexive_routes_accounted:
  assumes "(reflexive_step M)\<^sup>*\<^sup>* (reflexive_new e m l) t" "m \<le> M"
  shows "rt_live t = word_of_nat (card (dom (route_at t))) \<and>
    (\<forall>f. route_count f t = card (routes_on f t) \<and> card (routes_on f t) \<le> M)"
  using capped_reachable [OF assms] by (simp add: capped_def reflexive_ok_def)

theorem reflexive_routes_accounted_witness:
  "route_count 7 (fst (install [generic [1]] 7 5 0 (fst (install [generic [2]] 7 5 0 (reflexive_new True 1 9))))) = 1"
proof -
  let ?t = "fst (install [generic [1]] 7 5 0 (fst (install [generic [2]] 7 5 0 (reflexive_new True 1 9))))"
  have "(reflexive_step 1)\<^sup>*\<^sup>* (reflexive_new True 1 9) ?t"
    by (meson rtranclp.rtrancl_into_rtrancl rtranclp.rtrancl_refl step_install)
  from reflexive_routes_accounted [OF this]
  have le: "route_count 7 ?t \<le> 1" by auto
  moreover have "route_count 7 ?t \<noteq> 0"
    by (simp add: install_def reflexive_new_def route_count_def trie_new_def Let_def split: option.split)
  ultimately show ?thesis by simp
qed

text \<open>C40. Longest-prefix match is not over the live routes: where the longest matching route has expired
  but has not been swept yet, a lookup finds nothing, even if a shorter route is still live.\<close>

theorem expired_route_shadows_live:
  assumes "prefix p n" "route_at t p = Some live" "now < rx_expiry_ns live"
    "prefix q n" "route_at t q = Some dead" "rx_expiry_ns dead \<le> now"
    "\<forall>s. prefix s n \<and> route_at t s \<noteq> None \<longrightarrow> length s \<le> length q"
  shows "reflexive_lookup n now t = (t, None)"
proof -
  have "trie_lpm (rt_routes t) n = Some dead"
    using assms(4,5,7) unfolding name_trie.lpm_longest route_at_def by blast
  then show ?thesis using assms(6) by (simp add: reflexive_lookup_def)
qed

theorem expired_route_shadows_live_witness:
  "snd (reflexive_lookup [generic [1], generic [2]] 10
     (fst (install [generic [1], generic [2]] 7 5 0 (fst (install [generic [1]] 7 20 0 (reflexive_new True 9 100)))))) = None"
proof -
  let ?u = "fst (install [generic [1]] 7 20 0 (reflexive_new True 9 100))"
  let ?t = "fst (install [generic [1], generic [2]] 7 5 0 ?u)"
  let ?r = "\<lparr>rx_face_id = 7, rx_expiry_ns = 20\<rparr>" and ?s = "\<lparr>rx_face_id = 7, rx_expiry_ns = 5\<rparr>"
  have new: "route_at (reflexive_new True 9 100) = Map.empty" by (rule ext) (simp add: route_at_def reflexive_new_def)
  have pair: "install n f l w s = (fst (install n f l w s), snd (install n f l w s))" for n f l w s by simp
  have count0: "route_count 7 (reflexive_new True 9 100) = 0" by (simp add: route_count_def reflexive_new_def)
  have at0: "route_at ?u = [[generic [1]] \<mapsto> ?r]" "rt_enabled ?u" "rt_max_per_face ?u = 9" "rt_max_lifetime_ns ?u = 100"
    using install_result [OF pair, of "[generic [1]]" 7 20 0 "reflexive_new True 9 100"]
    by (simp_all add: new saturating_add_def count0)
  have count: "route_count 7 ?u = 1"
    by (simp add: install_def reflexive_new_def route_count_def trie_new_def Let_def)
  have at: "route_at ?t = [[generic [1]] \<mapsto> ?r, [generic [1], generic [2]] \<mapsto> ?s]"
    using install_result [OF pair, of "[generic [1], generic [2]]" 7 5 0 ?u] by (simp add: at0 count saturating_add_def)
  have "reflexive_lookup [generic [1], generic [2]] 10 ?t = (?t, None)"
    by (rule expired_route_shadows_live [of "[generic [1]]" _ _ ?r _ "[generic [1], generic [2]]" ?s])
      (auto simp: at)
  then show ?thesis by simp
qed

end
