(* ===== verification/Engine_Rib.thy ===== *)
theory Engine_Rib
  imports Engine_Fib
begin

text \<open>
  The routing information base (\<open>src/crates/forwarding/ndn-engine/src/rib.rs\<close>), the
  readvertise set (\<open>readvertise.rs\<close>) and the calls through which management
  (\<open>src/crates/forwarding/ndn-mgmt/src/modules/rib.rs\<close>), the expiry task (\<open>expiry.rs\<close>), the
  routing manager (\<open>routing.rs\<close>) and face removal (\<open>engine.rs\<close>) drive them. An \<open>Instant\<close>
  is a number of nanoseconds. The lemmas characterise the next hops the RIB computes for a prefix
  (cheapest own route per face, inherited routes below the nearest capturing ancestor) and
  show that the FIB agrees with the RIB after every sequence of operations.
\<close>

section \<open>Routes\<close>

record rib_route =
  rr_face_id :: u64
  rr_origin :: u64
  rr_cost :: u32
  rr_flags :: u64
  rr_expires_at :: "nat option"

record rib =
  routes :: "(name \<times> rib_route list) list"

definition rib_new :: rib where
  "rib_new = \<lparr>routes = []\<rparr>"

definition rib_add :: "rib \<Rightarrow> name \<Rightarrow> rib_route \<Rightarrow> bool \<times> rib" where
  "rib_add rib pre route = (let
     rs = (case map_of (routes rib) pre of Some rs \<Rightarrow> rs | None \<Rightarrow> [])
   in case position (\<lambda>r. rr_face_id r = rr_face_id route \<and> rr_origin r = rr_origin route) rs of
     Some i \<Rightarrow> let
         existing = rs ! i;
         changed = (rr_cost existing \<noteq> rr_cost route \<or> rr_flags existing \<noteq> rr_flags route
           \<or> rr_expires_at existing \<noteq> rr_expires_at route)
       in (changed, rib\<lparr>routes := AList.update pre (rs[i := route]) (routes rib)\<rparr>)
   | None \<Rightarrow> (True, rib\<lparr>routes := AList.update pre (rs @ [route]) (routes rib)\<rparr>))"

text \<open>The body shared by \<open>remove\<close> and \<open>remove_nexthop\<close>: retain, then drop an empty entry.\<close>

definition rib_retain_at :: "rib \<Rightarrow> name \<Rightarrow> (rib_route \<Rightarrow> bool) \<Rightarrow> bool \<times> rib" where
  "rib_retain_at rib pre P = (case map_of (routes rib) pre of
     None \<Rightarrow> (False, rib)
   | Some ent \<Rightarrow> let
       kept = filter P ent;
       changed = (length kept \<noteq> length ent)
     in (changed, rib\<lparr>routes :=
          (if kept = [] then AList.delete pre (routes rib) else AList.update pre kept (routes rib))\<rparr>))"

definition rib_remove :: "rib \<Rightarrow> name \<Rightarrow> u64 \<Rightarrow> u64 \<Rightarrow> bool \<times> rib" where
  "rib_remove rib pre fid origin =
     rib_retain_at rib pre (\<lambda>r. \<not> (rr_face_id r = fid \<and> rr_origin r = origin))"

definition rib_remove_nexthop :: "rib \<Rightarrow> name \<Rightarrow> u64 \<Rightarrow> bool \<times> rib" where
  "rib_remove_nexthop rib pre fid = rib_retain_at rib pre (\<lambda>r. rr_face_id r \<noteq> fid)"

text \<open>The body shared by \<open>flush_origin\<close>, \<open>flush_face\<close> and \<open>drain_expired\<close>.\<close>

definition rib_retain :: "rib \<Rightarrow> (rib_route \<Rightarrow> bool) \<Rightarrow> name list \<times> rib" where
  "rib_retain rib P =
     (map fst (filter (\<lambda>(n, rs). length (filter P rs) \<noteq> length rs) (routes rib)),
      rib\<lparr>routes := filter (\<lambda>(n, rs). rs \<noteq> []) (map (\<lambda>(n, rs). (n, filter P rs)) (routes rib))\<rparr>)"

definition flush_origin :: "rib \<Rightarrow> u64 \<Rightarrow> name list \<times> rib" where
  "flush_origin rib origin = rib_retain rib (\<lambda>r. rr_origin r \<noteq> origin)"

definition flush_face :: "rib \<Rightarrow> u64 \<Rightarrow> name list \<times> rib" where
  "flush_face rib fid = rib_retain rib (\<lambda>r. rr_face_id r \<noteq> fid)"

definition drain_expired :: "rib \<Rightarrow> nat \<Rightarrow> name list \<times> rib" where
  "drain_expired rib now =
     rib_retain rib (\<lambda>r. case rr_expires_at r of None \<Rightarrow> True | Some e \<Rightarrow> e > now)"

section \<open>From the RIB to the FIB\<close>

abbreviation CHILD_INHERIT :: u64 where "CHILD_INHERIT \<equiv> 1"
abbreviation CAPTURE :: u64 where "CAPTURE \<equiv> 2"

definition best_own_step ::
  "(u64 \<times> u32 \<times> u64) list \<times> bool \<Rightarrow> rib_route \<Rightarrow> (u64 \<times> u32 \<times> u64) list \<times> bool" where
  "best_own_step st r = (case st of (best_own, own_captures) \<Rightarrow> let
     e = (case map_of best_own (rr_face_id r) of Some e \<Rightarrow> e | None \<Rightarrow> (- 1, - 1));
     e' = (if rr_cost r < fst e \<or> (rr_cost r = fst e \<and> rr_origin r < snd e)
           then (rr_cost r, rr_origin r) else e)
   in (AList.update (rr_face_id r) e' best_own, own_captures \<or> rr_flags r AND CAPTURE \<noteq> 0))"

definition best_inh_step ::
  "(u64 \<times> u32) list \<times> bool \<Rightarrow> rib_route \<Rightarrow> (u64 \<times> u32) list \<times> bool" where
  "best_inh_step st r = (case st of (best_inh, anc_captures) \<Rightarrow> let
     anc_captures' = (anc_captures \<or> rr_flags r AND CAPTURE \<noteq> 0)
   in if rr_flags r AND CHILD_INHERIT \<noteq> 0 then
        let e = (case map_of best_inh (rr_face_id r) of Some e \<Rightarrow> e | None \<Rightarrow> - 1)
        in (AList.update (rr_face_id r) (if rr_cost r < e then rr_cost r else e) best_inh, anc_captures')
      else (best_inh, anc_captures'))"

fun inherit_loop ::
  "(name \<times> rib_route list) list \<Rightarrow> name \<Rightarrow> nat \<Rightarrow> (u64 \<times> u32) list \<Rightarrow> (u64 \<times> u32) list" where
  "inherit_loop rts pre 0 best_inh = best_inh"
| "inherit_loop rts pre (Suc n) best_inh = (case map_of rts (take n pre) of
     None \<Rightarrow> inherit_loop rts pre n best_inh
   | Some rs \<Rightarrow>
       let (best_inh', anc_captures) = foldl best_inh_step (best_inh, False) rs in
       if anc_captures then best_inh' else inherit_loop rts pre n best_inh')"

definition effective_nexthops :: "rib \<Rightarrow> name \<Rightarrow> fib_nexthop list" where
  "effective_nexthops rib pre = (case map_of (routes rib) pre of
     None \<Rightarrow> []
   | Some own_entry \<Rightarrow> let
       (best_own, own_captures) = foldl best_own_step ([], False) own_entry;
       best_inh = (if \<not> own_captures then inherit_loop (routes rib) pre (length pre) [] else [])
     in map (\<lambda>(f, c, _). \<lparr>face_id = f, cost = c\<rparr>) best_own @
        map (\<lambda>(f, c). \<lparr>face_id = f, cost = c\<rparr>)
          (filter (\<lambda>(f, c). map_of best_own f = None) best_inh))"

definition apply_to_fib :: "rib \<Rightarrow> name \<Rightarrow> fib \<Rightarrow> fib" where
  "apply_to_fib rib pre fib = (let
     fib1 = set_nexthops fib pre (effective_nexthops rib pre);
     descendants = filter (\<lambda>k. k \<noteq> pre \<and> has_prefix k pre) (map fst (routes rib))
   in foldl (\<lambda>fib d. set_nexthops fib d (effective_nexthops rib d)) fib1 descendants)"

definition apply_all :: "rib \<Rightarrow> name list \<Rightarrow> fib \<Rightarrow> fib" where
  "apply_all rib affected fib = foldl (\<lambda>fib p. apply_to_fib rib p fib) fib affected"

definition handle_face_down :: "rib \<Rightarrow> u64 \<Rightarrow> fib \<Rightarrow> rib \<times> fib" where
  "handle_face_down rib fid fib = (case flush_face rib fid of
     (affected, rib') \<Rightarrow> (rib', apply_all rib' affected fib))"

section \<open>What the RIB computes for a prefix\<close>

text \<open>The specification: the routes a prefix inherits, nearest ancestor first, up to and
  including the first capturing one, and the cheapest cost per face.\<close>

definition captures :: "rib_route list \<Rightarrow> bool" where
  "captures rs \<longleftrightarrow> (\<exists>r \<in> set rs. rr_flags r AND CAPTURE \<noteq> 0)"

fun inherited_routes :: "(name \<times> rib_route list) list \<Rightarrow> name \<Rightarrow> nat \<Rightarrow> rib_route list" where
  "inherited_routes rts pre 0 = []"
| "inherited_routes rts pre (Suc n) = (case map_of rts (take n pre) of
     None \<Rightarrow> inherited_routes rts pre n
   | Some rs \<Rightarrow> filter (\<lambda>r. rr_flags r AND CHILD_INHERIT \<noteq> 0) rs @
       (if captures rs then [] else inherited_routes rts pre n))"

definition costs_via :: "u64 \<Rightarrow> rib_route list \<Rightarrow> u32 list" where
  "costs_via f rs = map rr_cost (filter (\<lambda>r. rr_face_id r = f) rs)"

fun best_cost :: "u32 option \<Rightarrow> u32 list \<Rightarrow> u32 option" where
  "best_cost b [] = b"
| "best_cost b (c # cs) = best_cost (Some (case b of None \<Rightarrow> c | Some c0 \<Rightarrow> min c0 c)) cs"

lemma costs_via_simps [simp]:
  "costs_via f [] = []"
  "costs_via f (r # rs) = (if rr_face_id r = f then rr_cost r # costs_via f rs else costs_via f rs)"
  "costs_via f (rs @ rs') = costs_via f rs @ costs_via f rs'"
  by (simp_all add: costs_via_def)

lemma best_cost_append: "best_cost b (cs @ ds) = best_cost (best_cost b cs) ds"
  by (induction cs arbitrary: b) auto

lemma best_cost_Some: "best_cost (Some c) cs = Some (Min (insert c (set cs)))"
proof (induction cs arbitrary: c)
  case (Cons d cs)
  then show ?case
    by (cases "cs = []") (simp_all add: insert_commute [of c] min.commute min.left_commute)
qed simp

lemma best_cost_Min: "best_cost None cs = (if cs = [] then None else Some (Min (set cs)))"
  by (cases cs) (simp_all add: best_cost_Some)

lemma u32_less_max: "(c :: u32) < - 1 \<longleftrightarrow> c \<noteq> - 1"
  by (simp add: word_order.not_eq_extremum)

lemma best_own_fold:
  "map_option fst (map_of (fst (foldl best_own_step (m, cap) rs)) f)
     = best_cost (map_option fst (map_of m f)) (costs_via f rs)"
proof (induction rs arbitrary: m cap)
  case (Cons r rs)
  obtain m' cap' where step: "best_own_step (m, cap) r = (m', cap')" by fastforce
  have "map_option fst (map_of m' f) =
      (if rr_face_id r = f then Some (case map_option fst (map_of m f) of None \<Rightarrow> rr_cost r | Some c0 \<Rightarrow> min c0 (rr_cost r))
       else map_option fst (map_of m f))"
    using step by (auto simp: best_own_step_def Let_def update_conv' min_def u32_less_max split: option.splits)
  with Cons step show ?case by simp
qed simp

lemma best_own_captures: "snd (foldl best_own_step (m, cap) rs) \<longleftrightarrow> cap \<or> captures rs"
  by (induction rs arbitrary: m cap) (auto simp: best_own_step_def captures_def Let_def)

lemma best_inh_fold:
  "map_of (fst (foldl best_inh_step (m, cap) rs)) f
     = best_cost (map_of m f) (costs_via f (filter (\<lambda>r. rr_flags r AND CHILD_INHERIT \<noteq> 0) rs))"
proof (induction rs arbitrary: m cap)
  case (Cons r rs)
  obtain m' cap' where step: "best_inh_step (m, cap) r = (m', cap')" by fastforce
  have "map_of m' f =
      (if rr_face_id r = f \<and> rr_flags r AND CHILD_INHERIT \<noteq> 0
       then Some (case map_of m f of None \<Rightarrow> rr_cost r | Some c0 \<Rightarrow> min c0 (rr_cost r))
       else map_of m f)"
    using step
    by (auto simp: best_inh_step_def Let_def update_conv' min_def u32_less_max split: option.splits if_splits)
  with Cons step show ?case by simp
qed simp

lemma best_inh_captures: "snd (foldl best_inh_step (m, cap) rs) \<longleftrightarrow> cap \<or> captures rs"
  by (induction rs arbitrary: m cap) (auto simp: best_inh_step_def captures_def Let_def)

lemma inherit_loop_eq:
  "map_of (inherit_loop rts pre n m) f = best_cost (map_of m f) (costs_via f (inherited_routes rts pre n))"
proof (induction n arbitrary: m)
  case (Suc n)
  show ?case
  proof (cases "map_of rts (take n pre)")
    case (Some rs)
    then show ?thesis
      using Suc best_inh_fold [of m False rs f] best_inh_captures [of m False rs]
      by (simp add: case_prod_beta best_cost_append)
  qed (simp add: Suc)
qed simp

lemma distinct_best_own: "distinct (map fst m) \<Longrightarrow> distinct (map fst (fst (foldl best_own_step (m, cap) rs)))"
  by (induction rs arbitrary: m cap) (auto simp: best_own_step_def Let_def distinct_update)

lemma distinct_best_inh: "distinct (map fst m) \<Longrightarrow> distinct (map fst (fst (foldl best_inh_step (m, cap) rs)))"
  by (induction rs arbitrary: m cap) (auto simp: best_inh_step_def Let_def distinct_update)

lemma distinct_inherit_loop: "distinct (map fst m) \<Longrightarrow> distinct (map fst (inherit_loop rts pre n m))"
proof (induction n arbitrary: m)
  case (Suc n)
  then show ?case
    using distinct_best_inh [of m False]
    by (auto simp: case_prod_beta split: option.splits)
qed simp

definition visible_routes :: "rib \<Rightarrow> name \<Rightarrow> rib_route list" where
  "visible_routes rib pre = (case map_of (routes rib) pre of
     None \<Rightarrow> []
   | Some own \<Rightarrow> if captures own then [] else inherited_routes (routes rib) pre (length pre))"

lemma mem_map_of: "distinct (map fst m) \<Longrightarrow> (k, v) \<in> set m \<longleftrightarrow> map_of m k = Some v"
  by simp

lemma effective_nexthops_mem:
  "\<lparr>face_id = f, cost = c\<rparr> \<in> set (effective_nexthops rib pre) \<longleftrightarrow>
     (\<exists>own. map_of (routes rib) pre = Some own \<and>
       (if costs_via f own \<noteq> [] then c = Min (set (costs_via f own))
        else costs_via f (visible_routes rib pre) \<noteq> [] \<and> c = Min (set (costs_via f (visible_routes rib pre)))))"
proof (cases "map_of (routes rib) pre")
  case None
  then show ?thesis by (simp add: effective_nexthops_def)
next
  case (Some own)
  obtain bo cap where bo: "foldl best_own_step ([], False) own = (bo, cap)" by fastforce
  let ?bi = "if \<not> cap then inherit_loop (routes rib) pre (length pre) [] else []"
  have cap: "cap \<longleftrightarrow> captures own"
    using best_own_captures [of "[]" False own] bo by simp
  have own: "map_option fst (map_of bo f) = best_cost None (costs_via f own)" for f
    using best_own_fold [of "[]" False own f] bo by simp
  have inh: "map_of ?bi f = best_cost None (costs_via f (visible_routes rib pre))" for f
    using Some by (simp add: cap inherit_loop_eq visible_routes_def)
  have dist: "distinct (map fst bo)" "distinct (map fst ?bi)"
    using distinct_best_own [of "[]" False own] distinct_inherit_loop [of "[]" "routes rib"] bo by auto
  have "\<lparr>face_id = f, cost = c\<rparr> \<in> set (effective_nexthops rib pre) \<longleftrightarrow>
      (\<exists>og. (f, c, og) \<in> set bo) \<or> (f, c) \<in> set ?bi \<and> map_of bo f = None"
    using Some bo by (force simp: effective_nexthops_def)
  also have "\<dots> \<longleftrightarrow> map_option fst (map_of bo f) = Some c \<or> map_of ?bi f = Some c \<and> map_option fst (map_of bo f) = None"
    using mem_map_of [OF dist(1)] mem_map_of [OF dist(2)] by (auto simp del: map_of_eq_None_iff)
  finally show ?thesis
    using Some unfolding own inh by (auto simp: best_cost_Min)
qed

lemma effective_nexthops_distinct: "distinct (map face_id (effective_nexthops rib pre))"
proof (cases "map_of (routes rib) pre")
  case (Some own)
  obtain bo cap where bo: "foldl best_own_step ([], False) own = (bo, cap)" by fastforce
  let ?bi = "if \<not> cap then inherit_loop (routes rib) pre (length pre) [] else []"
  have dist: "distinct (map fst bo)" "distinct (map fst ?bi)"
    using distinct_best_own [of "[]" False own] distinct_inherit_loop [of "[]" "routes rib"] bo by auto
  have "map face_id (effective_nexthops rib pre) = map fst bo @ map fst (filter (\<lambda>(f, c). map_of bo f = None) ?bi)"
    using Some bo by (simp add: effective_nexthops_def comp_def case_prod_beta)
  moreover have "distinct (map fst (filter (\<lambda>(f, c). map_of bo f = None) ?bi))"
    using dist(2) by (rule distinct_map_filter)
  ultimately show ?thesis
    using dist(1) by (force simp: map_of_eq_None_iff)
qed (simp add: effective_nexthops_def)

section \<open>The FIB follows the RIB\<close>

lemma inherit_loop_cong:
  "\<forall>k < n. map_of rts (take k pre) = map_of rts' (take k pre) \<Longrightarrow>
   inherit_loop rts pre n m = inherit_loop rts' pre n m"
  by (induction n arbitrary: m) (auto simp: case_prod_beta split: option.splits)

lemma effective_nexthops_cong:
  assumes "\<And>q. prefix q pre \<Longrightarrow> map_of (routes rib) q = map_of (routes rib') q"
  shows "effective_nexthops rib pre = effective_nexthops rib' pre"
proof -
  have "inherit_loop (routes rib) pre (length pre) [] = inherit_loop (routes rib') pre (length pre) []"
    using assms by (intro inherit_loop_cong) (auto simp: take_is_prefix)
  then show ?thesis
    using assms [of pre] by (simp add: effective_nexthops_def case_prod_beta split: option.splits)
qed

lemma fib_get_set_all:
  "fib_get (foldl (\<lambda>fib d. set_nexthops fib d (g d)) fib ds) p =
     (if p \<in> set ds then entry_of (sort_key cost (g p)) else fib_get fib p)"
  by (induction ds arbitrary: fib) (auto simp: fib_get_set_nexthops)

lemma fib_get_apply:
  "fib_get (apply_to_fib rib pre fib) p =
     (if p = pre \<or> prefix pre p \<and> p \<in> fst ` set (routes rib)
      then entry_of (sort_key cost (effective_nexthops rib p)) else fib_get fib p)"
  by (auto simp: apply_to_fib_def Let_def fib_get_set_all fib_get_set_nexthops)

lemma fib_get_apply_all:
  "fib_get (apply_all rib ps fib) p =
     (if p \<in> set ps \<or> (\<exists>q \<in> set ps. prefix q p) \<and> p \<in> fst ` set (routes rib)
      then entry_of (sort_key cost (effective_nexthops rib p)) else fib_get fib p)"
  by (induction ps arbitrary: fib) (auto simp: apply_all_def fib_get_apply)

definition rib_fib_sync :: "rib \<Rightarrow> fib \<Rightarrow> bool" where
  "rib_fib_sync rib fib \<longleftrightarrow> (\<forall>p. set (hops (fib_get fib p)) = set (effective_nexthops rib p))"

lemma rib_fib_syncD: "rib_fib_sync rib fib \<Longrightarrow> set (hops (fib_get fib p)) = set (effective_nexthops rib p)"
  by (simp add: rib_fib_sync_def)

lemma effective_none: "p \<notin> fst ` set (routes rib) \<Longrightarrow> effective_nexthops rib p = []"
  using map_of_eq_None_iff [of "routes rib" p] by (simp add: effective_nexthops_def)

lemma sync_apply_all:
  assumes "rib_fib_sync rib fib"
    and "\<And>p. p \<notin> set ps \<Longrightarrow> map_of (routes rib') p = map_of (routes rib) p"
  shows "rib_fib_sync rib' (apply_all rib' ps fib)"
  unfolding rib_fib_sync_def
proof
  fix p
  show "set (hops (fib_get (apply_all rib' ps fib) p)) = set (effective_nexthops rib' p)"
  proof (cases "p \<in> set ps \<or> (\<exists>q \<in> set ps. prefix q p) \<and> p \<in> fst ` set (routes rib')")
    case True
    then show ?thesis by (simp add: fib_get_apply_all)
  next
    case False
    then have keep: "fib_get (apply_all rib' ps fib) p = fib_get fib p"
      by (auto simp: fib_get_apply_all)
    have "effective_nexthops rib' p = effective_nexthops rib p"
    proof (cases "\<exists>q \<in> set ps. prefix q p")
      case True
      with False have "p \<notin> set ps" "p \<notin> fst ` set (routes rib')" by auto
      moreover from this have "p \<notin> fst ` set (routes rib)"
        using assms(2) by (metis map_of_eq_None_iff)
      ultimately show ?thesis by (simp add: effective_none)
    next
      case False
      then show ?thesis
        using assms(2) by (intro effective_nexthops_cong) blast
    qed
    then show ?thesis
      using keep rib_fib_syncD [OF assms(1)] by simp
  qed
qed

lemma sync_apply:
  assumes "rib_fib_sync rib fib"
    and "\<And>p. p \<noteq> pre \<Longrightarrow> map_of (routes rib') p = map_of (routes rib) p"
  shows "rib_fib_sync rib' (apply_to_fib rib' pre fib)"
  using sync_apply_all [OF assms(1), of "[pre]" rib'] assms(2) by (simp add: apply_all_def)

section \<open>Each RIB operation changes only the prefixes it reports\<close>

definition rib_wf :: "rib \<Rightarrow> bool" where
  "rib_wf rib \<longleftrightarrow> distinct (map fst (routes rib)) \<and> (\<forall>p. map_of (routes rib) p \<noteq> Some [])"

lemma rib_wf_new [wf_intros]: "rib_wf rib_new"
  by (simp add: rib_wf_def rib_new_def)

lemma rib_wf_add [wf_intros]: "rib_wf rib \<Longrightarrow> rib_wf (snd (rib_add rib pre r))"
  by (auto simp: rib_wf_def rib_add_def Let_def distinct_update update_conv' simp del: map_of_eq_Some_iff
      dest: position_Some split: option.split if_splits)

lemma rib_wf_retain_at [wf_intros]: "rib_wf rib \<Longrightarrow> rib_wf (snd (rib_retain_at rib pre P))"
  by (auto simp: rib_wf_def rib_retain_at_def Let_def distinct_update distinct_delete update_conv'
      delete_conv' simp del: map_of_eq_Some_iff split: option.split if_splits)

lemma rib_add_other: "p \<noteq> pre \<Longrightarrow> map_of (routes (snd (rib_add rib pre r))) p = map_of (routes rib) p"
  by (simp add: rib_add_def Let_def update_conv' split: option.split)

lemma rib_retain_at_other:
  "p \<noteq> pre \<Longrightarrow> map_of (routes (snd (rib_retain_at rib pre P))) p = map_of (routes rib) p"
  by (simp add: rib_retain_at_def Let_def update_conv' delete_conv' split: option.split)

lemma map_of_retain:
  assumes "rib_wf rib"
  shows "map_of (routes (snd (rib_retain rib P))) p =
    (case map_of (routes rib) p of None \<Rightarrow> None
     | Some rs \<Rightarrow> if filter P rs = [] then None else Some (filter P rs))"
proof -
  have "map_of (filter (\<lambda>(n, rs). rs \<noteq> []) (map (\<lambda>(n, rs). (n, filter P rs)) xs)) p =
      (case map_of xs p of None \<Rightarrow> None | Some rs \<Rightarrow> if filter P rs = [] then None else Some (filter P rs))"
    if "distinct (map fst xs)" for xs :: "(name \<times> rib_route list) list"
    using that
  proof (induction xs)
    case (Cons x xs)
    then have "fst x = p \<Longrightarrow> map_of xs p = None"
      by (auto simp: map_of_eq_None_iff)
    with Cons show ?case
      by (cases x) (auto split: option.splits)
  qed simp
  then show ?thesis
    using assms by (simp add: rib_retain_def rib_wf_def)
qed

lemma rib_wf_retain [wf_intros]:
  assumes "rib_wf rib"
  shows "rib_wf (snd (rib_retain rib P))"
proof -
  have "distinct (map fst (map (\<lambda>(n, rs). (n, filter P rs)) (routes rib)))"
    using assms by (simp add: rib_wf_def comp_def case_prod_beta)
  then have "distinct (map fst (routes (snd (rib_retain rib P))))"
    by (simp add: rib_retain_def distinct_map_filter)
  moreover have "map_of (routes (snd (rib_retain rib P))) p \<noteq> Some []" for p
    using map_of_retain [OF assms] by (simp split: option.split)
  ultimately show ?thesis by (simp add: rib_wf_def)
qed

lemma rib_retain_other:
  assumes "rib_wf rib" "p \<notin> set (fst (rib_retain rib P))"
  shows "map_of (routes (snd (rib_retain rib P))) p = map_of (routes rib) p"
proof (cases "map_of (routes rib) p")
  case None
  then show ?thesis by (simp add: map_of_retain [OF assms(1)])
next
  case (Some rs)
  then have "(p, rs) \<in> set (routes rib)" by (rule map_of_SomeD)
  with assms(2) have "length (filter P rs) = length rs"
    by (force simp: rib_retain_def)
  then have "filter P rs = rs"
    by (metis filter_True length_filter_less less_irrefl)
  moreover have "rs \<noteq> []"
    using Some assms(1) by (auto simp: rib_wf_def)
  ultimately show ?thesis
    using Some by (simp add: map_of_retain [OF assms(1)])
qed

section \<open>The engine's routing state\<close>

text \<open>The readvertised prefixes are a \<open>BTreeSet<Name>\<close>: a sorted list in the canonical order.\<close>

definition should_readvertise :: "u64 \<Rightarrow> bool" where
  "should_readvertise origin \<longleftrightarrow> origin \<in> {0, 64, 65, 255}"

definition advertise :: "name list \<Rightarrow> name \<Rightarrow> name list" where
  "advertise dest pre = insort_insert pre dest"

definition withdraw :: "name list \<Rightarrow> name \<Rightarrow> name list" where
  "withdraw dest pre = remove1 pre dest"

definition readvertise_announce :: "name list option \<Rightarrow> name \<Rightarrow> u64 \<Rightarrow> name list option" where
  "readvertise_announce dest pre origin =
     (if should_readvertise origin then map_option (\<lambda>d. advertise d pre) dest else dest)"

definition readvertise_withdraw :: "rib \<Rightarrow> name list option \<Rightarrow> name \<Rightarrow> name list option" where
  "readvertise_withdraw rib dest pre = (case dest of
     None \<Rightarrow> None
   | Some d \<Rightarrow> let
       still_local = (case map_of (routes rib) pre of
           Some rs \<Rightarrow> list_ex (\<lambda>r. should_readvertise (rr_origin r)) rs
         | None \<Rightarrow> False)
     in Some (if still_local then d else withdraw d pre))"

record routing =
  rt_rib :: rib
  rt_fib :: fib
  rt_dest :: "name list option"

definition routing_new :: "name list option \<Rightarrow> routing" where
  "routing_new dest = \<lparr>rt_rib = rib_new, rt_fib = fib_new, rt_dest = dest\<rparr>"

definition register_route :: "routing \<Rightarrow> name \<Rightarrow> rib_route \<Rightarrow> routing" where
  "register_route s pre route = (let
     rib' = snd (rib_add (rt_rib s) pre route)
   in s\<lparr>rt_rib := rib', rt_fib := apply_to_fib rib' pre (rt_fib s),
        rt_dest := readvertise_announce (rt_dest s) pre (rr_origin route)\<rparr>)"

definition unregister_route :: "routing \<Rightarrow> name \<Rightarrow> u64 \<Rightarrow> u64 option \<Rightarrow> routing" where
  "unregister_route s pre fid orig = (let
     rib' = snd (case orig of
         Some og \<Rightarrow> rib_remove (rt_rib s) pre fid og
       | None \<Rightarrow> rib_remove_nexthop (rt_rib s) pre fid)
   in s\<lparr>rt_rib := rib', rt_fib := apply_to_fib rib' pre (rt_fib s),
        rt_dest := readvertise_withdraw rib' (rt_dest s) pre\<rparr>)"

definition engine_remove_face :: "routing \<Rightarrow> u64 \<Rightarrow> routing" where
  "engine_remove_face s fid = (case handle_face_down (rt_rib s) fid (rt_fib s) of
     (rib', fib') \<Rightarrow> s\<lparr>rt_rib := rib', rt_fib := fib_remove_face fib' fid\<rparr>)"

definition expire_routes :: "routing \<Rightarrow> nat \<Rightarrow> routing" where
  "expire_routes s now = (case drain_expired (rt_rib s) now of
     (affected, rib') \<Rightarrow> s\<lparr>rt_rib := rib', rt_fib := apply_all rib' affected (rt_fib s)\<rparr>)"

definition stop_and_flush :: "routing \<Rightarrow> u64 \<Rightarrow> routing" where
  "stop_and_flush s origin = (case flush_origin (rt_rib s) origin of
     (affected, rib') \<Rightarrow> s\<lparr>rt_rib := rib', rt_fib := apply_all rib' affected (rt_fib s)\<rparr>)"

inductive routing_step :: "routing \<Rightarrow> routing \<Rightarrow> bool" where
  step_register: "routing_step s (register_route s pre route)"
| step_unregister: "routing_step s (unregister_route s pre fid orig)"
| step_face_down: "routing_step s (engine_remove_face s fid)"
| step_expire: "routing_step s (expire_routes s now)"
| step_flush: "routing_step s (stop_and_flush s origin)"

definition routing_inv :: "routing \<Rightarrow> bool" where
  "routing_inv s \<longleftrightarrow> rib_wf (rt_rib s) \<and> fib_wf (rt_fib s) \<and> rib_fib_sync (rt_rib s) (rt_fib s)"

lemma fib_wf_set_nexthops: "fib_wf fib \<Longrightarrow> fib_wf (set_nexthops fib p nhs)"
  by (rule fib_step_wf [OF step_set_nexthops])

lemma fib_wf_set_all: "fib_wf fib \<Longrightarrow> fib_wf (foldl (\<lambda>fib d. set_nexthops fib d (g d)) fib ds)"
  by (induction ds arbitrary: fib) (auto intro: fib_wf_set_nexthops)

lemma fib_wf_apply [wf_intros]: "fib_wf fib \<Longrightarrow> fib_wf (apply_to_fib rib p fib)"
  by (simp add: apply_to_fib_def Let_def fib_wf_set_all fib_wf_set_nexthops)

lemma fib_wf_apply_all [wf_intros]: "fib_wf fib \<Longrightarrow> fib_wf (apply_all rib ps fib)"
  by (induction ps arbitrary: fib) (auto simp: apply_all_def intro: wf_intros)

lemma routing_inv_retain:
  assumes "routing_inv s" "rib_retain (rt_rib s) P = (affected, rib')"
  shows "rib_wf rib' \<and> fib_wf (apply_all rib' affected (rt_fib s)) \<and>
    rib_fib_sync rib' (apply_all rib' affected (rt_fib s))"
proof -
  have "rib_wf rib'"
    using assms rib_wf_retain [of "rt_rib s" P] by (simp add: routing_inv_def)
  moreover have "rib_fib_sync rib' (apply_all rib' affected (rt_fib s))"
    using assms rib_retain_other [of "rt_rib s" _ P]
    by (intro sync_apply_all [of "rt_rib s"]) (auto simp: routing_inv_def)
  ultimately show ?thesis
    using assms(1) by (auto simp: routing_inv_def intro: wf_intros)
qed

lemma retain_face_gone:
  assumes "rib_wf rib" "rib_retain rib (\<lambda>r. rr_face_id r \<noteq> fid) = (affected, rib')"
    and "map_of (routes rib') p = Some rs" "r \<in> set rs"
  shows "rr_face_id r \<noteq> fid"
  using assms map_of_retain [of rib "\<lambda>r. rr_face_id r \<noteq> fid" p]
  by (auto split: option.splits if_splits)

lemma inherited_routes_from:
  "r \<in> set (inherited_routes rts pre n) \<Longrightarrow> \<exists>q rs. map_of rts q = Some rs \<and> r \<in> set rs"
  by (induction n) (auto split: option.splits if_splits)

lemma effective_face_from:
  assumes "nh \<in> set (effective_nexthops rib p)"
  shows "\<exists>q rs r. map_of (routes rib) q = Some rs \<and> r \<in> set rs \<and> rr_face_id r = face_id nh"
proof -
  obtain f c where nh: "nh = \<lparr>face_id = f, cost = c\<rparr>" by (cases nh)
  obtain own where own: "map_of (routes rib) p = Some own"
      "costs_via f own \<noteq> [] \<or> costs_via f (visible_routes rib p) \<noteq> []"
    using assms unfolding nh effective_nexthops_mem by (auto split: if_splits)
  then have "(\<exists>r \<in> set own. rr_face_id r = f) \<or> (\<exists>r \<in> set (visible_routes rib p). rr_face_id r = f)"
    by (auto simp: costs_via_def filter_empty_conv)
  then show ?thesis
    using own(1) nh inherited_routes_from [of _ "routes rib" p "length p"]
    by (fastforce simp: visible_routes_def split: if_splits)
qed

lemma sync_remove_face:
  assumes "fib_wf fib" "rib_fib_sync rib fib" "\<And>p nh. nh \<in> set (effective_nexthops rib p) \<Longrightarrow> face_id nh \<noteq> fid"
  shows "rib_fib_sync rib (fib_remove_face fib fid)"
  using assms by (auto simp: rib_fib_sync_def fib_get_remove_face)

lemma routing_step_inv: "routing_step s s' \<Longrightarrow> routing_inv s \<Longrightarrow> routing_inv s'"
proof (induction rule: routing_step.induct)
  case (step_register s pre route)
  then show ?case
    unfolding routing_inv_def
    by (simp add: register_route_def Let_def wf_intros sync_apply [of "rt_rib s"] rib_add_other)
next
  case (step_unregister s pre fid orig)
  then show ?case
    unfolding routing_inv_def
    by (cases orig) (simp_all add: unregister_route_def Let_def rib_remove_def rib_remove_nexthop_def
        wf_intros sync_apply [of "rt_rib s"] rib_retain_at_other)
next
  case (step_face_down s fid)
  obtain affected rib' where r: "rib_retain (rt_rib s) (\<lambda>r. rr_face_id r \<noteq> fid) = (affected, rib')"
    by fastforce
  note inv = routing_inv_retain [OF step_face_down r]
  have "face_id nh \<noteq> fid" if "nh \<in> set (effective_nexthops rib' p)" for nh p
    using effective_face_from [OF that] retain_face_gone [OF _ r] step_face_down
    by (auto simp: routing_inv_def)
  with inv have "rib_fib_sync rib' (fib_remove_face (apply_all rib' affected (rt_fib s)) fid)"
    by (intro sync_remove_face) auto
  with inv show ?case
    by (simp add: routing_inv_def engine_remove_face_def handle_face_down_def flush_face_def r
        fib_step_wf [OF step_remove_face])
next
  case (step_expire s now)
  obtain affected rib' where r: "drain_expired (rt_rib s) now = (affected, rib')"
    by fastforce
  from routing_inv_retain [OF step_expire r [unfolded drain_expired_def]] show ?case
    by (simp add: routing_inv_def expire_routes_def r)
next
  case (step_flush s origin)
  obtain affected rib' where r: "flush_origin (rt_rib s) origin = (affected, rib')"
    by fastforce
  from routing_inv_retain [OF step_flush r [unfolded flush_origin_def]] show ?case
    by (simp add: routing_inv_def stop_and_flush_def r)
qed

lemma routing_inv_new: "routing_inv (routing_new dest)"
  by (simp add: routing_inv_def routing_new_def wf_intros rib_fib_sync_def)
    (simp add: rib_new_def effective_nexthops_def)

lemma routing_reachable_inv: "routing_step\<^sup>*\<^sup>* (routing_new dest) s \<Longrightarrow> routing_inv s"
  by (induction rule: rtranclp_induct) (auto intro: routing_inv_new routing_step_inv)

section \<open>Readvertised prefixes\<close>

definition has_local :: "rib \<Rightarrow> name \<Rightarrow> bool" where
  "has_local rib p \<longleftrightarrow> (\<exists>rs. map_of (routes rib) p = Some rs \<and> (\<exists>r \<in> set rs. should_readvertise (rr_origin r)))"

lemma has_local_iff:
  "has_local rib p \<longleftrightarrow> (\<exists>rs. map_of (routes rib) p = Some rs \<and> (\<exists>o' \<in> set (map rr_origin rs). should_readvertise o'))"
  by (auto simp: has_local_def)

definition dest_exact :: "routing \<Rightarrow> bool" where
  "dest_exact s \<longleftrightarrow> (\<forall>d. rt_dest s = Some d \<longrightarrow> distinct d \<and> sorted d \<and> set d = {p. has_local (rt_rib s) p})"

lemma origins_update:
  "i < length rs \<Longrightarrow> rr_origin (rs ! i) = rr_origin r \<Longrightarrow> map rr_origin (rs[i := r]) = map rr_origin rs"
  by (metis map_update nth_map length_map list_update_id)

lemma has_local_add:
  "has_local (snd (rib_add rib pre r)) p \<longleftrightarrow>
     has_local rib p \<or> p = pre \<and> should_readvertise (rr_origin r)"
proof (cases "p = pre")
  case False
  then show ?thesis by (simp add: has_local_iff rib_add_other)
next
  case True
  let ?rs = "case map_of (routes rib) pre of Some rs \<Rightarrow> rs | None \<Rightarrow> []"
  show ?thesis
  proof (cases "position (\<lambda>x. rr_face_id x = rr_face_id r \<and> rr_origin x = rr_origin r) ?rs")
    case None
    with True show ?thesis
      by (auto simp: has_local_iff rib_add_def Let_def update_conv' split: option.splits)
  next
    case (Some i)
    then have i: "i < length ?rs" "rr_origin (?rs ! i) = rr_origin r"
      by (auto dest: position_Some)
    then have o: "map rr_origin (?rs[i := r]) = map rr_origin ?rs"
      by (rule origins_update)
    have "rr_origin r \<in> set (map rr_origin ?rs)"
      using i nth_mem [OF i(1)] by (metis image_eqI list.set_map)
    moreover have "map_of (routes rib) pre = Some ?rs"
      using i(1) by (auto split: option.splits)
    ultimately show ?thesis
      using True Some o
      by (auto simp: has_local_iff rib_add_def Let_def update_conv' simp del: set_map)
  qed
qed

lemma has_local_retain_at_other: "p \<noteq> pre \<Longrightarrow> has_local (snd (rib_retain_at rib pre P)) p \<longleftrightarrow> has_local rib p"
  by (simp add: has_local_iff rib_retain_at_other)

lemma still_local_iff:
  "(case map_of (routes rib) pre of Some rs \<Rightarrow> list_ex (\<lambda>r. should_readvertise (rr_origin r)) rs | None \<Rightarrow> False)
     \<longleftrightarrow> has_local rib pre"
  by (auto simp: has_local_iff list_ex_iff split: option.split)

lemma has_local_retain_at: "has_local (snd (rib_retain_at rib pre P)) p \<Longrightarrow> has_local rib p"
  by (cases "p = pre")
    (auto simp: has_local_iff rib_retain_at_def Let_def update_conv' delete_conv' split: option.splits if_splits)

lemma dest_exact_register: "dest_exact s \<Longrightarrow> dest_exact (register_route s pre r)"
  by (auto simp: dest_exact_def register_route_def Let_def has_local_add readvertise_announce_def
      advertise_def set_insort_insert distinct_insort_insert sorted_insort_insert split: if_splits)

lemma dest_exact_unregister:
  assumes "dest_exact s"
  shows "dest_exact (unregister_route s pre fid orig)"
proof -
  obtain P where P: "snd (case orig of Some og \<Rightarrow> rib_remove (rt_rib s) pre fid og
      | None \<Rightarrow> rib_remove_nexthop (rt_rib s) pre fid) = snd (rib_retain_at (rt_rib s) pre P)"
    by (cases orig) (auto simp: rib_remove_def rib_remove_nexthop_def)
  let ?rib = "snd (rib_retain_at (rt_rib s) pre P)"
  have local: "{p. has_local ?rib p} =
      (if has_local ?rib pre then {p. has_local (rt_rib s) p} else {p. has_local (rt_rib s) p} - {pre})"
    using has_local_retain_at [of "rt_rib s" pre P] has_local_retain_at_other [of _ pre "rt_rib s" P]
    by (auto split: if_splits) (metis)+
  have s: "rt_rib (unregister_route s pre fid orig) = ?rib"
      "rt_dest (unregister_route s pre fid orig) =
        map_option (\<lambda>d. if has_local ?rib pre then d else remove1 pre d) (rt_dest s)"
    by (simp_all add: unregister_route_def Let_def P readvertise_withdraw_def still_local_iff
        withdraw_def split: option.split)
  show ?thesis
    using assms unfolding dest_exact_def s local by (auto simp: sorted_remove1)
qed

section \<open>Properties\<close>

text \<open>C28. Next hops of a prefix: the RIB gives a prefix with routes of its own one next hop per
  face, at the lowest cost among the prefix's own routes through that face, or else among
  the CHILD_INHERIT routes of its ancestors, nearest first up to and including the first
  ancestor that carries CAPTURE and not at all when the prefix itself carries it; a prefix
  without routes of its own gets none.\<close>

theorem effective_nexthops_cheapest_visible:
  "\<lparr>face_id = f, cost = c\<rparr> \<in> set (effective_nexthops rib pre) \<longleftrightarrow>
     (\<exists>own. map_of (routes rib) pre = Some own \<and>
       (if costs_via f own \<noteq> [] then c = Min (set (costs_via f own))
        else costs_via f (visible_routes rib pre) \<noteq> [] \<and> c = Min (set (costs_via f (visible_routes rib pre)))))"
  by (rule effective_nexthops_mem)

text \<open>C14. RIB/FIB agreement: after every sequence of registrations, unregistrations, face
  removals, route expiries and origin flushes, the FIB entry of every prefix holds exactly the
  next hops the RIB computes for it, cheapest first, one per face; the recomputation of
  descendants is complete and nothing stale is left.\<close>

theorem fib_agrees_with_rib:
  assumes "routing_step\<^sup>*\<^sup>* (routing_new dest) s"
  shows "set (hops (fib_get (rt_fib s) p)) = set (effective_nexthops (rt_rib s) p) \<and>
    sorted (map cost (hops (fib_get (rt_fib s) p)))"
  using routing_reachable_inv [OF assms] sorted_hops
  by (auto simp: routing_inv_def rib_fib_sync_def)

lemma rt_rib_register [simp]: "rt_rib (register_route s pre route) = snd (rib_add (rt_rib s) pre route)"
  by (simp add: register_route_def Let_def)

lemma rt_rib_new [simp]: "rt_rib (routing_new dest) = rib_new"
  by (simp add: routing_new_def)

theorem fib_agrees_with_rib_witness:
  "set (hops (fib_get (rt_fib (register_route (register_route (routing_new None) []
        \<lparr>rr_face_id = 1, rr_origin = 0, rr_cost = 5, rr_flags = 1, rr_expires_at = None\<rparr>)
        [generic [97]] \<lparr>rr_face_id = 2, rr_origin = 0, rr_cost = 9, rr_flags = 1, rr_expires_at = None\<rparr>))
      [generic [97]])) = {\<lparr>face_id = 2, cost = 9\<rparr>, \<lparr>face_id = 1, cost = 5\<rparr>}"
proof -
  let ?s1 = "register_route (routing_new None) []
    \<lparr>rr_face_id = 1, rr_origin = 0, rr_cost = 5, rr_flags = 1, rr_expires_at = None\<rparr>"
  let ?s2 = "register_route ?s1 [generic [97]]
    \<lparr>rr_face_id = 2, rr_origin = 0, rr_cost = 9, rr_flags = 1, rr_expires_at = None\<rparr>"
  have "routing_step\<^sup>*\<^sup>* (routing_new None) ?s2"
    by (meson rtranclp.rtrancl_into_rtrancl rtranclp.rtrancl_refl step_register)
  note agree = fib_agrees_with_rib [OF this, of "[generic [97]]"]
  have "routes (rt_rib ?s2) = [([], [\<lparr>rr_face_id = 1, rr_origin = 0, rr_cost = 5, rr_flags = 1, rr_expires_at = None\<rparr>]),
      ([generic [97]], [\<lparr>rr_face_id = 2, rr_origin = 0, rr_cost = 9, rr_flags = 1, rr_expires_at = None\<rparr>])]"
    by (simp add: rib_add_def rib_new_def)
  then have "set (effective_nexthops (rt_rib ?s2) [generic [97]]) =
      {\<lparr>face_id = 2, cost = 9\<rparr>, \<lparr>face_id = 1, cost = 5\<rparr>}"
    by (simp add: effective_nexthops_def best_own_step_def best_inh_step_def u32_less_max)
  with agree show ?thesis by simp
qed

text \<open>C29. Readvertisement follows registration: as long as only management registers and
  unregisters routes, the set of readvertised prefixes is exactly the set of prefixes that
  have a locally originated route (a prefix served by several local faces stays
  advertised until the last route is gone), in canonical order and without duplicates.\<close>

theorem readvertised_exactly_local_prefixes:
  assumes "dest_exact s"
  shows "dest_exact (register_route s pre r) \<and> dest_exact (unregister_route s pre fid orig)"
  using dest_exact_register dest_exact_unregister assms by blast

theorem readvertised_exactly_local_prefixes_witness:
  "dest_exact (register_route (routing_new (Some [])) [generic [97]]
     \<lparr>rr_face_id = 1, rr_origin = 0, rr_cost = 5, rr_flags = 1, rr_expires_at = None\<rparr>)"
proof -
  have "dest_exact (routing_new (Some []))"
    by (simp add: dest_exact_def routing_new_def rib_new_def has_local_def)
  from readvertised_exactly_local_prefixes [OF this] show ?thesis by blast
qed

text \<open>The removal of a face does not withdraw: a prefix whose last local route goes down with
  its face stays readvertised, although no route to it is left in the RIB.\<close>

lemma face_down_leaves_prefix_advertised:
  "let s = register_route (routing_new (Some [])) [generic [97]]
         \<lparr>rr_face_id = 1, rr_origin = 0, rr_cost = 5, rr_flags = 1, rr_expires_at = None\<rparr>;
       s' = engine_remove_face s 1
   in rt_dest s' = Some [[generic [97]]] \<and> \<not> has_local (rt_rib s') [generic [97]]"
  by (simp add: engine_remove_face_def handle_face_down_def flush_face_def rib_retain_def
      register_route_def rib_add_def routing_new_def rib_new_def has_local_def Let_def case_prod_beta
      readvertise_announce_def should_readvertise_def advertise_def
      insort_insert_key_def)

end
