(* ===== verification/Dispatcher.thy ===== *)
theory Dispatcher
  imports Strategy_Stage Data_Stages Engine_Reflexive Engine_Rib
begin

text \<open>
  The packet dispatcher (\<open>src/crates/forwarding/ndn-engine/src/dispatcher/pipeline.rs\<close>, \<open>outbound.rs\<close>,
  \<open>partitioned.rs\<close>) and
  the framing of outbound packets (\<open>engine.rs\<close>): the Interest, Data and Nack pipelines over the stages of
  the other theories, and what they hand to the send queues of the faces. The engine's shared tables are one
  record. Arguments: the store's operations, the admission policy, the rate limiter, the discovery hook, the
  validator of Interests, the clocks, and what the send queue of a face does with an item. The optional
  handlers for path control, name activity, congestion feedback and traceroute are not installed. A step
  returns \<open>None\<close> when one of its loops does not return.
\<close>

section \<open>Prefix announcements\<close>

record prefix_announcement =
  pa_announced_prefix :: name
  pa_expiration :: "u64 option"
  pa_data :: data

definition parse_expiration :: "bytes \<Rightarrow> u64 option" where
  "parse_expiration content = tlv_loop (\<lambda>_ _ t v _. if t = 109 then Return (Some (be_accumulate 0 v)) else Continue ())
     (\<lambda>_. None) (\<lambda>_. None) () (reader_new content)"

definition prefix_announcement_decode :: "bytes \<Rightarrow> packet_error + prefix_announcement" where
  "prefix_announcement_decode raw = (case data_decode raw of
     Inl e \<Rightarrow> Inl e
   | Inr d \<Rightarrow> (case position (\<lambda>c. comp_typ c = KEYWORD \<and> comp_val c = ascii ''PA'') (data_name d) of
       None \<Rightarrow> Inl (MalformedPacket ''PrefixAnnouncement: missing 'PA' keyword'')
     | Some pa_idx \<Rightarrow>
         if pa_idx = 0 then Inl (MalformedPacket ''PrefixAnnouncement: empty announced prefix'')
         else Inr \<lparr>pa_announced_prefix = take pa_idx (data_name d),
           pa_expiration = Option.bind (data_content d) parse_expiration, pa_data = d\<rparr>))"

section \<open>Egress\<close>

record egress_intent =
  ei_headers :: lp_headers
  ei_nack :: "nack_reason option"

definition lp_headers_default :: lp_headers where
  "lp_headers_default = \<lparr>lh_pit_token = None, lh_congestion_mark = None, lh_incoming_face_id = None,
     lh_next_hop_face_id = None, lh_cache_policy = None\<rparr>"

definition egress_intent_default :: egress_intent where
  "egress_intent_default = \<lparr>ei_headers = lp_headers_default, ei_nack = None\<rparr>"

text \<open>A queue item: the bare payload, the face it came from, and how to frame it.\<close>

type_synonym egress_item = "bytes \<times> u64 \<times> egress_intent"

abbreviation FACE_INVALID :: u64 where "FACE_INVALID \<equiv> - 1"
abbreviation FACE_CONTENT_STORE :: u64 where "FACE_CONTENT_STORE \<equiv> 254"

definition encode_nack :: "nack_reason \<Rightarrow> bytes \<Rightarrow> bytes" where
  "encode_nack reason wire = encode_lp_nack reason wire"

definition frame_with_intent :: "bytes \<Rightarrow> egress_intent \<Rightarrow> bool \<Rightarrow> bytes" where
  "frame_with_intent payload intent uses_lp = (case ei_nack intent of
     Some reason \<Rightarrow> (case lh_pit_token (ei_headers intent) of
         Some token \<Rightarrow> encode_lp_nack_with_pit_token reason payload (Some token)
       | None \<Rightarrow> encode_nack reason payload)
   | None \<Rightarrow>
       if is_lp_packet payload then encode_lp_packet payload
       else if uses_lp then encode_lp_with_headers payload (ei_headers intent)
       else if lh_pit_token (ei_headers intent) \<noteq> None then encode_lp_with_headers payload (ei_headers intent)
       else payload)"

definition uses_lp_framing :: "face_kind \<Rightarrow> bool" where
  "uses_lp_framing k \<longleftrightarrow> k \<notin> {Unix, App, Shm, Internal, Compute, Management}"

datatype packet_kind = KindInterest | KindData
datatype rate_decision = Permit | RateDrop | RateNack

record rate_limit_hook =
  rl_check_inbound :: "u64 \<Rightarrow> name \<Rightarrow> packet_kind \<Rightarrow> nat \<Rightarrow> rate_decision"
  rl_check_outbound :: "u64 \<Rightarrow> name \<Rightarrow> packet_kind \<Rightarrow> nat \<Rightarrow> rate_decision"

text \<open>What the send queue of a face does with an item: it takes it after blocking for some nanoseconds, it is
  full (or the deadline passes), or it is closed.\<close>

datatype send_outcome = Queued u64 | QueueFull | QueueClosed

section \<open>The engine\<close>

record ('x, 's) dispatch_env =
  dx_hasher :: hasher
  dx_store :: "'s cs_ops"
  dx_insert :: cs_insert_config
  dx_interest_validator :: "(interest \<Rightarrow> interest_validation_outcome) option"
  dx_unsolicited_policy :: unsolicited_data_policy
  dx_rate_limit :: "rate_limit_hook option"
  dx_enrich :: "fib_entry option \<Rightarrow> geo_pos option \<Rightarrow> geo_pos option \<Rightarrow> 'x"
  dx_queue :: "u64 \<Rightarrow> egress_item \<Rightarrow> send_outcome"
  dx_discovery :: "bytes \<Rightarrow> u64 \<Rightarrow> bool"
  dx_unix_nanos :: u64
  dx_now :: nat

record ('x, 's) engine =
  eg_face_table :: "(u64 \<times> face) list"
  eg_face_states :: "(u64 \<times> face_state) list"
  eg_reassembly :: reassembly_table
  eg_face_options :: "(u64 \<times> content_hash_target option) list"
  eg_rib :: rib
  eg_fib :: fib
  eg_strategy_table :: "'x strategy strategy_table"
  eg_default_strategy :: "'x strategy"
  eg_network_region :: "name list"
  eg_delayed :: "delayed_forward list"
  eg_pit :: pit
  eg_dnl :: "dead_nonce_list option"
  eg_guard :: "replay_guard option"
  eg_cs :: 's
  eg_validation :: validation_stage
  eg_reflexive :: reflexive_table
  eg_sent :: "(u64 \<times> egress_item) list"

text \<open>The stages over the shared tables.\<close>

definition check_stage :: "('x, 's) engine \<Rightarrow> pit_check_stage" where
  "check_stage g = \<lparr>pc_pit = eg_pit g, pc_face_table = eg_face_table g, pc_dnl = eg_dnl g, pc_guard = eg_guard g\<rparr>"

definition match_stage :: "('x, 's) engine \<Rightarrow> pit_match_stage" where
  "match_stage g = \<lparr>pm_pit = eg_pit g, pm_dnl = eg_dnl g\<rparr>"

definition strategy_stage_of :: "('x, 's) engine \<Rightarrow> 'x strategy_stage" where
  "strategy_stage_of g = \<lparr>ss_strategy_table = eg_strategy_table g, ss_default_strategy = eg_default_strategy g, ss_fib = eg_fib g,
     ss_pit = eg_pit g, ss_face_table = eg_face_table g, ss_network_region = eg_network_region g, ss_delayed = eg_delayed g\<rparr>"

definition decode_stage_of :: "('x, 's) engine \<Rightarrow> decode_stage" where
  "decode_stage_of g = \<lparr>ds_face_table = eg_face_table g, ds_reassembly = eg_reassembly g, ds_face_options = eg_face_options g,
     ds_face_states = eg_face_states g\<rparr>"

definition bump :: "u64 \<Rightarrow> (face_counters \<Rightarrow> face_counters) \<Rightarrow> ('x, 's) engine \<Rightarrow> ('x, 's) engine" where
  "bump fid f g = (case map_of (eg_face_states g) fid of
     Some s \<Rightarrow> g\<lparr>eg_face_states := AList.update fid (s\<lparr>fs_counters := f (fs_counters s)\<rparr>) (eg_face_states g)\<rparr>
   | None \<Rightarrow> g)"

section \<open>Sending\<close>

definition nacks_allowed_on_face :: "('x, 's) engine \<Rightarrow> u64 \<Rightarrow> bool" where
  "nacks_allowed_on_face g fid = (case map_of (eg_face_table g) fid of
     Some f \<Rightarrow> fc_link_type f = PointToPoint | None \<Rightarrow> True)"

definition enqueue_send_with_source ::
  "('x, 's) dispatch_env \<Rightarrow> u64 \<Rightarrow> bytes \<Rightarrow> u64 \<Rightarrow> egress_intent \<Rightarrow> ('x, 's) engine \<Rightarrow> ('x, 's) engine" where
  "enqueue_send_with_source E fid payload source intent g = (case map_of (eg_face_states g) fid of
     None \<Rightarrow> g
   | Some _ \<Rightarrow> (let item = (payload, source, intent) in case dx_queue E fid item of
       Queued blocked \<Rightarrow> (let g = g\<lparr>eg_sent := eg_sent g @ [(fid, item)]\<rparr> in
         if blocked > 0 then bump fid (\<lambda>c. c\<lparr>out_blocked_ns := out_blocked_ns c + blocked\<rparr>) g else g)
     | QueueFull \<Rightarrow> bump fid (\<lambda>c. c\<lparr>out_drops := out_drops c + 1\<rparr>) g
     | QueueClosed \<Rightarrow> g))"

definition enqueue_send ::
  "('x, 's) dispatch_env \<Rightarrow> u64 \<Rightarrow> bytes \<Rightarrow> egress_intent \<Rightarrow> ('x, 's) engine \<Rightarrow> ('x, 's) engine" where
  "enqueue_send E fid payload intent g = enqueue_send_with_source E fid payload FACE_INVALID intent g"

definition check_rate_limit_outbound :: "('x, 's) dispatch_env \<Rightarrow> u64 \<Rightarrow> name option \<Rightarrow> bool \<Rightarrow> nat \<Rightarrow> bool" where
  "check_rate_limit_outbound E fid n is_interest wire_bytes = (case dx_rate_limit E of
     None \<Rightarrow> True
   | Some hook \<Rightarrow> (case n of
       None \<Rightarrow> True
     | Some n \<Rightarrow> rl_check_outbound hook fid n (if is_interest then KindInterest else KindData) wire_bytes = Permit))"

definition nonlocal_egress :: "('x, 's) engine \<Rightarrow> u64 \<Rightarrow> bool" where
  "nonlocal_egress g fid = (case map_of (eg_face_table g) fid of Some f \<Rightarrow> fc_scope f = NonLocal | None \<Rightarrow> False)"

definition local_fields_to :: "('x, 's) engine \<Rightarrow> u64 \<Rightarrow> bool" where
  "local_fields_to g fid = (let
     uses_lp = (case map_of (eg_face_table g) fid of Some f \<Rightarrow> uses_lp_framing (fc_kind f) | None \<Rightarrow> False)
   in uses_lp \<and> (case map_of (eg_face_states g) fid of Some s \<Rightarrow> local_fields_enabled s | None \<Rightarrow> False))"

definition send_interest :: "('x, 's) dispatch_env \<Rightarrow> packet_context \<Rightarrow> ('x, 's) engine \<Rightarrow> u64 \<Rightarrow> ('x, 's) engine" where
  "send_interest E ctx g fid = (let
     is_localhost = (case ctx_name ctx of Some n \<Rightarrow> is_localhost_name n | None \<Rightarrow> False)
   in if is_localhost \<and> nonlocal_egress g fid then g
   else if \<not> check_rate_limit_outbound E fid (ctx_name ctx) True (length (ctx_raw_bytes ctx)) then g
   else let
     incoming_face_id = (if local_fields_to g fid then Some (ctx_face_id ctx) else None);
     intent = \<lparr>ei_headers = lp_headers_default\<lparr>lh_incoming_face_id := incoming_face_id\<rparr>, ei_nack = None\<rparr>;
     g = bump fid (\<lambda>c. c\<lparr>out_interests := out_interests c + 1\<rparr>) g
   in enqueue_send_with_source E fid (ctx_raw_bytes ctx) (ctx_face_id ctx) intent g)"

definition satisfy_face ::
  "('x, 's) dispatch_env \<Rightarrow> packet_context \<Rightarrow> bytes \<Rightarrow> ('x, 's) engine \<Rightarrow> nat \<times> u64 \<Rightarrow> ('x, 's) engine" where
  "satisfy_face E ctx data_bytes g i_fid = (let
     i = fst i_fid; fid = snd i_fid;
     is_localhost = (case ctx_name ctx of Some n \<Rightarrow> is_localhost_name n | None \<Rightarrow> False);
     ad_hoc = (case map_of (eg_face_table g) fid of Some f \<Rightarrow> fc_link_type f = AdHoc | None \<Rightarrow> False)
   in if \<not> ctx_cs_hit ctx \<and> fid = ctx_face_id ctx \<and> \<not> ad_hoc then g
   else if is_localhost \<and> nonlocal_egress g fid then g
   else if \<not> check_rate_limit_outbound E fid (ctx_name ctx) False (length data_bytes) then g
   else let
     incoming_face_id = (if local_fields_to g fid
       then Some (if ctx_cs_hit ctx then FACE_CONTENT_STORE else ctx_face_id ctx) else None);
     pit_token = (if i < length (ctx_out_pit_tokens ctx) then ctx_out_pit_tokens ctx ! i else None);
     intent = \<lparr>ei_headers = lp_headers_default\<lparr>lh_pit_token := pit_token, lh_incoming_face_id := incoming_face_id\<rparr>, ei_nack = None\<rparr>;
     g = bump fid (\<lambda>c. c\<lparr>out_data := out_data c + 1, in_satisfied_interests := in_satisfied_interests c + 1\<rparr>) g
   in enqueue_send_with_source E fid data_bytes FACE_INVALID intent g)"

definition satisfy :: "('x, 's) dispatch_env \<Rightarrow> packet_context \<Rightarrow> ('x, 's) engine \<Rightarrow> ('x, 's) engine" where
  "satisfy E ctx g = (let
     data_bytes = (if ctx_cs_hit ctx
       then (case tag_cs_entry (ctx_tags ctx) of Some e \<Rightarrow> ce_data e | None \<Rightarrow> ctx_raw_bytes ctx)
       else ctx_raw_bytes ctx)
   in foldl (satisfy_face E ctx data_bytes) g (enumerate 0 (ctx_out_faces ctx)))"

definition packet_nack_reason :: "fwd_nack_reason \<Rightarrow> nack_reason" where
  "packet_nack_reason r = (case r of FwdNoRoute \<Rightarrow> NoRoute | FwdDuplicate \<Rightarrow> Duplicate
     | FwdCongestion \<Rightarrow> Congestion | FwdNotYet \<Rightarrow> NotYet)"

definition dispatch_action :: "('x, 's) dispatch_env \<Rightarrow> action \<Rightarrow> ('x, 's) engine \<Rightarrow> ('x, 's) engine" where
  "dispatch_action E a g = (case a of
     ActSend ctx faces \<Rightarrow> foldl (send_interest E ctx) g faces
   | ActSatisfy ctx \<Rightarrow> satisfy E ctx g
   | ActDrop _ \<Rightarrow> g
   | ActNack ctx reason \<Rightarrow>
       if \<not> nacks_allowed_on_face g (ctx_face_id ctx) then g
       else let
         intent = \<lparr>ei_headers = lp_headers_default\<lparr>lh_pit_token := ctx_lp_pit_token ctx\<rparr>, ei_nack = Some (packet_nack_reason reason)\<rparr>;
         g = bump (ctx_face_id ctx) (\<lambda>c. c\<lparr>out_nacks := out_nacks c + 1\<rparr>) g
       in enqueue_send E (ctx_face_id ctx) (ctx_raw_bytes ctx) intent g
   | ActContinue _ \<Rightarrow> g)"

section \<open>Pipelines\<close>

definition check_rate_limit_inbound :: "('x, 's) dispatch_env \<Rightarrow> packet_context \<Rightarrow> action + packet_context" where
  "check_rate_limit_inbound E ctx = (case (dx_rate_limit E, ctx_name ctx) of
     (Some hook, Some n) \<Rightarrow> (case ctx_packet ctx of
         InterestPacket _ \<Rightarrow> (case rl_check_inbound hook (ctx_face_id ctx) n KindInterest (length (ctx_raw_bytes ctx)) of
             Permit \<Rightarrow> Inr ctx | RateDrop \<Rightarrow> Inl (ActDrop RateLimited) | RateNack \<Rightarrow> Inl (ActNack ctx FwdCongestion))
       | DataPacket _ \<Rightarrow> (case rl_check_inbound hook (ctx_face_id ctx) n KindData (length (ctx_raw_bytes ctx)) of
             Permit \<Rightarrow> Inr ctx | _ \<Rightarrow> Inl (ActDrop RateLimited))
       | _ \<Rightarrow> Inr ctx)
   | _ \<Rightarrow> Inr ctx)"

text \<open>After the cache: a reverse route for a reflexive name is installed; an Interest that matches a live
  reverse route goes back along it, any other to the strategy.\<close>

definition forward_interest :: "('x, 's) dispatch_env \<Rightarrow> packet_context \<Rightarrow> ('x, 's) engine \<Rightarrow> ('x, 's) engine" where
  "forward_interest E ctx g = (let
     g = (case ctx_packet ctx of
         InterestPacket i \<Rightarrow> (case int_reflexive_name i of
             Some rname \<Rightarrow> g\<lparr>eg_reflexive := fst (install rname (ctx_face_id ctx)
               (unat (case int_lifetime i of Some ms \<Rightarrow> ms | None \<Rightarrow> 4000) * 1000000) (ctx_arrival ctx) (eg_reflexive g))\<rparr>
           | None \<Rightarrow> g)
       | _ \<Rightarrow> g);
     (rt, reverse_face) = (if reflexive_is_empty (eg_reflexive g) then (eg_reflexive g, None)
       else case ctx_name ctx of
         Some n \<Rightarrow> reflexive_lookup n (ctx_arrival ctx) (eg_reflexive g)
       | None \<Rightarrow> (eg_reflexive g, None));
     g = g\<lparr>eg_reflexive := rt\<rparr>
   in case reverse_face of
     Some rev_face \<Rightarrow> dispatch_action E (ActSend ctx [rev_face]) g
   | None \<Rightarrow> (case strategy_process (dx_enrich E) (dx_unix_nanos E) ctx (strategy_stage_of g) of
       (a, st) \<Rightarrow> dispatch_action E a (g\<lparr>eg_pit := ss_pit st, eg_delayed := ss_delayed st\<rparr>)))"

definition interest_pipeline :: "('x, 's) dispatch_env \<Rightarrow> packet_context \<Rightarrow> ('x, 's) engine \<Rightarrow> ('x, 's) engine" where
  "interest_pipeline E ctx g = (case pit_check_process (dx_hasher E) (dx_interest_validator E) ctx (check_stage g) of
     (a, st) \<Rightarrow> (let g = g\<lparr>eg_pit := pc_pit st, eg_guard := pc_guard st\<rparr> in case a of
       ActContinue ctx \<Rightarrow> (case cs_lookup_process (dx_store E) (dx_unix_nanos E) ctx (eg_cs g) of
         (a, cs) \<Rightarrow> (let g = g\<lparr>eg_cs := cs\<rparr> in case a of
           ActContinue ctx \<Rightarrow> forward_interest E ctx g
         | ActSatisfy ctx \<Rightarrow> (let
             g = (case ctx_pit_token ctx of
                 Some token \<Rightarrow> g\<lparr>eg_pit := fst (pit_remove token (eg_pit g))\<rparr> | None \<Rightarrow> g)
           in satisfy E ctx g)
         | ActDrop _ \<Rightarrow> g
         | other \<Rightarrow> dispatch_action E other g))
     | ActDrop _ \<Rightarrow> g
     | other \<Rightarrow> dispatch_action E other g))"

definition fwd_nack_reason_of :: "nack_reason option \<Rightarrow> fwd_nack_reason" where
  "fwd_nack_reason_of r = (case r of
     None \<Rightarrow> FwdNoRoute | Some NoRoute \<Rightarrow> FwdNoRoute | Some Duplicate \<Rightarrow> FwdDuplicate
   | Some Congestion \<Rightarrow> FwdCongestion | Some NotYet \<Rightarrow> FwdNotYet | Some (NackOther _) \<Rightarrow> FwdNoRoute)"

definition nack_context :: "('x, 's) dispatch_env \<Rightarrow> ('x, 's) engine \<Rightarrow> packet_context \<Rightarrow> name \<Rightarrow> u64 \<Rightarrow> 'x strategy_context" where
  "nack_context E g ctx n token = (let
     strategy_fib = fib_lpm (eg_fib g) n;
     pit_entry = with_entry token id (eg_pit g)
   in \<lparr>sc_name = n, sc_in_face = ctx_face_id ctx, sc_fib_entry = strategy_fib, sc_pit_token = Some token,
       sc_tried_faces = (case pit_entry of Some e \<Rightarrow> map or_face_id (pe_out_records e) | None \<Rightarrow> []),
       sc_suppressed_faces = (case pit_entry of Some e \<Rightarrow> suppressed_upstreams e (dx_unix_nanos E) | None \<Rightarrow> []),
       sc_entry_retx_suppressed = (case pit_entry of Some e \<Rightarrow> entry_retx_suppressed e (dx_unix_nanos E) | None \<Rightarrow> False),
       sc_env = dx_enrich E strategy_fib None None\<rparr>)"

definition retry_interest :: "('x, 's) dispatch_env \<Rightarrow> packet_context \<Rightarrow> interest \<Rightarrow> u64 \<Rightarrow> ('x, 's) engine \<Rightarrow> u64 \<Rightarrow> ('x, 's) engine" where
  "retry_interest E ctx i token g fid = (let
     g = (case int_nonce i of
         Some nonce \<Rightarrow> g\<lparr>eg_pit := fst (with_entry_mut token (\<lambda>e. (add_out_record fid nonce (ctx_arrival ctx) e, ())) (eg_pit g))\<rparr>
       | None \<Rightarrow> g);
     g = bump fid (\<lambda>c. c\<lparr>out_interests := out_interests c + 1\<rparr>) g
   in enqueue_send_with_source E fid (int_raw i) FACE_INVALID egress_intent_default g)"

definition propagate_nack :: "('x, 's) dispatch_env \<Rightarrow> nack \<Rightarrow> ('x, 's) engine \<Rightarrow> u64 \<Rightarrow> ('x, 's) engine" where
  "propagate_nack E nk g fid =
     (if \<not> nacks_allowed_on_face g fid then g
      else let
        reason = (case nack_reason_of nk of Some r \<Rightarrow> r | None \<Rightarrow> NoRoute);
        g = bump fid (\<lambda>c. c\<lparr>out_nacks := out_nacks c + 1\<rparr>) g
      in enqueue_send E fid (int_raw (nack_interest nk)) (egress_intent_default\<lparr>ei_nack := Some reason\<rparr>) g)"

definition nack_pipeline :: "('x, 's) dispatch_env \<Rightarrow> packet_context \<Rightarrow> ('x, 's) engine \<Rightarrow> ('x, 's) engine" where
  "nack_pipeline E ctx g = (case ctx_packet ctx of
     NackPacket nk \<Rightarrow>
       if \<not> nacks_allowed_on_face g (ctx_face_id ctx) then g
       else (case ctx_name ctx of
         None \<Rightarrow> g
       | Some n \<Rightarrow> (let token = from_interest (dx_hasher E) (int_name (nack_interest nk)) in
           if \<not> pit_contains token (eg_pit g) then g
           else let
             sctx = nack_context E g ctx n token;
             strategy = (case strategy_lpm (eg_strategy_table g) n of Some s \<Rightarrow> s | None \<Rightarrow> eg_default_strategy g)
           in case str_on_nack strategy sctx (fwd_nack_reason_of (nack_reason_of nk)) of
             Forward faces \<Rightarrow> foldl (retry_interest E ctx (nack_interest nk) token) g faces
           | FwdNack _ \<Rightarrow> (case pit_remove token (eg_pit g) of
               (p, Some e) \<Rightarrow> foldl (propagate_nack E nk) (g\<lparr>eg_pit := p\<rparr>) (in_record_faces e)
             | (p, None) \<Rightarrow> g\<lparr>eg_pit := p\<rparr>)
           | _ \<Rightarrow> g))
   | _ \<Rightarrow> g)"

definition try_self_learn :: "('x, 's) dispatch_env \<Rightarrow> packet_context \<Rightarrow> ('x, 's) engine \<Rightarrow> ('x, 's) engine" where
  "try_self_learn E ctx g = (case tag_prefix_announcement (ctx_tags ctx) of
     None \<Rightarrow> g
   | Some pa_raw \<Rightarrow> (case prefix_announcement_decode pa_raw of
       Inl _ \<Rightarrow> g
     | Inr pa \<Rightarrow> (let
         is_self_learning = (case strategy_lpm (eg_strategy_table g) (pa_announced_prefix pa) of
             Some s \<Rightarrow> list_ex (\<lambda>c. comp_val c = ascii ''self-learning'') (str_name s) | None \<Rightarrow> False)
       in if \<not> is_self_learning then g
       else case vs_validator (eg_validation g) of
         None \<Rightarrow> g
       | Some v \<Rightarrow> (case vl_validate v (pa_data pa) of
           VValid \<Rightarrow> (let
             expires_at = map_option (\<lambda>ms. dx_now E + unat ms * 1000000) (pa_expiration pa);
             rib = snd (rib_add (eg_rib g) (pa_announced_prefix pa)
               \<lparr>rr_face_id = ctx_face_id ctx, rr_origin = 130, rr_cost = 0, rr_flags = 0, rr_expires_at = expires_at\<rparr>)
           in g\<lparr>eg_rib := rib, eg_fib := apply_to_fib rib (pa_announced_prefix pa) (eg_fib g)\<rparr>)
         | _ \<Rightarrow> g))))"

definition insert_and_dispatch :: "('x, 's) dispatch_env \<Rightarrow> packet_context \<Rightarrow> ('x, 's) engine \<Rightarrow> ('x, 's) engine option" where
  "insert_and_dispatch E ctx g =
     map_option (\<lambda>(a, cs). dispatch_action E a (g\<lparr>eg_cs := cs\<rparr>)) (cs_insert_process (dx_store E) (dx_insert E) ctx (eg_cs g))"

definition data_pipeline :: "('x, 's) dispatch_env \<Rightarrow> packet_context \<Rightarrow> ('x, 's) engine \<Rightarrow> ('x, 's) engine option" where
  "data_pipeline E ctx g = (case pit_match_process (dx_hasher E) ctx (match_stage g) of
     (a, st) \<Rightarrow> (let g = g\<lparr>eg_pit := pm_pit st, eg_dnl := pm_dnl st\<rparr> in case a of
       ActContinue ctx \<Rightarrow> (let
         scope = (case map_of (eg_face_table g) (ctx_face_id ctx) of Some f \<Rightarrow> fc_scope f | None \<Rightarrow> NonLocal);
         is_local = (case map_of (eg_face_table g) (ctx_face_id ctx) of Some f \<Rightarrow> fc_scope f = Local | None \<Rightarrow> False);
         require_local_validation = (is_local \<and>
           (case map_of (eg_face_states g) (ctx_face_id ctx) of Some s \<Rightarrow> fs_require_data_validation s | None \<Rightarrow> False))
       in if ctx_unsolicited ctx \<and> \<not> admits (dx_unsolicited_policy E) scope then Some g
       else let
         learn = (\<lambda>ctx g. insert_and_dispatch E ctx (if ctx_unsolicited ctx then g else try_self_learn E ctx g))
       in if is_local \<and> \<not> require_local_validation then learn (ctx\<lparr>ctx_verified := True\<rparr>) g
       else if require_local_validation \<and> vs_validator (eg_validation g) = None then Some g
       else (case validation_process (dx_now E) ctx (eg_validation g) of
           None \<Rightarrow> None
         | Some (a, vs) \<Rightarrow> (let g = g\<lparr>eg_validation := vs\<rparr> in case a of
             ActSatisfy ctx \<Rightarrow> learn ctx g
           | ActDrop _ \<Rightarrow> Some g
           | other \<Rightarrow> Some (dispatch_action E other g))))
     | ActDrop _ \<Rightarrow> Some g
     | other \<Rightarrow> Some (dispatch_action E other g)))"

definition count_inbound :: "packet_context \<Rightarrow> ('x, 's) engine \<Rightarrow> ('x, 's) engine" where
  "count_inbound ctx g = bump (ctx_face_id ctx) (\<lambda>c. let
     c = (case ctx_packet ctx of InterestPacket _ \<Rightarrow> c\<lparr>in_interests := in_interests c + 1\<rparr> | _ \<Rightarrow> c\<lparr>in_data := in_data c + 1\<rparr>)
   in c\<lparr>in_bytes := in_bytes c + word_of_nat (length (ctx_raw_bytes ctx))\<rparr>) g"

definition forward_decoded :: "('x, 's) dispatch_env \<Rightarrow> packet_context \<Rightarrow> ('x, 's) engine \<Rightarrow> ('x, 's) engine option" where
  "forward_decoded E ctx g =
     (if dx_discovery E (ctx_raw_bytes ctx) (ctx_face_id ctx) then Some g
      else case ctx_packet ctx of
        InterestPacket _ \<Rightarrow> (let g = count_inbound ctx g in case check_rate_limit_inbound E ctx of
            Inl a \<Rightarrow> Some (dispatch_action E a g)
          | Inr ctx \<Rightarrow> Some (interest_pipeline E ctx g))
      | DataPacket _ \<Rightarrow> (let g = count_inbound ctx g in case check_rate_limit_inbound E ctx of
            Inl a \<Rightarrow> Some (dispatch_action E a g)
          | Inr ctx \<Rightarrow> data_pipeline E ctx g)
      | NackPacket _ \<Rightarrow> Some (nack_pipeline E ctx g)
      | RawPacket \<Rightarrow> Some g)"

text \<open>A packet that is no fragment is decoded, and what decodes is forwarded.\<close>

definition process_packet ::
  "('x, 's) dispatch_env \<Rightarrow> decode_env \<Rightarrow> bytes \<Rightarrow> u64 \<Rightarrow> u64 \<Rightarrow> u64 \<Rightarrow> ('x, 's) engine \<Rightarrow> ('x, 's) engine option" where
  "process_packet E D raw fid arrival endpoint_id g = (case decode_resolved D raw fid arrival endpoint_id (decode_stage_of g) of
     None \<Rightarrow> None
   | Some (a, st) \<Rightarrow> (let g = g\<lparr>eg_reassembly := ds_reassembly st, eg_face_states := ds_face_states st\<rparr> in case a of
       ActContinue ctx \<Rightarrow> forward_decoded E ctx g
     | ActDrop _ \<Rightarrow> Some g
     | other \<Rightarrow> Some (dispatch_action E other g)))"

text \<open>A frame that the shared runtime takes from its channel: fragments are collected first.\<close>

definition pipeline_frame ::
  "('x, 's) dispatch_env \<Rightarrow> decode_env \<Rightarrow> bytes \<Rightarrow> u64 \<Rightarrow> u64 \<Rightarrow> u64 \<Rightarrow> ('x, 's) engine \<Rightarrow> ('x, 's) engine option" where
  "pipeline_frame E D raw fid arrival endpoint_id g =
     (case try_collect_fragment (de_now D) fid endpoint_id raw (eg_reassembly g) of
        (Inr None, table) \<Rightarrow> Some (g\<lparr>eg_reassembly := table\<rparr>)
      | (Inr (Some reassembled), table) \<Rightarrow> process_packet E D reassembled fid arrival endpoint_id (g\<lparr>eg_reassembly := table\<rparr>)
      | (Inl raw, table) \<Rightarrow> process_packet E D raw fid arrival endpoint_id (g\<lparr>eg_reassembly := table\<rparr>))"

text \<open>The partitioned runtime: a router decodes the frame and picks the worker by a hash of the first name
  components, and the worker forwards the packet. The hash function of the standard library is an argument.\<close>

definition NDT_START_DEPTH :: nat where "NDT_START_DEPTH = 2"

record ndt =
  ndt_workers :: nat
  ndt_start_depth :: nat

definition ndt_new :: "nat \<Rightarrow> ndt" where
  "ndt_new workers = \<lparr>ndt_workers = max workers 1, ndt_start_depth = NDT_START_DEPTH\<rparr>"

definition worker_for :: "(name_component list \<Rightarrow> u64) \<Rightarrow> ndt \<Rightarrow> name \<Rightarrow> nat" where
  "worker_for hash t n = (if ndt_workers t \<le> 1 then 0
     else let k = min (length n) (ndt_start_depth t) in unat (hash (take k n) mod word_of_nat (ndt_workers t)))"

definition partitioned_router ::
  "(name_component list \<Rightarrow> u64) \<Rightarrow> ndt \<Rightarrow> decode_env \<Rightarrow> bytes \<Rightarrow> u64 \<Rightarrow> u64 \<Rightarrow> u64 \<Rightarrow> ('x, 's) engine \<Rightarrow>
     ((nat \<times> packet_context) option \<times> ('x, 's) engine) option" where
  "partitioned_router hash t D raw fid arrival endpoint_id g =
     (case decode_inbound D raw fid arrival endpoint_id (decode_stage_of g) of
        None \<Rightarrow> None
      | Some (a, st) \<Rightarrow> (let g = g\<lparr>eg_reassembly := ds_reassembly st, eg_face_states := ds_face_states st\<rparr> in case a of
          ActContinue ctx \<Rightarrow> Some (Some (case ctx_name ctx of None \<Rightarrow> 0 | Some n \<Rightarrow> worker_for hash t n, ctx), g)
        | _ \<Rightarrow> Some (None, g)))"

text \<open>The router and then the worker that was picked, when no other packet comes between.\<close>

definition partitioned_frame ::
  "(name_component list \<Rightarrow> u64) \<Rightarrow> ndt \<Rightarrow> ('x, 's) dispatch_env \<Rightarrow> decode_env \<Rightarrow> bytes \<Rightarrow> u64 \<Rightarrow> u64 \<Rightarrow> u64 \<Rightarrow>
     ('x, 's) engine \<Rightarrow> ('x, 's) engine option" where
  "partitioned_frame hash t E D raw fid arrival endpoint_id g =
     (case partitioned_router hash t D raw fid arrival endpoint_id g of
        None \<Rightarrow> None
      | Some (None, g) \<Rightarrow> Some g
      | Some (Some (worker, ctx), g) \<Rightarrow> forward_decoded E ctx g)"

text \<open>One tick of the task that re-validates the packets whose certificate has arrived.\<close>

definition dispatch_drained :: "('x, 's) dispatch_env \<Rightarrow> action \<Rightarrow> ('x, 's) engine \<Rightarrow> ('x, 's) engine option" where
  "dispatch_drained E a g = (case a of
     ActSatisfy ctx \<Rightarrow> insert_and_dispatch E ctx g
   | other \<Rightarrow> Some (dispatch_action E other g))"

definition validation_drain_tick :: "('x, 's) dispatch_env \<Rightarrow> ('x, 's) engine \<Rightarrow> ('x, 's) engine option" where
  "validation_drain_tick E g = (case drain_pending (dx_now E) (eg_validation g) of
     (actions, vs) \<Rightarrow> foldl (\<lambda>g a. Option.bind g (dispatch_drained E a)) (Some (g\<lparr>eg_validation := vs\<rparr>)) actions)"

end
