(* ===== verification/Dispatcher_Laws.thy ===== *)
theory Dispatcher_Laws
  imports Dispatcher
begin

text \<open>
  What the dispatcher as a whole guarantees: which packets it hands to which faces, that trusted Data reaches the
  consumers, what a rejected packet leaves behind, that the two runtimes forward alike, and what Nacks lead to.
\<close>

section \<open>Sending\<close>

text \<open>The part of a face's state that a send does not change.\<close>

definition states_config :: "(u64 \<times> face_state) list \<Rightarrow> u64 \<Rightarrow> (u64 \<times> bool) option" where
  "states_config states fid = map_option (\<lambda>s. (fs_flags s, fs_require_data_validation s)) (map_of states fid)"

definition face_config :: "('x, 's) engine \<Rightarrow> u64 \<Rightarrow> (u64 \<times> bool) option" where
  "face_config g = states_config (eg_face_states g)"

definition sent_by :: "('x, 's) engine \<Rightarrow> ('x, 's) engine \<Rightarrow> (u64 \<times> egress_item) list \<Rightarrow> bool" where
  "sent_by g g' xs \<longleftrightarrow> g' = g\<lparr>eg_face_states := eg_face_states g', eg_sent := eg_sent g @ xs\<rparr> \<and> face_config g' = face_config g"

lemma sent_by_refl [simp]: "sent_by g g []"
  by (simp add: sent_by_def)

lemma sent_byD:
  assumes "sent_by g g' xs"
  shows "eg_sent g' = eg_sent g @ xs" "face_config g' = face_config g" "eg_face_table g' = eg_face_table g" "eg_pit g' = eg_pit g"
    "eg_cs g' = eg_cs g" "eg_fib g' = eg_fib g" "eg_rib g' = eg_rib g" "eg_reflexive g' = eg_reflexive g"
    "eg_validation g' = eg_validation g" "eg_reassembly g' = eg_reassembly g" "eg_dnl g' = eg_dnl g" "eg_guard g' = eg_guard g"
    "eg_strategy_table g' = eg_strategy_table g" "eg_default_strategy g' = eg_default_strategy g"
    "eg_network_region g' = eg_network_region g" "eg_delayed g' = eg_delayed g" "eg_face_options g' = eg_face_options g"
  using assms unfolding sent_by_def by (cases g; cases g'; simp)+

lemma sent_by_trans:
  assumes "sent_by g g1 xs" "sent_by g1 g2 ys"
  shows "sent_by g g2 (xs @ ys)"
  using assms unfolding sent_by_def by (cases g; cases g1; cases g2) simp

lemma sent_by_bump: "sent_by g (bump fid f g) []"
  by (auto simp: sent_by_def bump_def face_config_def states_config_def fun_eq_iff update_conv' split: option.split)

definition accepted :: "('x, 's) dispatch_env \<Rightarrow> ('x, 's) engine \<Rightarrow> u64 \<Rightarrow> egress_item \<Rightarrow> (u64 \<times> egress_item) list" where
  "accepted E g fid item =
     (if face_config g fid \<noteq> None \<and> (\<exists>blocked. dx_queue E fid item = Queued blocked) then [(fid, item)] else [])"

lemma sent_by_enqueue: "sent_by g (enqueue_send_with_source E fid p src i g) (accepted E g fid (p, src, i))"
proof (cases "map_of (eg_face_states g) fid")
  case (Some s)
  let ?g = "g\<lparr>eg_sent := eg_sent g @ [(fid, p, src, i)]\<rparr>"
  have "sent_by g ?g [(fid, p, src, i)]" by (simp add: sent_by_def face_config_def)
  from sent_by_trans [OF this sent_by_bump] have b: "sent_by g (bump fid f ?g) [(fid, p, src, i)]" for f by simp
  show ?thesis
    using \<open>sent_by g ?g [(fid, p, src, i)]\<close> b
    by (simp add: enqueue_send_with_source_def Some accepted_def face_config_def states_config_def Let_def sent_by_bump split: send_outcome.split)
qed (simp add: enqueue_send_with_source_def accepted_def face_config_def states_config_def)

section \<open>What an action puts on the wire\<close>

definition names_localhost :: "packet_context \<Rightarrow> bool" where
  "names_localhost ctx \<longleftrightarrow> (case ctx_name ctx of Some n \<Rightarrow> is_localhost_name n | None \<Rightarrow> False)"

definition interest_out :: "('x, 's) dispatch_env \<Rightarrow> ('x, 's) engine \<Rightarrow> packet_context \<Rightarrow> u64 \<Rightarrow> (u64 \<times> egress_item) list" where
  "interest_out E g ctx fid =
     (if names_localhost ctx \<and> nonlocal_egress g fid \<or>
         \<not> check_rate_limit_outbound E fid (ctx_name ctx) True (length (ctx_raw_bytes ctx)) then []
      else accepted E g fid (ctx_raw_bytes ctx, ctx_face_id ctx,
        \<lparr>ei_headers = lp_headers_default\<lparr>lh_incoming_face_id := if local_fields_to g fid then Some (ctx_face_id ctx) else None\<rparr>,
         ei_nack = None\<rparr>))"

definition echo_suppressed :: "('x, 's) engine \<Rightarrow> packet_context \<Rightarrow> u64 \<Rightarrow> bool" where
  "echo_suppressed g ctx fid \<longleftrightarrow> \<not> ctx_cs_hit ctx \<and> fid = ctx_face_id ctx \<and>
     \<not> (\<exists>f. map_of (eg_face_table g) fid = Some f \<and> fc_link_type f = AdHoc)"

definition data_payload :: "packet_context \<Rightarrow> bytes" where
  "data_payload ctx = (case tag_cs_entry (ctx_tags ctx) of
     Some e \<Rightarrow> if ctx_cs_hit ctx then ce_data e else ctx_raw_bytes ctx | None \<Rightarrow> ctx_raw_bytes ctx)"

definition data_intent :: "('x, 's) engine \<Rightarrow> packet_context \<Rightarrow> nat \<Rightarrow> u64 \<Rightarrow> egress_intent" where
  "data_intent g ctx i fid =
     \<lparr>ei_headers = lp_headers_default\<lparr>
        lh_pit_token := if i < length (ctx_out_pit_tokens ctx) then ctx_out_pit_tokens ctx ! i else None,
        lh_incoming_face_id := if local_fields_to g fid
          then Some (if ctx_cs_hit ctx then FACE_CONTENT_STORE else ctx_face_id ctx) else None\<rparr>,
      ei_nack = None\<rparr>"

definition data_out :: "('x, 's) dispatch_env \<Rightarrow> ('x, 's) engine \<Rightarrow> packet_context \<Rightarrow> nat \<times> u64 \<Rightarrow> (u64 \<times> egress_item) list" where
  "data_out E g ctx = (\<lambda>(i, fid).
     if echo_suppressed g ctx fid \<or> names_localhost ctx \<and> nonlocal_egress g fid \<or>
        \<not> check_rate_limit_outbound E fid (ctx_name ctx) False (length (data_payload ctx)) then []
     else accepted E g fid (data_payload ctx, FACE_INVALID, data_intent g ctx i fid))"

definition egress :: "('x, 's) dispatch_env \<Rightarrow> ('x, 's) engine \<Rightarrow> action \<Rightarrow> (u64 \<times> egress_item) list" where
  "egress E g a = (case a of
     ActSend ctx faces \<Rightarrow> concat (map (interest_out E g ctx) faces)
   | ActSatisfy ctx \<Rightarrow> concat (map (data_out E g ctx) (enumerate 0 (ctx_out_faces ctx)))
   | ActNack ctx reason \<Rightarrow> if nacks_allowed_on_face g (ctx_face_id ctx)
       then accepted E g (ctx_face_id ctx) (ctx_raw_bytes ctx, FACE_INVALID,
         \<lparr>ei_headers = lp_headers_default\<lparr>lh_pit_token := ctx_lp_pit_token ctx\<rparr>, ei_nack = Some (packet_nack_reason reason)\<rparr>)
       else []
   | _ \<Rightarrow> [])"

text \<open>All of it depends on the face table and the configuration of the faces only.\<close>

lemma local_fields_config:
  "local_fields_to g fid \<longleftrightarrow> (\<exists>f. map_of (eg_face_table g) fid = Some f \<and> uses_lp_framing (fc_kind f)) \<and>
     (\<exists>flags v. face_config g fid = Some (flags, v) \<and> flags AND BIT_LOCAL_FIELDS \<noteq> 0)"
  by (auto simp: local_fields_to_def face_config_def states_config_def local_fields_enabled_def split: option.splits)

lemma out_cong:
  assumes "eg_face_table g' = eg_face_table g" "face_config g' = face_config g"
  shows "accepted E g' = accepted E g" "nonlocal_egress g' = nonlocal_egress g" "local_fields_to g' = local_fields_to g"
    "echo_suppressed g' = echo_suppressed g" "interest_out E g' = interest_out E g" "data_out E g' = data_out E g"
    "nacks_allowed_on_face g' = nacks_allowed_on_face g"
proof -
  show "accepted E g' = accepted E g" "nonlocal_egress g' = nonlocal_egress g" "local_fields_to g' = local_fields_to g"
    "echo_suppressed g' = echo_suppressed g" "nacks_allowed_on_face g' = nacks_allowed_on_face g"
    using assms by (auto simp: fun_eq_iff accepted_def nonlocal_egress_def local_fields_config echo_suppressed_def nacks_allowed_on_face_def)
  then show "interest_out E g' = interest_out E g" "data_out E g' = data_out E g"
    by (simp_all add: fun_eq_iff interest_out_def data_out_def data_intent_def)
qed

lemma sent_by_out:
  assumes "sent_by g g' xs"
  shows "accepted E g' = accepted E g" "interest_out E g' = interest_out E g" "data_out E g' = data_out E g"
    "nacks_allowed_on_face g' = nacks_allowed_on_face g"
  using out_cong [OF sent_byD(3) [OF assms] sent_byD(2) [OF assms]] by simp_all

lemma sent_by_foldl:
  assumes "\<And>g x. sent_by g (f g x) (out g x)" "\<And>g g' xs. sent_by g g' xs \<Longrightarrow> out g' = out g"
  shows "sent_by g (foldl f g xs) (concat (map (out g) xs))"
proof (induction xs arbitrary: g)
  case (Cons x xs)
  have "out (f g x) = out g" by (rule assms(2) [OF assms(1)])
  then show ?case using sent_by_trans [OF assms(1) Cons [of "f g x"]] by simp
qed simp

lemma sent_by_counted: "sent_by g (enqueue_send_with_source E fid p src i (bump fid' f g)) (accepted E g fid (p, src, i))"
  using sent_by_trans [OF sent_by_bump sent_by_enqueue, of g E fid p src i fid' f] by (simp add: sent_by_out(1) [OF sent_by_bump])

lemma sent_by_interest: "sent_by g (send_interest E ctx g fid) (interest_out E g ctx fid)"
  by (simp add: send_interest_def interest_out_def Let_def names_localhost_def sent_by_counted)

lemma sent_by_data: "sent_by g (satisfy_face E ctx (data_payload ctx) g x) (data_out E g ctx x)"
proof -
  have adhoc: "(case map_of (eg_face_table g) fid of Some f \<Rightarrow> fc_link_type f = AdHoc | None \<Rightarrow> False) \<longleftrightarrow>
      (\<exists>f. map_of (eg_face_table g) fid = Some f \<and> fc_link_type f = AdHoc)" for fid by (simp split: option.split)
  obtain i fid where x: "x = (i, fid)" by (rule prod.exhaust)
  consider "echo_suppressed g ctx fid" | "\<not> echo_suppressed g ctx fid" "names_localhost ctx \<and> nonlocal_egress g fid"
    | "\<not> echo_suppressed g ctx fid" "\<not> (names_localhost ctx \<and> nonlocal_egress g fid)" by blast
  then show ?thesis
  proof cases
    case 1
    then show ?thesis by (simp add: x satisfy_face_def data_out_def Let_def adhoc echo_suppressed_def)
  next
    case 2
    then show ?thesis by (simp add: x satisfy_face_def data_out_def Let_def adhoc echo_suppressed_def names_localhost_def)
  next
    case 3
    have n1: "\<not> (\<not> ctx_cs_hit ctx \<and> fid = ctx_face_id ctx \<and> \<not> (\<exists>f. map_of (eg_face_table g) fid = Some f \<and> fc_link_type f = AdHoc))"
      using 3(1) unfolding echo_suppressed_def .
    have n2: "\<not> ((case ctx_name ctx of Some n \<Rightarrow> is_localhost_name n | None \<Rightarrow> False) \<and> nonlocal_egress g fid)"
      using 3(2) unfolding names_localhost_def .
    have "satisfy_face E ctx (data_payload ctx) g x = (if check_rate_limit_outbound E fid (ctx_name ctx) False (length (data_payload ctx))
        then enqueue_send_with_source E fid (data_payload ctx) FACE_INVALID (data_intent g ctx i fid)
          (bump fid (\<lambda>c. c\<lparr>out_data := out_data c + 1, in_satisfied_interests := in_satisfied_interests c + 1\<rparr>) g) else g)"
      unfolding x satisfy_face_def Let_def adhoc fst_conv snd_conv if_not_P [OF n1] if_not_P [OF n2] data_intent_def
      by (cases "check_rate_limit_outbound E fid (ctx_name ctx) False (length (data_payload ctx))") (simp_all split del: if_split)
    then show ?thesis using 3 by (auto simp: x data_out_def sent_by_counted)
  qed
qed

lemma satisfy_foldl: "satisfy E ctx g = foldl (satisfy_face E ctx (data_payload ctx)) g (enumerate 0 (ctx_out_faces ctx))"
  by (simp add: satisfy_def data_payload_def split: option.split)

lemma dispatch_egress: "sent_by g (dispatch_action E a g) (egress E g a)"
proof (cases a)
  case (ActSend ctx faces)
  then show ?thesis
    using sent_by_foldl [of "send_interest E ctx" "\<lambda>g. interest_out E g ctx", OF sent_by_interest]
    by (simp add: dispatch_action_def egress_def sent_by_out(2))
next
  case (ActSatisfy ctx)
  then show ?thesis
    using sent_by_foldl [of "satisfy_face E ctx (data_payload ctx)" "\<lambda>g. data_out E g ctx", OF sent_by_data]
    by (simp add: dispatch_action_def egress_def satisfy_foldl sent_by_out(3))
next
  case (ActNack ctx reason)
  then show ?thesis by (simp add: dispatch_action_def egress_def enqueue_send_def Let_def sent_by_counted)
qed (simp_all add: dispatch_action_def egress_def)

lemma satisfy_egress: "sent_by g (satisfy E ctx g) (egress E g (ActSatisfy ctx))"
  using dispatch_egress [of g E "ActSatisfy ctx"] by (simp add: dispatch_action_def)

section \<open>Decoding\<close>

text \<open>A context on which nothing but decoding has happened.\<close>

definition pristine :: "packet_context \<Rightarrow> bool" where
  "pristine ctx \<longleftrightarrow> ctx_out_pit_tokens ctx = [] \<and> \<not> ctx_unsolicited ctx \<and> \<not> ctx_cs_hit ctx \<and> \<not> ctx_verified ctx \<and>
     \<not> ctx_validation_not_configured ctx"

definition decodes_to :: "packet_context \<Rightarrow> decode_stage \<Rightarrow> action \<Rightarrow> decode_stage \<Rightarrow> bool" where
  "decodes_to ctx st a st' \<longleftrightarrow> ((\<exists>r. a = ActDrop r) \<or> (\<exists>ctx'. a = ActContinue ctx' \<and> (pristine ctx \<longrightarrow> pristine ctx'))) \<and>
     ds_face_table st' = ds_face_table st \<and> ds_face_options st' = ds_face_options st \<and>
     states_config (ds_face_states st') = states_config (ds_face_states st)"

lemma pristine_simps [simp]:
  "pristine (ctx\<lparr>ctx_raw_bytes := raw\<rparr>) = pristine ctx" "pristine (ctx\<lparr>ctx_packet := p\<rparr>) = pristine ctx"
  "pristine (set_name H n ctx) = pristine ctx" "pristine (lp_tags st lp ctx) = pristine ctx"
  by (simp_all add: pristine_def set_name_def lp_tags_def Let_def split: option.split)

lemma scoped_continue_shape: "scoped_continue st ctx = ActContinue ctx \<or> (\<exists>r. scoped_continue st ctx = ActDrop r)"
  by (auto simp: scoped_continue_def check_scope_def split: option.splits)

lemma decode_interest_shape:
  assumes "decode_interest env st ctx = Some a"
  shows "decodes_to ctx st a st"
proof -
  consider "\<exists>r. a = ActDrop r" | ctx' where "a = scoped_continue st ctx'" "pristine ctx' = pristine ctx"
    using assms by (auto simp: decode_interest_def Let_def split: sum.splits if_splits option.splits)
  then show ?thesis
    using scoped_continue_shape by cases (fastforce simp: decodes_to_def)+
qed

lemma decode_data_shape: "decodes_to ctx st (decode_data env st ctx) st"
  using scoped_continue_shape by (fastforce simp: decodes_to_def decode_data_def Let_def split: sum.split)

lemma decode_nack_shape:
  assumes "decode_nack env h f ctx st = (a, st')"
  shows "decodes_to ctx st a st'"
proof (cases "interest_decode f")
  case (Inr i)
  then obtain ctx' where "a = scoped_continue st' ctx'" "pristine ctx' = pristine ctx" "ds_face_table st' = ds_face_table st"
    "ds_face_options st' = ds_face_options st" "states_config (ds_face_states st') = states_config (ds_face_states st)"
    using assms by (auto simp: decode_nack_def Let_def states_config_def fun_eq_iff update_conv' split: option.splits)
  then show ?thesis using scoped_continue_shape [of st' ctx'] by (auto simp: decodes_to_def)
qed (use assms in \<open>auto simp: decode_nack_def decodes_to_def\<close>)

lemma process_lp_shape:
  assumes "process_lp env ctx st = (r, st')"
  shows "r = Inl a \<Longrightarrow> decodes_to ctx st a st'"
    and "r = Inr ctx' \<Longrightarrow> (pristine ctx \<longrightarrow> pristine ctx') \<and> ds_face_table st' = ds_face_table st \<and>
      ds_face_options st' = ds_face_options st \<and> ds_face_states st' = ds_face_states st"
proof -
  have n: "decodes_to ctx st b s" if "decode_nack env h f (lp_tags st lp ctx) st = (b, s)" for h f lp b s
    using decode_nack_shape [OF that] by (simp add: decodes_to_def)
  have drop: "decodes_to ctx st (ActDrop x) (st\<lparr>ds_reassembly := table\<rparr>)" "decodes_to ctx st (ActDrop x) st" for x table
    by (simp_all add: decodes_to_def)
  define Q where "Q = (\<lambda>r st'. case r of Inl a \<Rightarrow> decodes_to ctx st a st' | Inr ctx' \<Rightarrow> (pristine ctx \<longrightarrow> pristine ctx') \<and>
    ds_face_table st' = ds_face_table st \<and> ds_face_options st' = ds_face_options st \<and> ds_face_states st' = ds_face_states st)"
  have "Q r st'"
  proof (cases "lp_decode (ctx_raw_bytes ctx)")
    case (Inl e)
    then show ?thesis using assms drop by (auto simp: process_lp_def Q_def)
  next
    case (Inr lp)
    show ?thesis
    proof (cases "is_ack_only lp \<or> lp_fragment lp = None")
      case True
      then show ?thesis using assms Inr drop by (auto simp: process_lp_def Let_def Q_def split: if_splits)
    next
      case False
      then obtain f where f: "lp_fragment lp = Some f" "\<not> is_ack_only lp" by blast
      note run = assms [unfolded process_lp_def Inr sum.case Let_def f option.case if_not_P [OF f(2)]]
      show ?thesis
      proof (cases "is_fragmented lp")
        case True
        note run = run [unfolded if_P [OF True]]
        show ?thesis using run drop by (auto simp: Q_def split: option.splits prod.splits)
      next
        case False
        note run = run [unfolded if_not_P [OF False]]
        show ?thesis using run n by (auto simp: Q_def split: option.splits prod.splits)
      qed
    qed
  qed
  then show "r = Inl a \<Longrightarrow> decodes_to ctx st a st'" "r = Inr ctx' \<Longrightarrow> (pristine ctx \<longrightarrow> pristine ctx') \<and>
      ds_face_table st' = ds_face_table st \<and> ds_face_options st' = ds_face_options st \<and> ds_face_states st' = ds_face_states st"
    by (simp_all add: Q_def)
qed

lemma decode_process_shape:
  assumes "decode_process env ctx st = Some (a, st')"
  shows "decodes_to ctx st a st'"
proof -
  define P where "P = (\<lambda>ctx st (y :: action \<times> decode_stage). decodes_to ctx st (fst y) (snd y))"
  have "P ctx st y" if "decode_process env ctx st = Some y" for y
  proof (rule decode_process.raw_induct [OF _ that], goal_cases)
    case (1 rec env ctx st y)
    show ?case
    proof (cases "ctx_raw_bytes ctx \<noteq> [] \<and> is_lp_packet (ctx_raw_bytes ctx)")
      case True
      obtain r st1 where step: "process_lp env ctx st = (r, st1)" by (rule prod.exhaust)
      show ?thesis
      proof (cases r)
        case (Inl a)
        then show ?thesis using 1(2) True step process_lp_shape(1) [OF step] by (auto simp: P_def split: list.splits)
      next
        case (Inr ctx1)
        then have "rec env ctx1 st1 = Some y" using 1(2) True step by (auto split: list.splits)
        from 1(1) [OF this] show ?thesis using process_lp_shape(2) [OF step Inr] by (auto simp: P_def decodes_to_def)
      qed
    next
      case False
      then show ?thesis using 1(2) decode_interest_shape [of env st ctx] decode_data_shape [of ctx st env]
        by (auto simp: P_def decodes_to_def split: list.splits if_splits)
    qed
  qed
  then show ?thesis using assms by (auto simp: P_def)
qed

section \<open>The two runtimes\<close>

lemma decode_stage_collected: "(decode_stage_of g)\<lparr>ds_reassembly := table\<rparr> = decode_stage_of (g\<lparr>eg_reassembly := table\<rparr>)"
  by (simp add: decode_stage_of_def)

lemma decode_resolved_process: "decode_resolved D raw fid arrival ep st = decode_process D (start_context raw fid arrival ep) st"
  by (simp add: decode_resolved_def start_context_def)

lemma pipeline_frame_collected:
  "pipeline_frame E D raw fid arrival ep g = (case try_collect_fragment (de_now D) fid ep raw (eg_reassembly g) of
     (r, table) \<Rightarrow> (case collected r of
         None \<Rightarrow> Some (g\<lparr>eg_reassembly := table\<rparr>)
       | Some packet \<Rightarrow> process_packet E D packet fid arrival ep (g\<lparr>eg_reassembly := table\<rparr>)))"
  by (simp add: pipeline_frame_def collected_def split: prod.split sum.split option.split)

lemma process_packet_decoded:
  "process_packet E D packet fid arrival ep g = (case decode_process D (start_context packet fid arrival ep) (decode_stage_of g) of
     None \<Rightarrow> None
   | Some (a, st) \<Rightarrow> (let g = g\<lparr>eg_reassembly := ds_reassembly st, eg_face_states := ds_face_states st\<rparr> in
       case a of ActContinue ctx \<Rightarrow> forward_decoded E ctx g | _ \<Rightarrow> Some g))"
proof (cases "decode_process D (start_context packet fid arrival ep) (decode_stage_of g)")
  case (Some y)
  obtain a st where y: "y = (a, st)" by (rule prod.exhaust)
  have "decodes_to (start_context packet fid arrival ep) (decode_stage_of g) a st"
    using Some y by (intro decode_process_shape) simp
  then show ?thesis using Some y by (auto simp: process_packet_def decode_resolved_process decodes_to_def Let_def)
qed (simp add: process_packet_def decode_resolved_process)

text \<open>A name and a longer one that share the components the table looks at have the same worker.\<close>

lemma worker_affinity:
  assumes "prefix n m" "ndt_start_depth t \<le> length n"
  shows "worker_for hash t m = worker_for hash t n"
proof -
  from assms obtain z where "m = n @ z" by (auto simp: prefix_def)
  then show ?thesis using assms(2) by (simp add: worker_for_def Let_def min_def)
qed

lemma worker_in_range:
  assumes "0 < ndt_workers t" "ndt_workers t < 2 ^ 64"
  shows "worker_for hash t n < ndt_workers t"
proof -
  have "unat (word_of_nat (ndt_workers t) :: u64) = ndt_workers t" using assms(2) by (simp add: unat_of_nat)
  then show ?thesis using assms by (simp add: worker_for_def Let_def unat_mod)
qed

section \<open>The Data pipeline\<close>

definition is_local_ingress :: "('x, 's) engine \<Rightarrow> u64 \<Rightarrow> bool" where
  "is_local_ingress g fid \<longleftrightarrow> (\<exists>f. map_of (eg_face_table g) fid = Some f \<and> fc_scope f = Local)"

definition demands_validation :: "('x, 's) engine \<Rightarrow> u64 \<Rightarrow> bool" where
  "demands_validation g fid \<longleftrightarrow> is_local_ingress g fid \<and> (\<exists>flags. face_config g fid = Some (flags, True))"

definition ingress_scope :: "('x, 's) engine \<Rightarrow> u64 \<Rightarrow> face_scope" where
  "ingress_scope g fid = (case map_of (eg_face_table g) fid of Some f \<Rightarrow> fc_scope f | None \<Rightarrow> NonLocal)"

definition matched_context :: "packet_context \<Rightarrow> packet_context \<Rightarrow> bool" where
  "matched_context ctx ctx' \<longleftrightarrow> ctx' = ctx\<lparr>ctx_name_hashes := ctx_name_hashes ctx', ctx_out_faces := ctx_out_faces ctx',
     ctx_out_pit_tokens := ctx_out_pit_tokens ctx', ctx_unsolicited := ctx_unsolicited ctx'\<rparr>"

definition learn_and_store :: "('x, 's) dispatch_env \<Rightarrow> packet_context \<Rightarrow> ('x, 's) engine \<Rightarrow> ('x, 's) engine option" where
  "learn_and_store E ctx g = insert_and_dispatch E ctx (if ctx_unsolicited ctx then g else try_self_learn E ctx g)"

lemma matched_contextD:
  assumes "matched_context ctx ctx'"
  shows "ctx_packet ctx' = ctx_packet ctx" "ctx_raw_bytes ctx' = ctx_raw_bytes ctx" "ctx_face_id ctx' = ctx_face_id ctx"
    "ctx_tags ctx' = ctx_tags ctx" "ctx_verified ctx' = ctx_verified ctx" "ctx_name ctx' = ctx_name ctx" "ctx_cs_hit ctx' = ctx_cs_hit ctx"
    "ctx_validation_not_configured ctx' = ctx_validation_not_configured ctx"
  using assms unfolding matched_context_def by (cases ctx; cases ctx'; simp)+

lemma pit_match_shape:
  assumes "ctx_packet ctx = DataPacket d"
    "ctx_name_hashes ctx = None \<or> ctx_name_hashes ctx = Some (name_hashes_compute H (data_name d))"
  obtains ctx' st' where "pit_match_process H ctx st = (ActContinue ctx', st')" "matched_context ctx ctx'"
proof -
  obtain acc st' where "consume_all H (ctx_arrival ctx) (match_acc_new, st) (data_plan H (data_name d)) = (acc, st')"
    by (rule prod.exhaust)
  from pit_match_process_plan [OF assms this] show thesis
    by (rule that) (simp add: matched_context_def)
qed

lemma validation_shape:
  assumes "validation_process now ctx st = Some (a, st')"
  shows "(\<exists>ctx'. a = ActSatisfy ctx') \<or> (\<exists>r. a = ActDrop r)"
  using assms by (auto simp: validation_process_def Let_def split: option.splits validation_result.splits decoded_packet.splits)

lemma data_pipeline_matched:
  assumes "pit_match_process (dx_hasher E) ctx (match_stage g) = (ActContinue ctx', st')" "matched_context ctx ctx'"
  shows "data_pipeline E ctx g = (let g1 = g\<lparr>eg_pit := pm_pit st', eg_dnl := pm_dnl st'\<rparr>; fid = ctx_face_id ctx in
    if ctx_unsolicited ctx' \<and> \<not> admits (dx_unsolicited_policy E) (ingress_scope g fid) then Some g1
    else if is_local_ingress g fid \<and> \<not> demands_validation g fid then learn_and_store E (ctx'\<lparr>ctx_verified := True\<rparr>) g1
    else if demands_validation g fid \<and> vs_validator (eg_validation g) = None then Some g1
    else case validation_process (dx_now E) ctx' (eg_validation g) of
      None \<Rightarrow> None
    | Some (a, vs) \<Rightarrow> (case a of ActSatisfy c \<Rightarrow> learn_and_store E c (g1\<lparr>eg_validation := vs\<rparr>) | _ \<Rightarrow> Some (g1\<lparr>eg_validation := vs\<rparr>)))"
proof -
  let ?fid = "ctx_face_id ctx"
  let ?g1 = "g\<lparr>eg_pit := pm_pit st', eg_dnl := pm_dnl st'\<rparr>"
  have fields: "eg_face_table ?g1 = eg_face_table g" "eg_face_states ?g1 = eg_face_states g" "eg_validation ?g1 = eg_validation g"
    by simp_all
  have loc: "(case map_of (eg_face_table g) ?fid of Some f \<Rightarrow> fc_scope f = Local | None \<Rightarrow> False) \<longleftrightarrow> is_local_ingress g ?fid"
    by (simp add: is_local_ingress_def split: option.split)
  have dem: "is_local_ingress g ?fid \<and> (case map_of (eg_face_states g) ?fid of Some s \<Rightarrow> fs_require_data_validation s | None \<Rightarrow> False) \<longleftrightarrow>
      demands_validation g ?fid"
    by (auto simp: demands_validation_def face_config_def states_config_def split: option.split)
  have scope: "ingress_scope ?g1 ?fid = ingress_scope g ?fid" by (simp add: ingress_scope_def)
  note run = data_pipeline_def [of E ctx g, unfolded assms(1) Let_def prod.case action.case matched_contextD(3) [OF assms(2)]
      fields loc dem learn_and_store_def [symmetric] ingress_scope_def [symmetric] scope]
  show ?thesis
  proof (cases "validation_process (dx_now E) ctx' (eg_validation g)")
    case None
    then show ?thesis unfolding run Let_def by (simp only: option.case)
  next
    case (Some y)
    obtain a vs where y: "y = (a, vs)" by (rule prod.exhaust)
    from validation_shape [OF Some [unfolded y]] show ?thesis
      unfolding run Let_def Some y by (elim disjE exE) (simp_all only: option.case prod.case action.case)
  qed
qed

text \<open>Self-learning changes nothing, or adds one route to the RIB and recomputes the FIB for its prefix.\<close>

definition with_route :: "('x, 's) engine \<Rightarrow> name \<Rightarrow> rib_route \<Rightarrow> ('x, 's) engine" where
  "with_route g p r = (let rib = snd (rib_add (eg_rib g) p r) in g\<lparr>eg_rib := rib, eg_fib := apply_to_fib rib p (eg_fib g)\<rparr>)"

lemma try_self_learn_cases:
  obtains "try_self_learn E ctx g = g" | p r where "try_self_learn E ctx g = with_route g p r"
proof -
  have "try_self_learn E ctx g = g \<or> (\<exists>p r. try_self_learn E ctx g = with_route g p r)"
    by (cases "tag_prefix_announcement (ctx_tags ctx)")
      (auto simp: try_self_learn_def with_route_def Let_def split: sum.split option.split validation_result.split)
  then show thesis using that by blast
qed

lemma cs_insert_satisfies: "cs_insert_process C cfg ctx cs = Some (a, cs') \<Longrightarrow> a = ActSatisfy ctx"
  by (auto simp: cs_insert_process_def Let_def split: decoded_packet.splits if_splits)

lemma learn_and_store_result:
  assumes "learn_and_store E ctx g = Some g'"
  obtains rib fib cs' where "cs_insert_process (dx_store E) (dx_insert E) ctx (eg_cs g) = Some (ActSatisfy ctx, cs')"
    "sent_by (g\<lparr>eg_rib := rib, eg_fib := fib, eg_cs := cs'\<rparr>) g' (egress E g (ActSatisfy ctx))"
proof -
  obtain rib fib where l: "(if ctx_unsolicited ctx then g else try_self_learn E ctx g) = g\<lparr>eg_rib := rib, eg_fib := fib\<rparr>"
  proof (cases "ctx_unsolicited ctx")
    case True
    then show thesis by (intro that [of "eg_fib g" "eg_rib g"]) simp
  next
    case False
    then show thesis
      by (cases rule: try_self_learn_cases [of E ctx g]) (auto simp: with_route_def Let_def intro: that [of "eg_fib g" "eg_rib g"] that)
  qed
  let ?g = "\<lambda>cs'. g\<lparr>eg_rib := rib, eg_fib := fib, eg_cs := cs'\<rparr>"
  obtain a cs' where i: "cs_insert_process (dx_store E) (dx_insert E) ctx (eg_cs g) = Some (a, cs')" "g' = dispatch_action E a (?g cs')"
    using assms by (auto simp: learn_and_store_def insert_and_dispatch_def l)
  have a: "a = ActSatisfy ctx" by (rule cs_insert_satisfies [OF i(1)])
  have "face_config (?g cs') = face_config g" by (simp add: face_config_def)
  then have "egress E (?g cs') a = egress E g a" using out_cong [of "?g cs'" g] by (simp add: egress_def a)
  then show thesis using that [OF _ _] i dispatch_egress [of "?g cs'" E a] a by (metis)
qed

definition insert_returns :: "'s cs_ops \<Rightarrow> bool" where
  "insert_returns C \<longleftrightarrow> (\<forall>d n t s. co_insert C d n t s \<noteq> None)"

lemma cs_insert_process_returns: "insert_returns C \<Longrightarrow> cs_insert_process C cfg ctx cs \<noteq> None"
  by (simp add: insert_returns_def cs_insert_process_def Let_def split: decoded_packet.split)

lemma learn_and_store_returns: "insert_returns (dx_store E) \<Longrightarrow> \<exists>g'. learn_and_store E ctx g = Some g'"
  using cs_insert_process_returns [of "dx_store E"] by (fastforce simp: learn_and_store_def insert_and_dispatch_def)

lemma lru_insert_returns:
  assumes "lru_lawful L items"
  shows "insert_returns (lru_store L sha256)"
proof -
  have loop: "(insert_evict_loop L eb cs = None) = False" for eb cs using insert_evict_loop_result [OF assms, of eb cs] by auto
  have "cs_insert L d n t cs \<noteq> None" for d n t cs by (simp add: loop cs_insert_def Let_def split: option.split)
  then show ?thesis by (simp add: insert_returns_def lru_store_def)
qed

section \<open>Delivery\<close>

definition accepting :: "('x, 's) dispatch_env \<Rightarrow> bool" where
  "accepting E \<longleftrightarrow> dx_rate_limit E = None \<and> (\<forall>fid item. \<exists>blocked. dx_queue E fid item = Queued blocked)"

lemma check_rate_accepting: "accepting E \<Longrightarrow> check_rate_limit_outbound E fid n b k"
  by (simp add: accepting_def check_rate_limit_outbound_def)

definition reachable_for :: "('x, 's) engine \<Rightarrow> packet_context \<Rightarrow> u64 \<Rightarrow> bool" where
  "reachable_for g ctx f \<longleftrightarrow> face_config g f \<noteq> None \<and> \<not> echo_suppressed g ctx f \<and> \<not> (names_localhost ctx \<and> nonlocal_egress g f)"

lemma data_out_accepting:
  assumes "accepting E" "\<not> ctx_cs_hit ctx"
  shows "data_out E g ctx (i, f) = (if reachable_for g ctx f then [(f, ctx_raw_bytes ctx, FACE_INVALID, data_intent g ctx i f)] else [])"
  using assms by (auto simp: data_out_def reachable_for_def check_rate_accepting accepted_def data_payload_def accepting_def split: option.split)

lemma egress_satisfy:
  assumes "accepting E" "\<not> ctx_cs_hit ctx"
  shows "map fst (egress E g (ActSatisfy ctx)) = filter (reachable_for g ctx) (ctx_out_faces ctx)"
    and "x \<in> set (egress E g (ActSatisfy ctx)) \<Longrightarrow> fst (snd x) = ctx_raw_bytes ctx \<and> ei_nack (snd (snd (snd x))) = None"
proof -
  have "map fst (concat (map (data_out E g ctx) (enumerate k fs))) = filter (reachable_for g ctx) fs" for k fs
    by (induction fs arbitrary: k) (simp_all add: data_out_accepting [OF assms])
  then show "map fst (egress E g (ActSatisfy ctx)) = filter (reachable_for g ctx) (ctx_out_faces ctx)" by (simp add: egress_def)
  have out: "fst (snd x) = ctx_raw_bytes ctx \<and> ei_nack (snd (snd (snd x))) = None" if "x \<in> set (data_out E g ctx (i, f))" for x i f
    using that by (auto simp: data_out_accepting [OF assms] data_intent_def split: if_splits)
  show "fst (snd x) = ctx_raw_bytes ctx \<and> ei_nack (snd (snd (snd x))) = None" if "x \<in> set (egress E g (ActSatisfy ctx))"
  proof -
    from that obtain y where "x \<in> set (data_out E g ctx y)" by (auto simp: egress_def)
    then show ?thesis using out [of x "fst y" "snd y"] by simp
  qed
qed

text \<open>The engine forwards a Data packet that it trusts, that its validator accepts, or that nothing checks.\<close>

definition vetted :: "('x, 's) engine \<Rightarrow> u64 \<Rightarrow> data \<Rightarrow> bool" where
  "vetted g fid d \<longleftrightarrow> is_local_ingress g fid \<and> \<not> demands_validation g fid \<or>
     (case vs_validator (eg_validation g) of Some v \<Rightarrow> vl_validate_chain v d = VValid | None \<Rightarrow> \<not> demands_validation g fid)"

lemma data_pipeline_vetted:
  assumes "pit_match_process (dx_hasher E) ctx (match_stage g) = (ActContinue ctx', st')" "matched_context ctx ctx'"
    "ctx_packet ctx = DataPacket d" "vetted g (ctx_face_id ctx) d"
    "\<not> ctx_unsolicited ctx' \<or> admits (dx_unsolicited_policy E) (ingress_scope g (ctx_face_id ctx))"
  obtains c vs where "data_pipeline E ctx g = learn_and_store E c (g\<lparr>eg_pit := pm_pit st', eg_dnl := pm_dnl st', eg_validation := vs\<rparr>)"
    "c = ctx'\<lparr>ctx_verified := ctx_verified c, ctx_validation_not_configured := ctx_validation_not_configured c\<rparr>"
proof (cases "is_local_ingress g (ctx_face_id ctx) \<and> \<not> demands_validation g (ctx_face_id ctx)")
  case True
  then show thesis
    using data_pipeline_matched [OF assms(1,2)] assms(5) by (intro that [of "ctx'\<lparr>ctx_verified := True\<rparr>" "eg_validation g"]) (auto simp: Let_def)
next
  case False
  have pkt: "ctx_packet ctx' = DataPacket d" using matched_contextD(1) [OF assms(2)] assms(3) by simp
  obtain c vs where "validation_process (dx_now E) ctx' (eg_validation g) = Some (ActSatisfy c, vs)"
    "c = ctx'\<lparr>ctx_verified := ctx_verified c, ctx_validation_not_configured := ctx_validation_not_configured c\<rparr>"
    "demands_validation g (ctx_face_id ctx) \<longrightarrow> vs_validator (eg_validation g) \<noteq> None"
    using False assms(4) pkt by (auto simp: vetted_def validation_process_def Let_def split: option.splits)
  then show thesis
    using data_pipeline_matched [OF assms(1,2)] assms(5) False by (intro that [of c vs]) (auto simp: Let_def)
qed

text \<open>The Interests a Data packet satisfies, and the faces that wait for it.\<close>

definition waiting_faces :: "hasher \<Rightarrow> pit \<Rightarrow> name \<Rightarrow> u64 set" where
  "waiting_faces H p n = ir_face_id ` {r. \<exists>k. pending_at p k r \<and> satisfies (data_plan H n) k r}"

definition consumed :: "hasher \<Rightarrow> name \<Rightarrow> pit \<Rightarrow> pit \<Rightarrow> bool" where
  "consumed H n p p' \<longleftrightarrow> (\<forall>k r. pending_at p' k r \<longleftrightarrow> pending_at p k r \<and> \<not> satisfies (data_plan H n) k r)"

definition fresh_data :: "hasher \<Rightarrow> packet_context \<Rightarrow> data \<Rightarrow> bool" where
  "fresh_data H ctx d \<longleftrightarrow> ctx_packet ctx = DataPacket d \<and> pristine ctx \<and> ctx_out_faces ctx = [] \<and>
     (ctx_name_hashes ctx = None \<or> ctx_name_hashes ctx = Some (name_hashes_compute H (data_name d)))"

lemma fresh_data_matched:
  assumes "fresh_data H ctx d" "classical_pit (eg_pit g)"
  obtains ctx' st' where "pit_match_process H ctx (match_stage g) = (ActContinue ctx', st')" "matched_context ctx ctx'"
    "set (ctx_out_faces ctx') = waiting_faces H (eg_pit g) (data_name d)" "distinct (ctx_out_faces ctx')"
    "ctx_unsolicited ctx' \<longleftrightarrow> ctx_out_faces ctx' = []" "consumed H (data_name d) (eg_pit g) (pm_pit st')"
proof -
  have pkt: "ctx_packet ctx = DataPacket d" and hs: "ctx_name_hashes ctx = None \<or> ctx_name_hashes ctx = Some (name_hashes_compute H (data_name d))"
    and new: "ctx_out_faces ctx = []" "ctx_out_pit_tokens ctx = []" "\<not> ctx_unsolicited ctx"
    using assms(1) by (simp_all add: fresh_data_def pristine_def)
  have pit: "pm_pit (match_stage g) = eg_pit g" by (simp add: match_stage_def)
  obtain ctx' st' where m: "pit_match_process H ctx (match_stage g) = (ActContinue ctx', st')" "matched_context ctx ctx'"
    using pit_match_shape [OF pkt hs] by blast
  from pit_match_classical [OF pkt hs new, of "match_stage g"] assms(2) m(1) show thesis
    using that [OF m] by (simp add: pit waiting_faces_def consumed_def)
qed

lemma reachable_cong:
  fixes g g' :: "('x, 's) engine"
  assumes "matched_context ctx ctx'" "c = ctx'\<lparr>ctx_verified := v, ctx_validation_not_configured := w\<rparr>"
    "eg_face_table g' = eg_face_table g" "face_config g' = face_config g"
  shows "reachable_for g' c = reachable_for g ctx"
proof -
  have "names_localhost c = names_localhost ctx" "echo_suppressed g' c = echo_suppressed g ctx"
    using matched_contextD [OF assms(1)] by (simp_all add: assms names_localhost_def fun_eq_iff echo_suppressed_def)
  then show ?thesis using out_cong(2) [OF assms(3,4)] assms(4) by (simp add: reachable_for_def fun_eq_iff)
qed

text \<open>Data reaches the consumers. With one-shot Interests pending, a Data packet that the engine trusts, that
  its validator accepts or that no validator checks is put, as it came, into the queue of every face with an
  Interest it satisfies, once each, and into no other: except that it is not sent back on the face it came
  from unless the link is ad hoc, nor, under /localhost, to a non-local face. The Interests it satisfies are
  then no longer pending, and no others are affected. The queues take what they are given, no rate limit is
  installed, and the store's insertion returns.\<close>

theorem data_reaches_consumers:
  assumes "fresh_data (dx_hasher E) ctx d" "classical_pit (eg_pit g)" "vetted g (ctx_face_id ctx) d" "accepting E" "insert_returns (dx_store E)"
  shows "\<exists>g' xs. data_pipeline E ctx g = Some g' \<and> eg_sent g' = eg_sent g @ xs \<and> distinct (map fst xs) \<and>
    fst ` set xs = {f \<in> waiting_faces (dx_hasher E) (eg_pit g) (data_name d). reachable_for g ctx f} \<and>
    (\<forall>x \<in> set xs. fst (snd x) = ctx_raw_bytes ctx) \<and> consumed (dx_hasher E) (data_name d) (eg_pit g) (eg_pit g')"
proof -
  obtain ctx' st' where m: "pit_match_process (dx_hasher E) ctx (match_stage g) = (ActContinue ctx', st')" "matched_context ctx ctx'"
    and out: "set (ctx_out_faces ctx') = waiting_faces (dx_hasher E) (eg_pit g) (data_name d)" "distinct (ctx_out_faces ctx')"
      "ctx_unsolicited ctx' \<longleftrightarrow> ctx_out_faces ctx' = []" "consumed (dx_hasher E) (data_name d) (eg_pit g) (pm_pit st')"
    using fresh_data_matched [OF assms(1,2)] by metis
  have pkt: "ctx_packet ctx = DataPacket d" and hit: "\<not> ctx_cs_hit ctx'"
    using assms(1) matched_contextD(7) [OF m(2)] by (simp_all add: fresh_data_def pristine_def)
  show ?thesis
  proof (cases "\<not> ctx_unsolicited ctx' \<or> admits (dx_unsolicited_policy E) (ingress_scope g (ctx_face_id ctx))")
    case False
    then have "data_pipeline E ctx g = Some (g\<lparr>eg_pit := pm_pit st', eg_dnl := pm_dnl st'\<rparr>)"
      using data_pipeline_matched [OF m] by (simp add: Let_def)
    then show ?thesis
      using out False by (intro exI [of _ "g\<lparr>eg_pit := pm_pit st', eg_dnl := pm_dnl st'\<rparr>"] exI [of _ "[]"] conjI) auto
  next
    case True
    obtain c vs where run: "data_pipeline E ctx g = learn_and_store E c (g\<lparr>eg_pit := pm_pit st', eg_dnl := pm_dnl st', eg_validation := vs\<rparr>)"
      and c: "c = ctx'\<lparr>ctx_verified := ctx_verified c, ctx_validation_not_configured := ctx_validation_not_configured c\<rparr>"
      using data_pipeline_vetted [OF m pkt assms(3) True] by blast
    let ?g = "g\<lparr>eg_pit := pm_pit st', eg_dnl := pm_dnl st', eg_validation := vs\<rparr>"
    obtain g' where g': "learn_and_store E c ?g = Some g'" using learn_and_store_returns [OF assms(5)] by blast
    obtain rib fib cs' where s: "sent_by (?g\<lparr>eg_rib := rib, eg_fib := fib, eg_cs := cs'\<rparr>) g' (egress E ?g (ActSatisfy c))"
      using learn_and_store_result [OF g'] by metis
    have c': "\<not> ctx_cs_hit c" "ctx_out_faces c = ctx_out_faces ctx'" "ctx_raw_bytes c = ctx_raw_bytes ctx"
      using hit matched_contextD(2) [OF m(2)] by (subst c, simp)+
    have r: "reachable_for ?g c = reachable_for g ctx" by (rule reachable_cong [OF m(2) c]) (simp_all add: face_config_def)
    note e = egress_satisfy [OF assms(4) c'(1), where g = ?g, unfolded c' r]
    have "eg_sent g' = eg_sent g @ egress E ?g (ActSatisfy c)" "eg_pit g' = pm_pit st'" using sent_byD(1,4) [OF s] by simp_all
    moreover have "fst ` set (egress E ?g (ActSatisfy c)) = {f \<in> waiting_faces (dx_hasher E) (eg_pit g) (data_name d). reachable_for g ctx f}"
      unfolding set_map [symmetric] e(1) using out(1) by auto
    moreover have "distinct (map fst (egress E ?g (ActSatisfy c)))" using out(2) by (simp add: e(1))
    ultimately show ?thesis using run g' e(2) out(4) by (intro exI conjI) auto
  qed
qed

text \<open>A small engine: an application on face 1 waits for a name, and face 2 leads to the network.\<close>

definition sample_counters :: face_counters where
  "sample_counters = \<lparr>in_interests = 0, in_data = 0, out_interests = 0, out_data = 0, in_bytes = 0, out_drops = 0,
     out_blocked_ns = 0, in_satisfied_interests = 0, in_nacks = 0, out_nacks = 0\<rparr>"

definition sample_state :: face_state where
  "sample_state = \<lparr>fs_flags = 0, fs_require_data_validation = False, fs_counters = sample_counters\<rparr>"

definition sample_engine :: "(unit, unit) engine" where
  "sample_engine = \<lparr>eg_face_table = [(1, \<lparr>fc_kind = App, fc_scope = Local, fc_link_type = PointToPoint, fc_remote_uri = None\<rparr>),
       (2, \<lparr>fc_kind = Udp, fc_scope = NonLocal, fc_link_type = PointToPoint, fc_remote_uri = None\<rparr>)],
     eg_face_states = [(1, sample_state), (2, sample_state)], eg_reassembly = [], eg_face_options = [], eg_rib = rib_new, eg_fib = fib_new,
     eg_strategy_table = trie_new, eg_default_strategy = best_route, eg_network_region = [], eg_delayed = [], eg_pit = pm_pit sample_match,
     eg_dnl = None, eg_guard = None, eg_cs = (), eg_validation = validation_disabled, eg_reflexive = reflexive_default, eg_sent = []\<rparr>"

definition sample_dispatch :: "(unit, unit) dispatch_env" where
  "sample_dispatch = \<lparr>dx_hasher = de_hasher sample_env, dx_store = null_store, dx_insert = \<lparr>ci_admission = \<lambda>_. True, ci_admit_unverified = False\<rparr>,
     dx_interest_validator = None, dx_unsolicited_policy = DropAll, dx_rate_limit = None, dx_enrich = \<lambda>_ _ _. (),
     dx_queue = \<lambda>_ _. Queued 0, dx_discovery = \<lambda>_ _. False, dx_unix_nanos = 5, dx_now = 0\<rparr>"

lemma sample_dispatch_ok [simp]:
  "accepting sample_dispatch" "insert_returns (dx_store sample_dispatch)" "dx_hasher sample_dispatch = de_hasher sample_env"
  by (simp_all add: accepting_def sample_dispatch_def insert_returns_def null_store_def)

lemma sample_engine_pit [simp]: "eg_pit sample_engine = pm_pit sample_match" "eg_sent sample_engine = []"
  by (simp_all add: sample_engine_def)

lemma sample_fresh [simp]: "fresh_data H sample_data_ctx sample_data_packet"
  by (simp add: fresh_data_def pristine_def sample_data_ctx_def packet_context_new_def)

lemma sample_waiting: "waiting_faces (de_hasher sample_env) (pm_pit sample_match) sample_name = {1}"
proof -
  have "pending_at (pm_pit sample_match) k r \<longleftrightarrow> k = sample_token \<and> r \<in> set (pe_in_records sample_entry)" for k r
    by (simp add: pending_at_def sample_match_def pit_new_def)
  moreover have "satisfies (data_plan (de_hasher sample_env) sample_name) sample_token r" for r
    using sample_plan by (auto simp: satisfies_def)
  ultimately show ?thesis using sample_entry_fields(5) by (simp add: waiting_faces_def)
qed

theorem data_reaches_consumers_witness:
  "\<exists>g'. data_pipeline sample_dispatch sample_data_ctx sample_engine = Some g' \<and> fst ` set (eg_sent g') = {1}"
proof -
  have face: "ctx_face_id sample_data_ctx = 2" "ctx_name sample_data_ctx = None" by (simp_all add: sample_data_ctx_def packet_context_new_def)
  have "vetted sample_engine (ctx_face_id sample_data_ctx) sample_data_packet"
    by (simp add: face vetted_def demands_validation_def is_local_ingress_def sample_engine_def validation_disabled_def)
  moreover have "reachable_for sample_engine sample_data_ctx 1"
    by (simp add: reachable_for_def face face_config_def states_config_def echo_suppressed_def names_localhost_def sample_engine_def)
  ultimately show ?thesis
    using data_reaches_consumers [of sample_dispatch sample_data_ctx sample_data_packet sample_engine] sample_match_classical
    by (auto simp: sample_data_fields(7) sample_waiting)
qed

text \<open>What a rejected packet leaves behind. A Data packet that the validator rejects, or that comes over a face
  that requires validation when there is no validator, is neither sent nor cached, is not kept for later and
  changes no route; but the pending Interests it matches are gone all the same, so whoever answers first with a
  forged packet takes the Interest away from the genuine Data.\<close>

theorem rejected_data_consumes_interests:
  assumes "fresh_data (dx_hasher E) ctx d" "classical_pit (eg_pit g)"
    "\<not> is_local_ingress g (ctx_face_id ctx) \<or> demands_validation g (ctx_face_id ctx)"
    "case vs_validator (eg_validation g) of Some v \<Rightarrow> vl_validate_chain v d = VInvalid | None \<Rightarrow> demands_validation g (ctx_face_id ctx)"
  shows "\<exists>g'. data_pipeline E ctx g = Some g' \<and> eg_sent g' = eg_sent g \<and> eg_cs g' = eg_cs g \<and> eg_rib g' = eg_rib g \<and> eg_fib g' = eg_fib g \<and>
    vs_pending (eg_validation g') = vs_pending (eg_validation g) \<and> consumed (dx_hasher E) (data_name d) (eg_pit g) (eg_pit g')"
proof -
  obtain ctx' st' where m: "pit_match_process (dx_hasher E) ctx (match_stage g) = (ActContinue ctx', st')" "matched_context ctx ctx'"
    and out: "consumed (dx_hasher E) (data_name d) (eg_pit g) (pm_pit st')"
    using fresh_data_matched [OF assms(1,2)] by metis
  have pkt: "ctx_packet ctx' = DataPacket d" using assms(1) matched_contextD(1) [OF m(2)] by (simp add: fresh_data_def)
  let ?g = "g\<lparr>eg_pit := pm_pit st', eg_dnl := pm_dnl st'\<rparr>"
  have "data_pipeline E ctx g = Some ?g \<or> (\<exists>vs. data_pipeline E ctx g = Some (?g\<lparr>eg_validation := vs\<rparr>) \<and> vs_pending vs = vs_pending (eg_validation g))"
    using assms(3,4) pkt
    by (auto simp: data_pipeline_matched [OF m] Let_def validation_process_def split: option.splits)
  then show ?thesis using out by (elim disjE exE) (auto intro!: exI)
qed

theorem rejected_data_consumes_interests_witness:
  "\<exists>g'. data_pipeline sample_dispatch sample_data_ctx (sample_engine\<lparr>eg_validation := validation_disabled\<lparr>vs_validator :=
       Some \<lparr>vl_validate = \<lambda>_. VInvalid, vl_validate_chain = \<lambda>_. VInvalid, vl_cert_cached = \<lambda>_. False\<rparr>\<rparr>\<rparr>) = Some g' \<and>
     eg_sent g' = [] \<and> \<not> pending_at (eg_pit g') sample_token (hd (pe_in_records sample_entry))"
proof -
  let ?g = "sample_engine\<lparr>eg_validation := validation_disabled\<lparr>vs_validator :=
       Some \<lparr>vl_validate = \<lambda>_. VInvalid, vl_validate_chain = \<lambda>_. VInvalid, vl_cert_cached = \<lambda>_. False\<rparr>\<rparr>\<rparr>"
  have "ctx_face_id sample_data_ctx = 2" by (simp add: sample_data_ctx_def packet_context_new_def)
  then have "\<not> is_local_ingress ?g (ctx_face_id sample_data_ctx)" by (simp add: is_local_ingress_def sample_engine_def)
  moreover have "satisfies (data_plan (de_hasher sample_env) sample_name) sample_token r" for r
    using sample_plan by (auto simp: satisfies_def)
  ultimately show ?thesis
    using rejected_data_consumes_interests [of sample_dispatch sample_data_ctx sample_data_packet ?g] sample_match_classical
    by (auto simp: sample_data_fields(7) consumed_def)
qed

section \<open>Two runtimes, one behaviour\<close>

text \<open>The shared and the partitioned runtime process a frame alike, whatever the frame, the state of the engine
  and the number of workers: in the one the pipeline collects fragments and decodes, in the other the router
  does, which drops silently every outcome of decoding that is not a packet.\<close>

theorem runtimes_agree: "partitioned_frame hash t E D raw fid arrival ep g = pipeline_frame E D raw fid arrival ep g"
proof -
  obtain r table where c: "try_collect_fragment (de_now D) fid ep raw (eg_reassembly g) = (r, table)" by (rule prod.exhaust)
  have ds: "ds_reassembly (decode_stage_of g) = eg_reassembly g" "ds_face_states (decode_stage_of g) = eg_face_states g" for g :: "('a, 'b) engine"
    by (simp_all add: decode_stage_of_def)
  show ?thesis
    by (simp add: partitioned_frame_def partitioned_router_def pipeline_frame_collected decode_inbound_collected c ds
        decode_stage_collected process_packet_decoded Let_def split: option.split prod.split action.split)
qed

section \<open>Nack failover\<close>

lemma sent_by_pit: "sent_by g g' xs \<Longrightarrow> sent_by (g\<lparr>eg_pit := p\<rparr>) (g'\<lparr>eg_pit := p\<rparr>) xs"
  unfolding sent_by_def face_config_def by (cases g; cases g') simp

text \<open>Sends mixed with updates of the PIT.\<close>

definition moved :: "('x, 's) engine \<Rightarrow> ('x, 's) engine \<Rightarrow> (u64 \<times> egress_item) list \<Rightarrow> bool" where
  "moved g g' xs \<longleftrightarrow> sent_by (g\<lparr>eg_pit := eg_pit g'\<rparr>) g' xs \<and> (pit_ok (eg_pit g) \<longrightarrow> pit_ok (eg_pit g'))"

lemma sent_by_moved: "sent_by g g' xs \<Longrightarrow> moved g g' xs"
  using sent_byD(4) by (fastforce simp: moved_def)

lemma moved_trans:
  assumes "moved g g1 xs" "moved g1 g2 ys"
  shows "moved g g2 (xs @ ys)"
proof -
  have "sent_by (g\<lparr>eg_pit := eg_pit g2\<rparr>) (g1\<lparr>eg_pit := eg_pit g2\<rparr>) xs"
    using sent_by_pit [of "g\<lparr>eg_pit := eg_pit g1\<rparr>" g1 xs "eg_pit g2"] assms(1) by (simp add: moved_def)
  then show ?thesis using sent_by_trans assms unfolding moved_def by blast
qed

lemma moved_out:
  assumes "moved g g' xs"
  shows "accepted E g' = accepted E g" "nacks_allowed_on_face g' = nacks_allowed_on_face g"
proof -
  have "eg_face_table g' = eg_face_table g" "face_config g' = face_config g"
    using sent_byD(2,3) [of "g\<lparr>eg_pit := eg_pit g'\<rparr>" g' xs] assms by (simp_all add: moved_def face_config_def)
  from out_cong [OF this] show "accepted E g' = accepted E g" "nacks_allowed_on_face g' = nacks_allowed_on_face g" by auto
qed

lemma moved_foldl:
  assumes "\<And>g x. moved g (f g x) (out g x)" "\<And>g g' xs. moved g g' xs \<Longrightarrow> out g' = out g"
  shows "moved g (foldl f g xs) (concat (map (out g) xs))"
proof (induction xs arbitrary: g)
  case Nil
  show ?case by (simp add: sent_by_moved)
next
  case (Cons x xs)
  have "out (f g x) = out g" by (rule assms(2) [OF assms(1)])
  then show ?case using moved_trans [OF assms(1) Cons [of "f g x"]] by simp
qed

lemma moved_retry: "moved g (retry_interest E ctx i token g f) (accepted E g f (int_raw i, FACE_INVALID, egress_intent_default))"
proof -
  define g1 where "g1 = (case int_nonce i of
      Some nonce \<Rightarrow> g\<lparr>eg_pit := fst (with_entry_mut token (\<lambda>e. (add_out_record f nonce (ctx_arrival ctx) e, ())) (eg_pit g))\<rparr>
    | None \<Rightarrow> g)"
  have m: "moved g g1 []" by (simp add: g1_def moved_def with_entry_mut_ok split: option.split)
  have "retry_interest E ctx i token g f = enqueue_send_with_source E f (int_raw i) FACE_INVALID egress_intent_default
      (bump f (\<lambda>c. c\<lparr>out_interests := out_interests c + 1\<rparr>) g1)"
    by (simp add: retry_interest_def g1_def Let_def)
  then show ?thesis
    using moved_trans [OF m sent_by_moved [OF sent_by_counted, of g1 E f "int_raw i" FACE_INVALID egress_intent_default f]]
    by (simp add: moved_out(1) [OF m])
qed

lemma moved_propagate: "moved g (propagate_nack E nk g f) (if nacks_allowed_on_face g f
    then accepted E g f (int_raw (nack_interest nk), FACE_INVALID,
      egress_intent_default\<lparr>ei_nack := Some (case nack_reason_of nk of Some r \<Rightarrow> r | None \<Rightarrow> NoRoute)\<rparr>) else [])"
  by (simp add: propagate_nack_def Let_def enqueue_send_def sent_by_moved sent_by_counted)

lemma retry_keeps_entry: "pit_contains t (eg_pit (foldl (retry_interest E ctx i token) g fs)) \<longleftrightarrow> pit_contains t (eg_pit g)"
proof (induction fs arbitrary: g)
  case (Cons f fs)
  have "eg_pit (retry_interest E ctx i token g f) = eg_pit (case int_nonce i of
      Some nonce \<Rightarrow> g\<lparr>eg_pit := fst (with_entry_mut token (\<lambda>e. (add_out_record f nonce (ctx_arrival ctx) e, ())) (eg_pit g))\<rparr>
    | None \<Rightarrow> g)"
    unfolding retry_interest_def Let_def using sent_byD(4) [OF sent_by_counted] by blast
  then have "pit_contains t (eg_pit (retry_interest E ctx i token g f)) \<longleftrightarrow> pit_contains t (eg_pit g)"
    by (simp add: pit_contains_def with_entry_mut_def update_conv' split: option.split)
  then show ?case using Cons by simp
qed simp

definition nack_answer :: "('x, 's) dispatch_env \<Rightarrow> ('x, 's) engine \<Rightarrow> packet_context \<Rightarrow> nack \<Rightarrow> name \<Rightarrow> u64 \<Rightarrow> forwarding_action" where
  "nack_answer E g ctx nk n token = str_on_nack (case strategy_lpm (eg_strategy_table g) n of Some s \<Rightarrow> s | None \<Rightarrow> eg_default_strategy g)
     (nack_context E g ctx n token) (fwd_nack_reason_of (nack_reason_of nk))"

definition nack_out :: "('x, 's) dispatch_env \<Rightarrow> ('x, 's) engine \<Rightarrow> nack \<Rightarrow> u64 \<Rightarrow> (u64 \<times> egress_item) list" where
  "nack_out E g nk f = (if nacks_allowed_on_face g f then accepted E g f (int_raw (nack_interest nk), FACE_INVALID,
     egress_intent_default\<lparr>ei_nack := Some (case nack_reason_of nk of Some r \<Rightarrow> r | None \<Rightarrow> NoRoute)\<rparr>) else [])"

lemma moved_foldl_retry: "moved g (foldl (retry_interest E ctx i token) g fs)
    (concat (map (\<lambda>f. accepted E g f (int_raw i, FACE_INVALID, egress_intent_default)) fs))"
  by (rule moved_foldl [of "retry_interest E ctx i token" "\<lambda>g f. accepted E g f (int_raw i, FACE_INVALID, egress_intent_default)"])
    (simp_all add: moved_retry moved_out(1))

lemma sent_by_foldl_nack: "sent_by g (foldl (propagate_nack E nk) g fs) (concat (map (nack_out E g nk) fs))"
  by (rule sent_by_foldl) (simp_all add: nack_out_def fun_eq_iff sent_by_out propagate_nack_def Let_def enqueue_send_def sent_by_counted)

lemma nack_pipeline_cases:
  assumes "ctx_packet ctx = NackPacket nk" "ctx_name ctx = Some n" "nacks_allowed_on_face g (ctx_face_id ctx)"
    "from_interest (dx_hasher E) (int_name (nack_interest nk)) = token" "map_of (pit_entries (eg_pit g)) token = Some e"
  shows "nack_pipeline E ctx g = (case nack_answer E g ctx nk n token of
      Forward fs \<Rightarrow> foldl (retry_interest E ctx (nack_interest nk) token) g fs
    | FwdNack _ \<Rightarrow> foldl (propagate_nack E nk) (g\<lparr>eg_pit := fst (pit_remove token (eg_pit g))\<rparr>) (in_record_faces e)
    | _ \<Rightarrow> g)"
  using assms by (simp add: nack_pipeline_def nack_answer_def pit_contains_def pit_remove_def Let_def split: forwarding_action.split)

text \<open>What a Nack does. For a pending Interest it asks the strategy of the name. If that names other faces, the
  Interest goes to every one of them that exists, whatever the scope of its name and of the face, unlike an
  Interest that the strategy forwards the first time, and it stays pending. If it gives up, the Nack goes to
  every face with a record in the entry that may carry Nacks, with its reason or as NoRoute, and the Interest
  is no longer pending. In any other case nothing is sent and it stays pending.\<close>

theorem nack_fails_over_or_propagates:
  assumes "ctx_packet ctx = NackPacket nk" "ctx_name ctx = Some n" "nacks_allowed_on_face g (ctx_face_id ctx)"
    "from_interest (dx_hasher E) (int_name (nack_interest nk)) = token" "map_of (pit_entries (eg_pit g)) token = Some e"
  shows "eg_sent (nack_pipeline E ctx g) = eg_sent g @ (case nack_answer E g ctx nk n token of
      Forward fs \<Rightarrow> concat (map (\<lambda>f. accepted E g f (int_raw (nack_interest nk), FACE_INVALID, egress_intent_default)) fs)
    | FwdNack _ \<Rightarrow> concat (map (nack_out E g nk) (in_record_faces e))
    | _ \<Rightarrow> []) \<and>
    (pit_contains token (eg_pit (nack_pipeline E ctx g)) \<longleftrightarrow> (\<nexists>r. nack_answer E g ctx nk n token = FwdNack r))"
proof (cases "nack_answer E g ctx nk n token")
  case (Forward fs)
  have "eg_sent (foldl (retry_interest E ctx (nack_interest nk) token) g fs) = eg_sent g @
      concat (map (\<lambda>f. accepted E g f (int_raw (nack_interest nk), FACE_INVALID, egress_intent_default)) fs)"
    using moved_foldl_retry [of g E ctx "nack_interest nk" token fs] sent_byD(1) by (fastforce simp: moved_def)
  then show ?thesis
    using assms(5) by (simp add: nack_pipeline_cases [OF assms] Forward retry_keeps_entry) (simp add: pit_contains_def)
next
  case (FwdNack r)
  let ?g = "g\<lparr>eg_pit := fst (pit_remove token (eg_pit g))\<rparr>"
  have "nack_out E ?g nk = nack_out E g nk"
    using out_cong [of g ?g] by (simp add: fun_eq_iff nack_out_def face_config_def)
  then have s: "sent_by ?g (nack_pipeline E ctx g) (concat (map (nack_out E g nk) (in_record_faces e)))"
    using sent_by_foldl_nack [of ?g E nk "in_record_faces e"] by (simp add: nack_pipeline_cases [OF assms] FwdNack)
  have "\<not> pit_contains token (fst (pit_remove token (eg_pit g)))"
    using assms(5) by (simp add: pit_contains_def pit_remove_def delete_conv')
  then show ?thesis using sent_byD(1,4) [OF s] by (simp add: FwdNack)
qed (use assms(5) in \<open>simp_all add: nack_pipeline_cases [OF assms] pit_contains_def\<close>)

definition sample_local_name :: name where
  "sample_local_name = [NameComponent 8 (ascii ''localhost'')]"

definition sample_nack :: nack where
  "sample_nack = \<lparr>nack_reason_of = Some NoRoute, nack_interest = \<lparr>int_raw = [5, 0], int_name = sample_local_name\<rparr>\<rparr>"

definition sample_nack_ctx :: packet_context where
  "sample_nack_ctx = (packet_context_new [] 1 0)\<lparr>ctx_packet := NackPacket sample_nack, ctx_name := Some sample_local_name\<rparr>"

definition sample_nack_engine :: "(unit, unit) engine" where
  "sample_nack_engine = sample_engine\<lparr>eg_fib := add_nexthop (add_nexthop fib_new [] 1 0) [] 2 0,
     eg_pit := pit_new\<lparr>pit_entries := [(from_interest (de_hasher sample_env) sample_local_name, sample_entry)]\<rparr>\<rparr>"

theorem nack_fails_over_or_propagates_witness:
  "is_localhost_name sample_local_name \<and> nonlocal_egress sample_nack_engine 2 \<and>
   eg_sent (nack_pipeline sample_dispatch sample_nack_ctx sample_nack_engine) = [(2, [5, 0], FACE_INVALID, egress_intent_default)]"
proof -
  let ?token = "from_interest (de_hasher sample_env) sample_local_name"
  have fib: "fib_lpm (eg_fib sample_nack_engine) sample_local_name = Some \<lparr>nexthops = [\<lparr>face_id = 1, cost = 0\<rparr>, \<lparr>face_id = 2, cost = 0\<rparr>]\<rparr>"
    by (simp add: sample_nack_engine_def sample_local_name_def) code_simp
  have st: "strategy_lpm (eg_strategy_table sample_nack_engine) sample_local_name = None" "eg_default_strategy sample_nack_engine = best_route"
    by (simp_all add: sample_nack_engine_def sample_engine_def sample_local_name_def strategy_lpm_def trie_lpm_def trie_new_def)
  have pit: "map_of (pit_entries (eg_pit sample_nack_engine)) ?token = Some sample_entry" "pe_out_records sample_entry = []"
    by (simp_all add: sample_nack_engine_def pit_new_def)
      (simp add: sample_entry_def new_entry_def pit_entry_new_def add_in_record_with_persistent_def add_in_record_inner_def Let_def)
  have ctx: "ctx_packet sample_nack_ctx = NackPacket sample_nack" "ctx_name sample_nack_ctx = Some sample_local_name" "ctx_face_id sample_nack_ctx = 1"
    by (simp_all add: sample_nack_ctx_def packet_context_new_def)
  have "nack_answer sample_dispatch sample_nack_engine sample_nack_ctx sample_nack sample_local_name ?token = Forward [2]"
    by (simp add: nack_answer_def st best_route_def best_route_on_nack_def nack_context_def fib Let_def with_entry_def pit ctx
        nexthops_excluding_any_def)
  moreover have "accepted sample_dispatch sample_nack_engine 2 item = [(2, item)]" for item
    by (simp add: accepted_def face_config_def states_config_def sample_nack_engine_def sample_engine_def sample_dispatch_def)
  moreover have "nacks_allowed_on_face sample_nack_engine 1" "nonlocal_egress sample_nack_engine 2" "eg_sent sample_nack_engine = []"
    by (simp_all add: nacks_allowed_on_face_def nonlocal_egress_def sample_nack_engine_def sample_engine_def)
  ultimately show ?thesis
    using nack_fails_over_or_propagates [OF ctx(1,2), of sample_nack_engine sample_dispatch ?token sample_entry] ctx(3) pit(1)
    by (simp add: sample_nack_def) (simp add: sample_local_name_def is_localhost_name_def)
qed

section \<open>Two upstreams that answer with Nacks\<close>

text \<open>An engine that holds a pending Interest (filed under \<open>token\<close>) for a name whose strategy is the measured one
  and whose route has two next hops, both with live point-to-point faces.\<close>

definition measured_pair :: "('x strategy_context \<Rightarrow> u64 \<Rightarrow> u32 \<Rightarrow> int) \<Rightarrow> name \<Rightarrow> u64 \<Rightarrow> fib_nexthop \<Rightarrow> fib_nexthop \<Rightarrow> ('x, 's) engine \<Rightarrow> bool" where
  "measured_pair score n token h1 h2 g \<longleftrightarrow>
     (case strategy_lpm (eg_strategy_table g) n of Some s \<Rightarrow> s | None \<Rightarrow> eg_default_strategy g) = measured score \<and>
     (\<exists>fe. fib_lpm (eg_fib g) n = Some fe \<and> (nexthops fe = [h1, h2] \<or> nexthops fe = [h2, h1])) \<and> face_id h1 \<noteq> face_id h2 \<and>
     (\<forall>h \<in> {h1, h2}. nacks_allowed_on_face g (face_id h) \<and> face_config g (face_id h) \<noteq> None) \<and>
     pit_contains token (eg_pit g)"

text \<open>A Nack for the Interest \<open>i\<close> from face \<open>f\<close>, when the send queues take what they are given.\<close>

definition nack_from :: "name \<Rightarrow> u64 \<Rightarrow> interest \<Rightarrow> u64 \<Rightarrow> ('x, 's) dispatch_env \<times> packet_context \<Rightarrow> bool" where
  "nack_from n token i f r \<longleftrightarrow> (\<exists>nk. ctx_packet (snd r) = NackPacket nk \<and> nack_interest nk = i) \<and> ctx_name (snd r) = Some n \<and>
     ctx_face_id (snd r) = f \<and> from_interest (dx_hasher (fst r)) (int_name i) = token \<and>
     (\<forall>f item. \<exists>blocked. dx_queue (fst r) f item = Queued blocked)"

fun alternate :: "'a \<Rightarrow> 'a \<Rightarrow> nat \<Rightarrow> 'a list" where
  "alternate a b 0 = []"
| "alternate a b (Suc k) = a # alternate b a k"

lemma measured_pair_swap: "measured_pair score n token h1 h2 g \<Longrightarrow> measured_pair score n token h2 h1 g"
  unfolding measured_pair_def by auto

lemma measured_pair_moved:
  assumes "measured_pair score n token h1 h2 g" "moved g g' xs" "pit_contains token (eg_pit g')"
  shows "measured_pair score n token h1 h2 g'"
proof -
  have s: "sent_by (g\<lparr>eg_pit := eg_pit g'\<rparr>) g' xs" using assms(2) by (simp add: moved_def)
  have e: "eg_strategy_table g' = eg_strategy_table g" "eg_default_strategy g' = eg_default_strategy g" "eg_fib g' = eg_fib g"
    "face_config g' = face_config g" using sent_byD(2,6,13,14) [OF s] by (simp_all add: face_config_def)
  show ?thesis using assms(1,3) unfolding measured_pair_def e moved_out(2) [OF assms(2)] by blast
qed

lemma measured_nack_round:
  assumes "measured_pair score n token h1 h2 g" "nack_from n token i (face_id h1) (E, ctx)"
  shows "measured_pair score n token h1 h2 (nack_pipeline E ctx g)"
    "eg_sent (nack_pipeline E ctx g) = eg_sent g @ [(face_id h2, int_raw i, FACE_INVALID, egress_intent_default)]"
proof -
  obtain nk where nk: "ctx_packet ctx = NackPacket nk" "nack_interest nk = i" "ctx_name ctx = Some n" "ctx_face_id ctx = face_id h1"
    "from_interest (dx_hasher E) (int_name i) = token" "\<forall>f item. \<exists>blocked. dx_queue E f item = Queued blocked"
    using assms(2) by (auto simp: nack_from_def)
  obtain fe e where g: "(case strategy_lpm (eg_strategy_table g) n of Some s \<Rightarrow> s | None \<Rightarrow> eg_default_strategy g) = measured score" "fib_lpm (eg_fib g) n = Some fe"
    "nexthops fe = [h1, h2] \<or> nexthops fe = [h2, h1]" "face_id h1 \<noteq> face_id h2" "nacks_allowed_on_face g (face_id h1)"
    "face_config g (face_id h2) \<noteq> None" "map_of (pit_entries (eg_pit g)) token = Some e"
    using assms(1) by (auto simp: measured_pair_def pit_contains_def)
  have "nack_answer E g ctx nk n token = Forward [face_id h2]"
    using g(3,4) by (auto simp: nack_answer_def g(1,2) nk(4) measured_def measured_on_nack_def ranked_def nack_context_def Let_def
        nexthops_excluding_def)
  then have run: "nack_pipeline E ctx g = foldl (retry_interest E ctx i token) g [face_id h2]"
    using nack_pipeline_cases [OF nk(1,3) _ _ g(7), of E] nk(2,4,5) g(5) by simp
  have "accepted E g (face_id h2) item = [(face_id h2, item)]" for item
    using g(6) nk(6) [rule_format, of "face_id h2" item] by (auto simp: accepted_def)
  then have m: "moved g (nack_pipeline E ctx g) [(face_id h2, int_raw i, FACE_INVALID, egress_intent_default)]"
    using moved_foldl_retry [of g E ctx i token "[face_id h2]"] unfolding run by simp
  have "pit_contains token (eg_pit (nack_pipeline E ctx g))" unfolding run retry_keeps_entry using g(7) by (simp add: pit_contains_def)
  then show "measured_pair score n token h1 h2 (nack_pipeline E ctx g)" by (rule measured_pair_moved [OF assms(1) m])
  show "eg_sent (nack_pipeline E ctx g) = eg_sent g @ [(face_id h2, int_raw i, FACE_INVALID, egress_intent_default)]"
    using m sent_byD(1) by (fastforce simp: moved_def)
qed

text \<open>C35. A Nack does not end an Interest under the measured strategy. As long as the entry is pending, two upstreams
  that answer with Nacks in turn keep it going back and forth: after any number of rounds the Interest has been
  sent out once for every Nack, to the other upstream each time, no Nack has gone to a consumer, and the Interest
  is still pending.\<close>

theorem measured_nack_ping_pong:
  assumes "measured_pair score n token h1 h2 g"
    "list_all2 (nack_from n token i) (alternate (face_id h1) (face_id h2) k) rs"
  shows "measured_pair score n token h1 h2 (foldl (\<lambda>g r. nack_pipeline (fst r) (snd r) g) g rs) \<and>
    eg_sent (foldl (\<lambda>g r. nack_pipeline (fst r) (snd r) g) g rs) =
      eg_sent g @ map (\<lambda>f. (f, int_raw i, FACE_INVALID, egress_intent_default)) (alternate (face_id h2) (face_id h1) k)"
  using assms
proof (induction k arbitrary: h1 h2 g rs)
  case (Suc k)
  then obtain r rs' where rs: "rs = r # rs'" "nack_from n token i (face_id h1) r"
    "list_all2 (nack_from n token i) (alternate (face_id h2) (face_id h1) k) rs'"
    by (auto simp: list_all2_Cons1)
  note round = measured_nack_round [OF Suc.prems(1), of i "fst r" "snd r"]
  then show ?case using Suc.IH [OF measured_pair_swap rs(3), of "nack_pipeline (fst r) (snd r) g"] rs(1,2) measured_pair_swap by auto
qed simp

definition sample_pair_engine :: "(unit, unit) engine" where
  "sample_pair_engine = sample_nack_engine\<lparr>eg_default_strategy := measured static_score\<rparr>"

theorem measured_nack_ping_pong_witness:
  "\<exists>g'. foldl (\<lambda>g f. nack_pipeline sample_dispatch (sample_nack_ctx\<lparr>ctx_face_id := f\<rparr>) g) sample_pair_engine [1, 2, 1] = g' \<and>
     map fst (eg_sent g') = [2, 1, 2] \<and> pit_contains (from_interest (de_hasher sample_env) sample_local_name) (eg_pit g')"
proof -
  let ?token = "from_interest (de_hasher sample_env) sample_local_name"
  let ?h1 = "\<lparr>face_id = 1, cost = 0\<rparr>" and ?h2 = "\<lparr>face_id = 2, cost = 0\<rparr>"
  let ?rs = "map (\<lambda>f. (sample_dispatch, sample_nack_ctx\<lparr>ctx_face_id := f\<rparr>)) [1, 2, 1]"
  have "fib_lpm (eg_fib sample_pair_engine) sample_local_name = Some \<lparr>nexthops = [?h1, ?h2]\<rparr>"
    by (simp add: sample_pair_engine_def sample_nack_engine_def sample_local_name_def) code_simp
  then have pair: "measured_pair static_score sample_local_name ?token ?h1 ?h2 sample_pair_engine"
    by (simp add: measured_pair_def)
      (simp add: sample_pair_engine_def sample_nack_engine_def sample_engine_def sample_local_name_def strategy_lpm_def trie_lpm_def trie_new_def
        nacks_allowed_on_face_def face_config_def states_config_def pit_contains_def)
  have nacks: "list_all2 (nack_from sample_local_name ?token (nack_interest sample_nack)) (alternate (face_id ?h1) (face_id ?h2) 3) ?rs"
    by (simp add: nack_from_def eval_nat_numeral)
      (simp add: sample_nack_ctx_def sample_nack_def packet_context_new_def sample_dispatch_def)
  have "eg_sent sample_pair_engine = []" by (simp add: sample_pair_engine_def sample_nack_engine_def)
  then show ?thesis using measured_nack_ping_pong [OF pair nacks] by (simp add: measured_pair_def eval_nat_numeral)
qed

end
