(* ===== verification/Load_Spreading.thy ===== *)
theory Load_Spreading
  imports Ndn_Strategy
begin

text \<open>
  How the congestion-aware strategy spreads its Interests (\<open>congestion_aware.rs\<close>): the mixing of the cursor
  is a permutation of the 64-bit words, so over one period of the cursor every next hop is chosen in
  proportion to its weight, up to one part in the number of full rounds.
\<close>

section \<open>The mixer is a permutation\<close>

lemma drop_bit_fixed:
  assumes "0 < k" "d = drop_bit k (d :: 'a :: len word)"
  shows "d = 0"
proof -
  have step: "bit d i \<Longrightarrow> bit d (i + k)" for i
    using assms(2) by (metis add.commute bit_drop_bit_eq comp_apply)
  have "bit d i \<Longrightarrow> bit d (i + m * k)" for i m
    by (induction m) (auto simp: algebra_simps dest: step)
  then have "bit d i \<Longrightarrow> bit d (i + LENGTH('a) * k)" for i by blast
  moreover have "LENGTH('a) \<le> i + LENGTH('a) * k" for i using assms(1) by (cases k) simp_all
  ultimately have "\<not> bit d i" for i by (meson bit_imp_le_length leD)
  then show ?thesis by (intro bit_eqI) simp
qed

lemma inj_xorshift: "0 < k \<Longrightarrow> inj (\<lambda>z :: 'a :: len word. z XOR drop_bit k z)"
proof (rule injI)
  fix z w :: "'a word"
  assume k: "0 < k" and eq: "z XOR drop_bit k z = w XOR drop_bit k w"
  have "z XOR w = drop_bit k z XOR drop_bit k w" using eq by (metis xor.assoc xor.commute xor_self_eq xor.right_neutral)
  then have "z XOR w = drop_bit k (z XOR w)" by (metis drop_bit_xor)
  from drop_bit_fixed [OF k this] show "z = w" by (metis xor.assoc xor.left_neutral xor.right_neutral xor_self_eq)
qed

lemma inj_times: "c * c' = (1 :: 'a :: comm_ring_1) \<Longrightarrow> inj (\<lambda>z. z * c)"
  by (rule injI) (metis mult.assoc mult.right_neutral)

lemma inj_scatter: "inj scatter"
proof -
  have 1: "inj (\<lambda>z :: u64. z * 0xbf58476d1ce4e5b9)" by (rule inj_times [where c' = "0x96de1b173f119089"]) simp
  have 2: "inj (\<lambda>z :: u64. z * 0x94d049bb133111eb)" by (rule inj_times [where c' = "0x319642b2d24d8ec3"]) simp
  have "scatter = (\<lambda>z. z XOR drop_bit 31 z) \<circ> (\<lambda>z. z * 0x94d049bb133111eb) \<circ> (\<lambda>z. z XOR drop_bit 27 z) \<circ>
      (\<lambda>z. z * 0xbf58476d1ce4e5b9) \<circ> (\<lambda>z. z XOR drop_bit 30 z)"
    by (simp add: fun_eq_iff scatter_def Let_def)
  moreover have "inj \<dots>" by (intro inj_compose inj_xorshift 1 2) simp_all
  ultimately show ?thesis by simp
qed

section \<open>Residues\<close>

lemma card_residue:
  assumes "p < (t :: nat)"
  shows "n div t \<le> card {x. x < n \<and> x mod t = p}" "card {x. x < n \<and> x mod t = p} \<le> n div t + 1"
proof -
  have set: "{x. x < n \<and> x mod t = p} = (\<lambda>q. q * t + p) ` {q. q * t + p < n}"
    using assms by (auto simp: image_iff) (metis div_mult_mod_eq)
  have inj: "inj_on (\<lambda>q. q * t + p) S" for S using assms by (intro inj_onI) simp
  have lower: "{..<n div t} \<subseteq> {q. q * t + p < n}"
  proof
    fix q assume "q \<in> {..<n div t}"
    then have "(q + 1) * t \<le> n div t * t" by (intro mult_right_mono) simp_all
    also have "\<dots> \<le> n" by simp
    finally show "q \<in> {q. q * t + p < n}" using assms by simp
  qed
  have upper: "{q. q * t + p < n} \<subseteq> {..<n div t + 1}"
  proof
    fix q assume "q \<in> {q. q * t + p < n}"
    then have "q * t \<le> n" by simp
    then have "q \<le> n div t" using assms by (metis div_le_mono nonzero_mult_div_cancel_right not_less0)
    then show "q \<in> {..<n div t + 1}" by simp
  qed
  have "finite {q. q * t + p < n}" by (rule finite_subset [OF upper]) simp
  from card_mono [OF this lower] card_mono [OF _ upper]
  show "n div t \<le> card {x. x < n \<and> x mod t = p}" "card {x. x < n \<and> x mod t = p} \<le> n div t + 1"
    by (simp_all add: set card_image [OF inj])
qed

lemma card_words: "card {c :: u64. P (unat c)} = card {x. x < 2 ^ 64 \<and> P x}"
proof -
  have "unat ` {c :: u64. P (unat c)} = {x. x < 2 ^ 64 \<and> P x}"
  proof (intro equalityI subsetI)
    fix x assume "x \<in> {x. x < 2 ^ 64 \<and> P x}"
    then have "unat (word_of_nat x :: u64) = x" "P x" by (simp_all add: unat_of_nat take_bit_nat_eq_self)
    then show "x \<in> unat ` {c :: u64. P (unat c)}" by (metis (mono_tags, lifting) image_eqI mem_Collect_eq)
  next
    fix x assume "x \<in> unat ` {c :: u64. P (unat c)}"
    then show "x \<in> {x. x < 2 ^ 64 \<and> P x}" using unsigned_less [where 'b = 64] by fastforce
  qed
  moreover have "inj_on (unat :: u64 \<Rightarrow> nat) S" for S by (intro inj_onI) (simp add: word_unat_eq_iff)
  ultimately show ?thesis by (metis card_image)
qed

lemma card_scattered:
  assumes "p < t"
  shows "2 ^ 64 div t \<le> card {c. unat (scatter c) mod t = p}" "card {c. unat (scatter c) mod t = p} \<le> 2 ^ 64 div t + 1"
proof -
  have "{c. unat (scatter c) mod t = p} = scatter -` {z. unat z mod t = p}" by auto
  then have "card {c. unat (scatter c) mod t = p} = card {z :: u64. unat z mod t = p}"
    using card_vimage_inj [OF inj_scatter, of "{z. unat z mod t = p}"] finite_UNIV_inj_surj [OF _ inj_scatter] by (simp add: vimage_def)
  then have "card {c. unat (scatter c) mod t = p} = card {x. x < 2 ^ 64 \<and> x mod t = p}"
    using card_words [of "\<lambda>x. x mod t = p"] by simp
  then show "2 ^ 64 div t \<le> card {c. unat (scatter c) mod t = p}" "card {c. unat (scatter c) mod t = p} \<le> 2 ^ 64 div t + 1"
    using card_residue [OF assms, of "2 ^ 64"] by simp_all
qed

section \<open>One period of choices\<close>

text \<open>A position below the total weight selects a candidate, and each candidate is selected by as many
  positions as its weight.\<close>

lemma pick_at_total: "acc \<le> pos \<Longrightarrow> pos < acc + sum_list (map snd cands) \<Longrightarrow> pick_at pos acc cands \<noteq> None"
  by (induction cands arbitrary: acc) (auto simp: add.assoc)

lemma pick_at_share:
  assumes "distinct (map fst cands)" "(f, w) \<in> set cands"
  shows "card {pos. acc \<le> pos \<and> pos < acc + sum_list (map snd cands) \<and> pick_at pos acc cands = Some f} = w"
  using assms
proof (induction cands arbitrary: acc)
  case (Cons c cands)
  obtain g v where c: "c = (g, v)" by fastforce
  show ?case
  proof (cases "f = g")
    case True
    have "v = w" using Cons.prems True by (force simp: c image_iff)
    have "\<not> (\<exists>u. (f, u) \<in> set cands)" using Cons.prems(1) True by (force simp: c image_iff)
    then have "pick_at pos (acc + v) cands \<noteq> Some f" for pos using pick_at_mem by blast
    then have "{pos. acc \<le> pos \<and> pos < acc + sum_list (map snd (c # cands)) \<and> pick_at pos acc (c # cands) = Some f} = {acc..<acc + v}"
      using True by (auto simp: c split: if_splits)
    then show ?thesis using \<open>v = w\<close> by simp
  next
    case False
    have "{pos. acc \<le> pos \<and> pos < acc + sum_list (map snd (c # cands)) \<and> pick_at pos acc (c # cands) = Some f}
      = {pos. acc + v \<le> pos \<and> pos < acc + v + sum_list (map snd cands) \<and> pick_at pos (acc + v) cands = Some f}"
      using False by (auto simp: c split: if_splits)
    then show ?thesis using Cons.IH [of "acc + v"] Cons.prems False by (simp add: c)
  qed
qed simp

text \<open>The share of a next hop, for a fixed context: 1000 for the best score among the next hops that were not
  tried yet, divided by one more than the distance to the best, and at least 1.\<close>

definition share_of ::
  "('x strategy_context \<Rightarrow> u64 \<Rightarrow> u32 \<Rightarrow> int) \<Rightarrow> 'x strategy_context \<Rightarrow> fib_entry \<Rightarrow> fib_nexthop \<Rightarrow> nat" where
  "share_of score ctx fe h = (let best_score = Min ((\<lambda>h. score ctx (face_id h) (cost h)) ` untried ctx fe)
     in max (1000 div (1 + nat (score ctx (face_id h) (cost h) - best_score))) 1)"

text \<open>The choices of a sequence of decisions, the cursor passed on.\<close>

fun pick_run :: "('x strategy_context \<Rightarrow> u64 \<Rightarrow> u32 \<Rightarrow> int) \<Rightarrow> 'x strategy_context \<Rightarrow> nat \<Rightarrow> u64 \<Rightarrow> u64 option list" where
  "pick_run score ctx 0 cursor = []"
| "pick_run score ctx (Suc k) cursor = (case pick score ctx cursor of (r, cursor') \<Rightarrow> r # pick_run score ctx k cursor')"

lemma weighted_shares:
  assumes "sc_fib_entry ctx = Some fe"
  shows "weighted score ctx = map (\<lambda>h. (face_id h, share_of score ctx fe h)) (nexthops_excluding_any fe (sc_in_face ctx) (sc_tried_faces ctx))"
proof -
  have u: "set (nexthops_excluding_any fe (sc_in_face ctx) (sc_tried_faces ctx)) = untried ctx fe"
    by (auto simp: nexthops_excluding_any_def untried_def usable_def)
  show ?thesis
    by (simp add: weighted_def assms Let_def share_of_def u [symmetric] image_image)
qed

lemma untried_set: "set (nexthops_excluding_any fe (sc_in_face ctx) (sc_tried_faces ctx)) = untried ctx fe"
  by (auto simp: nexthops_excluding_any_def untried_def usable_def)

lemma weighted_total:
  assumes "sc_fib_entry ctx = Some fe" "distinct (map face_id (nexthops fe))"
  shows "sum_list (map snd (weighted score ctx)) = (\<Sum>h \<in> untried ctx fe. share_of score ctx fe h)"
    "distinct (map fst (weighted score ctx))"
proof -
  have d: "distinct (map face_id (nexthops_excluding_any fe (sc_in_face ctx) (sc_tried_faces ctx)))"
    using assms(2) by (simp add: nexthops_excluding_any_def distinct_map_filter)
  then show "distinct (map fst (weighted score ctx))" by (simp add: weighted_shares [OF assms(1)] comp_def)
  have "distinct (nexthops_excluding_any fe (sc_in_face ctx) (sc_tried_faces ctx))" using d by (simp add: distinct_map)
  then show "sum_list (map snd (weighted score ctx)) = (\<Sum>h \<in> untried ctx fe. share_of score ctx fe h)"
    by (simp add: weighted_shares [OF assms(1)] comp_def sum_list_distinct_conv_sum_set untried_set)
qed

text \<open>With several candidates the cursor counts up, and a candidate is chosen by its share of the positions.\<close>

lemma pick_many:
  assumes "weighted score ctx = x # y # cs" "0 < sum_list (map snd (weighted score ctx))"
  shows "pick score ctx cursor =
    (pick_at (unat (scatter cursor) mod sum_list (map snd (weighted score ctx))) 0 (weighted score ctx), cursor + 1)"
proof -
  obtain v where "pick_at (unat (scatter cursor) mod sum_list (map snd (weighted score ctx))) 0 (weighted score ctx) = Some v"
    using pick_at_total [of 0 "unat (scatter cursor) mod sum_list (map snd (weighted score ctx))" "weighted score ctx"] assms(2) by auto
  then show ?thesis using assms(1) by (cases x) (simp add: pick_def Let_def del: pick_at.simps)
qed

lemma card_pick:
  assumes "weighted score ctx = x # y # cs" "distinct (map fst (weighted score ctx))" "(f, w) \<in> set (weighted score ctx)" "0 < w"
  defines "t \<equiv> sum_list (map snd (weighted score ctx))"
  shows "w * (2 ^ 64 div t) \<le> card {c. fst (pick score ctx c) = Some f}" "card {c. fst (pick score ctx c) = Some f} \<le> w * (2 ^ 64 div t + 1)"
proof -
  have t: "0 < t" using member_le_sum_list [of w "map snd (weighted score ctx)"] assms(3,4) by (force simp: t_def)
  define P where "P = {p. p < t \<and> pick_at p 0 (weighted score ctx) = Some f}"
  have P: "card P = w" "finite P" "\<And>p. p \<in> P \<Longrightarrow> p < t"
    using pick_at_share [OF assms(2,3), of 0] by (simp_all add: P_def t_def)
  have "{c. fst (pick score ctx c) = Some f} = (\<Union>p \<in> P. {c. unat (scatter c) mod t = p})"
    using t by (auto simp: pick_many [OF assms(1)] t_def P_def)
  moreover have "card (\<Union>p \<in> P. {c. unat (scatter c) mod t = p}) = (\<Sum>p \<in> P. card {c. unat (scatter c) mod t = p})"
    using P(2) by (intro card_UN_disjoint) auto
  moreover have "card P * (2 ^ 64 div t) \<le> (\<Sum>p \<in> P. card {c. unat (scatter c) mod t = p})"
    using sum_bounded_below [of P "2 ^ 64 div t"] card_scattered(1) P(3) by simp
  moreover have "(\<Sum>p \<in> P. card {c. unat (scatter c) mod t = p}) \<le> card P * (2 ^ 64 div t + 1)"
    using sum_bounded_above [of P _ "2 ^ 64 div t + 1"] card_scattered(2) P(3) by simp
  ultimately show "w * (2 ^ 64 div t) \<le> card {c. fst (pick score ctx c) = Some f}" "card {c. fst (pick score ctx c) = Some f} \<le> w * (2 ^ 64 div t + 1)"
    using P(1) by simp_all
qed

lemma pick_run_many:
  assumes "weighted score ctx = x # y # cs" "0 < sum_list (map snd (weighted score ctx))"
  shows "pick_run score ctx k cursor = map (\<lambda>i. fst (pick score ctx (cursor + word_of_nat i))) [0..<k]"
proof (induction k arbitrary: cursor)
  case (Suc k)
  have "map (\<lambda>i. fst (pick score ctx (cursor + word_of_nat i))) [0..<Suc k] =
      fst (pick score ctx cursor) # map (\<lambda>i. fst (pick score ctx (cursor + 1 + word_of_nat i))) [0..<k]"
    by (simp only: map_upt_Suc) (simp add: add.assoc)
  then show ?case using Suc by (simp add: pick_many [OF assms])
qed simp

lemma count_over_period: "count_list (map (\<lambda>i. g (cursor + word_of_nat i)) [0..<2 ^ 64]) x = card {c :: u64. g c = x}"
proof -
  have "count_list (map h [0..<n]) x = card {i. i < n \<and> h i = x}" for h :: "nat \<Rightarrow> 'a" and n
  proof (induction n)
    case (Suc n)
    have "{i. i < Suc n \<and> h i = x} = {i. i < n \<and> h i = x} \<union> (if h n = x then {n} else {})" by (auto simp: less_Suc_eq)
    then show ?case using Suc by simp
  qed simp
  moreover have "card {i. i < 2 ^ 64 \<and> g (cursor + word_of_nat i) = x} = card {c :: u64. g (cursor + c) = x}"
    using card_words [of "\<lambda>i. g (cursor + word_of_nat i) = x"] by simp
  moreover have "card {c :: u64. g (cursor + c) = x} = card {c :: u64. g c = x}"
    by (rule bij_betw_same_card [OF bij_betw_byWitness [where f = "(+) cursor" and f' = "\<lambda>c. c - cursor"]]) auto
  ultimately show ?thesis by simp
qed

section \<open>Property\<close>

text \<open>C34. Load spreading of the congestion-aware strategy. Take a route whose next hops have different faces, a
  context that stays as it is, and any start of the cursor. Over one period of the cursor, which are \<open>2^64\<close>
  decisions, a next hop that may be used is chosen as often as its share of the total says: its share times the
  number of full rounds, and at most its share more often. The share is 1000 for the best score and falls with
  the distance to it.\<close>

theorem congestion_aware_proportional:
  assumes "sc_fib_entry ctx = Some fe" "distinct (map face_id (nexthops fe))" "h \<in> untried ctx fe"
  shows "share_of score ctx fe h * (2 ^ 64 div (\<Sum>h \<in> untried ctx fe. share_of score ctx fe h)) \<le>
      count_list (pick_run score ctx (2 ^ 64) cursor) (Some (face_id h)) \<and>
    count_list (pick_run score ctx (2 ^ 64) cursor) (Some (face_id h)) \<le>
      share_of score ctx fe h * (2 ^ 64 div (\<Sum>h \<in> untried ctx fe. share_of score ctx fe h) + 1)"
proof -
  let ?w = "share_of score ctx fe h" and ?t = "\<Sum>h \<in> untried ctx fe. share_of score ctx fe h"
  have w: "0 < ?w" by (simp add: share_of_def Let_def)
  have mem: "(face_id h, ?w) \<in> set (weighted score ctx)"
    using assms(3) by (auto simp: weighted_shares [OF assms(1)] untried_set)
  note t = weighted_total [OF assms(1,2), of score]
  have pos: "0 < sum_list (map snd (weighted score ctx))"
    using member_le_sum_list [of ?w "map snd (weighted score ctx)"] mem w by force
  show ?thesis
  proof (cases "weighted score ctx" rule: remdups_adj.cases)
    case 1
    then show ?thesis using mem by simp
  next
    case (2 x)
    then have x: "x = (face_id h, ?w)" "?t = ?w" using mem t(1) by auto
    have "pick score ctx c = (Some (face_id h), c)" for c by (simp add: pick_def Let_def 2 x)
    then have "pick_run score ctx k c = replicate k (Some (face_id h))" for k c by (induction k) simp_all
    moreover have "count_list (replicate k y) y = k" for k and y :: "u64 option" by (induction k) simp_all
    moreover have "?w * (n div ?w) \<le> n" "n \<le> ?w * (n div ?w + 1)" for n
      using w div_times_less_eq_dividend [of n ?w] dividend_less_times_div [OF w, of n] by (simp_all add: mult.commute)
    ultimately show ?thesis by (simp only: x(2) simp_thms)
  next
    case (3 x y cs)
    have "count_list (pick_run score ctx (2 ^ 64) cursor) (Some (face_id h)) = card {c. fst (pick score ctx c) = Some (face_id h)}"
      unfolding pick_run_many [OF 3 pos] by (rule count_over_period)
    then show ?thesis using card_pick [OF 3 t(2) mem w] t(1) by simp
  qed
qed

theorem congestion_aware_proportional_witness:
  "90 * (2 ^ 64 div 1090) \<le> count_list (pick_run static_score (two_hop_context\<lparr>sc_tried_faces := []\<rparr>) (2 ^ 64) 0) (Some 1)"
proof -
  let ?ctx = "two_hop_context\<lparr>sc_tried_faces := []\<rparr>"
  let ?fe = "\<lparr>nexthops = [\<lparr>face_id = 2, cost = 10\<rparr>, \<lparr>face_id = 1, cost = 20\<rparr>]\<rparr>"
  have fe: "sc_fib_entry ?ctx = Some ?fe" by (simp add: two_hop_context_def two_hop_lpm)
  have u: "untried ?ctx ?fe = {\<lparr>face_id = 2, cost = 10\<rparr>, \<lparr>face_id = 1, cost = 20\<rparr>}"
    by (auto simp: untried_def usable_def two_hop_context_def)
  have s: "share_of static_score ?ctx ?fe \<lparr>face_id = 1, cost = 20\<rparr> = 90" "share_of static_score ?ctx ?fe \<lparr>face_id = 2, cost = 10\<rparr> = 1000"
    by (simp_all add: share_of_def u static_score_def)
  show ?thesis
    using congestion_aware_proportional [OF fe, of "\<lparr>face_id = 1, cost = 20\<rparr>" static_score 0] by (simp add: u s)
qed

end
