(* ===== verification/Spec2Isabelle.thy ===== *)
theory Spec2Isabelle
  imports Dispatcher_Laws Load_Spreading
begin

text \<open>
  A verification development for ndn-rs, a Named Data Networking forwarder and library in Rust.

  \<^bold>\<open>The program.\<close> Packets are TLV: an Interest asks for a name, a Data packet carries a named, signed
  content, a link packet (NDNLPv2) wraps one of them or a fragment with hop-by-hop fields. A forwarder receives
  frames on faces, reassembles and decodes them, records an Interest in the Pending Interest Table (PIT), looks
  the Content Store and the forwarding table (FIB) up, and sends Data back along the in-records of the PIT. The
  FIB is computed from the routes of the RIB. Signed Interests pass a replay guard.

  \<^bold>\<open>The theories, bottom up.\<close>
  \<^item> \<open>Ndn_Prelude\<close>: words as the integer types of Rust, byte strings, saturating and checked
    arithmetic; \<open>Table_Laws\<close>: association lists as hash maps, and the locale \<open>expiring_table\<close>.
  \<^item> \<open>Tlv_Codec\<close> (ndn-tlv), \<open>Nni_Codec\<close> (the NonNegativeInteger codecs of the repository and
    their common contract, the locale \<open>nni_codec\<close>), \<open>Ndn_Name\<close> (ndn-foundation-types \<open>name.rs\<close>,
    \<open>codec.rs\<close>): reading accepts exactly what writing produces; names round-trip as TLV and as URI; the
    canonical order is linear.
  \<^item> \<open>Ndn_Lp\<close> (ndn-packet \<open>lp/\<close>, \<open>nack.rs\<close>), \<open>Ndn_Fragment\<close> (\<open>fragment.rs\<close> and the fragment path of the
    decode stage): link packets round-trip, the allocation-free scanners agree with the decoder, fragments in any
    order give the packet back, and reassembly memory is bounded.
  \<^item> \<open>Ndn_Meta\<close>, \<open>Ndn_Interest\<close>, \<open>Interest_Laws\<close>, \<open>Ndn_Data\<close>, \<open>Data_Laws\<close> (ndn-packet \<open>meta_info.rs\<close>,
    \<open>signature.rs\<close>, \<open>subscription.rs\<close>, \<open>interest.rs\<close>, \<open>wire.rs\<close>, \<open>data.rs\<close>, \<open>encode/\<close>): decoders, lazily
    decoded fields, builders and signing; builders and decoders are inverse, the verifier is given the bytes the
    signer signed, and the exact inputs on which the code departs from that are described.
  \<^item> \<open>Name_Trie\<close> (ndn-store \<open>trie.rs\<close>, \<open>fib.rs\<close>, \<open>strategy_table.rs\<close>), \<open>Engine_Fib\<close>, \<open>Engine_Rib\<close>
    (ndn-engine \<open>fib.rs\<close>, \<open>rib.rs\<close>, \<open>readvertise.rs\<close> and the route effects of management and expiry): the
    locale \<open>lpm_table\<close> is the contract of a longest-prefix-match table and is interpreted on the trie, the
    store FIB, the strategy table and the engine FIB; the FIB always agrees with the RIB.
  \<^item> \<open>Fwd_Core\<close> (ndn-fwd-core): the forwarding rules without I/O; the linear table of a constrained node and the
    trie select the same route.
  \<^item> \<open>Store_Pit\<close> (\<open>pit.rs\<close>, \<open>dead_nonce_list.rs\<close>), \<open>Store_Cs\<close> (\<open>content_store.rs\<close>, \<open>lru_cs.rs\<close>),
    \<open>Cs_Variants\<close> (\<open>sharded_cs.rs\<close>, \<open>observable_cs.rs\<close> and the locale \<open>content_store\<close>, the contract of a store),
    \<open>Replay_Guard\<close> (ndn-security \<open>replay_guard.rs\<close>), \<open>Engine_Reflexive\<close> (ndn-engine \<open>reflexive.rs\<close>): the state of
    the forwarder, each with an invariant that its operations preserve, and what lookup, removal of a face,
    eviction, replay and expiry do.
  \<^item> \<open>Engine_Pipeline\<close> (ndn-engine \<open>pipeline/\<close>, \<open>stages/decode.rs\<close>) and \<open>Pit_Stages\<close> (\<open>stages/pit.rs\<close>): the
    stages that bytes and packets go through. What the decode stage hands on is decoded from the frame; an
    Interest that passes the PIT is pending; Data goes back along exactly the Interests it answers.
  \<^item> \<open>Ndn_Strategy\<close> (ndn-strategy), \<open>Load_Spreading\<close> (the congestion-aware choice over a whole period of its
    cursor), \<open>Strategy_Stage\<close> (\<open>stages/strategy.rs\<close>): the strategies, their common contract as the locale
    \<open>split_horizon\<close>, and where an Interest may be sent.
  \<^item> \<open>Data_Stages\<close> (\<open>stages/validation.rs\<close>, \<open>stages/cs.rs\<close>, \<open>unsolicited.rs\<close>), \<open>Dispatcher\<close> (\<open>dispatcher/\<close> and the
    framing of \<open>engine.rs\<close>), \<open>Dispatcher_Laws\<close>: the Interest, Data and Nack pipelines over one record with the
    tables of the engine, and what a packet makes the engine send. Trusted Data reaches the consumers, rejected
    Data still consumes the Interests, a Nack fails over or is passed on, and the two runtimes agree.

  \<^bold>\<open>Conventions.\<close> \<open>u8\<close> to \<open>u64\<close> are words and wrap; \<open>usize\<close> is a natural number except where a counter is
  allowed to wrap; strings are byte lists; a struct is a record, an enum a datatype, \<open>Result\<close> a sum with the error
  on the left. A hash map is an association list in some order that no theorem depends on. Operations take and
  return the state; each operation of a shared table is one atomic step. The clock, random numbers, the nonce
  counter, SHA-256 and BLAKE3, the hasher of the standard library, the signer, the verdict of a validator, and the
  LRU map of the crate \<open>lru\<close>, the send queues, the rate limiter and the score of a next hop are arguments; where a
  theorem needs a property of them it is a named hypothesis. Two are used throughout: \<open>lru_lawful\<close>, the documented
  behaviour of the LRU map, and \<open>collision_free\<close>, that the names at hand have different 64-bit PIT keys, on which
  the design of the PIT rests (\<open>docs/nfd-divergence-findings.md\<close>, Round 2). Both hold of concrete instances.

  \<^bold>\<open>Loops.\<close> Loops over a buffer are recursive functions with a termination proof. The walk of
  \<open>decrement_hop_limit\<close>, the mutual recursion of the decode stage, the eviction loops of the Content Store and the
  one of the queue of packets that wait for a certificate are partial functions; \<open>None\<close> is a run that does not return, and it is shown when they return. No fuel is used.

  \<^bold>\<open>Not modelled.\<close> Sockets, tasks, timers, cancellation and tracing; the asynchronous variants of operations whose
  synchronous form is modelled; the network faces and their drivers; the storage back ends (fjall, SQLite); the
  key chain, certificates and trust schema evaluation; management datasets and configuration files; the
  measurements of the strategies; the optional handlers of the dispatcher (path control, traceroute, name activity,
  congestion feedback, egress scheduler and classifier); the application library and the command line tools. Overflow panics of debug builds are wrap-around, as in release
  builds.
\<close>

end
